(* ===== verification/Prelude.thy ===== *)
theory Prelude
  imports Main "HOL-Library.Word" "HOL-Library.Signed_Division"
begin

text \<open>
  What every component shares: the C integer types of the i386 port (\<open>int\<close> and \<open>long\<close> are
  32 bits wide, two's complement, and the compiler wraps), the error numbers of
  \<^verbatim>\<open>include/linux/errno.h\<close>, generic facts on words and lists, and the collections of rewrite
  rules the component proofs are run with.
\<close>

unbundle bit_operations_syntax

named_theorems kernel_consts \<open>manifest constants of the headers, to be unfolded when a proof computes\<close>
named_theorems kernel_defs \<open>definitions of the small accessors and macros\<close>

section \<open>Machine integers\<close>

type_synonym u8 = "8 word"
type_synonym u16 = "16 word"
type_synonym u32 = "32 word"

text \<open>A signed C value is an \<open>int\<close>; where an operation can leave the range it is wrapped
  explicitly, to 32 bits (\<open>int\<close>, \<open>long\<close>) or to 16 bits (\<open>short\<close>).\<close>

definition s32 :: "int \<Rightarrow> int" where
  "s32 x = signed_take_bit 31 x"

definition s16 :: "int \<Rightarrow> int" where
  "s16 x = signed_take_bit 15 x"

text \<open>An unsigned 16-bit value kept as an \<open>int\<close>.\<close>

definition us16 :: "int \<Rightarrow> int" where
  "us16 x = x mod 65536"

definition in_s32 :: "int \<Rightarrow> bool" where
  "in_s32 x \<longleftrightarrow> - 2147483648 \<le> x \<and> x \<le> 2147483647"

lemma s32_id: "- 2147483648 \<le> x \<Longrightarrow> x \<le> 2147483647 \<Longrightarrow> s32 x = x"
  by (simp add: s32_def signed_take_bit_int_eq_self)

lemma s32_in_s32: "in_s32 x \<Longrightarrow> s32 x = x"
  by (simp add: in_s32_def s32_id)

lemma in_s32_sint: "in_s32 (sint (w :: u32))"
  using sint_ge [of w] sint_lt [of w] by (simp add: in_s32_def)

lemma in_s32_s32 [simp]: "in_s32 (s32 x)"
  using signed_take_bit_int_greater_eq_minus_exp [of 31 x] signed_take_bit_int_less_exp [of 31 x]
  by (simp add: in_s32_def s32_def)

lemma s16_id: "- 32768 \<le> x \<Longrightarrow> x \<le> 32767 \<Longrightarrow> s16 x = x"
  by (simp add: s16_def signed_take_bit_int_eq_self)

lemma us16_id: "0 \<le> x \<Longrightarrow> x < 65536 \<Longrightarrow> us16 x = x"
  by (simp add: us16_def)

lemma us16_range [simp]: "0 \<le> us16 x" "us16 x < 65536"
  by (simp_all add: us16_def)

text \<open>C division truncates; on the non-negative operands the code divides it is \<open>div\<close>.\<close>

lemma sdiv_nonneg: "0 \<le> (a::int) \<Longrightarrow> 0 < b \<Longrightarrow> a sdiv b = a div b"
  by (cases "a = 0") (simp_all add: signed_divide_int_def)

lemma smod_nonneg: "0 \<le> (a::int) \<Longrightarrow> 0 < b \<Longrightarrow> a smod b = a mod b"
  by (cases "a = 0") (simp_all add: signed_modulo_int_def sdiv_nonneg minus_div_mult_eq_mod)

section \<open>Error numbers\<close>

abbreviation (input) EPERM :: int where "EPERM \<equiv> 1"
abbreviation (input) ENOENT :: int where "ENOENT \<equiv> 2"
abbreviation (input) ESRCH :: int where "ESRCH \<equiv> 3"
abbreviation (input) EINTR :: int where "EINTR \<equiv> 4"
abbreviation (input) E2BIG :: int where "E2BIG \<equiv> 7"
abbreviation (input) EBADF :: int where "EBADF \<equiv> 9"
abbreviation (input) ECHILD :: int where "ECHILD \<equiv> 10"
abbreviation (input) EAGAIN :: int where "EAGAIN \<equiv> 11"
abbreviation (input) ENOMEM :: int where "ENOMEM \<equiv> 12"
abbreviation (input) EACCES :: int where "EACCES \<equiv> 13"
abbreviation (input) EFAULT :: int where "EFAULT \<equiv> 14"
abbreviation (input) EBUSY :: int where "EBUSY \<equiv> 16"
abbreviation (input) EEXIST :: int where "EEXIST \<equiv> 17"
abbreviation (input) ENOTDIR :: int where "ENOTDIR \<equiv> 20"
abbreviation (input) EINVAL :: int where "EINVAL \<equiv> 22"
abbreviation (input) EFBIG :: int where "EFBIG \<equiv> 27"
abbreviation (input) ENOSPC :: int where "ENOSPC \<equiv> 28"
abbreviation (input) ESPIPE :: int where "ESPIPE \<equiv> 29"
abbreviation (input) EPIPE :: int where "EPIPE \<equiv> 32"
abbreviation (input) ERANGE :: int where "ERANGE \<equiv> 34"
abbreviation (input) ENOLCK :: int where "ENOLCK \<equiv> 37"
abbreviation (input) ENOSYS :: int where "ENOSYS \<equiv> 38"
abbreviation (input) ENOMSG :: int where "ENOMSG \<equiv> 42"
abbreviation (input) EIDRM :: int where "EIDRM \<equiv> 43"
abbreviation (input) ERESTARTSYS :: int where "ERESTARTSYS \<equiv> 512"
abbreviation (input) ERESTARTNOINTR :: int where "ERESTARTNOINTR \<equiv> 513"
abbreviation (input) ERESTARTNOHAND :: int where "ERESTARTNOHAND \<equiv> 514"

end
