(* ===== verification/Mktime.thy ===== *)
theory Mktime
  imports Prelude
begin

text \<open>
  The boot-time clock conversion, \<^verbatim>\<open>kernel/mktime.c\<close>: broken-down CMOS time to seconds since
  1970. The model keeps the 32-bit arithmetic and the out-of-range read of \<open>month[]\<close>
  (\<open>None\<close>); the correctness theorem compares it with a calendar that counts days one year
  and one month at a time.
\<close>

section \<open>Model\<close>

abbreviation (input) MINUTE :: int where "MINUTE \<equiv> 60"
abbreviation (input) HOUR :: int where "HOUR \<equiv> 3600"
abbreviation (input) DAY :: int where "DAY \<equiv> 86400"
abbreviation (input) YEAR :: int where "YEAR \<equiv> 31536000"

record mktime =
  tm_sec :: int
  tm_min :: int
  tm_hour :: int
  tm_day :: int
  tm_mon :: int
  tm_year :: int

definition month :: "int list" where
  "month = [0, DAY*31, DAY*(31+29), DAY*(31+29+31), DAY*(31+29+31+30),
     DAY*(31+29+31+30+31), DAY*(31+29+31+30+31+30), DAY*(31+29+31+30+31+30+31),
     DAY*(31+29+31+30+31+30+31+31), DAY*(31+29+31+30+31+30+31+31+30),
     DAY*(31+29+31+30+31+30+31+31+30+31), DAY*(31+29+31+30+31+30+31+31+30+31+30)]"

definition kernel_mktime :: "mktime \<Rightarrow> int option" where
  "kernel_mktime time =
     (if tm_mon time < 0 \<or> 12 \<le> tm_mon time then None
      else
        let year = s32 (tm_year time - 70);
            res = s32 (YEAR * year + DAY * ((year + 1) sdiv 4));
            res = s32 (res + month ! nat (tm_mon time));
            res = (if tm_mon time > 1 \<and> (year + 2) smod 4 \<noteq> 0 then s32 (res - DAY) else res);
            res = s32 (res + DAY * (tm_day time - 1));
            res = s32 (res + HOUR * tm_hour time);
            res = s32 (res + MINUTE * tm_min time)
        in Some (s32 (res + tm_sec time)))"

section \<open>Reference calendar\<close>

definition leap :: "int \<Rightarrow> bool" where
  "leap y \<longleftrightarrow> 4 dvd y \<and> (\<not> 100 dvd y \<or> 400 dvd y)"

definition month_days :: "int \<Rightarrow> nat \<Rightarrow> int" where
  "month_days y m =
     [31, if leap y then 29 else 28, 31, 30, 31, 30, 31, 31, 30, 31, 30, 31] ! m"

definition year_days :: "int \<Rightarrow> int" where
  "year_days y = sum_list (map (month_days y) [0..<12])"

text \<open>Days from 1 January 1970 to the first of month \<open>m\<close> of year \<open>1900 + y\<close>.\<close>

definition days_before :: "nat \<Rightarrow> nat \<Rightarrow> int" where
  "days_before y m =
     sum_list (map (\<lambda>i. year_days (1900 + int i)) [70..<y]) +
     sum_list (map (month_days (1900 + int y)) [0..<m])"

definition valid_time :: "mktime \<Rightarrow> bool" where
  "valid_time t \<longleftrightarrow> 70 \<le> tm_year t \<and> tm_year t \<le> 137 \<and> 0 \<le> tm_mon t \<and> tm_mon t \<le> 11 \<and>
     1 \<le> tm_day t \<and> tm_day t \<le> month_days (1900 + tm_year t) (nat (tm_mon t)) \<and>
     0 \<le> tm_hour t \<and> tm_hour t \<le> 23 \<and> 0 \<le> tm_min t \<and> tm_min t \<le> 59 \<and>
     0 \<le> tm_sec t \<and> tm_sec t \<le> 59"

text \<open>The closed form the code evaluates, before the hours are added.\<close>

definition code_days :: "int \<Rightarrow> nat \<Rightarrow> int" where
  "code_days year m =
     365 * year + (year + 1) div 4 + (month ! m) div DAY -
     (if m > 1 \<and> (year + 2) mod 4 \<noteq> 0 then 1 else 0)"

section \<open>Correctness\<close>

lemma leap_range: "70 \<le> i \<Longrightarrow> i < 138 \<Longrightarrow> leap (1900 + int i) \<longleftrightarrow> 4 dvd i"
proof -
  have "list_all (\<lambda>i. leap (1900 + int i) \<longleftrightarrow> 4 dvd i) [70..<138]" by code_simp
  then show "70 \<le> i \<Longrightarrow> i < 138 \<Longrightarrow> leap (1900 + int i) \<longleftrightarrow> 4 dvd i"
    by (simp only: list_all_iff set_upt atLeastLessThan_iff)
qed

lemma year_days_eq: "year_days y = (if leap y then 366 else 365)"
  by (simp add: year_days_def month_days_def upt_rec)

lemma years_before: "70 \<le> y \<Longrightarrow> y \<le> 138 \<Longrightarrow>
  sum_list (map (\<lambda>i. year_days (1900 + int i)) [70..<y]) = 365 * (int y - 70) + (int y - 69) div 4"
proof (induction y rule: nat_induct_at_least)
  case base
  then show ?case by simp
next
  case (Suc n)
  then have "(int (Suc n) - 69) div 4 = (int n - 69) div 4 + (if 4 dvd n then 1 else 0)"
    by simp presburger
  with Suc show ?case by (simp add: year_days_eq leap_range)
qed

lemma months_before:
  assumes "m < 12"
  shows "sum_list (map (month_days y) [0..<m]) = (month ! m) div DAY - (if m > 1 \<and> \<not> leap y then 1 else 0)"
proof -
  have "m = 0 \<or> m = 1 \<or> m = 2 \<or> m = 3 \<or> m = 4 \<or> m = 5 \<or> m = 6 \<or> m = 7 \<or> m = 8 \<or> m = 9 \<or> m = 10 \<or> m = 11"
    using assms by presburger
  then show ?thesis
    by (elim disjE) (simp_all add: month_def month_days_def upt_rec)
qed

lemma code_days_eq:
  assumes "70 \<le> y" "y < 138" "m < 12"
  shows "code_days (int y - 70) m = days_before y m"
proof -
  have "(int y - 70 + 2) mod 4 \<noteq> 0 \<longleftrightarrow> \<not> 4 dvd y"
    using assms(1) by presburger
  with assms show ?thesis
    by (simp add: code_days_def days_before_def years_before months_before leap_range)
qed

lemma month_range: "m < 12 \<Longrightarrow> 0 \<le> month ! m \<and> month ! m \<le> 335 * DAY \<and> DAY * ((month ! m) div DAY) = month ! m"
proof -
  have "list_all (\<lambda>m. 0 \<le> month ! m \<and> month ! m \<le> 335 * DAY \<and> DAY * ((month ! m) div DAY) = month ! m) [0..<12]"
    by code_simp
  then show "m < 12 \<Longrightarrow> 0 \<le> month ! m \<and> month ! m \<le> 335 * DAY \<and> DAY * ((month ! m) div DAY) = month ! m"
    by (simp only: list_all_iff set_upt atLeastLessThan_iff) simp
qed

lemma month_days_le: "m < 12 \<Longrightarrow> month_days y m \<le> 31"
proof -
  assume "m < 12"
  then have "m = 0 \<or> m = 1 \<or> m = 2 \<or> m = 3 \<or> m = 4 \<or> m = 5 \<or> m = 6 \<or> m = 7 \<or> m = 8 \<or> m = 9 \<or> m = 10 \<or> m = 11"
    by presburger
  then show ?thesis by (elim disjE) (simp_all add: month_days_def)
qed

text \<open>With every intermediate value in range, the wrapped arithmetic is the closed form.\<close>

lemma kernel_mktime_code_days:
  assumes "valid_time t"
  shows "kernel_mktime t = Some (DAY * (code_days (tm_year t - 70) (nat (tm_mon t)) + tm_day t - 1) +
     HOUR * tm_hour t + MINUTE * tm_min t + tm_sec t)"
proof -
  define y where "y = tm_year t - 70"
  define m where "m = nat (tm_mon t)"
  define M where "M = month ! m"
  define Q where "Q = (y + 1) div 4"
  define A where "A = (if tm_mon t > 1 \<and> (y + 2) mod 4 \<noteq> 0 then DAY else 0)"
  from assms have y: "0 \<le> y" "y \<le> 67" and m: "m < 12" "0 \<le> tm_mon t" "tm_mon t < 12"
    and hms: "0 \<le> tm_hour t" "tm_hour t \<le> 23" "0 \<le> tm_min t" "tm_min t \<le> 59" "0 \<le> tm_sec t" "tm_sec t \<le> 59"
    and d: "1 \<le> tm_day t" "tm_day t \<le> month_days (1900 + tm_year t) m"
    by (auto simp: valid_time_def y_def m_def)
  define D where "D = tm_day t - 1"
  have D: "0 \<le> D" "D \<le> 30"
    using d month_days_le [OF m(1), of "1900 + tm_year t"] by (simp_all add: D_def)
  have Q: "0 \<le> Q" "Q \<le> 17" using y by (auto simp: Q_def pos_imp_zdiv_nonneg_iff)
  have M: "DAY * (M div DAY) = M" "0 \<le> M" "M \<le> 335 * DAY"
    using month_range [OF m(1)] by (simp_all add: M_def)
  have A: "0 \<le> A" "A \<le> DAY" by (simp_all add: A_def)
  have code: "DAY * code_days y m = YEAR * y + DAY * Q + M - A"
    using M(1) m by (simp add: code_days_def A_def flip: M_def Q_def) (simp add: m_def)
  have yr: "s32 (tm_year t - 70) = y" "(y + 1) sdiv 4 = Q" "(y + 2) smod 4 = (y + 2) mod 4"
    using y by (simp_all add: Q_def sdiv_nonneg smod_nonneg s32_id flip: y_def)
  have "kernel_mktime t = Some (s32 (s32 (s32 (s32 ((if tm_mon t > 1 \<and> (y + 2) mod 4 \<noteq> 0
        then s32 (s32 (s32 (YEAR * y + DAY * Q) + M) - DAY) else s32 (s32 (YEAR * y + DAY * Q) + M))
      + DAY * D) + HOUR * tm_hour t) + MINUTE * tm_min t) + tm_sec t))"
    using m by (simp add: kernel_mktime_def Let_def yr A_def M_def m_def D_def)
  also have "\<dots> = Some (YEAR * y + DAY * Q + M - A + DAY * D + HOUR * tm_hour t +
      MINUTE * tm_min t + tm_sec t)"
  proof -
    have 1: "s32 (YEAR * y + DAY * Q) = YEAR * y + DAY * Q"
      by (rule s32_id) (use y Q in linarith)+
    have 2: "s32 (YEAR * y + DAY * Q + M) = YEAR * y + DAY * Q + M"
      by (rule s32_id) (use y Q M in linarith)+
    have 3: "s32 (YEAR * y + DAY * Q + M - DAY) = YEAR * y + DAY * Q + M - DAY"
      by (rule s32_id) (use y Q M in linarith)+
    have 4: "s32 (YEAR * y + DAY * Q + M - A + DAY * D) = YEAR * y + DAY * Q + M - A + DAY * D"
      by (rule s32_id) (use y Q M A D in linarith)+
    have 5: "s32 (YEAR * y + DAY * Q + M - A + DAY * D + HOUR * tm_hour t) =
        YEAR * y + DAY * Q + M - A + DAY * D + HOUR * tm_hour t"
      by (rule s32_id) (use y Q M A D hms in linarith)+
    have 6: "s32 (YEAR * y + DAY * Q + M - A + DAY * D + HOUR * tm_hour t + MINUTE * tm_min t) =
        YEAR * y + DAY * Q + M - A + DAY * D + HOUR * tm_hour t + MINUTE * tm_min t"
      by (rule s32_id) (use y Q M A D hms in linarith)+
    have 7: "s32 (YEAR * y + DAY * Q + M - A + DAY * D + HOUR * tm_hour t + MINUTE * tm_min t + tm_sec t) =
        YEAR * y + DAY * Q + M - A + DAY * D + HOUR * tm_hour t + MINUTE * tm_min t + tm_sec t"
      by (rule s32_id) (use y Q M A D hms in linarith)+
    have "(if tm_mon t > 1 \<and> (y + 2) mod 4 \<noteq> 0 then YEAR * y + DAY * Q + M - DAY else YEAR * y + DAY * Q + M) =
        YEAR * y + DAY * Q + M - A" by (simp add: A_def)
    then show ?thesis by (simp only: 1 2 3 4 5 6 7)
  qed
  also have "\<dots> = Some (DAY * (code_days y m + tm_day t - 1) + HOUR * tm_hour t + MINUTE * tm_min t + tm_sec t)"
    using code by (simp add: D_def algebra_simps)
  finally show ?thesis by (simp add: y_def m_def)
qed

text \<open>C29. For every calendar date of 1970 to 2037 and every time of day, the kernel's conversion
  returns exactly the number of seconds since 1970: the days of the whole years before (leap
  years by the Gregorian rule), the days of the whole months before, the day, and the time of
  day. No step of its 32-bit arithmetic overflows the result.\<close>

theorem kernel_mktime_correct:
  assumes "valid_time t"
  shows "kernel_mktime t =
    Some (DAY * (days_before (nat (tm_year t)) (nat (tm_mon t)) + tm_day t - 1) +
      HOUR * tm_hour t + MINUTE * tm_min t + tm_sec t)"
proof -
  from assms have "70 \<le> nat (tm_year t)" "nat (tm_year t) < 138" "nat (tm_mon t) < 12"
    by (auto simp: valid_time_def)
  from code_days_eq [OF this] assms
  have "code_days (tm_year t - 70) (nat (tm_mon t)) = days_before (nat (tm_year t)) (nat (tm_mon t))"
    by (simp add: valid_time_def)
  with kernel_mktime_code_days [OF assms] show ?thesis by simp
qed

text \<open>29 February 1992, 23:59:59.\<close>

theorem kernel_mktime_correct_witness:
  "kernel_mktime \<lparr>tm_sec = 59, tm_min = 59, tm_hour = 23, tm_day = 29, tm_mon = 1, tm_year = 92\<rparr> =
     Some (DAY * (days_before 92 1 + 28) + HOUR * 23 + MINUTE * 59 + 59)"
  using kernel_mktime_correct [of "\<lparr>tm_sec = 59, tm_min = 59, tm_hour = 23, tm_day = 29, tm_mon = 1, tm_year = 92\<rparr>"]
  by (simp add: valid_time_def month_days_def leap_def)

end
