(* ===== verification/Vsprintf.thy ===== *)
theory Vsprintf
  imports Prelude
begin

text \<open>
  Number parsing and formatted printing, \<^verbatim>\<open>kernel/vsprintf.c\<close>, over the character classes of
  \<^verbatim>\<open>lib/ctype.c\<close>. A C string is the list of its characters before the terminating NUL; the
  output buffer is the list of characters written so far; the variable arguments are a list of
  32-bit words and strings, and reading past its end, or a string where a word is pushed, is
  undefined behaviour and gives \<open>None\<close>.
\<close>

section \<open>Character classes\<close>

abbreviation (input) CT_U :: u8 where "CT_U \<equiv> 0x01"
abbreviation (input) CT_L :: u8 where "CT_L \<equiv> 0x02"
abbreviation (input) CT_D :: u8 where "CT_D \<equiv> 0x04"
abbreviation (input) CT_C :: u8 where "CT_C \<equiv> 0x08"
abbreviation (input) CT_P :: u8 where "CT_P \<equiv> 0x10"
abbreviation (input) CT_S :: u8 where "CT_S \<equiv> 0x20"
abbreviation (input) CT_X :: u8 where "CT_X \<equiv> 0x40"
abbreviation (input) CT_SP :: u8 where "CT_SP \<equiv> 0x80"

text \<open>The table, without its entry for EOF: entry \<open>i\<close> classifies the character with code \<open>i\<close>.\<close>

definition ctype_table :: "u8 list" where
  "ctype_table =
     replicate 9 CT_C @ replicate 5 (CT_C OR CT_S) @ replicate 18 CT_C @
     [CT_S OR CT_SP] @ replicate 15 CT_P @
     replicate 10 CT_D @ replicate 7 CT_P @
     replicate 6 (CT_U OR CT_X) @ replicate 20 CT_U @ replicate 6 CT_P @
     replicate 6 (CT_L OR CT_X) @ replicate 20 CT_L @ replicate 4 CT_P @ [CT_C] @
     replicate 128 0"

text \<open>\<open>char\<close> is signed on the i386, so a character beyond 127 indexes before the table.\<close>

definition ctype_of :: "char \<Rightarrow> u8 option" where
  "ctype_of c = (let i = of_char c :: nat in if i < 128 then Some (ctype_table ! i) else None)"

definition isxdigit :: "u8 \<Rightarrow> bool" where "isxdigit t \<longleftrightarrow> t AND (CT_D OR CT_X) \<noteq> 0"
definition isdigit :: "u8 \<Rightarrow> bool" where "isdigit t \<longleftrightarrow> t AND CT_D \<noteq> 0"
definition islower :: "u8 \<Rightarrow> bool" where "islower t \<longleftrightarrow> t AND CT_L \<noteq> 0"

section \<open>Parsing a number\<close>

text \<open>The value of a hexadecimal digit, with \<open>toupper\<close> applied to a lower-case letter.\<close>

definition digit_value :: "char \<Rightarrow> u8 \<Rightarrow> u32" where
  "digit_value c t =
     (if isdigit t then of_nat (of_char c) - 48
      else (if islower t then of_nat (of_char c) - 32 else of_nat (of_char c)) - 65 + 10)"

fun strtoul_loop :: "u32 \<Rightarrow> u32 \<Rightarrow> string \<Rightarrow> (u32 \<times> string) option" where
  "strtoul_loop base result [] = Some (result, [])"
| "strtoul_loop base result (c # cp) =
     (case ctype_of c of
        None \<Rightarrow> None
      | Some t \<Rightarrow>
          if isxdigit t \<and> digit_value c t < base
          then strtoul_loop base (result * base + digit_value c t) cp
          else Some (result, c # cp))"

definition simple_strtoul :: "string \<Rightarrow> u32 \<Rightarrow> (u32 \<times> string) option" where
  "simple_strtoul cp base =
     (if base \<noteq> 0 then strtoul_loop base 0 cp
      else
        (case cp of
           (CHR ''0'') # cp1 \<Rightarrow>
             (case cp1 of
                (CHR ''x'') # cp2 \<Rightarrow>
                  (case cp2 of
                     [] \<Rightarrow> strtoul_loop 8 0 cp1
                   | d # _ \<Rightarrow>
                       (case ctype_of d of
                          None \<Rightarrow> None
                        | Some t \<Rightarrow> if isxdigit t then strtoul_loop 16 0 cp2 else strtoul_loop 8 0 cp1))
              | _ \<Rightarrow> strtoul_loop 8 0 cp1)
         | _ \<Rightarrow> strtoul_loop 10 0 cp))"

definition is_digit :: "char \<Rightarrow> bool" where
  "is_digit c \<longleftrightarrow> 48 \<le> (of_char c :: nat) \<and> (of_char c :: nat) \<le> 57"

fun skip_atoi :: "int \<Rightarrow> string \<Rightarrow> int \<times> string" where
  "skip_atoi i [] = (i, [])"
| "skip_atoi i (c # s) =
     (if is_digit c then skip_atoi (s32 (i * 10 + of_char c - 48)) s else (i, c # s))"

section \<open>Printing a number\<close>

abbreviation (input) ZEROPAD :: u32 where "ZEROPAD \<equiv> 1"
abbreviation (input) SIGN :: u32 where "SIGN \<equiv> 2"
abbreviation (input) PLUS :: u32 where "PLUS \<equiv> 4"
abbreviation (input) SPACE :: u32 where "SPACE \<equiv> 8"
abbreviation (input) LEFT :: u32 where "LEFT \<equiv> 16"
abbreviation (input) SPECIAL :: u32 where "SPECIAL \<equiv> 32"
abbreviation (input) SMALL :: u32 where "SMALL \<equiv> 64"

definition has :: "u32 \<Rightarrow> u32 \<Rightarrow> bool" where
  "has type f \<longleftrightarrow> type AND f \<noteq> 0"

definition upper_digits :: string where
  "upper_digits = ''0123456789ABCDEFGHIJKLMNOPQRSTUVWXYZ''"

definition lower_digits :: string where
  "lower_digits = ''0123456789abcdefghijklmnopqrstuvwxyz''"

text \<open>The division loop that fills \<open>tmp\<close>: \<open>divl\<close> divides the unsigned 32-bit value. The list
  is \<open>tmp[0], tmp[1], \<dots>\<close>, the least significant digit first.\<close>

function digit_loop :: "string \<Rightarrow> nat \<Rightarrow> nat \<Rightarrow> string" where
  "digit_loop digits base num =
     (if base < 2 \<or> num = 0 then [] else (digits ! (num mod base)) # digit_loop digits base (num div base))"
  by pat_completeness auto
termination by (relation "measure (\<lambda>(d, b, n). n)") auto

declare digit_loop.simps [simp del]

definition number_tmp :: "string \<Rightarrow> nat \<Rightarrow> u32 \<Rightarrow> string" where
  "number_tmp digits base num = (if num = 0 then ''0'' else digit_loop digits base (unat num))"

text \<open>\<open>while (sz-- > 0) *str++ = c;\<close> -- what it writes, and \<open>sz\<close> afterwards.\<close>

definition pad_loop :: "char \<Rightarrow> int \<Rightarrow> string \<times> int" where
  "pad_loop c sz = (replicate (nat sz) c, if sz > 0 then - 1 else s32 (sz - 1))"

definition number :: "u32 \<Rightarrow> int \<Rightarrow> int \<Rightarrow> int \<Rightarrow> u32 \<Rightarrow> string option" where
  "number num base sz precision type =
     (let digits = (if has type SMALL then lower_digits else upper_digits);
          type = (if has type LEFT then type AND NOT ZEROPAD else type)
      in if base < 2 \<or> base > 36 then None
      else
        let c = (if has type ZEROPAD then CHR ''0'' else CHR '' '');
            neg = (has type SIGN \<and> sint num < 0);
            sign = (if neg then ''-'' else if has type PLUS then ''+'' else if has type SPACE then '' '' else []);
            num = (if neg then - num else num);
            sz = (if sign \<noteq> [] then s32 (sz - 1) else sz);
            sz = (if has type SPECIAL then
                      (if base = 16 then s32 (sz - 2) else if base = 8 then s32 (sz - 1) else sz)
                    else sz);
            tmp = number_tmp digits (nat base) num;
            i = int (length tmp);
            precision = (if i > precision then i else precision);
            sz = s32 (sz - precision);
            (pad1, sz) = (if has type ZEROPAD \<or> has type LEFT then ([], sz) else pad_loop (CHR '' '') sz);
            prefix = (if has type SPECIAL then
                        (if base = 8 then ''0'' else if base = 16 then [CHR ''0'', digits ! 33] else [])
                      else []);
            (pad2, sz) = (if has type LEFT then ([], sz) else pad_loop c sz);
            zeros = replicate (nat (precision - i)) (CHR ''0'');
            (pad3, sz) = pad_loop (CHR '' '') sz
        in Some (pad1 @ sign @ prefix @ pad2 @ zeros @ rev tmp @ pad3))"

section \<open>Formatted printing\<close>

datatype varg = ANum u32 | AStr string

fun va_int :: "varg list \<Rightarrow> (u32 \<times> varg list) option" where
  "va_int (ANum w # args) = Some (w, args)"
| "va_int _ = None"

fun va_str :: "varg list \<Rightarrow> (string \<times> varg list) option" where
  "va_str (AStr s # args) = Some (takeWhile (\<lambda>c. c \<noteq> CHR 0x00) s, args)"
| "va_str _ = None"

fun vs_flags :: "u32 \<Rightarrow> string \<Rightarrow> u32 \<times> string" where
  "vs_flags flags [] = (flags, [])"
| "vs_flags flags (c # fmt) =
     (if c = CHR ''-'' then vs_flags (flags OR LEFT) fmt
      else if c = CHR ''+'' then vs_flags (flags OR PLUS) fmt
      else if c = CHR '' '' then vs_flags (flags OR SPACE) fmt
      else if c = CHR ''#'' then vs_flags (flags OR SPECIAL) fmt
      else if c = CHR ''0'' then vs_flags (flags OR ZEROPAD) fmt
      else (flags, c # fmt))"

text \<open>Field width: digits, or \<open>*\<close>, for which the argument is consumed but the format pointer is
  not advanced.\<close>

fun vs_width :: "u32 \<Rightarrow> string \<Rightarrow> varg list \<Rightarrow> (u32 \<times> int \<times> string \<times> varg list) option" where
  "vs_width flags [] args = Some (flags, - 1, [], args)"
| "vs_width flags (c # fmt) args =
     (if is_digit c then
        (let (w, fmt') = skip_atoi 0 (c # fmt) in Some (flags, w, fmt', args))
      else if c = CHR ''*'' then
        (case va_int args of
           None \<Rightarrow> None
         | Some (w, args') \<Rightarrow>
             if sint w < 0 then Some (flags OR LEFT, s32 (- sint w), c # fmt, args')
             else Some (flags, sint w, c # fmt, args'))
      else Some (flags, - 1, c # fmt, args))"

fun vs_precision :: "string \<Rightarrow> varg list \<Rightarrow> (int \<times> string \<times> varg list) option" where
  "vs_precision [] args = Some (- 1, [], args)"
| "vs_precision (c # fmt) args =
     (if c \<noteq> CHR ''.'' then Some (- 1, c # fmt, args)
      else
        (case fmt of
           [] \<Rightarrow> Some (0, [], args)
         | d # _ \<Rightarrow>
             if is_digit d then
               (let (p, fmt') = skip_atoi 0 fmt in Some (if p < 0 then 0 else p, fmt', args))
             else if d = CHR ''*'' then
               (case va_int args of
                  None \<Rightarrow> None
                | Some (w, args') \<Rightarrow> Some (if sint w < 0 then 0 else sint w, fmt, args'))
             else Some (0, fmt, args)))"

fun vs_qualifier :: "string \<Rightarrow> string" where
  "vs_qualifier [] = []"
| "vs_qualifier (c # fmt) =
     (if c = CHR ''h'' \<or> c = CHR ''l'' \<or> c = CHR ''L'' then fmt else c # fmt)"

text \<open>\<open>while (--width > 0) *str++ = ' ';\<close> and \<open>while (len < width--) *str++ = ' ';\<close>\<close>

definition predec_pad :: "int \<Rightarrow> string \<times> int" where
  "predec_pad w = (let w' = s32 (w - 1) in (replicate (nat w') (CHR '' ''), if w' > 0 then 0 else w'))"

definition postdec_pad :: "int \<Rightarrow> int \<Rightarrow> string \<times> int" where
  "postdec_pad len w = (replicate (nat (w - len)) (CHR '' ''), if len < w then s32 (len - 1) else s32 (w - 1))"

text \<open>One conversion: the characters written, the remaining arguments, and the stores through
  \<open>int *\<close> arguments made by \<open>%n\<close>.\<close>

definition vs_number :: "int \<Rightarrow> int \<Rightarrow> int \<Rightarrow> u32 \<Rightarrow> varg list \<Rightarrow> (string \<times> varg list \<times> (u32 \<times> int) list) option" where
  "vs_number base width precision flags args =
     (case va_int args of
        None \<Rightarrow> None
      | Some (w, args') \<Rightarrow> map_option (\<lambda>s. (s, args', [])) (number w base width precision flags))"

definition vs_conv :: "char \<Rightarrow> u32 \<Rightarrow> int \<Rightarrow> int \<Rightarrow> varg list \<Rightarrow> nat \<Rightarrow>
    (string \<times> varg list \<times> (u32 \<times> int) list) option" where
  "vs_conv d flags width precision args written =
     (if d = CHR ''c'' then
        (let (p1, width') = (if has flags LEFT then ([], width) else predec_pad width)
         in case va_int args of
              None \<Rightarrow> None
            | Some (w, args') \<Rightarrow>
                (let (p2, _) = predec_pad width'
                 in Some (p1 @ [char_of (unat w mod 256)] @ p2, args', [])))
      else if d = CHR ''s'' then
        (case va_str args of
           None \<Rightarrow> None
         | Some (s, args') \<Rightarrow>
             (let len = int (length s);
                  len = (if precision < 0 then len else if len > precision then precision else len);
                  (p1, width') = (if has flags LEFT then ([], width) else postdec_pad len width);
                  (p2, _) = postdec_pad len width'
              in Some (p1 @ take (nat len) s @ p2, args', [])))
      else if d = CHR ''o'' then vs_number 8 width precision flags args
      else if d = CHR ''p'' then
        (if width = - 1 then vs_number 16 8 precision (flags OR ZEROPAD) args
         else vs_number 16 width precision flags args)
      else if d = CHR ''x'' then vs_number 16 width precision (flags OR SMALL) args
      else if d = CHR ''X'' then vs_number 16 width precision flags args
      else if d = CHR ''d'' \<or> d = CHR ''i'' then vs_number 10 width precision (flags OR SIGN) args
      else if d = CHR ''u'' then vs_number 10 width precision flags args
      else if d = CHR ''n'' then
        (case va_int args of
           None \<Rightarrow> None
         | Some (ip, args') \<Rightarrow> Some ([], args', [(ip, int written)]))
      else Some (if d = CHR ''%'' then ''%'' else [CHR ''%'', d], args, []))"

definition vs_spec :: "string \<Rightarrow> varg list \<Rightarrow> (u32 \<times> int \<times> int \<times> string \<times> varg list) option" where
  "vs_spec fmt args =
     (let (flags, fmt) = vs_flags 0 fmt
      in case vs_width flags fmt args of
           None \<Rightarrow> None
         | Some (flags, width, fmt, args) \<Rightarrow>
             (case vs_precision fmt args of
                None \<Rightarrow> None
              | Some (precision, fmt, args) \<Rightarrow> Some (flags, width, precision, vs_qualifier fmt, args)))"

lemma skip_atoi_length: "skip_atoi i s = (n, r) \<Longrightarrow> length r \<le> length s"
  by (induction i s rule: skip_atoi.induct) (auto split: if_splits)

lemma vs_flags_length: "vs_flags f s = (g, r) \<Longrightarrow> length r \<le> length s"
  by (induction f s rule: vs_flags.induct) (auto split: if_splits)

lemma vs_width_length: "vs_width f s a = Some (g, w, r, b) \<Longrightarrow> length r \<le> length s"
  by (cases s) (auto split: if_splits option.splits prod.splits dest: skip_atoi_length)

lemma vs_precision_length: "vs_precision s a = Some (p, r, b) \<Longrightarrow> length r \<le> length s"
  by (cases s) (auto split: if_splits option.splits prod.splits list.splits dest!: skip_atoi_length)

lemma vs_qualifier_length: "length (vs_qualifier s) \<le> length s"
  by (cases s) auto

lemma vs_spec_length: "vs_spec s a = Some (f, w, p, r, b) \<Longrightarrow> length r \<le> length s"
  by (auto simp: vs_spec_def split: option.splits prod.splits
      dest!: vs_flags_length vs_width_length vs_precision_length intro: order_trans [OF vs_qualifier_length])

function vsprintf_loop :: "string \<Rightarrow> varg list \<Rightarrow> string \<Rightarrow> (u32 \<times> int) list \<Rightarrow>
    (string \<times> (u32 \<times> int) list) option" where
  "vsprintf_loop [] args str ns = Some (str, ns)"
| "vsprintf_loop (c # fmt) args str ns =
     (if c \<noteq> CHR ''%'' then vsprintf_loop fmt args (str @ [c]) ns
      else
        (case vs_spec fmt args of
           None \<Rightarrow> None
         | Some (flags, width, precision, [], args') \<Rightarrow> Some (str @ ''%'', ns)
         | Some (flags, width, precision, d # fmt', args') \<Rightarrow>
             (case vs_conv d flags width precision args' (length str) of
                None \<Rightarrow> None
              | Some (s, args'', ns') \<Rightarrow> vsprintf_loop fmt' args'' (str @ s) (ns @ ns'))))"
  by pat_completeness auto
termination
  by (relation "measure (\<lambda>(fmt, args, str, ns). length fmt)")
    (auto dest!: vs_spec_length)

text \<open>The buffer contents (before the NUL), the return value, and the \<open>%n\<close> stores.\<close>

definition vsprintf :: "string \<Rightarrow> varg list \<Rightarrow> (string \<times> int \<times> (u32 \<times> int) list) option" where
  "vsprintf fmt args =
     map_option (\<lambda>(str, ns). (str, int (length str), ns))
       (vsprintf_loop (takeWhile (\<lambda>c. c \<noteq> CHR 0x00) fmt) args [] [])"

lemma digit_loop_length: "2 \<le> base \<Longrightarrow> num < base ^ k \<Longrightarrow> length (digit_loop ds base num) \<le> k"
proof (induction k arbitrary: num)
  case 0
  then show ?case by (subst digit_loop.simps) simp
next
  case (Suc k)
  then have "num div base < base ^ k"
    by (simp add: less_mult_imp_div_less mult.commute)
  with Suc show ?case by (subst digit_loop.simps) auto
qed

lemma digit_loop_fits: "2 \<le> base \<Longrightarrow> length (digit_loop ds base (unat (num :: u32))) \<le> 32"
proof (rule digit_loop_length)
  assume "2 \<le> base"
  then have "(2::nat) ^ 32 \<le> base ^ 32" by (rule power_mono) simp
  then show "unat num < base ^ 32" using unsigned_less [of num, where ?'a = nat] by simp
qed

lemma digit_loop_nonempty: "2 \<le> base \<Longrightarrow> num \<noteq> 0 \<Longrightarrow> digit_loop ds base num \<noteq> []"
  by (subst digit_loop.simps) simp

definition digit_table :: "string \<Rightarrow> bool" where
  "digit_table ds \<longleftrightarrow> ds = upper_digits \<or> ds = lower_digits"

lemma digit_of_table:
  assumes "digit_table ds" "d < 16"
  obtains t where "ctype_of (ds ! d) = Some t" "isxdigit t" "digit_value (ds ! d) t = of_nat d"
proof -
  have "list_all (\<lambda>d. case ctype_of (ds ! d) of None \<Rightarrow> False
      | Some t \<Rightarrow> isxdigit t \<and> digit_value (ds ! d) t = of_nat d) [0..<16]"
    using assms(1) unfolding digit_table_def by (elim disjE; hypsubst) code_simp+
  then have "case ctype_of (ds ! d) of None \<Rightarrow> False
      | Some t \<Rightarrow> isxdigit t \<and> digit_value (ds ! d) t = of_nat d"
    using assms(2) by (simp only: list_all_iff set_upt atLeastLessThan_iff) simp
  then show ?thesis using that by (auto split: option.splits)
qed

lemma strtoul_digit:
  assumes "digit_table ds" "d < base" "2 \<le> base" "base \<le> 16"
  shows "strtoul_loop (of_nat base) r (ds ! d # s) = strtoul_loop (of_nat base) (r * of_nat base + of_nat d) s"
proof -
  have "d < 16" using assms by simp
  then obtain t where "ctype_of (ds ! d) = Some t" "isxdigit t" "digit_value (ds ! d) t = of_nat d"
    by (rule digit_of_table [OF assms(1)])
  moreover have "(of_nat d :: u32) < of_nat base"
    using assms by (simp add: word_less_nat_alt unat_of_nat)
  ultimately show ?thesis by simp
qed

lemma strtoul_digit_loop:
  assumes "digit_table ds" "2 \<le> base" "base \<le> 16"
  shows "strtoul_loop (of_nat base) r (rev (digit_loop ds base num) @ s) =
    strtoul_loop (of_nat base) (r * of_nat base ^ length (digit_loop ds base num) + of_nat num) s"
  using assms
proof (induction ds base num arbitrary: r s rule: digit_loop.induct)
  case (1 ds base num)
  show ?case
  proof (cases "num = 0")
    case True
    then show ?thesis by (simp add: digit_loop.simps)
  next
    case False
    let ?L = "digit_loop ds base (num div base)"
    have eq: "digit_loop ds base num = ds ! (num mod base) # ?L"
      using False "1.prems" by (subst digit_loop.simps) simp
    have "strtoul_loop (of_nat base) r (rev (digit_loop ds base num) @ s) =
        strtoul_loop (of_nat base) r (rev ?L @ (ds ! (num mod base) # s))"
      by (simp add: eq)
    also have "\<dots> = strtoul_loop (of_nat base) (r * of_nat base ^ length ?L + of_nat (num div base)) (ds ! (num mod base) # s)"
      using False "1.prems" by (intro "1.IH") auto
    also have "\<dots> = strtoul_loop (of_nat base)
        ((r * of_nat base ^ length ?L + of_nat (num div base)) * of_nat base + of_nat (num mod base)) s"
      using "1.prems" by (intro strtoul_digit) auto
    also have "(r * of_nat base ^ length ?L + of_nat (num div base)) * of_nat base + of_nat (num mod base)
        = r * of_nat base ^ Suc (length ?L) + (of_nat (num div base * base + num mod base) :: u32)"
      by (simp only: of_nat_add of_nat_mult algebra_simps power_Suc)
    finally show ?thesis by (simp add: eq)
  qed
qed

lemma strtoul_zeros:
  assumes "2 \<le> base" "base \<le> 16"
  shows "strtoul_loop (of_nat base) 0 (replicate k (CHR ''0'') @ s) = strtoul_loop (of_nat base) 0 s"
proof -
  have "strtoul_loop (of_nat base) 0 (CHR ''0'' # s) = strtoul_loop (of_nat base) 0 s" for s
    using strtoul_digit [of upper_digits 0 base 0 s] assms
    by (simp add: digit_table_def upper_digits_def)
  then show ?thesis by (induction k) simp_all
qed

definition plain_format :: "u32 \<Rightarrow> bool" where
  "plain_format type \<longleftrightarrow> \<not> has type SIGN \<and> \<not> has type PLUS \<and> \<not> has type SPACE \<and> \<not> has type LEFT \<and> \<not> has type SPECIAL"

definition small_field :: "int \<Rightarrow> bool" where
  "small_field x \<longleftrightarrow> - 1000000000 \<le> x \<and> x \<le> 1000000000"

definition digits_of :: "u32 \<Rightarrow> string" where
  "digits_of type = (if has type SMALL then lower_digits else upper_digits)"

lemma number_tmp_length: "2 \<le> base \<Longrightarrow> 1 \<le> length (number_tmp ds base num) \<and> length (number_tmp ds base num) \<le> 32"
  using digit_loop_nonempty [of base "unat num" ds] digit_loop_fits [of base ds num]
  by (auto simp: number_tmp_def Suc_le_eq unat_eq_0)

lemma number_plain:
  assumes "plain_format type" "2 \<le> base" "base \<le> 36" "small_field sz" "small_field precision"
    "has type ZEROPAD \<or> sz \<le> 1"
  shows "\<exists>k. number num base sz precision type =
    Some (replicate k (CHR ''0'') @ rev (number_tmp (digits_of type) (nat base) num))"
proof -
  define tmp where "tmp = number_tmp (digits_of type) (nat base) num"
  define P where "P = (if int (length tmp) > precision then int (length tmp) else precision)"
  have len: "1 \<le> length tmp" "length tmp \<le> 32"
    using number_tmp_length [of "nat base"] assms(2) by (auto simp: tmp_def)
  have P: "1 \<le> P" "P \<le> 1000000000" "- 1000000000 \<le> sz" "sz \<le> 1000000000"
    using len assms(4,5) by (auto simp: small_field_def P_def)
  have z: "s32 (sz - P) = sz - P" "s32 (sz - P - 1) = sz - P - 1" "s32 (sz - P - 2) = sz - P - 2" using P by (simp_all add: s32_id)
  have flags: "has type SIGN = False" "has type PLUS = False" "has type SPACE = False" "has type LEFT = False" "has type SPECIAL = False"
    using assms(1) by (simp_all add: plain_format_def)
  have num: "number num base sz precision type =
     (let (pad1, sz) = (if has type ZEROPAD then ([], sz - P) else pad_loop (CHR '' '') (sz - P));
          (pad2, sz) = pad_loop (if has type ZEROPAD then CHR ''0'' else CHR '' '') sz;
          (pad3, sz) = pad_loop (CHR '' '') sz
      in Some (pad1 @ pad2 @ replicate (nat (P - int (length tmp))) (CHR ''0'') @ rev tmp @ pad3))"
    using assms(2,3) z
    by (cases "precision < int (length tmp)") (simp_all add: number_def Let_def flags P_def flip: digits_of_def tmp_def)
  show ?thesis
  proof (cases "has type ZEROPAD")
    case True
    have "number num base sz precision type =
       Some ((replicate (nat (sz - P)) (CHR ''0'') @ replicate (nat (P - int (length tmp))) (CHR ''0'')) @ rev tmp)"
      unfolding num using True P z by (simp add: pad_loop_def)
    then show ?thesis unfolding tmp_def replicate_add [symmetric] by blast
  next
    case False
    with assms(6) P have "sz - P \<le> 0" by auto
    with False show ?thesis unfolding num tmp_def [symmetric] using z
      by (auto simp add: pad_loop_def)
  qed
qed

lemma number_strtoul:
  assumes "plain_format type" "2 \<le> base" "base \<le> 16" "small_field sz" "small_field precision"
    "has type ZEROPAD \<or> sz \<le> 1"
  shows "\<exists>s. number num base sz precision type = Some s \<and> simple_strtoul s (of_int base) = Some (num, [])"
proof -
  obtain b where b: "base = int b" "2 \<le> b" "b \<le> 16"
    using assms(2,3) by (metis nat_eq_iff2 nat_le_iff nonneg_int_cases numeral_le_iff of_nat_numeral order_trans zero_le_numeral of_nat_le_iff)
  obtain k where k: "number num base sz precision type = Some (replicate k (CHR ''0'') @ rev (number_tmp (digits_of type) (nat base) num))"
    using number_plain [OF assms(1,2) _ assms(4,5,6)] assms(3) by auto
  have tab: "digit_table (digits_of type)" by (simp add: digits_of_def digit_table_def)
  have digits: "strtoul_loop (of_nat b) 0 (rev (number_tmp (digits_of type) (nat base) num)) = Some (num, [])"
  proof (cases "num = 0")
    case True
    have "strtoul_loop (of_nat b) 0 (replicate 1 (CHR ''0'') @ []) = strtoul_loop (of_nat b) 0 []"
      using b by (intro strtoul_zeros) auto
    with True show ?thesis by (simp add: number_tmp_def)
  next
    case False
    then show ?thesis
      using strtoul_digit_loop [OF tab b(2,3), of 0 "unat num" "[]"] b(1)
      by (simp add: number_tmp_def)
  qed
  have nz: "(of_nat b :: u32) \<noteq> 0"
    using b by (simp add: unat_eq_0 [symmetric] unat_of_nat)
  show ?thesis
    using k digits nz b(1) strtoul_zeros [OF b(2,3), of k "rev (number_tmp (digits_of type) (nat base) num)"]
    by (simp add: simple_strtoul_def)
qed

subsection \<open>Signed decimal\<close>

fun nat_decimal :: "nat \<Rightarrow> string" where
  "nat_decimal n = (if n < 10 then [char_of (48 + n)] else nat_decimal (n div 10) @ [char_of (48 + n mod 10)])"

declare nat_decimal.simps [simp del]

definition int_decimal :: "int \<Rightarrow> string" where
  "int_decimal z = (if z < 0 then CHR ''-'' # nat_decimal (nat (- z)) else nat_decimal (nat z))"

lemma upper_digit10: "d < 10 \<Longrightarrow> upper_digits ! d = char_of (48 + d)"
proof -
  have "list_all (\<lambda>d. upper_digits ! d = char_of (48 + d)) [0..<10]" by code_simp
  then show "d < 10 \<Longrightarrow> upper_digits ! d = char_of (48 + d)"
    by (simp only: list_all_iff set_upt atLeastLessThan_iff) simp
qed

lemma digit_loop_decimal: "0 < n \<Longrightarrow> rev (digit_loop upper_digits 10 n) = nat_decimal n"
proof (induction n rule: nat_decimal.induct)
  case (1 n)
  show ?case
  proof (cases "n < 10")
    case True
    then show ?thesis using "1.prems"
      by (subst digit_loop.simps, subst nat_decimal.simps) (simp add: digit_loop.simps upper_digit10)
  next
    case False
    then show ?thesis using 1
      by (subst digit_loop.simps, subst nat_decimal.simps) (simp add: upper_digit10)
  qed
qed

lemma unat_uminus_neg: "sint (w :: u32) < 0 \<Longrightarrow> unat (- w) = nat (- sint w)"
proof -
  assume neg: "sint w < 0"
  have "uint (- w) = take_bit 32 (- sint w)"
    using uint_sint [of "- w"] by (simp add: sint_word_minus take_bit_signed_take_bit)
  moreover have "- sint w \<le> 2147483648" using sint_ge [of w] by simp
  ultimately show ?thesis using neg by (simp add: take_bit_int_eq_self unat_eq_nat_uint)
qed

lemma vsprintf_d_parse: "vs_spec ''d'' args = Some (0, - 1, - 1, ''d'', args)"
  by (simp add: vs_spec_def is_digit_def)

lemma number_signed:
  "number w 10 (- 1) (- 1) SIGN = Some (int_decimal (sint w))"
proof -
  define v where "v = (if sint w < 0 then - w else w)"
  define tmp where "tmp = number_tmp upper_digits 10 v"
  have len: "1 \<le> length tmp" "length tmp \<le> 32"
    using number_tmp_length [of 10 upper_digits v] by (auto simp: tmp_def)
  have has: "has SIGN SMALL = False" "has SIGN LEFT = False" "has SIGN SIGN = True" "has SIGN ZEROPAD = False"
      "has SIGN PLUS = False" "has SIGN SPACE = False" "has SIGN SPECIAL = False"
    by (simp_all add: has_def)
  have v: "unat v = nat \<bar>sint w\<bar>"
  proof (cases "sint w < 0")
    case True
    then show ?thesis by (simp add: v_def unat_uminus_neg)
  next
    case False
    have "uint w = take_bit 32 (sint w)" using uint_sint [of w] by simp
    with False have "uint w = sint w" using sint_lt [of w] by (simp add: take_bit_int_eq_self)
    with False show ?thesis by (simp add: v_def unat_eq_nat_uint)
  qed
  have tmp: "rev tmp = nat_decimal (nat \<bar>sint w\<bar>)"
  proof (cases "v = 0")
    case True
    with v have "nat \<bar>sint w\<bar> = 0" by simp
    moreover have "CHR ''0'' = char_of (48::nat)" by code_simp
    ultimately show ?thesis using True by (simp add: tmp_def number_tmp_def nat_decimal.simps)
  next
    case False
    then have "0 < unat v" by (simp add: unat_gt_0)
    from digit_loop_decimal [OF this] False show ?thesis by (simp add: tmp_def number_tmp_def v)
  qed
  have s: "s32 (- 1 - int (length tmp)) = - 1 - int (length tmp)" "s32 (- 2 - int (length tmp)) = - 2 - int (length tmp)"
      "s32 (- 3 - int (length tmp)) = - 3 - int (length tmp)" "s32 (- 4 - int (length tmp)) = - 4 - int (length tmp)" "s32 (- 2) = - 2"
    using len by (simp_all add: s32_id)
  show ?thesis
  proof (cases "sint w < 0")
    case True
    then have t: "number_tmp upper_digits 10 (- w) = tmp" by (simp add: tmp_def v_def)
    show ?thesis using len(1) tmp s True by (simp add: number_def Let_def has pad_loop_def t int_decimal_def)
  next
    case False
    then have t: "number_tmp upper_digits 10 w = tmp" by (simp add: tmp_def v_def)
    show ?thesis using len(1) tmp s False by (simp add: number_def Let_def has pad_loop_def t int_decimal_def)
  qed
qed

section \<open>Properties\<close>



text \<open>C31. Printing with \<open>%d\<close> is correct for every 32-bit argument, the most negative one
  included: the output is the decimal numeral of its signed value, and the return value is the
  number of characters written.\<close>

theorem vsprintf_signed_decimal:
  "vsprintf ''%d'' [ANum w] = Some (int_decimal (sint w), int (length (int_decimal (sint w))), [])"
  by (simp add: vsprintf_def vsprintf_d_parse vs_conv_def vs_number_def number_signed)

text \<open>The digit buffer of \<open>number\<close>, \<open>char tmp[36]\<close>, is never overrun: whatever the value
  and the base, at least one and at most 32 digits are stored.\<close>

theorem number_tmp_fits:
  assumes "2 \<le> base"
  shows "1 \<le> length (number_tmp ds base num) \<and> length (number_tmp ds base num) \<le> 32"
  using assms by (rule number_tmp_length)

theorem number_tmp_fits_witness:
  "1 \<le> length (number_tmp upper_digits 2 0xFFFFFFFF) \<and> length (number_tmp upper_digits 2 0xFFFFFFFF) \<le> 32"
  using number_tmp_fits [of 2 upper_digits "0xFFFFFFFF"] by simp

text \<open>A field width given as \<open>*\<close> does not work: the argument is consumed but the format
  pointer is not advanced over the star, so the conversion character after it is never seen and
  the three characters are copied literally, whatever the arguments.\<close>

theorem vsprintf_star_width_bug:
  "vsprintf ''%*d'' (ANum w # args) = Some (''%*d'', 3, [])"
  by (cases "sint w < 0") (simp_all add: vsprintf_def vs_spec_def vs_conv_def is_digit_def)

end
