(* ===== verification/Uaccess.thy ===== *)
theory Uaccess
  imports Prelude
begin

text \<open>
  Access to user memory: the segment-override loads and stores of \<^verbatim>\<open>include/asm/segment.h\<close> over a
  byte-addressed, little-endian user address space, and the range check of
  \<^verbatim>\<open>verify_area\<close> (\<^verbatim>\<open>mm/memory.c\<close>). The pages \<^verbatim>\<open>verify_area\<close> un-shares for a write are a matter
  of the page tables and do not change what the addresses hold, so it has no effect here.
\<close>

section \<open>Loads and stores\<close>

type_synonym umem = "u32 \<Rightarrow> u8"

definition get_fs_byte :: "umem \<Rightarrow> u32 \<Rightarrow> u8" where
  "get_fs_byte m a = m a"

definition get_fs_word :: "umem \<Rightarrow> u32 \<Rightarrow> u16" where
  "get_fs_word m a = ucast (m a) OR push_bit 8 (ucast (m (a + 1)))"

definition get_fs_long :: "umem \<Rightarrow> u32 \<Rightarrow> u32" where
  "get_fs_long m a =
     ucast (m a) OR push_bit 8 (ucast (m (a + 1))) OR
     push_bit 16 (ucast (m (a + 2))) OR push_bit 24 (ucast (m (a + 3)))"

definition put_fs_byte :: "u8 \<Rightarrow> u32 \<Rightarrow> umem \<Rightarrow> umem" where
  "put_fs_byte v a m = m(a := v)"

definition put_fs_word :: "u16 \<Rightarrow> u32 \<Rightarrow> umem \<Rightarrow> umem" where
  "put_fs_word v a m = m(a := ucast v, a + 1 := ucast (drop_bit 8 v))"

definition put_fs_long :: "u32 \<Rightarrow> u32 \<Rightarrow> umem \<Rightarrow> umem" where
  "put_fs_long v a m =
     m(a := ucast v, a + 1 := ucast (drop_bit 8 v),
       a + 2 := ucast (drop_bit 16 v), a + 3 := ucast (drop_bit 24 v))"

fun memcpy_fromfs :: "umem \<Rightarrow> u32 \<Rightarrow> nat \<Rightarrow> u8 list" where
  "memcpy_fromfs m a 0 = []"
| "memcpy_fromfs m a (Suc n) = m a # memcpy_fromfs m (a + 1) n"

fun memcpy_tofs :: "u32 \<Rightarrow> u8 list \<Rightarrow> umem \<Rightarrow> umem" where
  "memcpy_tofs a [] m = m"
| "memcpy_tofs a (b # bs) m = memcpy_tofs (a + 1) bs (m(a := b))"

text \<open>A signed C value as the word that holds it, and back.\<close>

abbreviation to_u32 :: "int \<Rightarrow> u32" where "to_u32 \<equiv> word_of_int"

section \<open>The range check\<close>

abbreviation (input) TASK_SIZE :: u32 where "TASK_SIZE \<equiv> 0xc0000000"

datatype verify_type = VERIFY_READ | VERIFY_WRITE

definition verify_area :: "verify_type \<Rightarrow> u32 \<Rightarrow> u32 \<Rightarrow> int" where
  "verify_area type start len =
     (if start \<ge> TASK_SIZE then - EFAULT
      else if len > TASK_SIZE - start then - EFAULT
      else 0)"

section \<open>Facts\<close>

lemma word_add_distinct [simp]:
  "a + 1 \<noteq> (a :: u32)" "a + 2 \<noteq> (a :: u32)" "a + 3 \<noteq> (a :: u32)"
  "a \<noteq> a + 1" "a \<noteq> a + 2" "a \<noteq> a + 3"
  by simp_all

lemma get_put_fs_byte [simp]: "get_fs_byte (put_fs_byte v a m) a = v"
  by (simp add: get_fs_byte_def put_fs_byte_def)

lemma get_put_fs_word [simp]: "get_fs_word (put_fs_word v a m) a = v"
  unfolding get_fs_word_def put_fs_word_def
  by (rule bit_word_eqI) (auto simp: bit_simps)

lemma get_put_fs_long [simp]: "get_fs_long (put_fs_long v a m) a = v"
  unfolding get_fs_long_def put_fs_long_def
  apply (rule bit_word_eqI)
  subgoal for n by (cases "24 \<le> n"; cases "16 \<le> n"; cases "8 \<le> n") (auto simp: bit_simps)
  done

lemma put_fs_long_other:
  "b \<notin> {a, a + 1, a + 2, a + 3} \<Longrightarrow> put_fs_long v a m b = m b"
  by (simp add: put_fs_long_def)

lemma length_memcpy_fromfs [simp]: "length (memcpy_fromfs m a n) = n"
  by (induction m a n rule: memcpy_fromfs.induct) auto

lemma verify_area_range: "verify_area ty a n = 0 \<longleftrightarrow> unat a < unat TASK_SIZE \<and> unat a + unat n \<le> unat TASK_SIZE"
  by (auto simp: verify_area_def word_le_nat_alt word_less_nat_alt unat_sub_if' split: if_splits)

lemma verify_area_values: "verify_area ty a n = 0 \<or> verify_area ty a n = - EFAULT"
  by (simp add: verify_area_def)

text \<open>Copies of adjacent pieces, and reading back what was copied out.\<close>

lemma memcpy_tofs_append:
  "memcpy_tofs a (xs @ ys) m = memcpy_tofs (a + of_nat (length xs)) ys (memcpy_tofs a xs m)"
  by (induction xs arbitrary: a m) (simp_all add: add.assoc)

lemma memcpy_fromfs_append:
  "memcpy_fromfs m a (n + k) = memcpy_fromfs m a n @ memcpy_fromfs m (a + of_nat n) k"
  by (induction m a n rule: memcpy_fromfs.induct) (simp_all add: add.assoc)

lemma memcpy_tofs_other:
  assumes "\<forall>i<length bs. a + of_nat i \<noteq> b"
  shows "memcpy_tofs a bs m b = m b"
  using assms
proof (induction bs arbitrary: a m)
  case (Cons x bs)
  have "\<forall>i<length bs. a + 1 + of_nat i \<noteq> b" using Cons.prems by (auto simp: add.assoc dest: spec [of _ "Suc _"])
  moreover have "a \<noteq> b" using Cons.prems by (auto dest: spec [of _ 0])
  ultimately show ?case using Cons.IH by simp
qed simp

lemma memcpy_fromto:
  assumes "length bs < 2 ^ 32"
  shows "memcpy_fromfs (memcpy_tofs a bs m) a (length bs) = bs"
  using assms
proof (induction bs arbitrary: a m)
  case (Cons x bs)
  have "a + 1 + of_nat i \<noteq> a" if "i < length bs" for i
  proof
    assume "a + 1 + of_nat i = a"
    then have "of_nat (Suc i) = (0 :: u32)" by (simp add: add.assoc)
    then have "unat (of_nat (Suc i) :: u32) = 0" by (simp only: unat_0)
    then show False using that Cons.prems by (simp add: unat_of_nat del: of_nat_Suc)
  qed
  then have "memcpy_tofs (a + 1) bs (m(a := x)) a = x" by (subst memcpy_tofs_other) auto
  then show ?case using Cons.IH [of "a + 1"] Cons.prems by simp
qed simp

end
