(* ===== verification/Task.thy ===== *)
theory Task
  imports Uaccess
begin

text \<open>
  The process table of \<^verbatim>\<open>include/linux/sched.h\<close>: the task structure (the fields the modelled code
  reads or writes), the kernel's global state, and the links every task is on: the circular
  list through \<open>next_task\<close>/\<open>prev_task\<close> that \<open>for_each_task\<close> walks, and the family links
  (\<open>p_pptr\<close>, \<open>p_cptr\<close>, \<open>p_ysptr\<close>, \<open>p_osptr\<close>). A task pointer is an address in the map
  \<open>tasks\<close>; \<open>init_task\<close> is address 0.

  The lemmas show that the pointer operations implement list operations: the ring is the list
  of all tasks, \<open>SET_LINKS\<close> appends to it and \<open>REMOVE_LINKS\<close> deletes from it, and the sibling
  chain of a parent is its list of children, youngest first.
\<close>

section \<open>Data\<close>

type_synonym tptr = nat

abbreviation (input) init_task :: tptr where "init_task \<equiv> 0"
abbreviation (input) NR_TASKS :: nat where "NR_TASKS \<equiv> 64"
abbreviation (input) NGROUPS :: nat where "NGROUPS \<equiv> 32"
abbreviation (input) NOGROUP :: int where "NOGROUP \<equiv> - 1"
abbreviation (input) HZ :: u32 where "HZ \<equiv> 100"

datatype task_state =
  TASK_RUNNING | TASK_INTERRUPTIBLE | TASK_UNINTERRUPTIBLE | TASK_ZOMBIE | TASK_STOPPED | TASK_SWAPPING

abbreviation (input) PF_PTRACED :: u32 where "PF_PTRACED \<equiv> 0x10"
abbreviation (input) PF_TRACESYS :: u32 where "PF_TRACESYS \<equiv> 0x20"

record rlimit =
  rlim_cur :: int
  rlim_max :: int

record sigaction =
  sa_handler :: u32
  sa_mask :: u32
  sa_flags :: u32
  sa_restorer :: u32

record task_struct =
  state :: task_state
  counter :: int
  priority :: int
  signal :: u32
  blocked :: u32
  flags :: u32
  next_task :: tptr
  prev_task :: tptr
  sigaction :: "sigaction list"
  exit_code :: int
  exit_signal :: int
  pid :: int
  pgrp :: int
  session :: int
  leader :: bool
  groups :: "int list"
  p_opptr :: tptr
  p_pptr :: tptr
  p_cptr :: "tptr option"
  p_ysptr :: "tptr option"
  p_osptr :: "tptr option"
  wait_chldexit :: "tptr list"
  uid :: u16
  euid :: u16
  suid :: u16
  gid :: u16
  egid :: u16
  sgid :: u16
  timeout :: u32
  it_real_value :: u32
  it_prof_value :: u32
  it_virt_value :: u32
  it_real_incr :: u32
  it_prof_incr :: u32
  it_virt_incr :: u32
  utime :: int
  stime :: int
  cutime :: int
  cstime :: int
  start_time :: int
  min_flt :: u32
  maj_flt :: u32
  cmin_flt :: u32
  cmaj_flt :: u32
  rlim :: "rlimit list"
  rss :: u16
  tty :: int
  umask :: u16
  io_bitmap :: "u32 list"

type_synonym heap = "tptr \<Rightarrow> task_struct"

text \<open>The global variables of the process core, and the memory of the running process.\<close>

record kernel =
  tasks :: heap
  task :: "tptr option list"
  current :: tptr
  need_resched :: bool
  jiffies :: u32
  last_pid :: int
  startup_time :: u32
  jiffies_offset :: int
  tz_minuteswest :: int
  tz_dsttime :: int
  settime_first :: bool
  C_A_D :: bool
  hard_reset :: bool
  nodename :: "u8 list"
  domainname :: "u8 list"
  umem :: umem

section \<open>Macros\<close>

abbreviation cur :: "kernel \<Rightarrow> task_struct" where
  "cur k \<equiv> tasks k (current k)"

definition upd_task :: "tptr \<Rightarrow> (task_struct \<Rightarrow> task_struct) \<Rightarrow> kernel \<Rightarrow> kernel" where
  "upd_task p f k = k\<lparr>tasks := (tasks k)(p := f (tasks k p))\<rparr>"

abbreviation set_cur :: "(task_struct \<Rightarrow> task_struct) \<Rightarrow> kernel \<Rightarrow> kernel" where
  "set_cur f k \<equiv> upd_task (current k) f k"

definition suser :: "kernel \<Rightarrow> bool" where
  "suser k \<longleftrightarrow> euid (cur k) = 0"

definition signal_pending :: "kernel \<Rightarrow> bool" where
  "signal_pending k \<longleftrightarrow> signal (cur k) AND NOT (blocked (cur k)) \<noteq> 0"

text \<open>\<open>CURRENT_TIME\<close>\<close>

definition current_time :: "kernel \<Rightarrow> u32" where
  "current_time k = startup_time k + (jiffies k + word_of_int (jiffies_offset k)) div HZ"

text \<open>\<open>for_each_task\<close>: the addresses the loop visits, in order. The modelled loop bodies never
  write \<open>next_task\<close>, so the list can be taken before the loop. The fuel is the size of the
  task table.\<close>

fun walk_tasks :: "nat \<Rightarrow> heap \<Rightarrow> tptr \<Rightarrow> tptr list" where
  "walk_tasks 0 h p = []"
| "walk_tasks (Suc n) h p = (if p = init_task then [] else p # walk_tasks n h (next_task (h p)))"

definition for_each_task :: "kernel \<Rightarrow> tptr list" where
  "for_each_task k = walk_tasks NR_TASKS (tasks k) (next_task (tasks k init_task))"

text \<open>A store through a task pointer, \<open>p->field = value\<close>. The two link macros are split into
  the part on the ring pointers (under \<open>cli\<close>) and the part on the family pointers.\<close>

definition hupd :: "tptr \<Rightarrow> (task_struct \<Rightarrow> task_struct) \<Rightarrow> heap \<Rightarrow> heap" where
  "hupd p f h = h(p := f (h p))"

definition remove_ring :: "tptr \<Rightarrow> heap \<Rightarrow> heap" where
  "remove_ring p h =
     (let h = hupd (next_task (h p)) (\<lambda>t. t\<lparr>prev_task := prev_task (h p)\<rparr>) h
      in hupd (prev_task (h p)) (\<lambda>t. t\<lparr>next_task := next_task (h p)\<rparr>) h)"

definition remove_family :: "tptr \<Rightarrow> heap \<Rightarrow> heap" where
  "remove_family p h =
     (let h = (case p_osptr (h p) of None \<Rightarrow> h
               | Some os \<Rightarrow> hupd os (\<lambda>t. t\<lparr>p_ysptr := p_ysptr (h p)\<rparr>) h)
      in case p_ysptr (h p) of
           Some ys \<Rightarrow> hupd ys (\<lambda>t. t\<lparr>p_osptr := p_osptr (h p)\<rparr>) h
         | None \<Rightarrow> hupd (p_pptr (h p)) (\<lambda>t. t\<lparr>p_cptr := p_osptr (h p)\<rparr>) h)"

definition REMOVE_LINKS :: "tptr \<Rightarrow> heap \<Rightarrow> heap" where
  "REMOVE_LINKS p h = remove_family p (remove_ring p h)"

definition set_ring :: "tptr \<Rightarrow> heap \<Rightarrow> heap" where
  "set_ring p h =
     (let h = hupd p (\<lambda>t. t\<lparr>next_task := init_task\<rparr>) h;
          h = hupd p (\<lambda>t. t\<lparr>prev_task := prev_task (h init_task)\<rparr>) h;
          h = hupd (prev_task (h init_task)) (\<lambda>t. t\<lparr>next_task := p\<rparr>) h
      in hupd init_task (\<lambda>t. t\<lparr>prev_task := p\<rparr>) h)"

definition set_family :: "tptr \<Rightarrow> heap \<Rightarrow> heap" where
  "set_family p h =
     (let h = hupd p (\<lambda>t. t\<lparr>p_ysptr := None\<rparr>) h;
          h = hupd p (\<lambda>t. t\<lparr>p_osptr := p_cptr (h (p_pptr (h p)))\<rparr>) h;
          h = (case p_osptr (h p) of None \<Rightarrow> h | Some os \<Rightarrow> hupd os (\<lambda>t. t\<lparr>p_ysptr := Some p\<rparr>) h)
      in hupd (p_pptr (h p)) (\<lambda>t. t\<lparr>p_cptr := Some p\<rparr>) h)"

definition SET_LINKS :: "tptr \<Rightarrow> heap \<Rightarrow> heap" where
  "SET_LINKS p h = set_family p (set_ring p h)"

section \<open>Frame rules\<close>

lemma upd_task_simps [simp]:
  "tasks (upd_task p f k) q = (if q = p then f (tasks k p) else tasks k q)"
  "current (upd_task p f k) = current k"
  "task (upd_task p f k) = task k"
  "jiffies (upd_task p f k) = jiffies k"
  "need_resched (upd_task p f k) = need_resched k"
  "umem (upd_task p f k) = umem k"
  "last_pid (upd_task p f k) = last_pid k"
  "startup_time (upd_task p f k) = startup_time k"
  "jiffies_offset (upd_task p f k) = jiffies_offset k"
  by (simp_all add: upd_task_def)

lemma upd_task_tasks: "tasks (upd_task p f k) = (tasks k)(p := f (tasks k p))"
  by (simp add: upd_task_def)

section \<open>The task ring\<close>

text \<open>\<open>chain h a xs b\<close>: from \<open>a\<close> the \<open>next_task\<close> pointers lead through \<open>xs\<close> to \<open>b\<close>, and the
  \<open>prev_task\<close> pointers lead back.\<close>

fun chain :: "heap \<Rightarrow> tptr \<Rightarrow> tptr list \<Rightarrow> tptr \<Rightarrow> bool" where
  "chain h a [] b \<longleftrightarrow> next_task (h a) = b \<and> prev_task (h b) = a"
| "chain h a (x # xs) b \<longleftrightarrow> next_task (h a) = x \<and> prev_task (h x) = a \<and> chain h x xs b"

definition ring :: "heap \<Rightarrow> tptr list \<Rightarrow> bool" where
  "ring h xs \<longleftrightarrow> distinct (init_task # xs) \<and> chain h init_task xs init_task"

lemma chain_append:
  "chain h a (xs @ y # ys) b \<longleftrightarrow> chain h a xs y \<and> chain h y ys b"
  by (induction h a xs y rule: chain.induct) auto

lemma chain_cong:
  "(\<And>p. p \<in> insert a (set xs) \<Longrightarrow> next_task (h' p) = next_task (h p)) \<Longrightarrow>
   (\<And>p. p \<in> insert b (set xs) \<Longrightarrow> prev_task (h' p) = prev_task (h p)) \<Longrightarrow>
   chain h' a xs b = chain h a xs b"
  by (induction h a xs b rule: chain.induct) auto

lemma chain_last: "chain h a xs b \<Longrightarrow> prev_task (h b) = (if xs = [] then a else last xs)"
  by (induction h a xs b rule: chain.induct) auto

lemma walk_tasks_chain:
  "chain h a xs init_task \<Longrightarrow> init_task \<notin> set xs \<Longrightarrow> length xs \<le> n \<Longrightarrow> walk_tasks n h (next_task (h a)) = xs"
proof (induction xs arbitrary: a n)
  case Nil
  then show ?case by (cases n) auto
next
  case (Cons x xs)
  then obtain m where "n = Suc m" by (cases n) auto
  with Cons show ?case by auto
qed

lemma for_each_task_ring: "ring (tasks k) xs \<Longrightarrow> length xs \<le> NR_TASKS \<Longrightarrow> for_each_task k = xs"
  by (auto simp: for_each_task_def ring_def intro: walk_tasks_chain)

lemma ring_cong:
  "(\<And>p. next_task (h' p) = next_task (h p)) \<Longrightarrow> (\<And>p. prev_task (h' p) = prev_task (h p)) \<Longrightarrow> ring h' xs = ring h xs"
  unfolding ring_def using chain_cong [of init_task xs h' h init_task] by auto

lemma hupd_apply: "hupd p f h q = (if q = p then f (h p) else h q)"
  by (simp add: hupd_def)

lemma ring_fields_family [simp]:
  "next_task (set_family p h q) = next_task (h q)" "prev_task (set_family p h q) = prev_task (h q)"
  "next_task (remove_family p h q) = next_task (h q)" "prev_task (remove_family p h q) = prev_task (h q)"
  by (simp_all add: set_family_def remove_family_def Let_def hupd_apply split: option.splits)

lemma set_ring_fields:
  assumes "p \<noteq> init_task"
  shows "next_task (SET_LINKS p h q) =
      (if q = prev_task (h init_task) then p else if q = p then init_task else next_task (h q))"
    "prev_task (SET_LINKS p h q) =
      (if q = init_task then p else if q = p then prev_task (h init_task) else prev_task (h q))"
  using assms by (simp_all add: SET_LINKS_def set_ring_def Let_def hupd_apply)

lemma remove_ring_fields:
  assumes "next_task (h p) \<noteq> p"
  shows "next_task (REMOVE_LINKS p h q) = (if q = prev_task (h p) then next_task (h p) else next_task (h q))"
    "prev_task (REMOVE_LINKS p h q) = (if q = next_task (h p) then prev_task (h p) else prev_task (h q))"
  using assms by (simp_all add: REMOVE_LINKS_def remove_ring_def Let_def hupd_apply)

lemma ring_SET_LINKS:
  assumes "ring h xs" "p \<noteq> init_task" "p \<notin> set xs"
  shows "ring (SET_LINKS p h) (xs @ [p])"
proof -
  let ?h = "SET_LINKS p h"
  define l where "l = (if xs = [] then init_task else last xs)"
  have d: "distinct xs" "init_task \<notin> set xs" and c: "chain h init_task xs init_task"
    using assms(1) by (auto simp: ring_def)
  have pv: "prev_task (h init_task) = l" using chain_last [OF c] by (simp add: l_def)
  have nx: "next_task (?h q) = (if q = l then p else if q = p then init_task else next_task (h q))" for q
    using set_ring_fields(1) [OF assms(2)] pv by simp
  have pr: "prev_task (?h q) = (if q = init_task then p else if q = p then l else prev_task (h q))" for q
    using set_ring_fields(2) [OF assms(2)] pv by simp
  have lp: "l \<noteq> p" using assms(2,3) last_in_set by (auto simp: l_def)
  have "chain ?h init_task xs p"
  proof (cases xs rule: rev_cases)
    case Nil
    then show ?thesis using assms(2) by (simp add: nx pr l_def)
  next
    case (snoc ys y)
    then have l: "l = y" and y: "y \<notin> set ys" "y \<noteq> init_task" "y \<noteq> p" "p \<notin> set ys" "init_task \<notin> set ys"
      using d assms(3) by (auto simp: l_def)
    from c snoc have "chain h init_task ys y" by (simp add: chain_append)
    then have "chain ?h init_task ys y"
      using y assms(2) l by (subst chain_cong [where h = h]) (auto simp: nx pr)
    then show ?thesis using y l lp assms(2) by (simp add: snoc chain_append nx pr)
  qed
  moreover have "chain ?h p [] init_task" using lp by (simp add: nx pr)
  ultimately show ?thesis using d assms(2,3) by (simp add: ring_def chain_append)
qed

lemma ring_REMOVE_LINKS:
  assumes "ring h xs" "p \<in> set xs"
  shows "ring (REMOVE_LINKS p h) (remove1 p xs)"
proof -
  let ?h = "REMOVE_LINKS p h"
  from assms(2) obtain ys zs where xs: "xs = ys @ p # zs" by (meson split_list)
  have d: "distinct xs" "init_task \<notin> set xs" and c: "chain h init_task ys p" "chain h p zs init_task"
    using assms(1) by (auto simp: ring_def xs chain_append)
  define a where "a = (if ys = [] then init_task else last ys)"
  define b where "b = (case zs of [] \<Rightarrow> init_task | z # _ \<Rightarrow> z)"
  have pv: "prev_task (h p) = a" using chain_last [OF c(1)] by (simp add: a_def)
  have nxp: "next_task (h p) = b" using c(2) by (cases zs) (auto simp: b_def)
  have bp: "b \<noteq> p" using d by (auto simp: b_def xs split: list.splits)
  have nx: "next_task (?h q) = (if q = a then b else next_task (h q))" for q
    using remove_ring_fields(1) [of h p q] nxp pv bp by simp
  have pr: "prev_task (?h q) = (if q = b then a else prev_task (h q))" for q
    using remove_ring_fields(2) [of h p q] nxp pv bp by simp
  have left: "chain ?h init_task ys b"
  proof (cases ys rule: rev_cases)
    case Nil
    then show ?thesis by (simp add: nx pr a_def)
  next
    case (snoc us u)
    then have "a = u" "u \<notin> set us" "u \<noteq> init_task" "b \<notin> set us" "b \<noteq> u" "init_task \<notin> set us"
      using d by (auto simp: a_def b_def xs split: list.splits)
    moreover from c(1) snoc have "chain h init_task us u" by (simp add: chain_append)
    ultimately have "chain ?h init_task us u"
      by (subst chain_cong [where h = h]) (auto simp: nx pr)
    then show ?thesis by (simp add: snoc chain_append nx pr \<open>a = u\<close>)
  qed
  show ?thesis
  proof (cases zs)
    case Nil
    then show ?thesis using left d by (simp add: ring_def xs b_def remove1_append)
  next
    case (Cons z ws)
    have "a \<notin> set zs"
    proof (cases "ys = []")
      case False
      then have "a \<in> set ys" by (simp add: a_def)
      moreover have "set ys \<inter> set zs = {}" using d by (simp add: xs)
      ultimately show ?thesis by blast
    qed (use d in \<open>simp add: a_def xs\<close>)
    moreover have "b = z" "z \<notin> set ws" "z \<noteq> init_task"
      using d Cons by (auto simp: b_def xs)
    ultimately have "chain ?h z ws init_task = chain h z ws init_task"
      using Cons by (intro chain_cong) (auto simp: nx pr)
    with c(2) Cons \<open>b = z\<close> show ?thesis using left d by (simp add: ring_def xs remove1_append chain_append)
  qed
qed

section \<open>The family tree\<close>

fun hd_opt :: "'a list \<Rightarrow> 'a option" where
  "hd_opt [] = None"
| "hd_opt (x # _) = Some x"

text \<open>\<open>sibs h y cs z\<close>: the tasks \<open>cs\<close>, youngest first, are linked to each other; the first has the
  younger sibling \<open>y\<close>, the last the older sibling \<open>z\<close>.\<close>

fun sibs :: "heap \<Rightarrow> tptr option \<Rightarrow> tptr list \<Rightarrow> tptr option \<Rightarrow> bool" where
  "sibs h y [] z \<longleftrightarrow> True"
| "sibs h y (c # cs) z \<longleftrightarrow>
     p_ysptr (h c) = y \<and> p_osptr (h c) = (if cs = [] then z else hd_opt cs) \<and> sibs h (Some c) cs z"

definition children :: "heap \<Rightarrow> tptr \<Rightarrow> tptr list \<Rightarrow> bool" where
  "children h q cs \<longleftrightarrow> distinct cs \<and> p_cptr (h q) = hd_opt cs \<and> sibs h None cs None \<and> (\<forall>c\<in>set cs. p_pptr (h c) = q)"

text \<open>The ring and every list of children together: \<open>xs\<close> are the tasks, \<open>fam q\<close> the children of \<open>q\<close>.\<close>

definition proc_links :: "heap \<Rightarrow> tptr list \<Rightarrow> (tptr \<Rightarrow> tptr list) \<Rightarrow> bool" where
  "proc_links h xs fam \<longleftrightarrow>
     ring h xs \<and> (\<forall>q. children h q (fam q) \<and> set (fam q) = {c \<in> set xs. p_pptr (h c) = q})"

text \<open>The sibling walk of \<open>wait4\<close> and \<open>do_exit\<close>.\<close>

fun walk_sibs :: "nat \<Rightarrow> heap \<Rightarrow> tptr option \<Rightarrow> tptr list" where
  "walk_sibs 0 h p = []"
| "walk_sibs (Suc n) h p = (case p of None \<Rightarrow> [] | Some c \<Rightarrow> c # walk_sibs n h (p_osptr (h c)))"

lemma hd_opt_append: "hd_opt (as @ bs) = (if as = [] then hd_opt bs else hd_opt as)"
  by (cases as) auto

lemma sibs_append:
  "sibs h y (as @ bs) z \<longleftrightarrow>
     sibs h y as (if bs = [] then z else hd_opt bs) \<and> sibs h (if as = [] then y else Some (last as)) bs z"
  by (induction as arbitrary: y) (simp_all add: hd_opt_append)

lemma sibs_cong:
  "(\<And>c. c \<in> set cs \<Longrightarrow> p_ysptr (h' c) = p_ysptr (h c) \<and> p_osptr (h' c) = p_osptr (h c)) \<Longrightarrow>
   sibs h' y cs z = sibs h y cs z"
  by (induction cs arbitrary: y) auto

lemma walk_sibs_eq: "sibs h y cs None \<Longrightarrow> length cs \<le> n \<Longrightarrow> walk_sibs n h (hd_opt cs) = cs"
proof (induction cs arbitrary: y n)
  case Nil
  then show ?case by (cases n) auto
next
  case (Cons c cs)
  then obtain m where "n = Suc m" by (cases n) auto
  with Cons show ?case by (cases cs) auto
qed

lemma family_fields_ring [simp]:
  "p_ysptr (set_ring p h q) = p_ysptr (h q)" "p_osptr (set_ring p h q) = p_osptr (h q)"
  "p_cptr (set_ring p h q) = p_cptr (h q)" "p_pptr (set_ring p h q) = p_pptr (h q)"
  "p_ysptr (remove_ring p h q) = p_ysptr (h q)" "p_osptr (remove_ring p h q) = p_osptr (h q)"
  "p_cptr (remove_ring p h q) = p_cptr (h q)" "p_pptr (remove_ring p h q) = p_pptr (h q)"
  by (simp_all add: set_ring_def remove_ring_def Let_def hupd_apply)

lemma SET_LINKS_family:
  "p_pptr (SET_LINKS p h x) = p_pptr (h x)"
  "p_cptr (SET_LINKS p h x) = (if x = p_pptr (h p) then Some p else p_cptr (h x))"
  "p_osptr (SET_LINKS p h x) = (if x = p then p_cptr (h (p_pptr (h p))) else p_osptr (h x))"
  "p_ysptr (SET_LINKS p h x) = (if Some x = p_cptr (h (p_pptr (h p))) then Some p else if x = p then None else p_ysptr (h x))"
  by (auto simp: SET_LINKS_def set_family_def Let_def hupd_apply split: option.splits)

lemma REMOVE_LINKS_family:
  assumes "p_osptr (h p) \<noteq> Some p" "p_ysptr (h p) \<noteq> Some p"
  shows "p_pptr (REMOVE_LINKS p h x) = p_pptr (h x)"
  "p_cptr (REMOVE_LINKS p h x) = (if p_ysptr (h p) = None \<and> x = p_pptr (h p) then p_osptr (h p) else p_cptr (h x))"
  "p_osptr (REMOVE_LINKS p h x) = (if Some x = p_ysptr (h p) then p_osptr (h p) else p_osptr (h x))"
  "p_ysptr (REMOVE_LINKS p h x) = (if Some x = p_osptr (h p) then p_ysptr (h p) else p_ysptr (h x))"
  using assms by (auto simp: REMOVE_LINKS_def remove_family_def Let_def hupd_apply split: option.splits)

lemma hd_opt_in: "hd_opt cs = Some c \<Longrightarrow> c \<in> set cs"
  by (cases cs) auto

lemma children_SET_LINKS_parent:
  assumes "children h (p_pptr (h p)) cs" "p \<notin> set cs"
  shows "children (SET_LINKS p h) (p_pptr (h p)) (p # cs)"
proof -
  let ?q = "p_pptr (h p)" and ?h = "SET_LINKS p h"
  have c: "distinct cs" "p_cptr (h ?q) = hd_opt cs" "sibs h None cs None" "\<forall>c\<in>set cs. p_pptr (h c) = ?q"
    using assms(1) by (auto simp: children_def)
  have "sibs ?h (Some p) cs None"
  proof (cases cs)
    case (Cons d ds)
    then have "sibs ?h (Some d) ds None = sibs h (Some d) ds None"
      using c assms(2) by (intro sibs_cong) (auto simp: SET_LINKS_family)
    then show ?thesis using Cons c assms(2) by (simp add: SET_LINKS_family)
  qed simp
  moreover have "hd_opt cs \<noteq> Some p" using hd_opt_in [of cs p] assms(2) by blast
  ultimately show ?thesis
    using c assms(2) by (simp add: children_def SET_LINKS_family)
qed

lemma children_SET_LINKS_other:
  assumes "children h q cs" "p \<notin> set cs" "q \<noteq> p_pptr (h p)" "\<And>c. p_cptr (h (p_pptr (h p))) = Some c \<Longrightarrow> c \<notin> set cs"
  shows "children (SET_LINKS p h) q cs"
proof -
  have "sibs (SET_LINKS p h) None cs None = sibs h None cs None"
    using assms by (intro sibs_cong) (auto simp: SET_LINKS_family)
  then show ?thesis using assms by (auto simp: children_def SET_LINKS_family)
qed

lemma proc_links_SET_LINKS:
  assumes "proc_links h xs fam" "p \<noteq> init_task" "p \<notin> set xs"
  shows "proc_links (SET_LINKS p h) (xs @ [p]) (fam(p_pptr (h p) := p # fam (p_pptr (h p))))"
proof -
  let ?q = "p_pptr (h p)"
  have r: "ring h xs" and c: "\<And>q. children h q (fam q)" and f: "\<And>q. set (fam q) = {c \<in> set xs. p_pptr (h c) = q}"
    using assms(1) by (auto simp: proc_links_def)
  have hd: "p_cptr (h ?q) = Some d \<Longrightarrow> d \<in> set (fam ?q)" for d
    using c [of ?q] hd_opt_in [of "fam ?q" d] by (simp add: children_def)
  have "children (SET_LINKS p h) q ((fam(?q := p # fam ?q)) q)" for q
  proof (cases "q = ?q")
    case True
    then show ?thesis using children_SET_LINKS_parent [OF c] f assms(3) by auto
  next
    case False
    moreover have "d \<notin> set (fam q)" if "p_cptr (h ?q) = Some d" for d
      using hd [OF that] False f by auto
    ultimately show ?thesis using children_SET_LINKS_other [OF c [of q]] f assms(3) by auto
  qed
  moreover have "set ((fam(?q := p # fam ?q)) q) = {c \<in> set (xs @ [p]). p_pptr (SET_LINKS p h c) = q}" for q
    using f by (auto simp: SET_LINKS_family)
  ultimately show ?thesis
    using ring_SET_LINKS [OF r assms(2,3)] by (auto simp: proc_links_def)
qed

lemma sibs_member:
  assumes "sibs h y cs z" "p \<in> set cs" "distinct cs" "y \<noteq> Some p" "z \<noteq> Some p"
  shows "p_ysptr (h p) \<noteq> Some p \<and> p_osptr (h p) \<noteq> Some p"
  using assms
proof (induction cs arbitrary: y)
  case (Cons c cs)
  show ?case
  proof (cases "p = c")
    case True
    with Cons.prems show ?thesis using hd_opt_in [of cs c] by auto
  next
    case False
    with Cons show ?thesis by auto
  qed
qed simp

lemma sibs_split:
  assumes "sibs h None (as @ p # bs) None"
  shows "p_ysptr (h p) = (if as = [] then None else Some (last as))" "p_osptr (h p) = hd_opt bs"
  using assms by (auto simp: sibs_append)

lemma children_REMOVE_LINKS_parent:
  assumes "children h q cs" "p \<in> set cs"
  shows "children (REMOVE_LINKS p h) q (remove1 p cs)"
proof -
  let ?h = "REMOVE_LINKS p h"
  have c: "distinct cs" "p_cptr (h q) = hd_opt cs" "sibs h None cs None" "\<forall>c\<in>set cs. p_pptr (h c) = q"
    using assms(1) by (auto simp: children_def)
  have ne: "p_osptr (h p) \<noteq> Some p" "p_ysptr (h p) \<noteq> Some p" "p_pptr (h p) = q"
    using sibs_member [OF c(3) assms(2) c(1)] c(4) assms(2) by auto
  note F = REMOVE_LINKS_family [of h p, OF ne(1,2)]
  obtain as bs where cs: "cs = as @ p # bs" using assms(2) by (meson split_list)
  note S = sibs_split [OF c(3) [unfolded cs]]
  have d: "p \<notin> set as" "p \<notin> set bs" "distinct (as @ bs)" "set as \<inter> set bs = {}" using c(1) by (auto simp: cs)
  have A: "sibs ?h None as (hd_opt bs)"
  proof (cases as rule: rev_cases)
    case (snoc us u)
    have "sibs h None us (Some u)" using c(3) snoc by (auto simp: cs sibs_append)
    moreover have "sibs ?h None us (Some u) = sibs h None us (Some u)"
      using d snoc hd_opt_in [of bs] by (intro sibs_cong) (auto simp: F S)
    moreover have "p_ysptr (h u) = (if us = [] then None else Some (last us))"
      using c(3) snoc by (auto simp: cs sibs_append)
    moreover have "hd_opt bs \<noteq> Some u" using hd_opt_in [of bs u] d snoc by auto
    ultimately show ?thesis using snoc by (auto simp: sibs_append F S)
  qed simp
  have B: "sibs ?h (if as = [] then None else Some (last as)) bs None"
  proof (cases bs)
    case (Cons b cs')
    have la: "as \<noteq> [] \<Longrightarrow> last as \<notin> set bs" using d last_in_set by fastforce
    have "sibs h (Some b) cs' None" "p_osptr (h b) = (if cs' = [] then None else hd_opt cs')"
      using c(3) Cons by (auto simp: cs sibs_append)
    moreover have "sibs ?h (Some b) cs' None = sibs h (Some b) cs' None"
      using d la Cons by (intro sibs_cong) (auto simp: F S)
    ultimately show ?thesis using Cons la by (auto simp: F S)
  qed simp
  have "remove1 p cs = as @ bs" using d by (simp add: cs remove1_append)
  moreover have "p_cptr (?h q) = hd_opt (as @ bs)"
    using c(2) ne(3) by (cases as) (auto simp: F S cs)
  ultimately show ?thesis
    using A B d c(4) by (cases "bs = []") (auto simp: children_def sibs_append F cs)
qed

lemma children_REMOVE_LINKS_other:
  assumes "children h q cs" "p \<in> set ds" "children h r ds" "r \<noteq> q" "set cs \<inter> set ds = {}"
  shows "children (REMOVE_LINKS p h) q cs"
proof -
  have r: "distinct ds" "sibs h None ds None" "p_pptr (h p) = r" using assms(2,3) by (auto simp: children_def)
  have ne: "p_osptr (h p) \<noteq> Some p" "p_ysptr (h p) \<noteq> Some p"
    using sibs_member [OF r(2) assms(2) r(1)] by auto
  note F = REMOVE_LINKS_family [of h p, OF ne]
  obtain as bs where ds: "ds = as @ p # bs" using assms(2) by (meson split_list)
  note S = sibs_split [OF r(2) [unfolded ds]]
  have "Some c \<noteq> p_osptr (h p) \<and> Some c \<noteq> p_ysptr (h p)" if "c \<in> set cs" for c
    using that assms(5) hd_opt_in [of bs c] last_in_set [of as] by (auto simp: S ds)
  then have "sibs (REMOVE_LINKS p h) None cs None = sibs h None cs None"
    by (intro sibs_cong) (auto simp: F)
  then show ?thesis using assms(1,4) r(3) by (auto simp: children_def F)
qed

lemma proc_links_REMOVE_LINKS:
  assumes "proc_links h xs fam" "p \<in> set xs"
  shows "proc_links (REMOVE_LINKS p h) (remove1 p xs) (fam(p_pptr (h p) := remove1 p (fam (p_pptr (h p)))))"
proof -
  let ?q = "p_pptr (h p)"
  have r: "ring h xs" and c: "\<And>q. children h q (fam q)" and f: "\<And>q. set (fam q) = {c \<in> set xs. p_pptr (h c) = q}"
    using assms(1) by (auto simp: proc_links_def)
  have p: "p \<in> set (fam ?q)" and d: "distinct xs" "\<And>q. distinct (fam q)"
    using f assms(2) r c by (auto simp: ring_def children_def)
  have "sibs h None (fam ?q) None" using c by (simp add: children_def)
  from sibs_member [OF this p d(2)] have ne: "p_osptr (h p) \<noteq> Some p" "p_ysptr (h p) \<noteq> Some p" by auto
  have "children (REMOVE_LINKS p h) q ((fam(?q := remove1 p (fam ?q))) q)" for q
  proof (cases "q = ?q")
    case True
    then show ?thesis using children_REMOVE_LINKS_parent [OF c p] by simp
  next
    case False
    then show ?thesis using children_REMOVE_LINKS_other [OF c [of q] p c] f by auto
  qed
  moreover have "set ((fam(?q := remove1 p (fam ?q))) q) = {c \<in> set (remove1 p xs). p_pptr (REMOVE_LINKS p h c) = q}" for q
    using f d by (auto simp: REMOVE_LINKS_family [of h p, OF ne] set_remove1_eq)
  ultimately show ?thesis
    using ring_REMOVE_LINKS [OF r assms(2)] by (auto simp: proc_links_def)
qed

end
