(* ===== verification/Waitq.thy ===== *)
theory Waitq
  imports Task
begin

text \<open>
  Wait queues. \<^verbatim>\<open>add_wait_queue\<close> and \<^verbatim>\<open>remove_wait_queue\<close> (\<^verbatim>\<open>include/linux/sched.h\<close>) work on circular
  singly linked lists of nodes that live on the sleepers' stacks; they are modelled on a heap of
  nodes, with a queue head that may be NULL, and shown to implement insertion into and deletion
  from a list. The interface locale states what the sleeping code relies on. \<^verbatim>\<open>wake_up\<close> and
  \<^verbatim>\<open>wake_up_interruptible\<close> (\<^verbatim>\<open>kernel/sched.c\<close>) then act on the list of sleeping tasks, in queue
  order.
\<close>

section \<open>Nodes and pointers\<close>

type_synonym wptr = nat

record wait_queue =
  wq_task :: tptr
  wq_next :: "wptr option"

record wstate =
  wheap :: "wptr \<Rightarrow> wait_queue"
  whead :: "wptr option"

definition wupd :: "wptr \<Rightarrow> (wait_queue \<Rightarrow> wait_queue) \<Rightarrow> wstate \<Rightarrow> wstate" where
  "wupd a f s = s\<lparr>wheap := (wheap s)(a := f (wheap s a))\<rparr>"

definition add_wait_queue :: "wptr \<Rightarrow> wstate \<Rightarrow> wstate" where
  "add_wait_queue wait s =
     (case whead s of
        None \<Rightarrow> (wupd wait (\<lambda>w. w\<lparr>wq_next := Some wait\<rparr>) s)\<lparr>whead := Some wait\<rparr>
      | Some p \<Rightarrow>
          let s = wupd wait (\<lambda>w. w\<lparr>wq_next := wq_next (wheap s p)\<rparr>) s
          in wupd p (\<lambda>w. w\<lparr>wq_next := Some wait\<rparr>) s)"

text \<open>The search \<open>while (tmp->next != wait) tmp = tmp->next;\<close>: \<open>None\<close> when it follows a NULL
  pointer or never returns.\<close>

partial_function (option) find_prev :: "(wptr \<Rightarrow> wait_queue) \<Rightarrow> wptr \<Rightarrow> wptr \<Rightarrow> wptr option" where
  "find_prev h wait tmp =
     (case wq_next (h tmp) of
        None \<Rightarrow> None
      | Some n \<Rightarrow> if n = wait then Some tmp else find_prev h wait n)"

definition remove_wait_queue :: "wptr \<Rightarrow> wstate \<Rightarrow> wstate option" where
  "remove_wait_queue wait s =
     (let athead = (whead s = Some wait);
          s = (if athead then s\<lparr>whead := wq_next (wheap s wait)\<rparr> else s)
      in if athead \<and> whead s = Some wait
         then Some (wupd wait (\<lambda>w. w\<lparr>wq_next := None\<rparr>) (s\<lparr>whead := None\<rparr>))
         else
           (case find_prev (wheap s) wait wait of
              None \<Rightarrow> None
            | Some tmp \<Rightarrow>
                let s = wupd tmp (\<lambda>w. w\<lparr>wq_next := wq_next (wheap s wait)\<rparr>) s
                in Some (wupd wait (\<lambda>w. w\<lparr>wq_next := None\<rparr>) s)))"

section \<open>Waking\<close>

definition wake_one :: "bool \<Rightarrow> tptr \<Rightarrow> kernel \<Rightarrow> kernel" where
  "wake_one unint p k =
     (if state (tasks k p) = TASK_INTERRUPTIBLE \<or> unint \<and> state (tasks k p) = TASK_UNINTERRUPTIBLE
      then
        let k = upd_task p (\<lambda>t. t\<lparr>state := TASK_RUNNING\<rparr>) k
        in if counter (tasks k p) > counter (cur k) then k\<lparr>need_resched := True\<rparr> else k
      else k)"

definition wake_up :: "tptr list \<Rightarrow> kernel \<Rightarrow> kernel" where
  "wake_up q k = fold (wake_one True) q k"

definition wake_up_interruptible :: "tptr list \<Rightarrow> kernel \<Rightarrow> kernel" where
  "wake_up_interruptible q k = fold (wake_one False) q k"

section \<open>The circular list\<close>

fun wchain :: "(wptr \<Rightarrow> wait_queue) \<Rightarrow> wptr \<Rightarrow> wptr list \<Rightarrow> wptr \<Rightarrow> bool" where
  "wchain h a [] b \<longleftrightarrow> wq_next (h a) = Some b"
| "wchain h a (x # xs) b \<longleftrightarrow> wq_next (h a) = Some x \<and> wchain h x xs b"

definition wq_repr :: "wstate \<Rightarrow> wptr list \<Rightarrow> bool" where
  "wq_repr s xs \<longleftrightarrow>
     (case xs of
        [] \<Rightarrow> whead s = None
      | x # ys \<Rightarrow> whead s = Some x \<and> distinct xs \<and> wchain (wheap s) x ys x)"

lemma wchain_append: "wchain h a (xs @ y # ys) b \<longleftrightarrow> wchain h a xs y \<and> wchain h y ys b"
  by (induction h a xs y rule: wchain.induct) auto

lemma wchain_cong: "(\<And>p. p \<in> insert a (set xs) \<Longrightarrow> wq_next (h' p) = wq_next (h p)) \<Longrightarrow> wchain h' a xs b = wchain h a xs b"
  by (induction h a xs b rule: wchain.induct) auto

lemma find_prev_chain:
  "wchain h a xs wait \<Longrightarrow> wait \<notin> set xs \<Longrightarrow> find_prev h wait a = Some (last (a # xs))"
proof (induction h a xs wait rule: wchain.induct)
  case (1 h a b)
  then show ?case by (subst find_prev.simps) simp
next
  case (2 h a x xs b)
  then show ?case by (subst find_prev.simps) auto
qed

lemma wupd_simps [simp]:
  "wheap (wupd a f s) q = (if q = a then f (wheap s a) else wheap s q)" "whead (wupd a f s) = whead s"
  by (simp_all add: wupd_def)

lemma add_wait_queue_repr:
  assumes "wq_repr s xs" "w \<notin> set xs"
  shows "wq_repr (add_wait_queue w s) (case xs of [] \<Rightarrow> [w] | x # ys \<Rightarrow> x # w # ys)"
proof (cases xs)
  case Nil
  then show ?thesis using assms by (simp add: wq_repr_def add_wait_queue_def)
next
  case (Cons x ys)
  have h: "whead s = Some x" "distinct (x # ys)" "wchain (wheap s) x ys x" "w \<noteq> x" "w \<notin> set ys"
    using assms Cons by (auto simp: wq_repr_def)
  let ?s = "add_wait_queue w s"
  have nx: "wq_next (wheap ?s q) = (if q = x then Some w else if q = w then wq_next (wheap s x) else wq_next (wheap s q))" for q
    using h by (auto simp: add_wait_queue_def Let_def)
  have "wchain (wheap ?s) w ys x"
  proof (cases ys)
    case Nil
    then show ?thesis using h by (simp add: nx)
  next
    case (Cons y zs)
    then have "wchain (wheap ?s) y zs x = wchain (wheap s) y zs x"
      using h by (intro wchain_cong) (auto simp: nx)
    then show ?thesis using Cons h by (simp add: nx)
  qed
  then have "wchain (wheap ?s) x (w # ys) x" using h by (simp add: nx)
  moreover have "whead ?s = Some x" using h by (simp add: add_wait_queue_def Let_def)
  ultimately show ?thesis using Cons h by (simp add: wq_repr_def)
qed

lemma remove_wait_queue_repr:
  assumes "wq_repr s xs" "w \<in> set xs"
  shows "\<exists>t. remove_wait_queue w s = Some t \<and> wq_repr t (remove1 w xs)"
proof (cases xs)
  case Nil
  then show ?thesis using assms by simp
next
  case (Cons x ys)
  have h: "whead s = Some x" "distinct (x # ys)" "wchain (wheap s) x ys x"
    using assms Cons by (auto simp: wq_repr_def)
  show ?thesis
  proof (cases "w = x")
    case True
    show ?thesis
    proof (cases ys)
      case Nil
      then show ?thesis using h True Cons by (auto simp: remove_wait_queue_def Let_def wq_repr_def)
    next
      case (Cons y zs)
      have c: "wchain (wheap s) y zs x" "wq_next (wheap s x) = Some y" using h Cons by simp_all
      let ?t = "last (x # ys)"
      have f: "find_prev (wheap s) x x = Some ?t" using h(2,3) by (intro find_prev_chain) auto
      have t: "?t = last (y # zs)" "?t \<noteq> x" "?t \<in> set ys" using Cons h(2) last_in_set [of ys] by auto
      let ?s' = "wupd x (\<lambda>n. n\<lparr>wq_next := None\<rparr>) (wupd ?t (\<lambda>n. n\<lparr>wq_next := Some y\<rparr>) (s\<lparr>whead := Some y\<rparr>))"
      have r: "remove_wait_queue w s = Some ?s'"
        using h f c t True Cons by (auto simp: remove_wait_queue_def Let_def)
      have "wchain (wheap ?s') y zs y"
      proof (cases zs rule: rev_cases)
        case Nil
        then show ?thesis using t h Cons by simp
      next
        case (snoc us u)
        have "wchain (wheap s) y us u" using c snoc by (simp add: wchain_append)
        moreover have "wchain (wheap ?s') y us u = wchain (wheap s) y us u"
          using h(2) Cons snoc t by (intro wchain_cong) auto
        ultimately show ?thesis using snoc t h Cons by (simp add: wchain_append)
      qed
      then show ?thesis using r True Cons h \<open>xs = x # ys\<close> by (simp add: wq_repr_def)
    qed
  next
    case False
    then have "w \<in> set ys" using assms Cons by simp
    then obtain as bs where ys: "ys = as @ w # bs" by (meson split_list)
    have c: "wchain (wheap s) x as w" "wchain (wheap s) w bs x" using h ys by (simp_all add: wchain_append)
    have full: "wchain (wheap s) w (bs @ x # as) w" using c by (simp add: wchain_append)
    let ?t = "last (w # (bs @ x # as))"
    have f: "find_prev (wheap s) w w = Some ?t"
      using h(2) ys False by (intro find_prev_chain [OF full]) auto
    have t: "?t = last (x # as)" by simp
    have tin: "?t \<in> insert x (set as)" using t last_in_set [of "x # as"] by simp
    have ne: "?t \<noteq> w" using tin h(2) ys False by auto
    obtain n where n: "wq_next (wheap s w) = Some n" "n = (case bs of [] \<Rightarrow> x | b # _ \<Rightarrow> b)"
      using c(2) by (cases bs) auto
    let ?s' = "wupd w (\<lambda>q. q\<lparr>wq_next := None\<rparr>) (wupd ?t (\<lambda>q. q\<lparr>wq_next := Some n\<rparr>) s)"
    have r: "remove_wait_queue w s = Some ?s'"
      using h f n False by (simp add: remove_wait_queue_def Let_def)
    have left: "wchain (wheap ?s') x as n"
    proof (cases as rule: rev_cases)
      case Nil
      then show ?thesis using t ne by simp
    next
      case (snoc us u)
      have "wchain (wheap s) x us u" using c snoc by (simp add: wchain_append)
      moreover have "wchain (wheap ?s') x us u = wchain (wheap s) x us u"
        using h(2) ys snoc t ne False by (intro wchain_cong) auto
      ultimately show ?thesis using snoc t ne by (simp add: wchain_append)
    qed
    have "wchain (wheap ?s') x (as @ bs) x"
    proof (cases bs)
      case Nil
      then show ?thesis using left n by simp
    next
      case (Cons b cs)
      have "wchain (wheap s) b cs x" using c Cons by simp
      moreover have "wchain (wheap ?s') b cs x = wchain (wheap s) b cs x"
        using h(2) ys Cons tin by (intro wchain_cong) auto
      ultimately show ?thesis using left n Cons by (simp add: wchain_append)
    qed
    moreover have "remove1 w xs = x # as @ bs" using \<open>xs = x # ys\<close> ys h(2) False by (auto simp: remove1_append)
    moreover have "whead ?s' = Some x" using h by simp
    ultimately show ?thesis using r h(2) ys by (auto simp: wq_repr_def)
  qed
qed

section \<open>The interface the sleeping code relies on\<close>

datatype 'w wop = Enter 'w | Leave 'w

fun wq_run :: "('w \<Rightarrow> 'q \<Rightarrow> 'q) \<Rightarrow> ('w \<Rightarrow> 'q \<Rightarrow> 'q option) \<Rightarrow> 'w wop list \<Rightarrow> 'q \<Rightarrow> 'q option" where
  "wq_run add remove [] q = Some q"
| "wq_run add remove (Enter w # ops) q = wq_run add remove ops (add w q)"
| "wq_run add remove (Leave w # ops) q =
     (case remove w q of None \<Rightarrow> None | Some q' \<Rightarrow> wq_run add remove ops q')"

text \<open>A node enters only while it is on no queue and leaves only while it is on this one.\<close>

fun wq_legal :: "'w set \<Rightarrow> 'w wop list \<Rightarrow> bool" where
  "wq_legal W [] \<longleftrightarrow> True"
| "wq_legal W (Enter w # ops) \<longleftrightarrow> w \<notin> W \<and> wq_legal (insert w W) ops"
| "wq_legal W (Leave w # ops) \<longleftrightarrow> w \<in> W \<and> wq_legal (W - {w}) ops"

fun wq_final :: "'w set \<Rightarrow> 'w wop list \<Rightarrow> 'w set" where
  "wq_final W [] = W"
| "wq_final W (Enter w # ops) = wq_final (insert w W) ops"
| "wq_final W (Leave w # ops) = wq_final (W - {w}) ops"

locale wait_queue_spec =
  fixes repr :: "'q \<Rightarrow> 'w list \<Rightarrow> bool"
    and add :: "'w \<Rightarrow> 'q \<Rightarrow> 'q"
    and remove :: "'w \<Rightarrow> 'q \<Rightarrow> 'q option"
  assumes repr_distinct: "repr q xs \<Longrightarrow> distinct xs"
    and add_repr: "repr q xs \<Longrightarrow> w \<notin> set xs \<Longrightarrow> \<exists>ys. repr (add w q) ys \<and> set ys = insert w (set xs)"
    and remove_repr: "repr q xs \<Longrightarrow> w \<in> set xs \<Longrightarrow> \<exists>t. remove w q = Some t \<and> repr t (remove1 w xs)"
begin

lemma run_repr:
  "repr q xs \<Longrightarrow> wq_legal (set xs) ops \<Longrightarrow>
     \<exists>t ys. wq_run add remove ops q = Some t \<and> repr t ys \<and> set ys = wq_final (set xs) ops"
proof (induction ops arbitrary: q xs)
  case Nil
  then show ?case by auto
next
  case (Cons op ops)
  show ?case
  proof (cases op)
    case (Enter w)
    then have w: "w \<notin> set xs" "wq_legal (insert w (set xs)) ops" using Cons.prems by auto
    from add_repr [OF Cons.prems(1) w(1)] obtain ys where "repr (add w q) ys" "set ys = insert w (set xs)" by blast
    with Cons.IH [of "add w q" ys] w(2) Enter show ?thesis by simp
  next
    case (Leave w)
    then have w: "w \<in> set xs" "wq_legal (set xs - {w}) ops" using Cons.prems by auto
    from remove_repr [OF Cons.prems(1) w(1)] obtain t where t: "remove w q = Some t" "repr t (remove1 w xs)" by blast
    have "set (remove1 w xs) = set xs - {w}" using repr_distinct [OF Cons.prems(1)] by (simp add: set_remove1_eq)
    with Cons.IH [OF t(2)] w(2) Leave t(1) show ?thesis by simp
  qed
qed

end

interpretation kwq: wait_queue_spec wq_repr add_wait_queue remove_wait_queue
proof
  fix q xs
  assume "wq_repr q xs"
  then show "distinct xs" by (auto simp: wq_repr_def split: list.splits)
next
  fix q xs and w :: wptr
  assume "wq_repr q xs" "w \<notin> set xs"
  from add_wait_queue_repr [OF this]
  show "\<exists>ys. wq_repr (add_wait_queue w q) ys \<and> set ys = insert w (set xs)"
    by (intro exI conjI, assumption) (auto split: list.splits)
qed (rule remove_wait_queue_repr)

text \<open>C26. Any interleaving of sleepers entering and leaving a wait queue keeps it a proper circular
  list of exactly the sleepers still on it; in particular every \<open>remove_wait_queue\<close> finds its node,
  so the search loop terminates and never follows a NULL pointer.\<close>

theorem wait_queue_interleavings:
  assumes "wq_repr s xs" and "wq_legal (set xs) ops"
  shows "\<exists>t ys. wq_run add_wait_queue remove_wait_queue ops s = Some t \<and> wq_repr t ys \<and>
    set ys = wq_final (set xs) ops"
  using assms by (rule kwq.run_repr)

theorem wait_queue_interleavings_witness:
  "\<exists>t ys. wq_run add_wait_queue remove_wait_queue [Enter 1, Enter 2, Enter 3, Leave 1, Leave 3]
     \<lparr>wheap = \<lambda>_. \<lparr>wq_task = 0, wq_next = None\<rparr>, whead = None\<rparr> = Some t \<and> wq_repr t ys \<and> set ys = {2}"
  using wait_queue_interleavings [of "\<lparr>wheap = \<lambda>_. \<lparr>wq_task = 0, wq_next = None\<rparr>, whead = None\<rparr>" "[]"
      "[Enter 1, Enter 2, Enter 3, Leave 1, Leave 3]"]
  by (simp add: wq_repr_def insert_Diff_if)

section \<open>What waking does\<close>

lemma wake_one_frame [simp]:
  "current (wake_one b p k) = current k" "task (wake_one b p k) = task k" "jiffies (wake_one b p k) = jiffies k"
  "umem (wake_one b p k) = umem k" "last_pid (wake_one b p k) = last_pid k"
  by (simp_all add: wake_one_def Let_def)

lemma wake_one_tasks:
  "tasks (wake_one b p k) q =
     (if q = p \<and> (state (tasks k p) = TASK_INTERRUPTIBLE \<or> b \<and> state (tasks k p) = TASK_UNINTERRUPTIBLE)
      then (tasks k q)\<lparr>state := TASK_RUNNING\<rparr> else tasks k q)"
  by (simp add: wake_one_def Let_def)

lemma fold_wake_one_frame:
  "current (fold (wake_one b) q k) = current k" "task (fold (wake_one b) q k) = task k"
  "jiffies (fold (wake_one b) q k) = jiffies k" "umem (fold (wake_one b) q k) = umem k"
  "last_pid (fold (wake_one b) q k) = last_pid k"
  by (induction q arbitrary: k) simp_all

lemma fold_wake_one_tasks:
  "tasks (fold (wake_one b) q k) p =
     (if p \<in> set q \<and> (state (tasks k p) = TASK_INTERRUPTIBLE \<or> b \<and> state (tasks k p) = TASK_UNINTERRUPTIBLE)
      then (tasks k p)\<lparr>state := TASK_RUNNING\<rparr> else tasks k p)"
  by (induction q arbitrary: k) (auto simp: wake_one_tasks)

lemmas wake_up_frame [simp] = fold_wake_one_frame [of True, folded wake_up_def]
lemmas wake_up_interruptible_frame [simp] = fold_wake_one_frame [of False, folded wake_up_interruptible_def]
lemmas wake_up_tasks = fold_wake_one_tasks [of True, folded wake_up_def]
lemmas wake_up_interruptible_tasks = fold_wake_one_tasks [of False, folded wake_up_interruptible_def]

end
