(* ===== verification/Signals.thy ===== *)
theory Signals
  imports Waitq
begin

text \<open>
  Sending signals (\<^verbatim>\<open>kernel/exit.c\<close>: \<open>generate\<close>, \<open>send_sig\<close>, \<open>notify_parent\<close>, the \<open>kill\<close> family and
  the job-control queries) and the per-process signal state the system calls of
  \<^verbatim>\<open>kernel/signal.c\<close> change (the blocked mask and the table of actions). A signal number is an
  unsigned long, as \<open>send_sig\<close> takes it. Delivery to a handler is in the theory Sigdeliver.
\<close>

section \<open>Constants of \<^verbatim>\<open>include/linux/signal.h\<close>\<close>

abbreviation (input) SIGHUP :: u32 where "SIGHUP \<equiv> 1"
abbreviation (input) SIGQUIT :: u32 where "SIGQUIT \<equiv> 3"
abbreviation (input) SIGILL :: u32 where "SIGILL \<equiv> 4"
abbreviation (input) SIGTRAP :: u32 where "SIGTRAP \<equiv> 5"
abbreviation (input) SIGIOT :: u32 where "SIGIOT \<equiv> 6"
abbreviation (input) SIGFPE :: u32 where "SIGFPE \<equiv> 8"
abbreviation (input) SIGKILL :: u32 where "SIGKILL \<equiv> 9"
abbreviation (input) SIGSEGV :: u32 where "SIGSEGV \<equiv> 11"
abbreviation (input) SIGPIPE :: u32 where "SIGPIPE \<equiv> 13"
abbreviation (input) SIGALRM :: u32 where "SIGALRM \<equiv> 14"
abbreviation (input) SIGCHLD :: u32 where "SIGCHLD \<equiv> 17"
abbreviation (input) SIGCONT :: u32 where "SIGCONT \<equiv> 18"
abbreviation (input) SIGSTOP :: u32 where "SIGSTOP \<equiv> 19"
abbreviation (input) SIGTSTP :: u32 where "SIGTSTP \<equiv> 20"
abbreviation (input) SIGTTIN :: u32 where "SIGTTIN \<equiv> 21"
abbreviation (input) SIGTTOU :: u32 where "SIGTTOU \<equiv> 22"
abbreviation (input) SIGVTALRM :: u32 where "SIGVTALRM \<equiv> 26"
abbreviation (input) SIGPROF :: u32 where "SIGPROF \<equiv> 27"
abbreviation (input) SIGWINCH :: u32 where "SIGWINCH \<equiv> 28"

abbreviation (input) SIG_DFL :: u32 where "SIG_DFL \<equiv> 0"
abbreviation (input) SIG_IGN :: u32 where "SIG_IGN \<equiv> 1"

abbreviation (input) SA_NOCLDSTOP :: u32 where "SA_NOCLDSTOP \<equiv> 1"
abbreviation (input) SA_RESTART :: u32 where "SA_RESTART \<equiv> 0x10000000"
abbreviation (input) SA_NOMASK :: u32 where "SA_NOMASK \<equiv> 0x40000000"
abbreviation (input) SA_ONESHOT :: u32 where "SA_ONESHOT \<equiv> 0x80000000"

text \<open>\<open>_S(nr)\<close>, that is \<open>1 << (nr-1)\<close>; the processor takes the shift count modulo 32.\<close>

definition sigbit :: "u32 \<Rightarrow> u32" where
  "sigbit nr = push_bit (unat ((nr - 1) AND 31)) 1"

definition BLOCKABLE :: u32 where
  "BLOCKABLE = NOT (sigbit SIGKILL OR sigbit SIGSTOP)"

definition sa_of :: "task_struct \<Rightarrow> u32 \<Rightarrow> sigaction" where
  "sa_of t sig = sigaction t ! (unat sig - 1)"

section \<open>Sending (\<^verbatim>\<open>kernel/exit.c\<close>)\<close>

definition generate :: "u32 \<Rightarrow> tptr \<Rightarrow> kernel \<Rightarrow> int \<times> kernel" where
  "generate sig p k =
     (let mask = sigbit sig;
          sa = sa_of (tasks k p) sig
      in if flags (tasks k p) AND PF_PTRACED \<noteq> 0
         then (1, upd_task p (\<lambda>t. t\<lparr>signal := signal t OR mask\<rparr>) k)
         else if sa_handler sa = SIG_IGN \<and> sig \<noteq> SIGCHLD then (0, k)
         else if sa_handler sa = SIG_DFL \<and> (sig = SIGCONT \<or> sig = SIGCHLD \<or> sig = SIGWINCH) then (0, k)
         else (1, upd_task p (\<lambda>t. t\<lparr>signal := signal t OR mask\<rparr>) k))"

definition STOP_SIGNALS :: u32 where
  "STOP_SIGNALS = sigbit SIGSTOP OR sigbit SIGTSTP OR sigbit SIGTTIN OR sigbit SIGTTOU"

text \<open>The part of \<open>send_sig\<close> that makes stopping and continuing cancel each other, in two steps.\<close>

definition resume_stopped :: "u32 \<Rightarrow> task_struct \<Rightarrow> task_struct" where
  "resume_stopped sig t =
     (if sig = SIGKILL \<or> sig = SIGCONT then
        let t = (if state t = TASK_STOPPED then t\<lparr>state := TASK_RUNNING\<rparr> else t);
            t = t\<lparr>exit_code := 0\<rparr>
        in t\<lparr>signal := signal t AND NOT STOP_SIGNALS\<rparr>
      else t)"

definition discard_cont :: "u32 \<Rightarrow> task_struct \<Rightarrow> task_struct" where
  "discard_cont sig t =
     (if sig \<ge> SIGSTOP \<and> sig \<le> SIGTTOU then t\<lparr>signal := signal t AND NOT (sigbit SIGCONT)\<rparr> else t)"

definition send_sig :: "u32 \<Rightarrow> tptr option \<Rightarrow> bool \<Rightarrow> kernel \<Rightarrow> int \<times> kernel" where
  "send_sig sig p priv k =
     (case p of
        None \<Rightarrow> (- EINVAL, k)
      | Some p \<Rightarrow>
          if sig > 32 then (- EINVAL, k)
          else if \<not> priv \<and> (sig \<noteq> SIGCONT \<or> session (cur k) \<noteq> session (tasks k p)) \<and>
                  euid (cur k) \<noteq> euid (tasks k p) \<and> uid (cur k) \<noteq> uid (tasks k p) \<and> \<not> suser k
          then (- EPERM, k)
          else if sig = 0 then (0, k)
          else
            let k = upd_task p (resume_stopped sig) k;
                k = upd_task p (discard_cont sig) k
            in (0, snd (generate sig p k)))"

definition notify_parent :: "tptr \<Rightarrow> kernel \<Rightarrow> kernel" where
  "notify_parent tsk k =
     (let k = (if task k ! 1 = Some (p_pptr (tasks k tsk))
               then upd_task tsk (\<lambda>t. t\<lparr>exit_signal := 17\<rparr>) k else k);
          k = snd (send_sig (to_u32 (exit_signal (tasks k tsk))) (Some (p_pptr (tasks k tsk))) True k)
      in wake_up_interruptible (wait_chldexit (tasks k (p_pptr (tasks k tsk)))) k)"

fun session_of_pgrp_loop :: "kernel \<Rightarrow> int \<Rightarrow> int \<Rightarrow> tptr list \<Rightarrow> int" where
  "session_of_pgrp_loop k grp fallback [] = fallback"
| "session_of_pgrp_loop k grp fallback (p # ps) =
     (if session (tasks k p) \<le> 0 then session_of_pgrp_loop k grp fallback ps
      else if pgrp (tasks k p) = grp then session (tasks k p)
      else if pid (tasks k p) = grp then session_of_pgrp_loop k grp (session (tasks k p)) ps
      else session_of_pgrp_loop k grp fallback ps)"

definition session_of_pgrp :: "int \<Rightarrow> kernel \<Rightarrow> int" where
  "session_of_pgrp grp k = session_of_pgrp_loop k grp (- 1) (for_each_task k)"

text \<open>The loop of \<open>kill_pg\<close> and \<open>kill_sl\<close>; the two differ in the test that selects a task.\<close>

fun kill_loop :: "(task_struct \<Rightarrow> bool) \<Rightarrow> u32 \<Rightarrow> bool \<Rightarrow> tptr list \<Rightarrow> int \<times> int \<Rightarrow> kernel \<Rightarrow> (int \<times> int) \<times> kernel" where
  "kill_loop sel sig priv [] acc k = (acc, k)"
| "kill_loop sel sig priv (p # ps) (found, retval) k =
     (if sel (tasks k p) then
        let (err, k) = send_sig sig (Some p) priv k
        in if err \<noteq> 0 then kill_loop sel sig priv ps (found, err) k
           else kill_loop sel sig priv ps (found + 1, retval) k
      else kill_loop sel sig priv ps (found, retval) k)"

definition kill_pg :: "int \<Rightarrow> int \<Rightarrow> bool \<Rightarrow> kernel \<Rightarrow> int \<times> kernel" where
  "kill_pg grp sig priv k =
     (if sig < 0 \<or> sig > 32 \<or> grp \<le> 0 then (- EINVAL, k)
      else
        let ((found, retval), k) =
              kill_loop (\<lambda>t. pgrp t = grp) (to_u32 sig) priv (for_each_task k) (0, - ESRCH) k
        in (if found \<noteq> 0 then 0 else retval, k))"

definition kill_sl :: "int \<Rightarrow> int \<Rightarrow> bool \<Rightarrow> kernel \<Rightarrow> int \<times> kernel" where
  "kill_sl sess sig priv k =
     (if sig < 0 \<or> sig > 32 \<or> sess \<le> 0 then (- EINVAL, k)
      else
        let ((found, retval), k) =
              kill_loop (\<lambda>t. session t = sess \<and> leader t) (to_u32 sig) priv (for_each_task k) (0, - ESRCH) k
        in (if found \<noteq> 0 then 0 else retval, k))"

fun kill_proc_loop :: "int \<Rightarrow> u32 \<Rightarrow> bool \<Rightarrow> tptr list \<Rightarrow> kernel \<Rightarrow> int \<times> kernel" where
  "kill_proc_loop pd sig priv [] k = (- ESRCH, k)"
| "kill_proc_loop pd sig priv (p # ps) k =
     (if pid (tasks k p) = pd then send_sig sig (Some p) priv k else kill_proc_loop pd sig priv ps k)"

definition kill_proc :: "int \<Rightarrow> int \<Rightarrow> bool \<Rightarrow> kernel \<Rightarrow> int \<times> kernel" where
  "kill_proc pd sig priv k =
     (if sig < 0 \<or> sig > 32 then (- EINVAL, k)
      else kill_proc_loop pd (to_u32 sig) priv (for_each_task k) k)"

text \<open>The broadcast loop of \<open>kill(-1, sig)\<close>.\<close>

fun kill_all_loop :: "u32 \<Rightarrow> tptr list \<Rightarrow> int \<times> int \<Rightarrow> kernel \<Rightarrow> (int \<times> int) \<times> kernel" where
  "kill_all_loop sig [] acc k = (acc, k)"
| "kill_all_loop sig (p # ps) (count, retval) k =
     (if pid (tasks k p) > 1 \<and> p \<noteq> current k then
        let (err, k) = send_sig sig (Some p) False k
        in kill_all_loop sig ps (count + 1, if err \<noteq> - EPERM then err else retval) k
      else kill_all_loop sig ps (count, retval) k)"

definition sys_kill :: "int \<Rightarrow> int \<Rightarrow> kernel \<Rightarrow> int \<times> kernel" where
  "sys_kill pd sig k =
     (if pd = 0 then kill_pg (pgrp (cur k)) sig False k
      else if pd = - 1 then
        let ((count, retval), k) = kill_all_loop (to_u32 sig) (for_each_task k) (0, 0) k
        in (if count \<noteq> 0 then retval else - ESRCH, k)
      else if pd < 0 then kill_pg (s32 (- pd)) sig False k
      else kill_proc pd sig False k)"

fun is_orphaned_loop :: "kernel \<Rightarrow> int \<Rightarrow> tptr list \<Rightarrow> int" where
  "is_orphaned_loop k grp [] = 1"
| "is_orphaned_loop k grp (p # ps) =
     (let t = tasks k p; parent = tasks k (p_pptr t)
      in if pgrp t \<noteq> grp \<or> state t = TASK_ZOMBIE \<or> pid parent = 1 then is_orphaned_loop k grp ps
         else if pgrp parent \<noteq> grp \<and> session parent = session t then 0
         else is_orphaned_loop k grp ps)"

definition is_orphaned_pgrp :: "int \<Rightarrow> kernel \<Rightarrow> int" where
  "is_orphaned_pgrp grp k = is_orphaned_loop k grp (for_each_task k)"

fun has_stopped_loop :: "kernel \<Rightarrow> int \<Rightarrow> tptr list \<Rightarrow> int" where
  "has_stopped_loop k grp [] = 0"
| "has_stopped_loop k grp (p # ps) =
     (if pgrp (tasks k p) \<noteq> grp then has_stopped_loop k grp ps
      else if state (tasks k p) = TASK_STOPPED then 1
      else has_stopped_loop k grp ps)"

definition has_stopped_jobs :: "int \<Rightarrow> kernel \<Rightarrow> int" where
  "has_stopped_jobs grp k = has_stopped_loop k grp (for_each_task k)"

text \<open>\<open>task[1] ? task[1] : task[0]\<close>, the process that inherits orphans.\<close>

definition reaper :: "kernel \<Rightarrow> tptr" where
  "reaper k = (case task k ! 1 of Some p \<Rightarrow> p | None \<Rightarrow> init_task)"

definition forget_original_parent :: "tptr \<Rightarrow> kernel \<Rightarrow> kernel" where
  "forget_original_parent father k =
     fold (\<lambda>p k. if p_opptr (tasks k p) = father then upd_task p (\<lambda>t. t\<lparr>p_opptr := reaper k\<rparr>) k else k)
       (for_each_task k) k"

section \<open>The signal state of the caller (\<^verbatim>\<open>kernel/signal.c\<close>)\<close>

definition sys_sgetmask :: "kernel \<Rightarrow> int" where
  "sys_sgetmask k = sint (blocked (cur k))"

definition sys_ssetmask :: "int \<Rightarrow> kernel \<Rightarrow> int \<times> kernel" where
  "sys_ssetmask newmask k =
     (sint (blocked (cur k)), set_cur (\<lambda>t. t\<lparr>blocked := to_u32 newmask AND BLOCKABLE\<rparr>) k)"

definition sys_sigpending :: "u32 \<Rightarrow> kernel \<Rightarrow> int \<times> kernel" where
  "sys_sigpending st k =
     (let err = verify_area VERIFY_WRITE st 4
      in if err = 0 then (err, k\<lparr>umem := put_fs_long (blocked (cur k) AND signal (cur k)) st (umem k)\<rparr>)
         else (err, k))"

definition check_pending :: "u32 \<Rightarrow> kernel \<Rightarrow> kernel" where
  "check_pending signum k =
     (let sa = sa_of (cur k) signum
      in if sa_handler sa = SIG_IGN then
           (if signum = SIGCHLD then k
            else set_cur (\<lambda>t. t\<lparr>signal := signal t AND NOT (sigbit signum)\<rparr>) k)
         else if sa_handler sa = SIG_DFL then
           (if signum \<noteq> SIGCONT \<and> signum \<noteq> SIGCHLD \<and> signum \<noteq> SIGWINCH then k
            else set_cur (\<lambda>t. t\<lparr>signal := signal t AND NOT (sigbit signum)\<rparr>) k)
         else k)"

definition set_sa :: "u32 \<Rightarrow> sigaction \<Rightarrow> kernel \<Rightarrow> kernel" where
  "set_sa signum sa k = set_cur (\<lambda>t. t\<lparr>sigaction := (sigaction t)[unat signum - 1 := sa]\<rparr>) k"

definition bad_signum :: "int \<Rightarrow> bool" where
  "bad_signum signum \<longleftrightarrow> signum < 1 \<or> signum > 32 \<or> signum = 9 \<or> signum = 19"

definition sys_signal :: "int \<Rightarrow> u32 \<Rightarrow> kernel \<Rightarrow> int \<times> kernel" where
  "sys_signal signum handler k =
     (if bad_signum signum then (- EINVAL, k)
      else if handler \<ge> TASK_SIZE then (- EFAULT, k)
      else
        let tmp = \<lparr>sa_handler = handler, sa_mask = 0, sa_flags = SA_ONESHOT OR SA_NOMASK, sa_restorer = 0\<rparr>;
            old = sa_handler (sa_of (cur k) (to_u32 signum));
            k = set_sa (to_u32 signum) tmp k
        in (sint old, check_pending (to_u32 signum) k))"

text \<open>\<open>struct sigaction\<close> in user memory: four longs.\<close>

definition read_sigaction :: "umem \<Rightarrow> u32 \<Rightarrow> sigaction" where
  "read_sigaction m a =
     \<lparr>sa_handler = get_fs_long m a, sa_mask = get_fs_long m (a + 4),
      sa_flags = get_fs_long m (a + 8), sa_restorer = get_fs_long m (a + 12)\<rparr>"

definition write_sigaction :: "sigaction \<Rightarrow> u32 \<Rightarrow> umem \<Rightarrow> umem" where
  "write_sigaction sa a m =
     put_fs_long (sa_restorer sa) (a + 12) (put_fs_long (sa_flags sa) (a + 8)
       (put_fs_long (sa_mask sa) (a + 4) (put_fs_long (sa_handler sa) a m)))"

definition fix_sa_mask :: "u32 \<Rightarrow> sigaction \<Rightarrow> sigaction" where
  "fix_sa_mask signum sa =
     (if sa_flags sa AND SA_NOMASK \<noteq> 0 then sa\<lparr>sa_mask := 0\<rparr>
      else sa\<lparr>sa_mask := (sa_mask sa OR sigbit signum) AND BLOCKABLE\<rparr>)"

definition save_oldaction :: "u32 \<Rightarrow> u32 \<Rightarrow> kernel \<Rightarrow> kernel" where
  "save_oldaction signum oldaction k =
     (if oldaction \<noteq> 0 \<and> verify_area VERIFY_WRITE oldaction 16 = 0
      then k\<lparr>umem := write_sigaction (sa_of (cur k) signum) oldaction (umem k)\<rparr> else k)"

definition sys_sigaction :: "int \<Rightarrow> u32 \<Rightarrow> u32 \<Rightarrow> kernel \<Rightarrow> int \<times> kernel" where
  "sys_sigaction signum action oldaction k =
     (if bad_signum signum then (- EINVAL, k)
      else
        let n = to_u32 signum;
            new_sa = fix_sa_mask n (read_sigaction (umem k) action)
        in if action \<noteq> 0 \<and> TASK_SIZE \<le> sa_handler new_sa then (- EFAULT, k)
           else
             let k = save_oldaction n oldaction k
             in (0, if action \<noteq> 0 then check_pending n (set_sa n new_sa k) else k))"

section \<open>Who may signal whom\<close>

definition may_signal :: "kernel \<Rightarrow> u32 \<Rightarrow> tptr \<Rightarrow> bool" where
  "may_signal k sig p \<longleftrightarrow>
     sig = SIGCONT \<and> session (cur k) = session (tasks k p) \<or>
     euid (cur k) = euid (tasks k p) \<or> uid (cur k) = uid (tasks k p) \<or> suser k"

text \<open>What a signal that is sent does to the receiving task structure.\<close>

definition discarded :: "u32 \<Rightarrow> task_struct \<Rightarrow> bool" where
  "discarded sig t \<longleftrightarrow>
     flags t AND PF_PTRACED = 0 \<and>
     (sa_handler (sa_of t sig) = SIG_IGN \<and> sig \<noteq> SIGCHLD \<or>
      sa_handler (sa_of t sig) = SIG_DFL \<and> sig \<in> {SIGCONT, SIGCHLD, SIGWINCH})"

definition deliver :: "u32 \<Rightarrow> task_struct \<Rightarrow> task_struct" where
  "deliver sig t =
     (if sig = 0 then t
      else
        let t' = discard_cont sig (resume_stopped sig t)
        in if discarded sig t then t' else t'\<lparr>signal := signal t' OR sigbit sig\<rparr>)"

definition deliver_if :: "kernel \<Rightarrow> u32 \<Rightarrow> bool \<Rightarrow> tptr set \<Rightarrow> kernel \<Rightarrow> kernel" where
  "deliver_if k0 sig priv S k =
     k\<lparr>tasks := \<lambda>p. if p \<in> S \<and> (priv \<or> may_signal k0 sig p) then deliver sig (tasks k p) else tasks k p\<rparr>"

lemma resume_discard_frame [simp]:
  "sigaction (resume_stopped sig t) = sigaction t" "flags (resume_stopped sig t) = flags t"
  "sigaction (discard_cont sig t) = sigaction t" "flags (discard_cont sig t) = flags t"
  "sa_of (resume_stopped sig t) = sa_of t" "sa_of (discard_cont sig t) = sa_of t"
  by (simp_all add: resume_stopped_def discard_cont_def Let_def sa_of_def fun_eq_iff)

text \<open>A delivery writes \<open>state\<close>, \<open>exit_code\<close> and \<open>signal\<close>, and nothing else.\<close>

lemma deliver_frame:
  "\<exists>s e g. deliver sig t = t\<lparr>state := s, exit_code := e, signal := g\<rparr>"
proof -
  have r: "\<exists>s e g. resume_stopped sig t = t\<lparr>state := s, exit_code := e, signal := g\<rparr>" for t
  proof (cases "sig = SIGKILL \<or> sig = SIGCONT")
    case True
    then have "resume_stopped sig t = t\<lparr>state := (if state t = TASK_STOPPED then TASK_RUNNING else state t),
        exit_code := 0, signal := signal t AND NOT STOP_SIGNALS\<rparr>"
      by (auto simp: resume_stopped_def Let_def)
    then show ?thesis by blast
  next
    case False
    then have "resume_stopped sig t = t\<lparr>state := state t, exit_code := exit_code t, signal := signal t\<rparr>"
      by (auto simp: resume_stopped_def)
    then show ?thesis by blast
  qed
  have d: "\<exists>g. discard_cont sig t = t\<lparr>signal := g\<rparr>" for t
    by (auto simp: discard_cont_def intro: exI [of _ "signal t"])
  from r obtain s e g where 1: "resume_stopped sig t = t\<lparr>state := s, exit_code := e, signal := g\<rparr>" by blast
  from d [of "resume_stopped sig t"] obtain g'
    where 2: "discard_cont sig (t\<lparr>state := s, exit_code := e, signal := g\<rparr>) = t\<lparr>state := s, exit_code := e, signal := g'\<rparr>"
    unfolding 1 by auto
  show ?thesis
  proof (cases "sig = 0")
    case True
    then have "deliver sig t = t\<lparr>state := state t, exit_code := exit_code t, signal := signal t\<rparr>"
      by (simp add: deliver_def)
    then show ?thesis by blast
  next
    case False
    have "deliver sig t = (if discarded sig t then t\<lparr>state := s, exit_code := e, signal := g'\<rparr>
        else t\<lparr>state := s, exit_code := e, signal := g' OR sigbit sig\<rparr>)"
      using False 2 unfolding deliver_def Let_def by (simp add: 1)
    then show ?thesis by (metis)
  qed
qed

lemma deliver_fields [simp]:
  "pid (deliver sig t) = pid t" "pgrp (deliver sig t) = pgrp t" "session (deliver sig t) = session t"
  "leader (deliver sig t) = leader t" "uid (deliver sig t) = uid t" "euid (deliver sig t) = euid t"
  "next_task (deliver sig t) = next_task t" "prev_task (deliver sig t) = prev_task t"
  "sigaction (deliver sig t) = sigaction t" "blocked (deliver sig t) = blocked t"
  "p_pptr (deliver sig t) = p_pptr t" "p_opptr (deliver sig t) = p_opptr t" "p_cptr (deliver sig t) = p_cptr t"
  "p_ysptr (deliver sig t) = p_ysptr t" "p_osptr (deliver sig t) = p_osptr t"
  "flags (deliver sig t) = flags t" "wait_chldexit (deliver sig t) = wait_chldexit t"
  "exit_signal (deliver sig t) = exit_signal t" "sa_of (deliver sig t) = sa_of t" "counter (deliver sig t) = counter t"
  "suid (deliver sig t) = suid t" "gid (deliver sig t) = gid t" "tty (deliver sig t) = tty t"
  using deliver_frame [of sig t] by (auto simp: sa_of_def fun_eq_iff)

lemma generate_eq:
  "generate sig p k =
     (if discarded sig (tasks k p) then (0, k)
      else (1, upd_task p (\<lambda>t. t\<lparr>signal := signal t OR sigbit sig\<rparr>) k))"
  by (auto simp: generate_def discarded_def Let_def)

lemma upd_task_comp: "upd_task p g (upd_task p f k) = upd_task p (g \<circ> f) k"
  by (simp add: upd_task_def)

lemma upd_task_cong: "f (tasks k p) = g (tasks k p) \<Longrightarrow> upd_task p f k = upd_task p g k"
  by (simp add: upd_task_def)

lemma upd_task_id: "f (tasks k p) = tasks k p \<Longrightarrow> upd_task p f k = k"
  by (simp add: upd_task_def)

lemma discarded_prep [simp]: "discarded sig (discard_cont sig (resume_stopped sig t)) = discarded sig t"
  by (simp add: discarded_def)

lemma send_sig_eq:
  "send_sig sig (Some p) priv k =
     (if sig > 32 then (- EINVAL, k)
      else if \<not> priv \<and> \<not> may_signal k sig p then (- EPERM, k)
      else (0, upd_task p (deliver sig) k))"
proof -
  have id: "upd_task p (deliver 0) k = k" by (rule upd_task_id) (simp add: deliver_def)
  have "snd (generate sig p (upd_task p (discard_cont sig) (upd_task p (resume_stopped sig) k))) =
      upd_task p (deliver sig) k" if "sig \<noteq> 0"
    using that by (auto simp: generate_eq upd_task_comp deliver_def Let_def intro!: upd_task_cong)
  then show ?thesis
    by (auto simp: send_sig_def may_signal_def Let_def id)
qed

lemma may_signal_upd_deliver [simp]: "may_signal (upd_task p (deliver s) k) sig q = may_signal k sig q"
  by (simp add: may_signal_def suser_def)

lemma kernel_eqI_tasks: "k\<lparr>tasks := f\<rparr> = k\<lparr>tasks := g\<rparr>" if "\<And>p. f p = g p"
proof -
  have "f = g" using that by (simp add: fun_eq_iff)
  then show ?thesis by simp
qed

lemma deliver_if_empty: "deliver_if k0 sig priv {} k = k"
  by (simp add: deliver_if_def)

lemma deliver_if_step:
  assumes "p \<notin> S"
  shows "deliver_if k0 sig priv S (upd_task p (deliver sig) k) =
    (if priv \<or> may_signal k0 sig p then deliver_if k0 sig priv (insert p S) k
     else deliver_if k0 sig priv S (upd_task p (deliver sig) k))"
  using assms unfolding deliver_if_def upd_task_def by (auto intro!: kernel_eqI_tasks)

lemma deliver_if_skip:
  "\<not> (priv \<or> may_signal k0 sig p) \<Longrightarrow> deliver_if k0 sig priv (insert p S) k = deliver_if k0 sig priv S k"
  unfolding deliver_if_def by (rule kernel_eqI_tasks) auto

lemma may_signal_cong: "(\<And>q. may_signal k sig q = may_signal k' sig q) \<Longrightarrow> deliver_if k sig priv S x = deliver_if k' sig priv S x"
  by (simp add: deliver_if_def)

lemma kill_loop_spec:
  assumes sel: "\<And>s t. sel (deliver s t) = sel t" and "sig \<le> 32" "distinct ps"
  defines "S k \<equiv> {p \<in> set ps. sel (tasks k p)}"
  shows "kill_loop sel sig priv ps (found, retval) k =
    ((found + int (length (filter (\<lambda>p. sel (tasks k p) \<and> (priv \<or> may_signal k sig p)) ps)),
      if \<exists>p\<in>S k. \<not> (priv \<or> may_signal k sig p) then - EPERM else retval),
     deliver_if k sig priv (S k) k)"
  using assms(3) unfolding S_def
proof (induction ps arbitrary: found retval k)
  case Nil
  then show ?case by (simp add: deliver_if_empty)
next
  case (Cons p ps)
  then have IH: "\<And>found retval k. kill_loop sel sig priv ps (found, retval) k =
    ((found + int (length (filter (\<lambda>p. sel (tasks k p) \<and> (priv \<or> may_signal k sig p)) ps)),
      if \<exists>p\<in>{p \<in> set ps. sel (tasks k p)}. \<not> (priv \<or> may_signal k sig p) then - EPERM else retval),
     deliver_if k sig priv {p \<in> set ps. sel (tasks k p)} k)" and p: "p \<notin> set ps"
    by auto
  show ?case
  proof (cases "sel (tasks k p)")
    case False
    then have "{q \<in> set (p # ps). sel (tasks k q)} = {q \<in> set ps. sel (tasks k q)}" by auto
    then show ?thesis using False by (simp add: IH)
  next
    case True
    then have ins: "{q \<in> set (p # ps). sel (tasks k q)} = insert p {q \<in> set ps. sel (tasks k q)}" by auto
    show ?thesis
    proof (cases "priv \<or> may_signal k sig p")
      case ok: True
      let ?k = "upd_task p (deliver sig) k"
      have "sel (tasks ?k q) = sel (tasks k q)" for q by (simp add: sel)
      moreover have "deliver_if ?k sig priv S ?k = deliver_if k sig priv S ?k" for S by (rule may_signal_cong) simp
      ultimately have "kill_loop sel sig priv (p # ps) (found, retval) k =
        ((found + 1 + int (length (filter (\<lambda>p. sel (tasks k p) \<and> (priv \<or> may_signal k sig p)) ps)),
          if \<exists>p\<in>{p \<in> set ps. sel (tasks k p)}. \<not> (priv \<or> may_signal k sig p) then - EPERM else retval),
         deliver_if k sig priv {p \<in> set ps. sel (tasks k p)} ?k)"
        using True ok assms(2) by (auto simp: send_sig_eq IH)
      then show ?thesis using ok p True unfolding ins by (auto simp: deliver_if_step simp del: kill_loop.simps)
    next
      case no: False
      then have "kill_loop sel sig priv (p # ps) (found, retval) k = kill_loop sel sig priv ps (found, - EPERM) k"
        using True assms(2) by (auto simp: send_sig_eq)
      then show ?thesis using no True unfolding ins by (simp add: IH deliver_if_skip del: kill_loop.simps)
    qed
  qed
qed

lemma to_u32_sig: "0 \<le> sig \<Longrightarrow> sig \<le> 32 \<Longrightarrow> (to_u32 sig \<le> 32)"
  by (simp add: word_le_def uint_word_of_int)

lemma filter_any: "(length (filter P xs) = 0) = (\<not> (\<exists>x\<in>set xs. P x))"
  by (simp add: filter_empty_conv)

lemma kill_pg_spec:
  assumes "ring (tasks k) xs" "length xs \<le> NR_TASKS" "0 \<le> sig" "sig \<le> 32" "0 < grp"
  defines "S \<equiv> {p \<in> set xs. pgrp (tasks k p) = grp}" and "n \<equiv> to_u32 sig"
  shows "kill_pg grp sig priv k =
    (if \<exists>p\<in>S. priv \<or> may_signal k n p then 0 else if S \<noteq> {} then - EPERM else - ESRCH,
     deliver_if k n priv S k)"
proof -
  have d: "distinct xs" using assms(1) by (simp add: ring_def)
  have e: "for_each_task k = xs" using assms(1,2) by (rule for_each_task_ring)
  show ?thesis
    using kill_loop_spec [of "\<lambda>t. pgrp t = grp" n xs priv 0 "- ESRCH" k] assms(3-5) d to_u32_sig [OF assms(3,4)]
    by (auto simp: kill_pg_def e S_def n_def filter_any filter_empty_conv)
qed

lemma kill_proc_spec:
  assumes "ring (tasks k) xs" "length xs \<le> NR_TASKS" "0 \<le> sig" "sig \<le> 32"
  defines "n \<equiv> to_u32 sig"
  shows "kill_proc pd sig priv k =
    (case find (\<lambda>p. pid (tasks k p) = pd) xs of
       None \<Rightarrow> (- ESRCH, k)
     | Some p \<Rightarrow> (if priv \<or> may_signal k n p then 0 else - EPERM, deliver_if k n priv {p} k))"
proof -
  have e: "for_each_task k = xs" using assms(1,2) by (rule for_each_task_ring)
  have u: "upd_task p (deliver n) k = deliver_if k n priv {p} k" if "priv \<or> may_signal k n p" for p
    using that deliver_if_step [of p "{}" k n priv k] by (simp add: deliver_if_empty)
  have "kill_proc_loop pd n priv ps k =
    (case find (\<lambda>p. pid (tasks k p) = pd) ps of
       None \<Rightarrow> (- ESRCH, k)
     | Some p \<Rightarrow> (if priv \<or> may_signal k n p then 0 else - EPERM, deliver_if k n priv {p} k))" for ps
    using to_u32_sig [OF assms(3,4)]
    by (induction ps) (auto simp: send_sig_eq n_def [symmetric] u deliver_if_skip deliver_if_empty)
  then show ?thesis using assms(3,4) by (simp add: kill_proc_def e n_def)
qed

lemma kill_all_loop_spec:
  assumes "sig \<le> 32" "distinct ps"
  defines "S k \<equiv> {p \<in> set ps. pid (tasks k p) > 1 \<and> p \<noteq> current k}"
  shows "\<exists>c. kill_all_loop sig ps (count, retval) k =
    ((count + int c, if \<exists>p\<in>S k. may_signal k sig p then 0 else retval), deliver_if k sig False (S k) k) \<and>
    (c = 0 \<longleftrightarrow> S k = {})"
  using assms(2) unfolding S_def
proof (induction ps arbitrary: count retval k)
  case Nil
  then show ?case by (simp add: deliver_if_empty)
next
  case (Cons p ps)
  define T where "T (k :: kernel) = {q \<in> set ps. pid (tasks k q) > 1 \<and> q \<noteq> current k}" for k
  have IH: "\<And>count retval k. \<exists>c. kill_all_loop sig ps (count, retval) k =
    ((count + int c, if \<exists>p\<in>T k. may_signal k sig p then 0 else retval), deliver_if k sig False (T k) k) \<and>
    (c = 0 \<longleftrightarrow> T k = {})" and p: "p \<notin> set ps" using Cons by (auto simp: T_def)
  show ?case
  proof (cases "pid (tasks k p) > 1 \<and> p \<noteq> current k")
    case False
    then have "{q \<in> set (p # ps). pid (tasks k q) > 1 \<and> q \<noteq> current k} = T k" by (auto simp: T_def)
    moreover have "kill_all_loop sig (p # ps) (count, retval) k = kill_all_loop sig ps (count, retval) k"
      using False by (auto simp only: kill_all_loop.simps if_False)
    ultimately show ?thesis using IH [of count retval k] by auto
  next
    case True
    then have ins: "{q \<in> set (p # ps). pid (tasks k q) > 1 \<and> q \<noteq> current k} = insert p (T k)" by (auto simp: T_def)
    show ?thesis
    proof (cases "may_signal k sig p")
      case ok: True
      let ?k = "upd_task p (deliver sig) k"
      have T: "T ?k = T k" by (auto simp: T_def)
      have "kill_all_loop sig (p # ps) (count, retval) k = kill_all_loop sig ps (count + 1, 0) ?k"
        using True ok assms(1) by (auto simp: send_sig_eq)
      moreover obtain c where "kill_all_loop sig ps (count + 1, 0) ?k =
          ((count + 1 + int c, 0), deliver_if ?k sig False (T k) ?k)"
        using IH [of "count + 1" 0 ?k] by (auto simp: T split: if_splits)
      moreover have "deliver_if ?k sig False (T k) ?k = deliver_if k sig False (insert p (T k)) k"
        using p ok deliver_if_step [of p "T k" k sig False k] may_signal_cong [of ?k sig k False "T k" ?k] by (simp add: T_def)
      ultimately show ?thesis using ok unfolding ins by (intro exI [of _ "Suc c"]) auto
    next
      case no: False
      have "kill_all_loop sig (p # ps) (count, retval) k = kill_all_loop sig ps (count + 1, retval) k"
        using True no assms(1) by (auto simp: send_sig_eq)
      moreover obtain c where "kill_all_loop sig ps (count + 1, retval) k =
          ((count + 1 + int c, if \<exists>p\<in>T k. may_signal k sig p then 0 else retval), deliver_if k sig False (T k) k)"
        using IH [of "count + 1" retval k] by blast
      ultimately show ?thesis using no unfolding ins
        by (intro exI [of _ "Suc c"]) (auto simp: deliver_if_skip)
    qed
  qed
qed

section \<open>What \<open>kill\<close> does\<close>

text \<open>The tasks a \<open>kill\<close> addresses, from its first argument.\<close>

definition kill_targets :: "int \<Rightarrow> kernel \<Rightarrow> tptr list \<Rightarrow> tptr list" where
  "kill_targets pd k xs =
     (if pd > 0 then take 1 (filter (\<lambda>p. pid (tasks k p) = pd) xs)
      else if pd = - 1 then filter (\<lambda>p. pid (tasks k p) > 1 \<and> p \<noteq> current k) xs
      else if pd = 0 then filter (\<lambda>p. pgrp (tasks k p) = pgrp (cur k) \<and> pgrp (cur k) > 0) xs
      else filter (\<lambda>p. pgrp (tasks k p) = - pd) xs)"

lemma take1_filter: "set (take 1 (filter P xs)) = (case find P xs of None \<Rightarrow> {} | Some x \<Rightarrow> {x})"
  by (induction xs) auto

lemma kill_pg_delivers:
  assumes "ring (tasks k) xs" "length xs \<le> NR_TASKS" "0 \<le> sig" "sig \<le> 32"
  shows "snd (kill_pg grp sig priv k) = deliver_if k (to_u32 sig) priv {p \<in> set xs. pgrp (tasks k p) = grp \<and> grp > 0} k"
proof (cases "grp > 0")
  case True
  then show ?thesis using kill_pg_spec [OF assms] by simp
qed (simp add: kill_pg_def deliver_if_empty)

text \<open>C11. \<open>kill\<close> delivers the signal to exactly the tasks its first argument addresses and the
  caller may signal (same real or effective user, the super-user, or SIGCONT within the session),
  and changes nothing else: no other task and no other part of the kernel state.\<close>

theorem sys_kill_delivers:
  assumes "ring (tasks k) xs" and "length xs \<le> NR_TASKS"
    and "0 \<le> sig" and "sig \<le> 32" and "- 2147483648 < pd" and "pd \<le> 2147483647"
  shows "snd (sys_kill pd sig k) =
    k\<lparr>tasks := \<lambda>p. if p \<in> set (kill_targets pd k xs) \<and> may_signal k (to_u32 sig) p
                    then deliver (to_u32 sig) (tasks k p) else tasks k p\<rparr>"
proof -
  let ?n = "to_u32 sig"
  have goal: "?thesis \<longleftrightarrow> snd (sys_kill pd sig k) = deliver_if k ?n False (set (kill_targets pd k xs)) k"
    by (simp add: deliver_if_def)
  consider "pd > 0" | "pd = - 1" | "pd = 0" | "pd < - 1" by linarith
  then show ?thesis
  proof cases
    case 1
    then show ?thesis unfolding goal
      using kill_proc_spec [OF assms(1-4), of pd False]
      by (auto simp: sys_kill_def kill_targets_def take1_filter deliver_if_empty simp del: One_nat_def split: option.splits)
  next
    case 2
    have d: "distinct xs" using assms(1) by (simp add: ring_def)
    have e: "for_each_task k = xs" using assms(1,2) by (rule for_each_task_ring)
    have t: "set (kill_targets pd k xs) = {p \<in> set xs. pid (tasks k p) > 1 \<and> p \<noteq> current k}"
      using 2 by (auto simp: kill_targets_def)
    obtain c r where "kill_all_loop ?n xs (0, 0) k =
        ((0 + int c, r), deliver_if k ?n False {p \<in> set xs. pid (tasks k p) > 1 \<and> p \<noteq> current k} k)"
      using kill_all_loop_spec [OF to_u32_sig [OF assms(3,4)] d, of 0 0 k] by blast
    then show ?thesis unfolding goal unfolding t using 2 by (simp add: sys_kill_def e)
  next
    case 3
    have "set (kill_targets pd k xs) = {p \<in> set xs. pgrp (tasks k p) = pgrp (cur k) \<and> pgrp (cur k) > 0}"
      using 3 by (auto simp: kill_targets_def)
    then show ?thesis unfolding goal using 3 kill_pg_delivers [OF assms(1-4), of "pgrp (cur k)"]
      by (simp add: sys_kill_def)
  next
    case 4
    have s: "s32 (- pd) = - pd" using assms(5) 4 by (intro s32_id) auto
    have "set (kill_targets pd k xs) = {p \<in> set xs. pgrp (tasks k p) = - pd \<and> - pd > 0}"
      using 4 by (auto simp: kill_targets_def)
    then show ?thesis unfolding goal using 4 s kill_pg_delivers [OF assms(1-4), of "- pd"]
      by (simp add: sys_kill_def)
  qed
qed

text \<open>A small process table: init (address 1), a shell and a job of user 1000 (addresses 2 and 3),
  each the parent of the next; it serves the examples of several theories.\<close>

definition demo_task :: "int \<Rightarrow> int \<Rightarrow> u16 \<Rightarrow> tptr \<Rightarrow> tptr \<Rightarrow> tptr \<Rightarrow> tptr option \<Rightarrow> task_struct" where
  "demo_task n g u nx pv par ch =
     \<lparr>state = TASK_RUNNING, counter = 15, priority = 15, signal = 0, blocked = 0, flags = 0,
      next_task = nx, prev_task = pv,
      sigaction = replicate 32 \<lparr>sa_handler = 0, sa_mask = 0, sa_flags = 0, sa_restorer = 0\<rparr>,
      exit_code = 0, exit_signal = 17, pid = n, pgrp = g, session = 1, leader = False, groups = [],
      p_opptr = par, p_pptr = par, p_cptr = ch, p_ysptr = None, p_osptr = None, wait_chldexit = [],
      uid = u, euid = u, suid = u, gid = u, egid = u, sgid = u, timeout = 0,
      it_real_value = 0, it_prof_value = 0, it_virt_value = 0, it_real_incr = 0, it_prof_incr = 0, it_virt_incr = 0,
      utime = 0, stime = 0, cutime = 0, cstime = 0, start_time = 0,
      min_flt = 0, maj_flt = 0, cmin_flt = 0, cmaj_flt = 0,
      rlim = replicate 6 \<lparr>rlim_cur = 0x7fffffff, rlim_max = 0x7fffffff\<rparr>,
      rss = 0, tty = - 1, umask = 18, io_bitmap = replicate 33 0xffffffff\<rparr>"

definition demo_heap :: heap where
  "demo_heap p =
     (if p = 1 then demo_task 1 1 0 2 0 0 (Some 2)
      else if p = 2 then demo_task 2 2 1000 3 1 1 (Some 3)
      else if p = 3 then demo_task 3 3 1000 0 2 2 None
      else demo_task 0 0 0 1 3 0 (if p = 0 then Some 1 else None))"

definition demo_kernel :: kernel where
  "demo_kernel =
     \<lparr>tasks = demo_heap, task = [Some 0, Some 1, Some 2, Some 3] @ replicate 60 None, current = 2,
      need_resched = False, jiffies = 0, last_pid = 3, startup_time = 0, jiffies_offset = 0,
      tz_minuteswest = 0, tz_dsttime = 0, settime_first = True, C_A_D = True, hard_reset = False,
      nodename = [], domainname = [], umem = \<lambda>_. 0\<rparr>"

lemma demo_ring: "ring (tasks demo_kernel) [1, 2, 3]"
  by (simp add: ring_def demo_kernel_def demo_heap_def demo_task_def)

theorem sys_kill_delivers_witness:
  "snd (sys_kill 3 15 demo_kernel) =
    demo_kernel\<lparr>tasks := \<lambda>p. if p \<in> set (kill_targets 3 demo_kernel [1, 2, 3]) \<and> may_signal demo_kernel (to_u32 15) p
                    then deliver (to_u32 15) (tasks demo_kernel p) else tasks demo_kernel p\<rparr> \<and>
   3 \<in> set (kill_targets 3 demo_kernel [1, 2, 3]) \<and> may_signal demo_kernel (to_u32 15) 3"
  using sys_kill_delivers [OF demo_ring, of 15 3]
  by (simp add: kill_targets_def may_signal_def demo_kernel_def demo_heap_def demo_task_def)

section \<open>Stopping and continuing\<close>

text \<open>SIGCONT and a stop signal are never pending together.\<close>

definition job_ok :: "task_struct \<Rightarrow> bool" where
  "job_ok t \<longleftrightarrow> signal t AND sigbit SIGCONT = 0 \<or> signal t AND STOP_SIGNALS = 0"

lemma sigbit_disjoint_aux:
  "list_all (\<lambda>n. (n \<notin> {19, 20, 21, 22} \<longrightarrow> sigbit (word_of_nat n) AND STOP_SIGNALS = 0) \<and>
     (n \<noteq> 18 \<longrightarrow> sigbit (word_of_nat n) AND sigbit SIGCONT = 0)) [1..<33]"
  by code_simp

lemma sigbit_disjoint:
  assumes "sig \<le> 32" "sig \<noteq> 0"
  shows "\<not> (SIGSTOP \<le> sig \<and> sig \<le> SIGTTOU) \<Longrightarrow> sigbit sig AND STOP_SIGNALS = 0"
    and "sig \<noteq> SIGCONT \<Longrightarrow> sigbit sig AND sigbit SIGCONT = 0"
proof -
  define n where "n = unat sig"
  have s: "sig = word_of_nat n" "1 \<le> n" "n < 33"
    using assms by (auto simp: n_def word_le_nat_alt unat_eq_0 Suc_le_eq unat_gt_0)
  then have *: "(n \<notin> {19, 20, 21, 22} \<longrightarrow> sigbit sig AND STOP_SIGNALS = 0) \<and> (n \<noteq> 18 \<longrightarrow> sigbit sig AND sigbit SIGCONT = 0)"
    using sigbit_disjoint_aux by (simp add: list_all_iff)
  {
    assume "\<not> (SIGSTOP \<le> sig \<and> sig \<le> SIGTTOU)"
    then have "n \<notin> {19, 20, 21, 22}" by (auto simp: n_def word_le_nat_alt)
    with * show "sigbit sig AND STOP_SIGNALS = 0" by simp
  next
    assume "sig \<noteq> SIGCONT"
    then have "n \<noteq> 18" using s(1) by auto
    with * show "sigbit sig AND sigbit SIGCONT = 0" by simp
  }
qed

lemma and_or_zero: "a AND c = 0 \<Longrightarrow> b AND c = 0 \<Longrightarrow> (a OR b) AND c = (0 :: u32)"
  by (simp add: bit.conj_disj_distrib2)

lemma and_not_and: "(a AND NOT c) AND c = (0 :: u32)"
  by (simp add: and.assoc)

lemma cont_stop_values: "sigbit SIGCONT = 0x20000" "STOP_SIGNALS = 0x3c0000"
  by (simp_all add: sigbit_def STOP_SIGNALS_def push_bit_eq_mult)

lemma job_ok_deliver:
  assumes "job_ok t" "sig \<le> 32"
  shows "job_ok (deliver sig t)"
proof (cases "sig = 0")
  case True
  then show ?thesis using assms by (simp add: deliver_def)
next
  case False
  define u where "u = discard_cont sig (resume_stopped sig t)"
  have d: "signal (deliver sig t) = signal u \<or> signal (deliver sig t) = signal u OR sigbit sig"
    using False by (simp add: deliver_def Let_def u_def)
  note dis = sigbit_disjoint [OF assms(2) False]
  consider "sig = SIGCONT" | "SIGSTOP \<le> sig \<and> sig \<le> SIGTTOU" | "sig \<noteq> SIGCONT" "\<not> (SIGSTOP \<le> sig \<and> sig \<le> SIGTTOU)"
    by blast
  then show ?thesis
  proof cases
    case 1
    then have "signal u AND STOP_SIGNALS = 0"
      by (simp add: u_def discard_cont_def resume_stopped_def Let_def and_not_and)
    moreover have "sigbit sig AND STOP_SIGNALS = 0" using 1 dis by simp
    ultimately show ?thesis using d by (auto simp: job_ok_def intro: and_or_zero)
  next
    case 2
    then have ne: "sig \<noteq> SIGCONT" by auto
    then have "signal u AND sigbit SIGCONT = 0" using 2 by (simp add: u_def discard_cont_def and_not_and)
    then show ?thesis using d dis(2) [OF ne] by (auto simp: job_ok_def intro: and_or_zero)
  next
    case 3
    have "signal u AND c = 0" if "signal t AND c = 0" for c
    proof -
      have "(signal t AND NOT STOP_SIGNALS) AND c = (signal t AND c) AND NOT STOP_SIGNALS" by (simp add: ac_simps)
      with that have "signal (resume_stopped sig t) AND c = 0" by (auto simp: resume_stopped_def Let_def)
      then show ?thesis using 3(2) by (auto simp: u_def discard_cont_def)
    qed
    then have "signal t AND c = 0 \<Longrightarrow> sigbit sig AND c = 0 \<Longrightarrow> signal (deliver sig t) AND c = 0" for c
      using d and_or_zero by metis
    then show ?thesis using assms(1) dis(1) [OF 3(2)] dis(2) [OF 3(1)] unfolding job_ok_def by blast
  qed
qed

text \<open>C33. Whatever signal is sent, by whomever, to whichever task: if no task has both SIGCONT and
  a stop signal pending before, none has after (POSIX 3.3.1.3).\<close>

theorem send_sig_job_control:
  assumes "\<forall>q. job_ok (tasks k q)"
  shows "job_ok (tasks (snd (send_sig sig p priv k)) q)"
proof (cases p)
  case None
  then show ?thesis using assms by (simp add: send_sig_def)
next
  case (Some r)
  show ?thesis
  proof (cases "sig \<le> 32")
    case True
    then show ?thesis using assms job_ok_deliver by (simp add: Some send_sig_eq)
  next
    case False
    then show ?thesis using assms by (auto simp: Some send_sig_eq)
  qed
qed

theorem send_sig_job_control_witness:
  "job_ok (tasks (snd (send_sig SIGTSTP (Some 3) True demo_kernel)) 3) \<and> job_ok (tasks demo_kernel 3)"
proof -
  have "\<forall>q. job_ok (tasks demo_kernel q)"
    by (simp add: job_ok_def demo_kernel_def demo_heap_def demo_task_def)
  then show ?thesis using send_sig_job_control [of demo_kernel SIGTSTP "Some 3" True 3] by simp
qed

section \<open>SIGKILL and SIGSTOP stay deliverable\<close>

definition sig_ok :: "task_struct \<Rightarrow> bool" where
  "sig_ok t \<longleftrightarrow>
     length (sigaction t) = 32 \<and> blocked t AND NOT BLOCKABLE = 0 \<and>
     (\<forall>sa\<in>set (sigaction t). sa_mask sa AND NOT BLOCKABLE = 0) \<and>
     sa_handler (sa_of t SIGKILL) = SIG_DFL \<and> sa_handler (sa_of t SIGSTOP) = SIG_DFL"

lemma and_blockable [simp]: "(x AND BLOCKABLE) AND NOT BLOCKABLE = 0"
  by (simp add: and.assoc)

lemma fix_sa_mask_ok: "sa_mask (fix_sa_mask n sa) AND NOT BLOCKABLE = 0"
  by (simp add: fix_sa_mask_def)

lemma to_u32_signum:
  assumes "\<not> bad_signum s"
  shows "unat (to_u32 s) = nat s" "nat s - 1 < 32" "nat s - 1 \<noteq> 8" "nat s - 1 \<noteq> 18"
  using assms by (auto simp: bad_signum_def unat_eq_nat_uint uint_word_of_int)

lemma sig_ok_set_sa:
  assumes "sig_ok (cur k)" "\<not> bad_signum s" "sa_mask sa AND NOT BLOCKABLE = 0"
  shows "sig_ok (tasks (set_sa (to_u32 s) sa k) (current k))"
  using assms to_u32_signum [OF assms(2)]
  by (auto simp: sig_ok_def set_sa_def sa_of_def dest!: subsetD [OF set_update_subset_insert])

lemma sig_ok_signal [simp]: "sig_ok (t\<lparr>signal := g\<rparr>) = sig_ok t"
  by (simp add: sig_ok_def sa_of_def)

lemma check_pending_frame [simp]:
  "current (check_pending n k) = current k" "sig_ok (tasks (check_pending n k) p) = sig_ok (tasks k p)"
  by (simp_all add: check_pending_def Let_def)

lemma set_sa_frame [simp]: "current (set_sa n sa k) = current k"
  by (simp add: set_sa_def)

lemma save_oldaction_frame [simp]: "current (save_oldaction n a k) = current k" "tasks (save_oldaction n a k) = tasks k"
  by (simp_all add: save_oldaction_def)

lemma sig_ok_ssetmask: "sig_ok (cur k) \<Longrightarrow> sig_ok (cur (snd (sys_ssetmask m k)))"
  by (simp add: sys_ssetmask_def sig_ok_def sa_of_def)

lemma sig_ok_sys_signal: "sig_ok (cur k) \<Longrightarrow> sig_ok (cur (snd (sys_signal s h k)))"
  by (auto simp: sys_signal_def Let_def sig_ok_set_sa)

lemma sig_ok_sys_sigaction: "sig_ok (cur k) \<Longrightarrow> sig_ok (cur (snd (sys_sigaction s a old k)))"
proof -
  assume ok: "sig_ok (cur k)"
  show ?thesis
  proof (cases "bad_signum s")
    case False
    let ?k = "save_oldaction (to_u32 s) old k"
    have "sig_ok (cur ?k)" using ok by simp
    from sig_ok_set_sa [OF this False fix_sa_mask_ok] show ?thesis
      using False ok by (simp add: sys_sigaction_def Let_def)
  qed (use ok in \<open>simp add: sys_sigaction_def\<close>)
qed

section \<open>Reading an action back\<close>

lemma get_put_fs_long_off:
  assumes "\<forall>i\<in>{0,1,2,3}. \<forall>j\<in>{0,1,2,3}. a + i \<noteq> b + (j :: u32)"
  shows "get_fs_long (put_fs_long v b m) a = get_fs_long m a"
  using assms by (auto simp: get_fs_long_def put_fs_long_def)

lemma read_write_sigaction: "read_sigaction (write_sigaction sa a m) a = sa"
  unfolding read_sigaction_def write_sigaction_def
  by (simp add: get_put_fs_long_off add.assoc)



section \<open>Orphaned process groups\<close>

lemma is_orphaned_loop_iff:
  "is_orphaned_loop k grp ps = (if \<exists>p\<in>set ps. pgrp (tasks k p) = grp \<and> state (tasks k p) \<noteq> TASK_ZOMBIE \<and>
     pid (tasks k (p_pptr (tasks k p))) \<noteq> 1 \<and> pgrp (tasks k (p_pptr (tasks k p))) \<noteq> grp \<and>
     session (tasks k (p_pptr (tasks k p))) = session (tasks k p) then 0 else 1)"
  by (induction k grp ps rule: is_orphaned_loop.induct) (auto simp: Let_def)

lemma has_stopped_loop_iff:
  "has_stopped_loop k grp ps = (if \<exists>p\<in>set ps. pgrp (tasks k p) = grp \<and> state (tasks k p) = TASK_STOPPED then 1 else 0)"
  by (induction k grp ps rule: has_stopped_loop.induct) auto

end
