(* ===== verification/Ioport.thy ===== *)
theory Ioport
  imports Signals
begin

text \<open>
  Access to the hardware: the per-process bitmap of I/O ports (\<^verbatim>\<open>kernel/ioport.c\<close>) and the allocation of DMA
  channels (\<^verbatim>\<open>kernel/dma.c\<close>). A port is open to user mode when its bit in the task's bitmap is clear.
\<close>

section \<open>I/O permissions\<close>

definition io_and_or :: "bool \<Rightarrow> u32 \<Rightarrow> u32 \<Rightarrow> u32" where
  "io_and_or turn_on msk w = (if turn_on then w AND NOT msk else w OR msk)"

text \<open>\<open>while (numl--) *iop++ = mask;\<close>\<close>

fun io_fill :: "nat \<Rightarrow> nat \<Rightarrow> u32 \<Rightarrow> u32 list \<Rightarrow> u32 list" where
  "io_fill 0 iop msk bm = bm"
| "io_fill (Suc n) iop msk bm = io_fill n (Suc iop) msk (bm[iop := msk])"

text \<open>The part from \<open>if (numl)\<close> on, for whole words and the last partial one. After the loop \<open>numl\<close> is all
  ones, so only \<open>rindex\<close> decides about the partial word.\<close>

definition io_words :: "bool \<Rightarrow> u32 \<Rightarrow> u32 \<Rightarrow> nat \<Rightarrow> u32 list \<Rightarrow> u32 list" where
  "io_words turn_on numl rindex iop bm =
     (if numl = 0 then bm
      else
        let numl = (if rindex \<noteq> 0 then numl - 1 else numl);
            bm = io_fill (unat numl) iop (if turn_on then 0 else - 1) bm;
            iop = iop + unat numl
        in if rindex \<noteq> 0 then bm[iop := io_and_or turn_on (NOT (push_bit (unat rindex) (- 1))) (bm ! iop)] else bm)"

definition io_first :: "bool \<Rightarrow> u32 \<Rightarrow> u32 \<Rightarrow> u32 \<Rightarrow> nat \<Rightarrow> u32 list \<Rightarrow> u32 list" where
  "io_first turn_on lindex numl rindex iop bm =
     (let msk = push_bit (unat lindex) (- 1);
          msk = (if numl = 0 \<and> rindex \<noteq> 0 then msk AND NOT (push_bit (unat rindex) (- 1)) else msk)
      in bm[iop := io_and_or turn_on msk (bm ! iop)])"

definition io_bitmap_set :: "u32 \<Rightarrow> u32 \<Rightarrow> bool \<Rightarrow> u32 list \<Rightarrow> u32 list" where
  "io_bitmap_set from num turn_on bm =
     (let froml = drop_bit 5 from;
          lindex = from AND 0x1f;
          tnum = lindex + num;
          numl = drop_bit 5 (tnum + 0x1f);
          rindex = tnum AND 0x1f
      in if numl \<noteq> 0 then
           if lindex \<noteq> 0
           then io_words turn_on (numl - 1) rindex (unat froml + 1)
                  (io_first turn_on lindex (numl - 1) rindex (unat froml) bm)
           else io_words turn_on numl rindex (unat froml) bm
         else bm)"

definition sys_ioperm :: "u32 \<Rightarrow> u32 \<Rightarrow> bool \<Rightarrow> kernel \<Rightarrow> int \<times> kernel" where
  "sys_ioperm from num turn_on k =
     (if from + num \<le> from then (- EINVAL, k)
      else if from + num > 32 * 32 then (- EINVAL, k)
      else if \<not> suser k then (- EPERM, k)
      else (0, set_cur (\<lambda>t. t\<lparr>io_bitmap := io_bitmap_set from num turn_on (io_bitmap t)\<rparr>) k))"

text \<open>\<open>iopl\<close> rewrites the saved flags on the kernel stack; the result has their new value.\<close>

definition sys_iopl :: "u32 \<Rightarrow> u32 \<Rightarrow> kernel \<Rightarrow> int \<times> u32" where
  "sys_iopl level eflags k =
     (if level > 3 then (- EINVAL, eflags)
      else if \<not> suser k then (- EPERM, eflags)
      else (0, (eflags AND 0xffffcfff) OR push_bit 12 level))"

section \<open>DMA channels\<close>

definition mutex_atomic_swap :: "nat \<Rightarrow> u32 \<Rightarrow> u32 list \<Rightarrow> u32 \<times> u32 list" where
  "mutex_atomic_swap p newval busy = (busy ! p, busy[p := newval])"

definition request_dma :: "u32 \<Rightarrow> u32 list \<Rightarrow> int \<times> u32 list" where
  "request_dma dmanr busy =
     (if dmanr \<ge> 8 then (- EINVAL, busy)
      else
        let (old, busy) = mutex_atomic_swap (unat dmanr) 1 busy
        in if old \<noteq> 0 then (- EBUSY, busy) else (0, busy))"

definition free_dma :: "u32 \<Rightarrow> u32 list \<Rightarrow> u32 list" where
  "free_dma dmanr busy =
     (if dmanr \<ge> 8 then busy else snd (mutex_atomic_swap (unat dmanr) 0 busy))"

definition dma_chan_busy :: "u32 list" where
  "dma_chan_busy = [1, 0, 0, 0, 1, 0, 0, 0]"

section \<open>The bitmap\<close>

definition port_bit :: "u32 list \<Rightarrow> nat \<Rightarrow> bool" where
  "port_bit bm p \<longleftrightarrow> bit (bm ! (p div 32)) (p mod 32)"

lemma length_io_fill [simp]: "length (io_fill n iop m bm) = length bm"
  by (induction n iop m bm rule: io_fill.induct) simp_all

lemma io_fill_nth:
  "i < length bm \<Longrightarrow> io_fill n iop m bm ! i = (if iop \<le> i \<and> i < iop + n then m else bm ! i)"
  by (induction n iop m bm rule: io_fill.induct) (auto simp: nth_list_update)

lemma bit_io_and_or: "b < 32 \<Longrightarrow> bit (io_and_or on m w) b = (if bit m b then \<not> on else bit w b)"
  by (auto simp: io_and_or_def bit_simps)

text \<open>Bits of one word: position \<open>b\<close> of word \<open>i\<close>, when \<open>cnt\<close> words from \<open>i0\<close> are to be set, the last up to
  bit \<open>r\<close> unless \<open>r\<close> is 0.\<close>

lemma io_words_bit:
  assumes "i < length bm" "b < 32" "unat rindex < 32" "i0 + unat numl \<le> length bm"
  shows "bit (io_words on numl rindex i0 bm ! i) b =
    (if i0 \<le> i \<and> (if unat rindex = 0 then i < i0 + unat numl
                   else i + 1 < i0 + unat numl \<or> i + 1 = i0 + unat numl \<and> b < unat rindex)
     then \<not> on else bit (bm ! i) b)"
proof (cases "numl = 0")
  case True
  then show ?thesis by (auto simp: io_words_def)
next
  case False
  then have n: "unat (numl - 1) = unat numl - 1" "unat numl > 0" by (simp_all add: unat_minus_one unat_gt_0)
  have r: "rindex = 0 \<longleftrightarrow> unat rindex = 0" by (simp add: unat_eq_0)
  show ?thesis
  proof (cases "unat rindex = 0")
    case True
    then show ?thesis using assms False r by (auto simp: io_words_def Let_def io_fill_nth)
  next
    case nz: False
    let ?c = "unat numl - 1"
    have "io_words on numl rindex i0 bm ! i =
        (if i = i0 + ?c then io_and_or on (NOT (push_bit (unat rindex) (- 1))) (bm ! i)
         else io_fill ?c i0 (if on then 0 else - 1) bm ! i)"
      using False nz r n assms(1,4) by (auto simp: io_words_def Let_def nth_list_update io_fill_nth)
    then show ?thesis using n nz assms
      by (auto simp: bit_io_and_or bit_mask_iff io_fill_nth)
  qed
qed

lemma io_first_bit:
  assumes "i < length bm" "b < 32"
  shows "bit (io_first on lindex numl rindex i0 bm ! i) b =
    (if i = i0 \<and> unat lindex \<le> b \<and> (numl = 0 \<and> rindex \<noteq> 0 \<longrightarrow> b < unat rindex) then \<not> on else bit (bm ! i) b)"
proof (cases "i = i0")
  case True
  then show ?thesis using assms
    by (simp add: io_first_def Let_def bit_io_and_or bit_and_iff bit_mask_iff bit_not_iff not_less) auto
next
  case False
  then show ?thesis by (simp add: io_first_def Let_def)
qed

lemma length_io_first [simp]: "length (io_first on l n r i bm) = length bm"
  by (simp add: io_first_def Let_def)

text \<open>The words of the interval: with \<open>from = 32 * fl + l\<close> and \<open>l + num = 32 * q + r\<close>, the source's
  \<open>numl\<close> is \<open>q\<close>, or \<open>q + 1\<close> when \<open>r\<close> is not 0.\<close>

lemma io_numbers:
  fixes "from" :: u32 and num :: u32
  assumes "unat from + unat num \<le> 1024"
  shows "unat (drop_bit 5 from) = unat from div 32" "unat (from AND 0x1f) = unat from mod 32"
    "unat (drop_bit 5 ((from AND 0x1f) + num + 0x1f)) = (unat from mod 32 + unat num + 31) div 32"
    "unat (((from AND 0x1f) + num) AND 0x1f) = (unat from mod 32 + unat num) mod 32"
proof -
  have m: "unat (x AND 0x1f) = unat x mod 32" for x :: u32
  proof -
    have "x AND 0x1f = take_bit 5 x" by (simp add: take_bit_eq_mask mask_eq_exp_minus_1)
    then show ?thesis by (simp add: take_bit_eq_mod unat_mod)
  qed
  have d: "unat (drop_bit 5 x) = unat x div 32" for x :: u32
    by (simp add: drop_bit_eq_div unat_div)
  have lt: "unat from mod 32 < 32" by simp
  have t: "unat ((from AND 0x1f) + num) = unat from mod 32 + unat num"
    using assms lt by (simp add: unat_word_ariths m)
  have u: "unat ((from AND 0x1f) + num + 0x1f) = unat from mod 32 + unat num + 31"
    using assms lt t by (simp add: unat_word_ariths m)
  show "unat (drop_bit 5 from) = unat from div 32" by (rule d)
  show "unat (from AND 0x1f) = unat from mod 32" by (rule m)
  show "unat (drop_bit 5 ((from AND 0x1f) + num + 0x1f)) = (unat from mod 32 + unat num + 31) div 32"
    by (simp only: d u)
  show "unat (((from AND 0x1f) + num) AND 0x1f) = (unat from mod 32 + unat num) mod 32"
    by (simp only: m t)
qed

text \<open>Positions as pairs of a word and a bit, compared lexicographically.\<close>

lemma port_less: "b < 32 \<Longrightarrow> r < 32 \<Longrightarrow> 32 * i + b < 32 * k + r \<longleftrightarrow> i < k \<or> i = k \<and> b < r" for b :: nat
  by auto

lemma io_round_up: "(t + 31) div 32 = (if t mod 32 = 0 then t div 32 else t div 32 + 1)" for t :: nat
proof -
  have lt: "t mod 32 < 32" by simp
  have "(t + 31) div 32 = (32 * (t div 32) + (t mod 32 + 31)) div 32" by simp
  also have "\<dots> = t div 32 + (t mod 32 + 31) div 32" by (simp only: div_mult_self4 zero_neq_numeral not_False_eq_True)
  also have "(t mod 32 + 31) div 32 = (if t mod 32 = 0 then 0 else 1)"
    using lt by (simp add: div_nat_eqI)
  finally show ?thesis by simp
qed

lemma io_bitmap_set_bit:
  assumes "unat from + unat num \<le> 1024" "0 < unat num" "length bm = 33" "p < 1024"
  shows "port_bit (io_bitmap_set from num on bm) p =
    (if unat from \<le> p \<and> p < unat from + unat num then \<not> on else port_bit bm p)"
proof -
  define F l i b where "F = unat from div 32" and "l = unat from mod 32" and "i = p div 32" and "b = p mod 32"
  define q r where "q = (l + unat num) div 32" and "r = (l + unat num) mod 32"
  define numl where "numl = drop_bit 5 ((from AND 0x1f) + num + 0x1f)"
  define rindex where "rindex = ((from AND 0x1f) + num) AND 0x1f"
  note N = io_numbers [OF assms(1), folded F_def l_def numl_def rindex_def, folded r_def]
  have ib: "i < 32" "b < 32" "l < 32" "r < 32" "p = 32 * i + b" "unat from = 32 * F + l"
    "unat from + unat num = 32 * (F + q) + r"
    using assms(4) by (auto simp: i_def b_def F_def l_def q_def r_def)
  have less: "p < unat from + unat num \<longleftrightarrow> i < F + q \<or> i = F + q \<and> b < r"
    "p < unat from \<longleftrightarrow> i < F \<or> i = F \<and> b < l"
    by (simp only: ib(5) ib(7) port_less [OF ib(2,4)]) (simp only: ib(5) ib(6) port_less [OF ib(2,3)])
  have nl: "unat numl = (if r = 0 then q else q + 1)" and q0: "r = 0 \<longrightarrow> 0 < q"
    using N(3) assms(2) io_round_up [of "l + unat num"] unfolding q_def r_def by auto
  have Fq: "F + unat numl \<le> 32" using nl ib(7) assms(1) by (auto split: if_splits)
  have nz: "numl \<noteq> 0" using nl q0 by (auto split: if_splits)
  then have pred: "unat (numl - 1) = unat numl - 1" by (rule unat_minus_one)
  have r0: "rindex = 0 \<longleftrightarrow> r = 0" and l0: "from AND 0x1f = 0 \<longleftrightarrow> l = 0"
    and p0: "numl - 1 = 0 \<longleftrightarrow> unat numl - 1 = 0"
    using N(2,4) pred by (metis unat_eq_0)+
  have eq: "port_bit (io_bitmap_set from num on bm) p = bit (io_bitmap_set from num on bm ! i) b" "port_bit bm p = bit (bm ! i) b"
    by (simp_all add: port_bit_def i_def b_def)
  show ?thesis
  proof (cases "l = 0")
    case True
    have "io_bitmap_set from num on bm = io_words on numl rindex F bm"
      using nz True l0 N(1) by (simp add: io_bitmap_set_def Let_def numl_def rindex_def)
    then show ?thesis
      using io_words_bit [of i bm b rindex F numl on] Fq ib(1,2,4) assms(3) N(4) True nl less q0
      unfolding eq by (auto simp: not_less)
  next
    case False
    have e: "io_bitmap_set from num on bm = io_words on (numl - 1) rindex (F + 1)
        (io_first on (from AND 0x1f) (numl - 1) rindex F bm)"
      using nz False l0 N(1) by (simp add: io_bitmap_set_def Let_def numl_def rindex_def)
    have F1: "F + 1 + unat (numl - 1) \<le> 32" using Fq nl q0 pred by (auto split: if_splits)
    have c: "(F + 1 \<le> i \<and> (if r = 0 then i < F + 1 + (unat numl - 1)
        else i + 1 < F + 1 + (unat numl - 1) \<or> i + 1 = F + 1 + (unat numl - 1) \<and> b < r)) \<or>
      (i = F \<and> l \<le> b \<and> (unat numl - 1 = 0 \<and> r \<noteq> 0 \<longrightarrow> b < r)) \<longleftrightarrow>
      unat from \<le> p \<and> p < unat from + unat num"
      unfolding less(1) not_less [symmetric, of "unat from"] less(2) nl using q0 by (cases "r = 0") auto
    have "bit (io_first on (from AND 0x1f) (numl - 1) rindex F bm ! i) b =
        (if i = F \<and> l \<le> b \<and> (unat numl - 1 = 0 \<and> r \<noteq> 0 \<longrightarrow> b < r) then \<not> on else bit (bm ! i) b)"
      using io_first_bit [of i bm b on "from AND 0x1f" "numl - 1" rindex F] ib(1,2) assms(3)
      unfolding N(2,4) p0 r0 by simp
    moreover have "bit (io_bitmap_set from num on bm ! i) b =
        (if F + 1 \<le> i \<and> (if r = 0 then i < F + 1 + (unat numl - 1)
           else i + 1 < F + 1 + (unat numl - 1) \<or> i + 1 = F + 1 + (unat numl - 1) \<and> b < r)
         then \<not> on else bit (io_first on (from AND 0x1f) (numl - 1) rindex F bm ! i) b)"
      using io_words_bit [of i "io_first on (from AND 0x1f) (numl - 1) rindex F bm" b rindex "F + 1" "numl - 1" on]
        F1 ib(1,2,4) assms(3) unfolding e N(4) pred by simp
    ultimately show ?thesis unfolding eq c [symmetric] by argo
  qed
qed


text \<open>C36. Super-user's \<open>ioperm\<close> changes exactly the ports it names: after the call every port of the bitmap
  inside the interval has the requested permission (bit clear when turned on) and every other port keeps its old
  one. Any other caller, an empty or overflowing interval, and one that ends above port 1024 change nothing.\<close>

theorem ioperm_exact_interval:
  assumes "length (io_bitmap (cur k)) = 33" "p < 1024"
  shows "port_bit (io_bitmap (cur (snd (sys_ioperm from num on k)))) p =
    (if fst (sys_ioperm from num on k) = 0 \<and> unat from \<le> p \<and> p < unat from + unat num
     then \<not> on else port_bit (io_bitmap (cur k)) p) \<and>
    (fst (sys_ioperm from num on k) = 0 \<longleftrightarrow>
       0 < unat num \<and> unat from + unat num \<le> 1024 \<and> suser k)"
proof -
  have g: "from + num \<le> from \<or> from + num > 32 * 32 \<longleftrightarrow> unat num = 0 \<or> 1024 < unat from + unat num"
  proof -
    have lt: "unat from < 4294967296" "unat num < 4294967296"
      using unsigned_less [of "from", where 'a = nat] unsigned_less [of num, where 'a = nat] by simp_all
    show ?thesis
  proof (cases "unat from + unat num < 2 ^ 32")
    case True
    then have "unat (from + num) = unat from + unat num" by (simp add: unat_word_ariths)
    then show ?thesis by (auto simp: word_le_nat_alt word_less_nat_alt)
  next
    case False
    then have "unat (from + num) = unat from + unat num - 2 ^ 32"
      using lt by (simp add: unat_word_ariths le_mod_geq)
    then have "from + num \<le> from" using lt by (simp add: word_le_nat_alt)
    then show ?thesis using False by simp
  qed
  qed
  consider (bad) "unat num = 0 \<or> 1024 < unat from + unat num" | (perm) "\<not> suser k"
    | (ok) "0 < unat num" "unat from + unat num \<le> 1024" "suser k" by linarith
  then show ?thesis
  proof cases
    case bad
    then have "sys_ioperm from num on k = (- EINVAL, k)" using g by (auto simp: sys_ioperm_def)
    then show ?thesis using bad by auto
  next
    case perm
    then have "sys_ioperm from num on k = (- EINVAL, k) \<or> sys_ioperm from num on k = (- EPERM, k)"
      by (auto simp: sys_ioperm_def)
    then show ?thesis using perm by auto
  next
    case ok
    then have "sys_ioperm from num on k =
        (0, set_cur (\<lambda>t. t\<lparr>io_bitmap := io_bitmap_set from num on (io_bitmap t)\<rparr>) k)"
      using g by (auto simp: sys_ioperm_def)
    then show ?thesis using ok io_bitmap_set_bit [OF ok(2,1) assms] by simp
  qed
qed

theorem ioperm_exact_interval_witness:
  "port_bit (io_bitmap (cur (snd (sys_ioperm 30 40 True (demo_kernel\<lparr>current := 1\<rparr>))))) 31 =
    (if fst (sys_ioperm 30 40 True (demo_kernel\<lparr>current := 1\<rparr>)) = 0 \<and> unat (30 :: u32) \<le> 31 \<and> (31::nat) < unat (30 :: u32) + unat (40 :: u32)
     then \<not> True else port_bit (io_bitmap (cur (demo_kernel\<lparr>current := 1\<rparr>))) 31) \<and>
    (fst (sys_ioperm 30 40 True (demo_kernel\<lparr>current := 1\<rparr>)) = 0 \<longleftrightarrow>
       0 < unat (40 :: u32) \<and> unat (30 :: u32) + unat (40 :: u32) \<le> 1024 \<and> suser (demo_kernel\<lparr>current := 1\<rparr>))"
  by (rule ioperm_exact_interval) (simp_all add: demo_kernel_def demo_heap_def demo_task_def)

section \<open>Ownership of DMA channels\<close>

datatype dma_op = Request u32 | Free u32

fun dma_run :: "dma_op list \<Rightarrow> u32 list \<Rightarrow> u32 list" where
  "dma_run [] busy = busy"
| "dma_run (Request c # ops) busy = dma_run ops (snd (request_dma c busy))"
| "dma_run (Free c # ops) busy = dma_run ops (free_dma c busy)"

text \<open>Who has the channel, from the history alone: the last operation on it decides.\<close>

fun dma_taken :: "u32 \<Rightarrow> dma_op list \<Rightarrow> bool \<Rightarrow> bool" where
  "dma_taken c [] h = h"
| "dma_taken c (Request d # ops) h = dma_taken c ops (h \<or> d = c)"
| "dma_taken c (Free d # ops) h = dma_taken c ops (h \<and> d \<noteq> c)"

lemma dma_run_taken:
  assumes "length busy = 8" "c < 8"
  shows "length (dma_run ops busy) = 8 \<and> (dma_run ops busy ! unat c \<noteq> 0 \<longleftrightarrow> dma_taken c ops (busy ! unat c \<noteq> 0))"
  using assms
proof (induction ops busy rule: dma_run.induct)
  case (2 d ops busy)
  have c: "unat c < 8" using 2 by (simp add: word_less_nat_alt)
  have d: "unat d < 8 \<longleftrightarrow> d < 8" by (simp add: word_less_nat_alt)
  have "snd (request_dma d busy) ! unat c \<noteq> 0 \<longleftrightarrow> busy ! unat c \<noteq> 0 \<or> d = c"
    using c d 2 by (auto simp: request_dma_def mutex_atomic_swap_def nth_list_update not_le word_unat_eq_iff)
  then show ?case using 2 by (simp add: request_dma_def mutex_atomic_swap_def)
next
  case (3 d ops busy)
  have c: "unat c < 8" using 3 by (simp add: word_less_nat_alt)
  have d: "unat d < 8 \<longleftrightarrow> d < 8" by (simp add: word_less_nat_alt)
  have "free_dma d busy ! unat c \<noteq> 0 \<longleftrightarrow> busy ! unat c \<noteq> 0 \<and> d \<noteq> c"
    using c d 3 by (auto simp: free_dma_def mutex_atomic_swap_def nth_list_update not_le word_unat_eq_iff)
  then show ?case using 3 by (simp add: free_dma_def mutex_atomic_swap_def)
qed simp

lemma length_dma_chan_busy: "length dma_chan_busy = 8"
  by (simp add: dma_chan_busy_def)

text \<open>A DMA channel has one owner at a time: after any sequence of requests and releases since boot, a request
  is granted exactly when the channel exists and the history of the channel leaves it free, that is, it is not
  granted since its last release; channels 0 and 4 count as granted at boot.\<close>

theorem dma_exclusive:
  "fst (request_dma c (dma_run ops dma_chan_busy)) =
     (if c \<ge> 8 then - EINVAL else if dma_taken c ops (c = 0 \<or> c = 4) then - EBUSY else 0)"
proof (cases "c < 8")
  case True
  have "unat c < 8" using True by (simp add: word_less_nat_alt)
  then have c: "unat c \<in> {0, 1, 2, 3, 4, 5, 6, 7}" by auto
  have e: "c = 0 \<longleftrightarrow> unat c = 0" "c = 4 \<longleftrightarrow> unat c = 4" by (simp_all add: word_unat_eq_iff)
  have "dma_chan_busy ! unat c \<noteq> 0 \<longleftrightarrow> c = 0 \<or> c = 4" using c unfolding e by (elim insertE) (simp_all add: dma_chan_busy_def)
  then show ?thesis using True dma_run_taken [of dma_chan_busy c ops]
    by (simp add: request_dma_def mutex_atomic_swap_def Let_def length_dma_chan_busy not_le)
next
  case False
  then have "c \<ge> 8" by simp
  then show ?thesis by (simp add: request_dma_def)
qed

end
