(* ===== verification/Itimer.thy ===== *)
theory Itimer
  imports Signals
begin

text \<open>
  Interval timers (\<^verbatim>\<open>kernel/itimer.c\<close>): the conversions between \<open>struct timeval\<close> and clock ticks, and
  the system calls that read and set the three timers of the calling process. The theorems show that
  ticks survive the round trip through microseconds, that a timer is never shorter than asked for and
  less than one tick longer, and that reading a timer just set returns it.
\<close>

record timeval =
  tv_sec :: int
  tv_usec :: int

record itimerval =
  it_interval :: timeval
  it_value :: timeval

definition tvtojiffies :: "timeval \<Rightarrow> u32" where
  "tvtojiffies v =
     to_u32 (tv_sec v) * HZ + to_u32 (s32 (tv_usec v + (1000000 sdiv 100 - 1))) div (1000000 div HZ)"

definition jiffiestotv :: "u32 \<Rightarrow> timeval" where
  "jiffiestotv j = \<lparr>tv_sec = sint (j div HZ), tv_usec = sint ((j mod HZ) * (1000000 div HZ))\<rparr>"

abbreviation (input) ITIMER_REAL :: int where "ITIMER_REAL \<equiv> 0"
abbreviation (input) ITIMER_VIRTUAL :: int where "ITIMER_VIRTUAL \<equiv> 1"
abbreviation (input) ITIMER_PROF :: int where "ITIMER_PROF \<equiv> 2"

definition itimer_ticks :: "int \<Rightarrow> task_struct \<Rightarrow> (u32 \<times> u32) option" where
  "itimer_ticks which t =
     (if which = ITIMER_REAL then Some (it_real_value t, it_real_incr t)
      else if which = ITIMER_VIRTUAL then Some (it_virt_value t, it_virt_incr t)
      else if which = ITIMER_PROF then Some (it_prof_value t, it_prof_incr t)
      else None)"

text \<open>\<open>_getitimer\<close>: the error, or the value it stores through its pointer.\<close>

definition getitimer :: "int \<Rightarrow> kernel \<Rightarrow> int + itimerval" where
  "getitimer which k =
     (case itimer_ticks which (cur k) of
        None \<Rightarrow> Inl (- EINVAL)
      | Some (val, interval) \<Rightarrow> Inr \<lparr>it_interval = jiffiestotv interval, it_value = jiffiestotv val\<rparr>)"

text \<open>\<open>struct itimerval\<close> in user memory: four longs, the interval first.\<close>

definition read_itimerval :: "umem \<Rightarrow> u32 \<Rightarrow> itimerval" where
  "read_itimerval m a =
     \<lparr>it_interval = \<lparr>tv_sec = sint (get_fs_long m a), tv_usec = sint (get_fs_long m (a + 4))\<rparr>,
      it_value = \<lparr>tv_sec = sint (get_fs_long m (a + 8)), tv_usec = sint (get_fs_long m (a + 12))\<rparr>\<rparr>"

definition write_itimerval :: "itimerval \<Rightarrow> u32 \<Rightarrow> umem \<Rightarrow> umem" where
  "write_itimerval v a m =
     put_fs_long (to_u32 (tv_usec (it_value v))) (a + 12)
       (put_fs_long (to_u32 (tv_sec (it_value v))) (a + 8)
         (put_fs_long (to_u32 (tv_usec (it_interval v))) (a + 4)
           (put_fs_long (to_u32 (tv_sec (it_interval v))) a m)))"

definition sys_getitimer :: "int \<Rightarrow> u32 \<Rightarrow> kernel \<Rightarrow> int \<times> kernel" where
  "sys_getitimer which val k =
     (if val = 0 then (- EFAULT, k)
      else
        case getitimer which k of
          Inl err \<Rightarrow> (err, k)
        | Inr get_buffer \<Rightarrow>
            let err = verify_area VERIFY_WRITE val 16
            in if err \<noteq> 0 then (err, k)
               else (0, k\<lparr>umem := write_itimerval get_buffer val (umem k)\<rparr>))"

definition set_itimer_ticks :: "int \<Rightarrow> u32 \<Rightarrow> u32 \<Rightarrow> task_struct \<Rightarrow> task_struct" where
  "set_itimer_ticks which j i t =
     (if which = ITIMER_REAL then t\<lparr>it_real_value := j, it_real_incr := i\<rparr>
      else if which = ITIMER_VIRTUAL then t\<lparr>it_virt_value := j, it_virt_incr := i\<rparr>
      else t\<lparr>it_prof_value := j, it_prof_incr := i\<rparr>)"

text \<open>\<open>_setitimer\<close>; \<open>want\<close> says that the caller passes a buffer for the old value, which is returned.\<close>

definition setitimer :: "int \<Rightarrow> itimerval \<Rightarrow> bool \<Rightarrow> kernel \<Rightarrow> (int \<times> itimerval option) \<times> kernel" where
  "setitimer which val want k =
     (let i = tvtojiffies (it_interval val);
          j = tvtojiffies (it_value val)
      in case getitimer which k of
           Inl err \<Rightarrow> ((if want then err else - EINVAL, None), k)
         | Inr old \<Rightarrow> ((0, if want then Some old else None), set_cur (set_itimer_ticks which j i) k))"

definition zero_itimerval :: itimerval where
  "zero_itimerval = \<lparr>it_interval = \<lparr>tv_sec = 0, tv_usec = 0\<rparr>, it_value = \<lparr>tv_sec = 0, tv_usec = 0\<rparr>\<rparr>"

definition sys_setitimer :: "int \<Rightarrow> u32 \<Rightarrow> u32 \<Rightarrow> kernel \<Rightarrow> int \<times> kernel" where
  "sys_setitimer which val ovalue k =
     (let set_buffer = (if val = 0 then zero_itimerval else read_itimerval (umem k) val);
          ((err, old), k) = setitimer which set_buffer (ovalue \<noteq> 0) k
      in case old of
           None \<Rightarrow> (err, k)
         | Some get_buffer \<Rightarrow>
             let err = verify_area VERIFY_WRITE ovalue 16
             in (err, if err = 0 then k\<lparr>umem := write_itimerval get_buffer ovalue (umem k)\<rparr> else k))"

section \<open>Conversions\<close>

definition usecs :: "timeval \<Rightarrow> int" where
  "usecs v = 1000000 * tv_sec v + tv_usec v"

definition timeval_ok :: "timeval \<Rightarrow> bool" where
  "timeval_ok v \<longleftrightarrow> 0 \<le> tv_sec v \<and> tv_sec v < 20000000 \<and> 0 \<le> tv_usec v \<and> tv_usec v < 1000000"

lemma sint_small: "uint (x :: u32) < 2147483648 \<Longrightarrow> sint x = uint x"
proof -
  assume "uint x < 2147483648"
  moreover have "- 2147483648 \<le> uint x" using uint_ge_0 [of x] by linarith
  ultimately show ?thesis by (simp add: sint_uint signed_take_bit_int_eq_self)
qed

lemma uint_to_u32: "0 \<le> x \<Longrightarrow> x < 4294967296 \<Longrightarrow> uint (to_u32 x) = x"
  by (simp add: uint_word_of_int)

lemma uint_jiffies: "uint (j div HZ) = uint j div 100" "uint (j mod HZ) = uint j mod 100"
  by (simp_all add: uint_div_distrib uint_mod_distrib)

lemma jiffiestotv_values:
  "tv_sec (jiffiestotv j) = uint j div 100" "tv_usec (jiffiestotv j) = uint j mod 100 * 10000"
proof -
  have b: "uint j < 4294967296" using uint_lt2p [of j] by simp
  have "uint (j div HZ) < 2147483648" using b by (simp add: uint_jiffies)
  then show "tv_sec (jiffiestotv j) = uint j div 100"
    by (simp add: jiffiestotv_def sint_small uint_jiffies)
  have "(1000000 div HZ :: u32) = 10000" by simp
  moreover have "uint ((j mod HZ) * 10000) = uint j mod 100 * 10000"
  proof -
    have "uint j mod 100 * 10000 < 4294967296" using pos_mod_bound [of 100 "uint j"] by linarith
    then show ?thesis by (simp add: uint_mult_lem uint_jiffies uint_word_ariths)
  qed
  moreover have "uint j mod 100 * 10000 < 2147483648" using pos_mod_bound [of 100 "uint j"] by linarith
  ultimately show "tv_usec (jiffiestotv j) = uint j mod 100 * 10000"
    by (simp add: jiffiestotv_def sint_small)
qed

lemma tvtojiffies_value:
  assumes "0 \<le> tv_sec v" "tv_sec v \<le> 42949672" "0 \<le> tv_usec v" "tv_usec v < 1000000"
    "tv_sec v * 100 + (tv_usec v + 9999) div 10000 < 4294967296"
  shows "uint (tvtojiffies v) = tv_sec v * 100 + (tv_usec v + 9999) div 10000"
proof -
  have s: "s32 (tv_usec v + (1000000 sdiv 100 - 1)) = tv_usec v + 9999"
    using assms by (subst s32_id) (simp_all add: sdiv_nonneg)
  have a: "uint (to_u32 (tv_sec v)) = tv_sec v" using assms by (simp add: uint_word_of_int)
  have m: "uint (to_u32 (tv_sec v) * HZ) = tv_sec v * 100"
    using assms a by (simp add: uint_word_ariths)
  have "uint (to_u32 (tv_usec v + 9999)) = tv_usec v + 9999" using assms by (intro uint_to_u32) auto
  then have d: "uint (to_u32 (tv_usec v + 9999) div (1000000 div HZ)) = (tv_usec v + 9999) div 10000"
    by (simp add: uint_div_distrib del: wi_hom_syms)
  have "uint (tvtojiffies v) =
      (uint (to_u32 (tv_sec v) * HZ) + uint (to_u32 (tv_usec v + 9999) div (1000000 div HZ))) mod 4294967296"
    unfolding tvtojiffies_def s by (simp add: uint_word_ariths)
  then show ?thesis unfolding m d using assms by simp
qed

lemma tick_roundtrip: "tvtojiffies (jiffiestotv j) = j"
proof -
  have b: "0 \<le> uint j" "uint j < 4294967296" using uint_lt2p [of j] by simp_all
  have m: "0 \<le> uint j mod 100" "uint j mod 100 < 100" by simp_all
  have "(uint j mod 100 * 10000 + 9999) div 10000 = uint j mod 100" by simp
  moreover have "uint j div 100 * 100 + uint j mod 100 = uint j" by simp
  ultimately have "uint (tvtojiffies (jiffiestotv j)) = uint j"
    using b m by (subst tvtojiffies_value) (auto simp: jiffiestotv_values pos_imp_zdiv_nonneg_iff)
  then show ?thesis by (simp only: word_uint_eq_iff)
qed

lemma usecs_rounding:
  assumes "timeval_ok v"
  shows "usecs v \<le> usecs (jiffiestotv (tvtojiffies v))" "usecs (jiffiestotv (tvtojiffies v)) < usecs v + 10000"
proof -
  define j where "j = uint (tvtojiffies v)"
  have q: "(tv_usec v + 9999) div 10000 \<le> 100" using zdiv_mono1 [of "tv_usec v + 9999" 1009998 10000] assms by (simp add: timeval_ok_def)
  have j: "j = tv_sec v * 100 + (tv_usec v + 9999) div 10000"
    unfolding j_def using assms q by (intro tvtojiffies_value) (auto simp: timeval_ok_def)
  have "usecs (jiffiestotv (tvtojiffies v)) = 1000000 * (j div 100) + j mod 100 * 10000"
    by (simp add: usecs_def jiffiestotv_values j_def)
  also have "\<dots> = j * 10000"
    using div_mult_mod_eq [of j 100] by presburger
  finally have u: "usecs (jiffiestotv (tvtojiffies v)) = j * 10000" .
  define d where "d = (tv_usec v + 9999) div 10000"
  define r where "r = (tv_usec v + 9999) mod 10000"
  have "d * 10000 + r = tv_usec v + 9999" "0 \<le> r" "r < 10000"
    unfolding d_def r_def by simp_all
  moreover have "j * 10000 = 1000000 * tv_sec v + d * 10000" by (simp add: j d_def)
  moreover have "usecs v = 1000000 * tv_sec v + tv_usec v" by (simp add: usecs_def)
  ultimately have "usecs v \<le> j * 10000" "j * 10000 < usecs v + 10000" by linarith+
  then show "usecs v \<le> usecs (jiffiestotv (tvtojiffies v))" "usecs (jiffiestotv (tvtojiffies v)) < usecs v + 10000"
    by (simp_all add: u)
qed

lemma itimer_ticks_set:
  "itimer_ticks which t \<noteq> None \<Longrightarrow> itimer_ticks which (set_itimer_ticks which j i t) = Some (j, i)"
  by (auto simp: itimer_ticks_def set_itimer_ticks_def split: if_splits)

text \<open>Set, then read: for any of the three timers, \<open>setitimer\<close> succeeds and \<open>getitimer\<close> then
  returns at least the time asked for and less than one clock tick (10 ms) more, for the value and
  for the interval.\<close>

theorem setitimer_getitimer:
  assumes "0 \<le> which" and "which \<le> 2" and "timeval_ok (it_value v)" and "timeval_ok (it_interval v)"
  shows "\<exists>old k' v'. setitimer which v True k = ((0, Some old), k') \<and> getitimer which k' = Inr v' \<and>
    usecs (it_value v) \<le> usecs (it_value v') \<and> usecs (it_value v') < usecs (it_value v) + 10000 \<and>
    usecs (it_interval v) \<le> usecs (it_interval v') \<and> usecs (it_interval v') < usecs (it_interval v) + 10000"
proof -
  have "itimer_ticks which (cur k) \<noteq> None" using assms(1,2) by (auto simp: itimer_ticks_def)
  then show ?thesis
    using itimer_ticks_set [of which "cur k"] usecs_rounding [OF assms(3)] usecs_rounding [OF assms(4)]
    by (auto simp: setitimer_def getitimer_def Let_def)
qed

theorem setitimer_getitimer_witness:
  "\<exists>old k' v'. setitimer 1 \<lparr>it_interval = \<lparr>tv_sec = 0, tv_usec = 1\<rparr>, it_value = \<lparr>tv_sec = 2, tv_usec = 15000\<rparr>\<rparr> True demo_kernel =
      ((0, Some old), k') \<and> getitimer 1 k' = Inr v' \<and> 2015000 \<le> usecs (it_value v') \<and> usecs (it_value v') < 2025000"
  using setitimer_getitimer [of 1 "\<lparr>it_interval = \<lparr>tv_sec = 0, tv_usec = 1\<rparr>, it_value = \<lparr>tv_sec = 2, tv_usec = 15000\<rparr>\<rparr>" demo_kernel]
  by (auto simp: timeval_ok_def usecs_def)

end
