(* ===== verification/Sched.thy ===== *)
theory Sched
  imports Itimer
begin

text \<open>
  The scheduler and the clock (\<^verbatim>\<open>kernel/sched.c\<close>): \<open>schedule\<close>, \<open>sleep_on\<close>, the list of kernel timers,
  the load average, the timer interrupt and the small system calls. \<open>schedule\<close> is modelled up to
  the task switch: the model's result has the chosen task as \<open>current\<close>. Functions the timers call
  belong to device drivers and are parameters.

  Kernel timers are kept as a list of differences; the interface locale states what a timer queue
  promises in absolute ticks and the difference list is its interpretation.
\<close>

section \<open>The scheduler\<close>

text \<open>The first loop of \<open>schedule\<close>, one task: a signal or an elapsed timeout wakes an interruptible
  sleeper.\<close>

definition sched_check :: "tptr \<Rightarrow> kernel \<Rightarrow> kernel" where
  "sched_check p k =
     (if state (tasks k p) \<noteq> TASK_INTERRUPTIBLE then k
      else if signal (tasks k p) AND NOT (blocked (tasks k p)) \<noteq> 0
      then upd_task p (\<lambda>t. t\<lparr>state := TASK_RUNNING\<rparr>) k
      else if timeout (tasks k p) \<noteq> 0 \<and> timeout (tasks k p) < jiffies k
      then upd_task p (\<lambda>t. t\<lparr>timeout := 0, state := TASK_RUNNING\<rparr>) k
      else k)"

text \<open>The second loop: the runnable task with the largest counter.\<close>

fun sched_pick :: "heap \<Rightarrow> tptr list \<Rightarrow> int \<Rightarrow> tptr \<Rightarrow> int \<times> tptr" where
  "sched_pick h [] c next = (c, next)"
| "sched_pick h (p # ps) c next =
     (if state (h p) = TASK_RUNNING \<and> counter (h p) > c
      then sched_pick h ps (counter (h p)) p
      else sched_pick h ps c next)"

definition sched_recount :: "tptr \<Rightarrow> kernel \<Rightarrow> kernel" where
  "sched_recount p k = upd_task p (\<lambda>t. t\<lparr>counter := s32 (drop_bit 1 (counter t) + priority t)\<rparr>) k"

definition schedule :: "kernel \<Rightarrow> kernel" where
  "schedule k =
     (let k = fold sched_check (for_each_task k) (k\<lparr>need_resched := False\<rparr>);
          (c, next) = sched_pick (tasks k) (for_each_task k) (- 1) init_task;
          k = (if c = 0 then fold sched_recount (for_each_task k) k else k)
      in k\<lparr>current := next\<rparr>)"

definition sys_pause :: "kernel \<Rightarrow> int \<times> kernel" where
  "sys_pause k = (- ERESTARTNOHAND, schedule (set_cur (\<lambda>t. t\<lparr>state := TASK_INTERRUPTIBLE\<rparr>) k))"

text \<open>\<open>__sleep_on\<close>, up to the call of \<open>schedule\<close> and from its return. A queue holds the sleeping
  tasks; \<open>None\<close> is the panic of the idle task going to sleep.\<close>

definition sleep_on_enter :: "task_state \<Rightarrow> tptr list \<Rightarrow> kernel \<Rightarrow> (tptr list \<times> kernel) option" where
  "sleep_on_enter st q k =
     (if task k ! 0 = Some (current k) then None
      else
        let p = current k;
            k = set_cur (\<lambda>t. t\<lparr>state := st\<rparr>) k
        in Some (case q of [] \<Rightarrow> [p] | x # xs \<Rightarrow> x # p # xs, schedule k))"

definition sleep_on_leave :: "tptr list \<Rightarrow> kernel \<Rightarrow> tptr list" where
  "sleep_on_leave q k = remove1 (current k) q"

section \<open>Kernel timers\<close>

text \<open>\<open>struct timer_list\<close>, identified by its address; the links are the order of the list.\<close>

record timer_list =
  tl_addr :: nat
  expires :: u32
  data :: u32
  tfunction :: u32

fun add_timer :: "timer_list \<Rightarrow> timer_list list \<Rightarrow> timer_list list" where
  "add_timer timer [] = [timer]"
| "add_timer timer (p # ps) =
     (if expires p > expires timer
      then timer # p\<lparr>expires := expires p - expires timer\<rparr> # ps
      else p # add_timer (timer\<lparr>expires := expires timer - expires p\<rparr>) ps)"

text \<open>\<open>del_timer\<close>: the result is the timer with the remaining time put back in it, or \<open>None\<close> for the
  return value 0.\<close>

fun del_timer_loop :: "nat \<Rightarrow> u32 \<Rightarrow> timer_list list \<Rightarrow> timer_list option \<times> timer_list list" where
  "del_timer_loop a exps [] = (None, [])"
| "del_timer_loop a exps (p # ps) =
     (if tl_addr p = a
      then (Some (p\<lparr>expires := expires p + exps\<rparr>),
            case ps of [] \<Rightarrow> [] | q # qs \<Rightarrow> q\<lparr>expires := expires q + expires p\<rparr> # qs)
      else
        let (r, qs) = del_timer_loop a (exps + expires p) ps
        in (r, p # qs))"

definition del_timer :: "nat \<Rightarrow> timer_list list \<Rightarrow> timer_list option \<times> timer_list list" where
  "del_timer a q = del_timer_loop a 0 q"

section \<open>The load average\<close>

abbreviation (input) FSHIFT :: nat where "FSHIFT \<equiv> 11"
abbreviation (input) FIXED_1 :: u32 where "FIXED_1 \<equiv> 2048"
abbreviation (input) LOAD_FREQ :: int where "LOAD_FREQ \<equiv> 500"
abbreviation (input) EXP_1 :: u32 where "EXP_1 \<equiv> 1884"
abbreviation (input) EXP_5 :: u32 where "EXP_5 \<equiv> 2014"
abbreviation (input) EXP_15 :: u32 where "EXP_15 \<equiv> 2037"

definition CALC_LOAD :: "u32 \<Rightarrow> u32 \<Rightarrow> u32 \<Rightarrow> u32" where
  "CALC_LOAD load ex n = drop_bit FSHIFT (load * ex + n * (FIXED_1 - ex))"

fun count_active_loop :: "heap \<Rightarrow> tptr option list \<Rightarrow> u32 \<Rightarrow> u32" where
  "count_active_loop h [] nr = nr"
| "count_active_loop h (p # ps) nr =
     count_active_loop h ps
       (case p of None \<Rightarrow> nr | Some q \<Rightarrow> if state (h q) = TASK_RUNNING then nr + FIXED_1 else nr)"

definition count_active_tasks :: "kernel \<Rightarrow> u32" where
  "count_active_tasks k = count_active_loop (tasks k) (rev (tl (task k))) 0"

text \<open>The state of the clock beside the process table.\<close>

record clock =
  kern :: kernel
  next_timer :: "timer_list list"
  timer_expires :: "u32 list"
  timer_active :: u32
  avenrun :: "u32 list"
  load_count :: int

definition calc_load :: "clock \<Rightarrow> clock" where
  "calc_load s =
     (let n = load_count s
      in if n > 0 then s\<lparr>load_count := n - 1\<rparr>
         else
           let active = count_active_tasks (kern s)
           in s\<lparr>load_count := LOAD_FREQ,
                avenrun := [CALC_LOAD (avenrun s ! 0) EXP_1 active, CALC_LOAD (avenrun s ! 1) EXP_5 active,
                            CALC_LOAD (avenrun s ! 2) EXP_15 active]\<rparr>)"

section \<open>The timer interrupt\<close>

text \<open>\<open>user\<close>: the interrupted code ran in user mode (or in virtual-8086 mode).\<close>

definition account_time :: "bool \<Rightarrow> kernel \<Rightarrow> kernel" where
  "account_time user k =
     (if user then
        let k = set_cur (\<lambda>t. t\<lparr>utime := s32 (utime t + 1)\<rparr>) k
        in if it_virt_value (cur k) \<noteq> 0 then
             let k = set_cur (\<lambda>t. t\<lparr>it_virt_value := it_virt_value t - 1\<rparr>) k
             in if it_virt_value (cur k) = 0
                then snd (send_sig SIGVTALRM (Some (current k)) True
                       (set_cur (\<lambda>t. t\<lparr>it_virt_value := it_virt_incr t\<rparr>) k))
                else k
           else k
      else set_cur (\<lambda>t. t\<lparr>stime := s32 (stime t + 1)\<rparr>) k)"

definition use_timeslice :: "kernel \<Rightarrow> kernel" where
  "use_timeslice k =
     (if task k ! 0 = Some (current k)
      then (set_cur (\<lambda>t. t\<lparr>counter := 0\<rparr>) k)\<lparr>need_resched := True\<rparr>
      else
        let k = set_cur (\<lambda>t. t\<lparr>counter := s32 (counter t - 1)\<rparr>) k
        in if counter (cur k) \<le> 0 then (set_cur (\<lambda>t. t\<lparr>counter := 0\<rparr>) k)\<lparr>need_resched := True\<rparr> else k)"

definition real_timer :: "tptr \<Rightarrow> kernel \<Rightarrow> kernel" where
  "real_timer p k =
     (if it_real_value (tasks k p) = 0 then k
      else
        let k = upd_task p (\<lambda>t. t\<lparr>it_real_value := it_real_value t - 1\<rparr>) k
        in if it_real_value (tasks k p) \<noteq> 0 then k
           else
             let k = snd (send_sig SIGALRM (Some p) True k);
                 k = upd_task p (\<lambda>t. t\<lparr>it_real_value := it_real_incr t\<rparr>) k
             in k\<lparr>need_resched := True\<rparr>)"

definition real_timers :: "kernel \<Rightarrow> kernel" where
  "real_timers k = fold real_timer (for_each_task k) k"

definition prof_timer :: "kernel \<Rightarrow> kernel" where
  "prof_timer k =
     (if it_prof_value (cur k) = 0 then k
      else
        let k = set_cur (\<lambda>t. t\<lparr>it_prof_value := it_prof_value t - 1\<rparr>) k
        in if it_prof_value (cur k) = 0
           then snd (send_sig SIGPROF (Some (current k)) True
                  (set_cur (\<lambda>t. t\<lparr>it_prof_value := it_prof_incr t\<rparr>) k))
           else k)"

text \<open>The fixed table of 32 timers; \<open>fn i\<close> is \<open>timer_table[i].fn\<close>.\<close>

fun timer_table_loop :: "(nat \<Rightarrow> clock \<Rightarrow> clock) \<Rightarrow> nat list \<Rightarrow> clock \<Rightarrow> clock" where
  "timer_table_loop fn [] s = s"
| "timer_table_loop fn (i # is) s =
     (let mask = push_bit i 1
      in if mask > timer_active s then s
         else if mask AND timer_active s = 0 then timer_table_loop fn is s
         else if timer_expires s ! i > jiffies (kern s) then timer_table_loop fn is s
         else timer_table_loop fn is (fn i (s\<lparr>timer_active := timer_active s AND NOT mask\<rparr>)))"

text \<open>The dynamic timers: \<open>call f d\<close> is \<open>f(d)\<close>, which may add timers, so the loop has fuel.\<close>

fun expire_timers :: "nat \<Rightarrow> (u32 \<Rightarrow> u32 \<Rightarrow> clock \<Rightarrow> clock) \<Rightarrow> clock \<Rightarrow> clock option" where
  "expire_timers 0 call s = None"
| "expire_timers (Suc n) call s =
     (case next_timer s of
        [] \<Rightarrow> Some s
      | t # ts \<Rightarrow>
          if expires t = 0 then expire_timers n call (call (tfunction t) (data t) (s\<lparr>next_timer := ts\<rparr>))
          else Some (s\<lparr>next_timer := t\<lparr>expires := expires t - 1\<rparr> # ts\<rparr>))"

definition on_kern :: "(kernel \<Rightarrow> kernel) \<Rightarrow> clock \<Rightarrow> clock" where
  "on_kern f s = s\<lparr>kern := f (kern s)\<rparr>"

definition do_timer :: "nat \<Rightarrow> (nat \<Rightarrow> clock \<Rightarrow> clock) \<Rightarrow> (u32 \<Rightarrow> u32 \<Rightarrow> clock \<Rightarrow> clock) \<Rightarrow> bool \<Rightarrow> clock \<Rightarrow> clock option" where
  "do_timer fuel fn call user s =
     (let s = on_kern (\<lambda>k. k\<lparr>jiffies := jiffies k + 1\<rparr>) s;
          s = calc_load s;
          s = on_kern (account_time user) s;
          s = on_kern use_timeslice s;
          s = on_kern real_timers s;
          s = on_kern prof_timer s;
          s = timer_table_loop fn [0..<32] s
      in expire_timers fuel call s)"

section \<open>Small system calls\<close>

definition sys_alarm :: "int \<Rightarrow> kernel \<Rightarrow> int \<times> kernel" where
  "sys_alarm seconds k =
     (let it_new = \<lparr>it_interval = \<lparr>tv_sec = 0, tv_usec = 0\<rparr>, it_value = \<lparr>tv_sec = seconds, tv_usec = 0\<rparr>\<rparr>
      in case setitimer ITIMER_REAL it_new True k of
           ((_, Some it_old), k) \<Rightarrow> (tv_sec (it_value it_old) + tv_usec (it_value it_old) sdiv 1000000, k)
         | ((err, None), k) \<Rightarrow> (err, k))"

definition sys_getpid :: "kernel \<Rightarrow> int" where "sys_getpid k = pid (cur k)"

definition sys_getppid :: "kernel \<Rightarrow> int" where "sys_getppid k = pid (tasks k (p_pptr (cur k)))"

definition sys_getuid :: "kernel \<Rightarrow> int" where "sys_getuid k = uint (uid (cur k))"

definition sys_geteuid :: "kernel \<Rightarrow> int" where "sys_geteuid k = uint (euid (cur k))"

definition sys_getgid :: "kernel \<Rightarrow> int" where "sys_getgid k = uint (gid (cur k))"

definition sys_getegid :: "kernel \<Rightarrow> int" where "sys_getegid k = uint (egid (cur k))"

definition sys_nice :: "int \<Rightarrow> kernel \<Rightarrow> int \<times> kernel" where
  "sys_nice increment k =
     (if increment < 0 \<and> \<not> suser k then (- EPERM, k)
      else
        let newprio = s32 (priority (cur k) - increment);
            newprio = (if newprio < 1 then 1 else newprio);
            newprio = (if newprio > 35 then 35 else newprio)
        in (0, set_cur (\<lambda>t. t\<lparr>priority := newprio\<rparr>) k))"

section \<open>Timer queues in absolute time\<close>

locale timer_queue =
  fixes abs :: "'q \<Rightarrow> (nat \<times> nat) list"
    and ok :: "'q \<Rightarrow> bool"
    and key :: "'t \<Rightarrow> nat \<times> nat"
    and add :: "'t \<Rightarrow> 'q \<Rightarrow> 'q"
    and due :: "'q \<Rightarrow> nat list"
    and advance :: "'q \<Rightarrow> 'q"
  assumes add_ok: "ok q \<Longrightarrow> ok (add t q)"
    and add_abs: "ok q \<Longrightarrow> set (abs (add t q)) = insert (key t) (set (abs q))"
    and due_abs: "ok q \<Longrightarrow> set (due q) = {a. (a, 0) \<in> set (abs q)}"
    and advance_ok: "ok q \<Longrightarrow> ok (advance q)"
    and advance_abs: "ok q \<Longrightarrow> (a, e) \<in> set (abs (advance q)) \<longleftrightarrow> (a, Suc e) \<in> set (abs q)"
begin

lemma advance_n: "ok q \<Longrightarrow> ok ((advance ^^ n) q) \<and> ((a, e) \<in> set (abs ((advance ^^ n) q)) \<longleftrightarrow> (a, e + n) \<in> set (abs q))"
  by (induction n arbitrary: e) (auto simp: advance_ok advance_abs)

lemma due_n: "ok q \<Longrightarrow> a \<in> set (due ((advance ^^ n) q)) \<longleftrightarrow> (a, n) \<in> set (abs q)"
  using advance_n [of q n a 0] by (simp add: due_abs)

lemma due_added:
  assumes "ok q" "fst (key t) \<notin> fst ` set (abs q)"
  shows "fst (key t) \<in> set (due ((advance ^^ n) (add t q))) \<longleftrightarrow> n = snd (key t)"
proof -
  have "(fst (key t), n) \<in> insert (key t) (set (abs q)) \<longleftrightarrow> n = snd (key t)"
    using assms(2) by (cases "key t") (auto simp: image_iff)
  then show ?thesis using due_n [OF add_ok [OF assms(1)]] add_abs [OF assms(1)] by simp
qed

end

text \<open>The difference list in absolute ticks.\<close>

fun expiry :: "nat \<Rightarrow> timer_list list \<Rightarrow> (nat \<times> nat) list" where
  "expiry b [] = []"
| "expiry b (t # ts) = (tl_addr t, b + unat (expires t)) # expiry (b + unat (expires t)) ts"

definition due_timers :: "timer_list list \<Rightarrow> timer_list list" where
  "due_timers q = takeWhile (\<lambda>t. expires t = 0) q"

fun dec_head :: "timer_list list \<Rightarrow> timer_list list" where
  "dec_head [] = []"
| "dec_head (t # ts) = t\<lparr>expires := expires t - 1\<rparr> # ts"

definition advance_timers :: "timer_list list \<Rightarrow> timer_list list" where
  "advance_timers q = dec_head (dropWhile (\<lambda>t. expires t = 0) q)"

lemma expiry_shift: "(a, c + e) \<in> set (expiry (c + b) q) \<longleftrightarrow> (a, e) \<in> set (expiry b q)"
  by (induction q arbitrary: b) (auto simp: add.assoc)

lemma expiry_ge: "(a, e) \<in> set (expiry b q) \<Longrightarrow> b \<le> e"
  by (induction q arbitrary: b) fastforce+

lemma add_timer_expiry:
  "set (expiry b (add_timer t q)) = insert (tl_addr t, b + unat (expires t)) (set (expiry b q))"
proof (induction t q arbitrary: b rule: add_timer.induct)
  case (2 t p ps)
  show ?case
  proof (cases "expires p > expires t")
    case True
    then have "unat (expires t) + unat (expires p - expires t) = unat (expires p)"
      by (simp add: unat_sub word_less_nat_alt word_le_nat_alt)
    then show ?thesis using True by (simp add: add.assoc)
  next
    case False
    then have "unat (expires p) + unat (expires t - expires p) = unat (expires t)"
      by (simp add: unat_sub word_less_nat_alt word_le_nat_alt)
    then show ?thesis using False 2 [OF False, of "b + unat (expires p)"]
      by (auto simp: add.assoc)
  qed
qed simp

lemma due_timers_expiry: "set (map tl_addr (due_timers q)) = {a. (a, b) \<in> set (expiry b q)}"
proof (induction q)
  case (Cons t q)
  show ?case
  proof (cases "expires t = 0")
    case True
    then show ?thesis using Cons by (auto simp: due_timers_def)
  next
    case False
    then have "unat (expires t) > 0" by (simp add: unat_gt_0)
    then have "(a, b) \<notin> set (expiry (b + unat (expires t)) q)" for a using expiry_ge by fastforce
    then show ?thesis using False \<open>unat (expires t) > 0\<close> by (auto simp: due_timers_def)
  qed
qed (simp add: due_timers_def)

lemma advance_timers_expiry: "(a, e) \<in> set (expiry b (advance_timers q)) \<longleftrightarrow> (a, Suc e) \<in> set (expiry b q) \<and> b \<le> e"
proof (induction q)
  case (Cons t q)
  show ?case
  proof (cases "expires t = 0")
    case True
    then show ?thesis using Cons by (auto simp: advance_timers_def)
  next
    case False
    then have s: "unat (expires t) = Suc (unat (expires t - 1))"
      using unat_minus_one [OF False] by (simp add: unat_gt_0)
    have "(a, Suc e) \<in> set (expiry (Suc (b + unat (expires t - 1))) q) \<longleftrightarrow> (a, e) \<in> set (expiry (b + unat (expires t - 1)) q)"
      using expiry_shift [of a 1 e "b + unat (expires t - 1)" q] by simp
    moreover have "(a, e) \<in> set (expiry (b + unat (expires t - 1)) q) \<Longrightarrow> b \<le> e" using expiry_ge by fastforce
    ultimately show ?thesis using False s by (auto simp: advance_timers_def)
  qed
qed (simp add: advance_timers_def)

interpretation ktimer: timer_queue "expiry 0" "\<lambda>_. True" "\<lambda>t. (tl_addr t, unat (expires t))" add_timer
    "\<lambda>q. map tl_addr (due_timers q)" advance_timers
proof (unfold_locales, goal_cases)
  case (2 q t)
  then show ?case using add_timer_expiry [of 0 t q] by simp
next
  case (3 q)
  then show ?case using due_timers_expiry by blast
next
  case (5 q a e)
  then show ?case using advance_timers_expiry [of a e 0 q] by simp
qed simp_all

lemma addrs_expiry: "fst ` set (expiry b q) = tl_addr ` set q"
  by (induction q arbitrary: b) auto

text \<open>C24. A kernel timer added with \<open>expires = e\<close> is due in the clock interrupt after \<open>e\<close> others and in
  no other, whatever timers are queued with it: the difference list keeps every expiry.\<close>

theorem timer_due_exactly_once:
  assumes "tl_addr t \<notin> tl_addr ` set q"
  shows "tl_addr t \<in> tl_addr ` set (due_timers ((advance_timers ^^ n) (add_timer t q))) \<longleftrightarrow> n = unat (expires t)"
  using ktimer.due_added [of t q n] assms by (simp add: addrs_expiry)

theorem timer_due_exactly_once_witness:
  "7 \<in> tl_addr ` set (due_timers ((advance_timers ^^ 5)
      (add_timer \<lparr>tl_addr = 7, expires = 5, data = 0, tfunction = 0\<rparr> [\<lparr>tl_addr = 6, expires = 9, data = 0, tfunction = 0\<rparr>])))"
  using timer_due_exactly_once [of "\<lparr>tl_addr = 7, expires = 5, data = 0, tfunction = 0\<rparr>"
      "[\<lparr>tl_addr = 6, expires = 9, data = 0, tfunction = 0\<rparr>]" 5] by simp

text \<open>C25. The interrupt's timer loop returns: with callbacks that leave the queue alone and fuel for
  every queued timer, it calls exactly the due timers, in queue order, and moves the queue on by one
  tick.\<close>

theorem expire_timers_runs_due:
  assumes "\<And>f d s q. call f d (s\<lparr>next_timer := q\<rparr>) = (call f d s)\<lparr>next_timer := q\<rparr>"
    and "length (next_timer s) < fuel"
  shows "expire_timers fuel call s =
    Some ((fold (\<lambda>t. call (tfunction t) (data t)) (due_timers (next_timer s)) s)
            \<lparr>next_timer := advance_timers (next_timer s)\<rparr>)"
  using assms(2)
proof (induction fuel arbitrary: s)
  case (Suc n)
  show ?case
  proof (cases "next_timer s")
    case Nil
    then have "s\<lparr>next_timer := []\<rparr> = s" by (cases s) simp
    then show ?thesis using Nil by (simp add: due_timers_def advance_timers_def)
  next
    case (Cons t ts)
    let ?s = "call (tfunction t) (data t) (s\<lparr>next_timer := ts\<rparr>)"
    have q: "?s = (call (tfunction t) (data t) s)\<lparr>next_timer := ts\<rparr>" by (rule assms(1))
    have f: "fold (\<lambda>t. call (tfunction t) (data t)) us (s\<lparr>next_timer := u\<rparr>) =
        (fold (\<lambda>t. call (tfunction t) (data t)) us s)\<lparr>next_timer := u\<rparr>" for us u s
      by (induction us arbitrary: s) (simp_all add: assms(1))
    show ?thesis
    proof (cases "expires t = 0")
      case True
      then have "expire_timers (Suc n) call s = expire_timers n call ?s" using Cons by simp
      also have "\<dots> = Some ((fold (\<lambda>t. call (tfunction t) (data t)) (due_timers ts) ?s)\<lparr>next_timer := advance_timers ts\<rparr>)"
        using Suc Cons by (subst Suc.IH) (simp_all add: q)
      finally show ?thesis using Cons True by (simp add: q f due_timers_def advance_timers_def)
    next
      case False
      then show ?thesis using Cons by (simp add: due_timers_def advance_timers_def)
    qed
  qed
qed simp

definition demo_clock :: clock where
  "demo_clock =
     \<lparr>kern = demo_kernel, next_timer = [\<lparr>tl_addr = 7, expires = 0, data = 42, tfunction = 0\<rparr>],
      timer_expires = [], timer_active = 0, avenrun = [0, 0, 0], load_count = 0\<rparr>"

theorem expire_timers_runs_due_witness:
  "expire_timers 2 (\<lambda>f d. on_kern (\<lambda>k. k\<lparr>jiffies := d\<rparr>)) demo_clock =
    Some ((on_kern (\<lambda>k. k\<lparr>jiffies := 42\<rparr>) demo_clock)\<lparr>next_timer := []\<rparr>)"
  using expire_timers_runs_due [of "\<lambda>f d. on_kern (\<lambda>k. k\<lparr>jiffies := d\<rparr>)" demo_clock 2]
  by (simp add: demo_clock_def on_kern_def due_timers_def advance_timers_def)

lemma del_timer_loop_add:
  "tl_addr t \<notin> tl_addr ` set q \<Longrightarrow>
     del_timer_loop (tl_addr t) b (add_timer t q) = (Some (t\<lparr>expires := expires t + b\<rparr>), q)"
proof (induction t q arbitrary: b rule: add_timer.induct)
  case (2 t p ps)
  then show ?case by (cases "expires p > expires t") (auto simp: ac_simps)
qed simp

text \<open>Removing a timer just added restores the queue and the timer: \<open>del_timer\<close> gives every later
  timer its difference back and puts the remaining ticks back in the removed one.\<close>

theorem del_timer_add_timer:
  assumes "tl_addr t \<notin> tl_addr ` set q"
  shows "del_timer (tl_addr t) (add_timer t q) = (Some t, q)"
  using del_timer_loop_add [OF assms, of 0] by (simp add: del_timer_def)

theorem del_timer_add_timer_witness:
  "del_timer 7 (add_timer \<lparr>tl_addr = 7, expires = 5, data = 0, tfunction = 0\<rparr> [\<lparr>tl_addr = 6, expires = 9, data = 0, tfunction = 0\<rparr>]) =
     (Some \<lparr>tl_addr = 7, expires = 5, data = 0, tfunction = 0\<rparr>, [\<lparr>tl_addr = 6, expires = 9, data = 0, tfunction = 0\<rparr>])"
  using del_timer_add_timer [of "\<lparr>tl_addr = 7, expires = 5, data = 0, tfunction = 0\<rparr>"
      "[\<lparr>tl_addr = 6, expires = 9, data = 0, tfunction = 0\<rparr>]"] by simp

section \<open>Folding over the task list\<close>

text \<open>A loop over all tasks whose body touches only the visited task is a map over the table.\<close>

lemma fold_tasks:
  assumes "\<And>p k. p \<in> set ps \<Longrightarrow> G k \<Longrightarrow> tasks (f p k) = (tasks k)(p := g (tasks k p)) \<and> G (f p k)"
    and "distinct ps" and "G k"
  shows "tasks (fold f ps k) = (\<lambda>p. if p \<in> set ps then g (tasks k p) else tasks k p) \<and> G (fold f ps k)"
  using assms
proof (induction ps arbitrary: k)
  case (Cons p ps)
  have 1: "tasks (f p k) = (tasks k)(p := g (tasks k p))" "G (f p k)" using Cons.prems by auto
  have "tasks (fold f ps (f p k)) = (\<lambda>q. if q \<in> set ps then g (tasks (f p k) q) else tasks (f p k) q) \<and> G (fold f ps (f p k))"
    using Cons.prems 1 by (intro Cons.IH) auto
  then show ?case using 1 Cons.prems(2) by (auto simp: fun_eq_iff)
qed auto

section \<open>What the scheduler chooses\<close>

definition wakes :: "u32 \<Rightarrow> task_struct \<Rightarrow> bool" where
  "wakes now t \<longleftrightarrow> state t = TASK_INTERRUPTIBLE \<and>
     (signal t AND NOT (blocked t) \<noteq> 0 \<or> timeout t \<noteq> 0 \<and> timeout t < now)"

definition runnable :: "kernel \<Rightarrow> tptr \<Rightarrow> bool" where
  "runnable k p \<longleftrightarrow> state (tasks k p) = TASK_RUNNING \<or> wakes (jiffies k) (tasks k p)"

definition checked :: "u32 \<Rightarrow> task_struct \<Rightarrow> task_struct" where
  "checked now t =
     (if state t \<noteq> TASK_INTERRUPTIBLE then t
      else if signal t AND NOT (blocked t) \<noteq> 0 then t\<lparr>state := TASK_RUNNING\<rparr>
      else if timeout t \<noteq> 0 \<and> timeout t < now then t\<lparr>timeout := 0, state := TASK_RUNNING\<rparr>
      else t)"

lemma checked_fields [simp]:
  "counter (checked now t) = counter t" "priority (checked now t) = priority t"
  "next_task (checked now t) = next_task t" "prev_task (checked now t) = prev_task t"
  "pid (checked now t) = pid t"
  by (simp_all add: checked_def)

lemma checked_state: "state (checked now t) = TASK_RUNNING \<longleftrightarrow> state t = TASK_RUNNING \<or> wakes now t"
  by (auto simp: checked_def wakes_def)

lemma sched_check_tasks:
  "tasks (sched_check p k) = (tasks k)(p := checked (jiffies k) (tasks k p))" "jiffies (sched_check p k) = jiffies k"
  by (auto simp: sched_check_def checked_def upd_task_def)

lemma sched_recount_tasks:
  "tasks (sched_recount p k) = (tasks k)(p := (tasks k p)\<lparr>counter := s32 (drop_bit 1 (counter (tasks k p)) + priority (tasks k p))\<rparr>)"
  by (simp add: sched_recount_def upd_task_def)

text \<open>\<open>schedule\<close> in one piece, on a well-formed ring.\<close>

definition recount :: "task_struct \<Rightarrow> task_struct" where
  "recount t = t\<lparr>counter := s32 (drop_bit 1 (counter t) + priority t)\<rparr>"

lemma schedule_eq:
  assumes "ring (tasks k) xs" "length xs \<le> NR_TASKS"
  defines "h \<equiv> \<lambda>p. if p \<in> set xs then checked (jiffies k) (tasks k p) else tasks k p"
  defines "pick \<equiv> sched_pick h xs (- 1) init_task"
  shows "current (schedule k) = snd pick"
    and "tasks (schedule k) = (\<lambda>p. if fst pick = 0 \<and> p \<in> set xs then recount (h p) else h p)"
proof -
  have d: "distinct xs" using assms(1) by (simp add: ring_def)
  let ?k0 = "k\<lparr>need_resched := False\<rparr>"
  let ?k1 = "fold sched_check xs ?k0"
  have e: "for_each_task k = xs" using assms(1,2) by (rule for_each_task_ring)
  have 1: "tasks ?k1 = h"
    using fold_tasks [of xs "\<lambda>q. jiffies q = jiffies k" sched_check "checked (jiffies k)" ?k0] d
    by (auto simp: sched_check_tasks h_def)
  have "ring h xs = ring (tasks k) xs" by (rule ring_cong) (simp_all add: h_def)
  then have e1: "for_each_task ?k1 = xs" using assms(1,2) 1 by (intro for_each_task_ring) simp_all
  have 2: "tasks (fold sched_recount xs ?k1) = (\<lambda>p. if p \<in> set xs then recount (h p) else h p)"
    using fold_tasks [of xs "\<lambda>_. True" sched_recount recount ?k1] d
    by (auto simp: sched_recount_tasks recount_def 1)
  have s: "schedule k = (if fst pick = 0 then fold sched_recount xs ?k1 else ?k1)\<lparr>current := snd pick\<rparr>"
    by (simp add: schedule_def Let_def e e1 1 pick_def split: prod.split)
  show "current (schedule k) = snd pick" by (simp add: s)
  show "tasks (schedule k) = (\<lambda>p. if fst pick = 0 \<and> p \<in> set xs then recount (h p) else h p)"
    by (auto simp: s 1 2)
qed

lemma sched_pick_spec:
  "sched_pick h ps c nx = (c', nx') \<Longrightarrow>
     c \<le> c' \<and> (\<forall>p\<in>set ps. state (h p) = TASK_RUNNING \<longrightarrow> counter (h p) \<le> c') \<and>
     (nx' = nx \<and> c' = c \<or> nx' \<in> set ps \<and> state (h nx') = TASK_RUNNING \<and> counter (h nx') = c' \<and> c < c')"
  by (induction h ps c nx rule: sched_pick.induct) (fastforce split: if_splits)+

lemma schedule_choice_spec:
  assumes "ring (tasks k) xs" and "length xs \<le> NR_TASKS"
    and "\<forall>p\<in>set xs. 0 \<le> counter (tasks k p)"
  shows "if \<forall>p\<in>set xs. \<not> runnable k p then current (schedule k) = init_task
    else current (schedule k) \<in> set xs \<and> runnable k (current (schedule k)) \<and>
      (\<forall>p\<in>set xs. runnable k p \<longrightarrow> counter (tasks k p) \<le> counter (tasks k (current (schedule k))))"
proof -
  define h where "h = (\<lambda>p. if p \<in> set xs then checked (jiffies k) (tasks k p) else tasks k p)"
  obtain c n where p: "sched_pick h xs (- 1) init_task = (c, n)" by fastforce
  have cur: "current (schedule k) = n" using schedule_eq(1) [OF assms(1,2)] p by (simp add: h_def)
  have z: "init_task \<notin> set xs" using assms(1) by (simp add: ring_def)
  have run: "p \<in> set xs \<Longrightarrow> state (h p) = TASK_RUNNING \<longleftrightarrow> runnable k p" for p
    by (simp add: h_def checked_state runnable_def)
  have cnt: "counter (h p) = counter (tasks k p)" for p by (simp add: h_def)
  have spec: "\<forall>p\<in>set xs. runnable k p \<longrightarrow> counter (tasks k p) \<le> c"
    "n = init_task \<and> c = - 1 \<or> n \<in> set xs \<and> runnable k n \<and> counter (tasks k n) = c \<and> - 1 < c"
    using sched_pick_spec [OF p] by (auto simp: run cnt)
  show ?thesis using spec z assms(3) cur by fastforce
qed

lemma schedule_choice_aux:
  "ring (tasks k) xs \<Longrightarrow> length xs \<le> NR_TASKS \<Longrightarrow> \<forall>p\<in>set xs. 0 \<le> counter (tasks k p) \<Longrightarrow>
     current (schedule k) = init_task \<or> runnable k (current (schedule k))"
  using schedule_choice_spec [of k xs] by (auto split: if_splits)

text \<open>C23. The scheduler's choice: the idle task exactly when no other task is runnable (running, or
  interruptible with an unblocked signal or an elapsed timeout); otherwise a runnable task whose
  counter no other runnable task exceeds. Counters are those at the call.\<close>

theorem schedule_choice:
  assumes "ring (tasks k) xs" and "length xs \<le> NR_TASKS"
    and "\<forall>p\<in>set xs. 0 \<le> counter (tasks k p)"
  shows "if \<forall>p\<in>set xs. \<not> runnable k p then current (schedule k) = init_task
    else current (schedule k) \<in> set xs \<and> runnable k (current (schedule k)) \<and>
      (\<forall>p\<in>set xs. runnable k p \<longrightarrow> counter (tasks k p) \<le> counter (tasks k (current (schedule k))))"
  using assms by (rule schedule_choice_spec)

theorem schedule_choice_witness:
  "current (schedule demo_kernel) \<in> {1, 2, 3} \<and> runnable demo_kernel (current (schedule demo_kernel))"
proof -
  have r: "\<forall>p\<in>set [1, 2, 3]. 0 \<le> counter (tasks demo_kernel p)" "runnable demo_kernel 1"
    by (simp_all add: demo_kernel_def demo_heap_def demo_task_def runnable_def)
  then show ?thesis using schedule_choice [OF demo_ring _ r(1)] by (auto split: if_splits)
qed

section \<open>Time slices\<close>

definition slice_ok :: "int \<Rightarrow> task_struct \<Rightarrow> bool" where
  "slice_ok B t \<longleftrightarrow> 0 \<le> counter t \<and> counter t \<le> 2 * B \<and> 1 \<le> priority t \<and> priority t \<le> B"

lemma recount_ok:
  assumes "slice_ok B t" "B \<le> 536870912"
  shows "slice_ok B (recount t)" "counter (recount t) > 0"
proof -
  have "0 \<le> counter t div 2" "counter t div 2 \<le> B" using assms by (auto simp: slice_ok_def)
  then have "s32 (drop_bit 1 (counter t) + priority t) = counter t div 2 + priority t"
    using assms by (subst s32_id) (auto simp: slice_ok_def drop_bit_eq_div)
  then show "slice_ok B (recount t)" "counter (recount t) > 0"
    using assms \<open>0 \<le> counter t div 2\<close> \<open>counter t div 2 \<le> B\<close> by (auto simp: slice_ok_def recount_def)
qed

text \<open>Time slices stay within bounds: while priorities are in \<open>1..B\<close>, counters stay in \<open>0..2B\<close>; and the task
  the scheduler runs, when it is not the idle task, has a positive slice: when every runnable task has used
  its slice up, all tasks get a new one.\<close>

theorem schedule_slices:
  assumes "ring (tasks k) xs" and "length xs \<le> NR_TASKS" and "\<forall>p. slice_ok B (tasks k p)" and "B \<le> 536870912"
  shows "(\<forall>p. slice_ok B (tasks (schedule k) p)) \<and>
    (current (schedule k) \<noteq> init_task \<longrightarrow> 0 < counter (cur (schedule k)))"
proof -
  define h where "h = (\<lambda>p. if p \<in> set xs then checked (jiffies k) (tasks k p) else tasks k p)"
  obtain c n where p: "sched_pick h xs (- 1) init_task = (c, n)" by fastforce
  have eq: "current (schedule k) = n" "tasks (schedule k) = (\<lambda>q. if c = 0 \<and> q \<in> set xs then recount (h q) else h q)"
    using schedule_eq [OF assms(1,2)] p unfolding h_def by simp_all
  have h: "slice_ok B (h p)" for p using assms(3) by (simp add: h_def slice_ok_def)
  then have "\<forall>p. slice_ok B (tasks (schedule k) p)" unfolding eq by (simp add: recount_ok assms(4))
  moreover have "0 < counter (cur (schedule k))" if "current (schedule k) \<noteq> init_task"
  proof -
    have "n \<in> set xs" "counter (h n) = c" using that sched_pick_spec [OF p] by (auto simp: eq)
    moreover have "0 \<le> counter (h n)" using h by (simp add: slice_ok_def)
    ultimately show ?thesis using recount_ok(2) [OF h [of n] assms(4)] unfolding eq by auto
  qed
  ultimately show ?thesis by blast
qed

theorem schedule_slices_witness:
  "(\<forall>p. slice_ok 35 (tasks (schedule demo_kernel) p)) \<and> slice_ok 35 (tasks demo_kernel 2)"
proof -
  have "\<forall>p. slice_ok 35 (tasks demo_kernel p)"
    by (simp add: demo_kernel_def demo_heap_def demo_task_def slice_ok_def)
  then show ?thesis using schedule_slices [OF demo_ring, of 35] by simp
qed

lemma use_timeslice_ok:
  assumes "\<forall>p. slice_ok B (tasks k p)" "B \<le> 536870912"
  shows "slice_ok B (tasks (use_timeslice k) p)"
  using assms(1) [rule_format, of "current k"] assms(1) [rule_format, of p] assms(2)
  by (auto simp: use_timeslice_def Let_def slice_ok_def s32_id)

lemma sys_nice_ok:
  assumes "\<forall>p. slice_ok B (tasks k p)" "35 \<le> B"
  shows "slice_ok B (tasks (snd (sys_nice i k)) p)"
  using assms(1) [rule_format, of p] assms(2) by (auto simp: sys_nice_def Let_def slice_ok_def)

section \<open>The real-time interval timer\<close>

definition tick_real :: "task_struct \<Rightarrow> task_struct" where
  "tick_real t =
     (if it_real_value t = 0 then t
      else if it_real_value t = 1 then (deliver SIGALRM t)\<lparr>it_real_value := it_real_incr t\<rparr>
      else t\<lparr>it_real_value := it_real_value t - 1\<rparr>)"

lemma resume_discard_it_real:
  "resume_stopped sig (t\<lparr>it_real_value := v\<rparr>) = (resume_stopped sig t)\<lparr>it_real_value := v\<rparr>"
  "discard_cont sig (t\<lparr>it_real_value := v\<rparr>) = (discard_cont sig t)\<lparr>it_real_value := v\<rparr>"
  "discarded sig (t\<lparr>it_real_value := v\<rparr>) = discarded sig t"
  by (simp_all add: discarded_def sa_of_def discard_cont_def resume_stopped_def Let_def)

lemma deliver_it_real: "deliver sig (t\<lparr>it_real_value := v\<rparr>) = (deliver sig t)\<lparr>it_real_value := v\<rparr>"
  by (simp add: deliver_def Let_def resume_discard_it_real)

lemma deliver_real_fields [simp]:
  "it_real_incr (deliver sig t) = it_real_incr t" "it_real_value (deliver sig t) = it_real_value t"
  using deliver_frame [of sig t] by auto

lemma real_timer_tasks:
  "tasks (real_timer p k) = (tasks k)(p := tick_real (tasks k p))"
  by (auto simp: real_timer_def tick_real_def Let_def send_sig_eq upd_task_tasks deliver_it_real)

lemma tick_real_ring [simp]: "next_task (tick_real t) = next_task t" "prev_task (tick_real t) = prev_task t"
  by (simp_all add: tick_real_def)

lemma real_timers_tasks:
  assumes "ring (tasks k) xs" "length xs \<le> NR_TASKS"
  shows "tasks (real_timers k) = (\<lambda>p. if p \<in> set xs then tick_real (tasks k p) else tasks k p)"
    and "ring (tasks (real_timers k)) xs"
proof -
  have d: "distinct xs" using assms(1) by (simp add: ring_def)
  show t: "tasks (real_timers k) = (\<lambda>p. if p \<in> set xs then tick_real (tasks k p) else tasks k p)"
    using fold_tasks [of xs "\<lambda>_. True" real_timer tick_real k] d for_each_task_ring [OF assms]
    by (simp add: real_timers_def real_timer_tasks)
  show "ring (tasks (real_timers k)) xs" using assms(1) by (subst ring_cong [where h = "tasks k"]) (simp_all add: t)
qed

lemma real_timers_n:
  assumes "ring (tasks k) xs" "length xs \<le> NR_TASKS" "p \<in> set xs"
  shows "tasks ((real_timers ^^ n) k) p = (tick_real ^^ n) (tasks k p) \<and> ring (tasks ((real_timers ^^ n) k)) xs"
proof (induction n)
  case (Suc n)
  then show ?case using real_timers_tasks [of "(real_timers ^^ n) k" xs] assms(2,3) by simp
qed (simp add: assms(1))

lemma tick_real_n: "n < unat (it_real_value t) \<Longrightarrow> (tick_real ^^ n) t = t\<lparr>it_real_value := it_real_value t - word_of_nat n\<rparr>"
proof (induction n)
  case (Suc n)
  let ?v = "it_real_value t - word_of_nat n"
  have n: "n < 2 ^ 32" using Suc.prems unsigned_less [of "it_real_value t", where 'a = nat] by simp
  then have "unat (word_of_nat n :: u32) = n" by (simp add: unat_of_nat)
  then have "unat ?v = unat (it_real_value t) - n"
    using Suc.prems by (subst unat_sub) (simp_all add: word_le_nat_alt)
  then have "?v \<noteq> 0" "?v \<noteq> 1" using Suc.prems by (auto dest: arg_cong [of _ _ unat])
  then show ?case using Suc by (simp add: tick_real_def)
qed simp

text \<open>A running ITIMER_REAL of \<open>v\<close> ticks: during the first \<open>v - 1\<close> clock interrupts the task is not
  signalled and only its count goes down; the \<open>v\<close>-th sends SIGALRM and reloads the interval.\<close>

theorem real_timer_expires:
  assumes "ring (tasks k) xs" and "length xs \<le> NR_TASKS" and "p \<in> set xs" and "it_real_value (tasks k p) = v"
  shows "(\<forall>n < unat v. tasks ((real_timers ^^ n) k) p = (tasks k p)\<lparr>it_real_value := v - word_of_nat n\<rparr>) \<and>
    (v \<noteq> 0 \<longrightarrow> tasks ((real_timers ^^ unat v) k) p =
      (deliver SIGALRM (tasks k p))\<lparr>it_real_value := it_real_incr (tasks k p)\<rparr>)"
proof -
  note N = real_timers_n [OF assms(1-3)]
  have "\<forall>n < unat v. tasks ((real_timers ^^ n) k) p = (tasks k p)\<lparr>it_real_value := v - word_of_nat n\<rparr>"
    using N tick_real_n assms(4) by simp
  moreover have "tasks ((real_timers ^^ unat v) k) p =
      (deliver SIGALRM (tasks k p))\<lparr>it_real_value := it_real_incr (tasks k p)\<rparr>" if "v \<noteq> 0"
  proof -
    define m where "m = unat v - 1"
    have m: "unat v = Suc m" using that by (simp add: m_def unat_gt_0)
    have "word_of_nat (unat v) = v" by simp
    then have "v = word_of_nat (Suc m)" by (simp only: m)
    then have "v - word_of_nat m = 1" by simp
    then show ?thesis
      unfolding m using N [of "Suc m"] tick_real_n [of m "tasks k p"] assms(4) m
      by (simp add: tick_real_def deliver_it_real)
  qed
  ultimately show ?thesis by blast
qed

theorem real_timer_expires_witness:
  "tasks ((real_timers ^^ 2) (upd_task 3 (\<lambda>t. t\<lparr>it_real_value := 2\<rparr>) demo_kernel)) 3 =
     (deliver SIGALRM (tasks demo_kernel 3))\<lparr>it_real_value := 0\<rparr>"
proof -
  let ?k = "upd_task 3 (\<lambda>t. t\<lparr>it_real_value := 2\<rparr>) demo_kernel"
  have "ring (tasks ?k) [1, 2, 3]"
    using demo_ring by (subst ring_cong [where h = "tasks demo_kernel"]) (simp_all)
  from real_timer_expires [OF this, of 3 2]
  show ?thesis by (simp add: deliver_it_real) (simp add: demo_kernel_def demo_heap_def demo_task_def)
qed

section \<open>The load average\<close>

lemma calc_load_aux:
  fixes l n e m :: nat
  assumes "e \<le> 2048" "min l n \<le> m" "m \<le> max l n"
  shows "min l n \<le> (l * e + n * (2048 - e)) div 2048" "(l * e + n * (2048 - e)) div 2048 \<le> max l n"
proof -
  have s: "c * 2048 = c * e + c * (2048 - e)" for c :: nat
    using assms(1) by (simp flip: distrib_left)
  have "min l n * 2048 \<le> l * e + n * (2048 - e)" unfolding s by (intro add_mono mult_right_mono) auto
  then show "min l n \<le> (l * e + n * (2048 - e)) div 2048" by (simp add: less_eq_div_iff_mult_less_eq)
  have "l * e + n * (2048 - e) \<le> max l n * 2048" unfolding s by (intro add_mono mult_right_mono) auto
  then show "(l * e + n * (2048 - e)) div 2048 \<le> max l n"
    by (metis div_le_mono nonzero_mult_div_cancel_right zero_neq_numeral)
qed

text \<open>The fixed-point load average never overflows and moves towards the number of running tasks:
  for up to 64 tasks and any of the three decay factors, the new average lies between the old one and
  the current load.\<close>

theorem CALC_LOAD_between:
  assumes "load \<le> 131072" and "n \<le> 131072" and "ex \<le> 2048"
  shows "min load n \<le> CALC_LOAD load ex n \<and> CALC_LOAD load ex n \<le> max load n"
proof -
  define l m e where "l = unat load" and "m = unat n" and "e = unat ex"
  have b: "l \<le> 131072" "m \<le> 131072" "e \<le> 2048"
    using assms by (simp_all add: l_def m_def e_def word_le_nat_alt)
  have le: "l * e \<le> 131072 * 2048" "m * (2048 - e) \<le> 131072 * 2048" using mult_le_mono [OF b(1,3)] mult_le_mono [OF b(2), of "2048 - e" 2048] by simp_all
  have me: "unat (2048 - ex) = 2048 - e" using assms(3) by (simp add: e_def unat_sub)
  have 1: "unat (load * ex) = l * e"
    using le unfolding l_def e_def by (subst unat_mult_lem [THEN iffD1]) simp_all
  have 2: "unat (n * (2048 - ex)) = m * (2048 - e)"
    using le unfolding m_def me [symmetric] by (subst unat_mult_lem [THEN iffD1]) simp_all
  have "unat (load * ex + n * (2048 - ex)) = l * e + m * (2048 - e)"
    using le by (subst unat_add_lem [THEN iffD1]) (simp_all add: 1 2)
  then have c: "unat (CALC_LOAD load ex n) = (l * e + m * (2048 - e)) div 2048"
    by (simp add: CALC_LOAD_def drop_bit_eq_div unat_div_distrib)
  note aux = calc_load_aux [OF b(3), of l m l]
  have "min l m \<le> unat (CALC_LOAD load ex n)" "unat (CALC_LOAD load ex n) \<le> max l m"
    using aux by (auto simp: c)
  then show ?thesis
    by (auto simp: word_le_nat_alt l_def m_def min_def max_def split: if_splits)
qed

theorem CALC_LOAD_between_witness:
  "0 \<le> CALC_LOAD 0 EXP_1 2048 \<and> CALC_LOAD 0 EXP_1 2048 \<le> max 0 2048"
  using CALC_LOAD_between [of 0 2048 1884] by simp

section \<open>Sleeping\<close>



end
