(* ===== verification/Sys.thy ===== *)
theory Sys
  imports Sched
begin

text \<open>
  The miscellaneous system calls of \<^verbatim>\<open>kernel/sys.c\<close>: priorities, identities and groups, process groups
  and sessions, resource limits and usage, host names, the time of day and reboot. The interface
  locale for process identities states what an unprivileged call may do to a real/effective/saved
  triple; the user and the group calls both satisfy it.
\<close>

section \<open>Priorities\<close>

abbreviation (input) PRIO_PROCESS :: int where "PRIO_PROCESS \<equiv> 0"
abbreviation (input) PRIO_PGRP :: int where "PRIO_PGRP \<equiv> 1"
abbreviation (input) PRIO_USER :: int where "PRIO_USER \<equiv> 2"

definition proc_sel :: "kernel \<Rightarrow> tptr \<Rightarrow> int \<Rightarrow> int \<Rightarrow> bool" where
  "proc_sel k p which who =
     (if which = PRIO_PROCESS then (who = 0 \<and> p = current k) \<or> pid (tasks k p) = who
      else if which = PRIO_PGRP then pgrp (tasks k p) = (if who = 0 then pgrp (cur k) else who)
      else if which = PRIO_USER then uint (uid (tasks k p)) = (if who = 0 then uint (uid (cur k)) else who)
      else False)"

definition setpriority_one :: "int \<Rightarrow> int \<Rightarrow> int \<Rightarrow> tptr \<Rightarrow> int \<times> kernel \<Rightarrow> int \<times> kernel" where
  "setpriority_one which who prio p s =
     (case s of (err, k) \<Rightarrow>
        if \<not> proc_sel k p which who then (err, k)
        else if uid (tasks k p) \<noteq> euid (cur k) \<and> uid (tasks k p) \<noteq> uid (cur k) \<and> \<not> suser k then (EPERM, k)
        else
          let err = (if err = ESRCH then 0 else err)
          in if prio > priority (tasks k p) \<and> \<not> suser k then (EACCES, k)
             else (err, upd_task p (\<lambda>t. t\<lparr>priority := prio\<rparr>) k))"

text \<open>The tasks from \<open>LAST_TASK\<close> down to, and without, \<open>FIRST_TASK\<close>.\<close>

definition tasks_downto :: "kernel \<Rightarrow> tptr list" where
  "tasks_downto k = map the (filter (\<lambda>p. p \<noteq> None) (rev (tl (task k))))"

definition sys_setpriority :: "int \<Rightarrow> int \<Rightarrow> int \<Rightarrow> kernel \<Rightarrow> int \<times> kernel" where
  "sys_setpriority which who niceval k =
     (if which > 2 \<or> which < 0 then (- EINVAL, k)
      else
        let prio = s32 (15 - niceval);
            prio = (if prio \<le> 0 then 1 else prio);
            (err, k) = fold (setpriority_one which who prio) (tasks_downto k) (ESRCH, k)
        in (- err, k))"

definition sys_getpriority :: "int \<Rightarrow> int \<Rightarrow> kernel \<Rightarrow> int" where
  "sys_getpriority which who k =
     (if which > 2 \<or> which < 0 then - EINVAL
      else
        let max_prio = fold (\<lambda>p m. if \<not> proc_sel k p which who then m
                                   else if priority (tasks k p) > m then priority (tasks k p) else m)
                         (tasks_downto k) 0
        in if max_prio \<noteq> 0 then max_prio else - ESRCH)"

section \<open>Reboot\<close>

definition sys_reboot :: "int \<Rightarrow> int \<Rightarrow> int \<Rightarrow> kernel \<Rightarrow> int \<times> kernel" where
  "sys_reboot magic magic_too flag k =
     (if \<not> suser k then (- EPERM, k)
      else if to_u32 magic \<noteq> 0xfee1dead \<or> magic_too \<noteq> 672274793 then (- EINVAL, k)
      else if flag = 0x01234567 then (0, k\<lparr>hard_reset := True\<rparr>)
      else if to_u32 flag = 0x89ABCDEF then (0, k\<lparr>C_A_D := True\<rparr>)
      else if flag = 0 then (0, k\<lparr>C_A_D := False\<rparr>)
      else (- EINVAL, k))"

definition ctrl_alt_del :: "kernel \<Rightarrow> kernel" where
  "ctrl_alt_del k = (if C_A_D k then k\<lparr>hard_reset := True\<rparr> else snd (send_sig 2 (task k ! 1) True k))"

section \<open>Identities\<close>

definition sys_setregid :: "u16 \<Rightarrow> u16 \<Rightarrow> kernel \<Rightarrow> int \<times> kernel" where
  "sys_setregid rg eg k =
     (let old_rgid = gid (cur k);
          ok_r = (egid (cur k) = rg \<or> old_rgid = rg \<or> suser k);
          k1 = (if rg \<noteq> - 1 then set_cur (\<lambda>t. t\<lparr>gid := rg\<rparr>) k else k)
      in if rg \<noteq> - 1 \<and> \<not> ok_r then (- EPERM, k)
         else if eg \<noteq> - 1 then
           if old_rgid = eg \<or> egid (cur k1) = eg \<or> suser k1
           then (0, set_cur (\<lambda>t. t\<lparr>egid := eg, sgid := eg\<rparr>) k1)
           else (- EPERM, set_cur (\<lambda>t. t\<lparr>gid := old_rgid\<rparr>) k1)
         else (0, k1))"

definition sys_setgid :: "u16 \<Rightarrow> kernel \<Rightarrow> int \<times> kernel" where
  "sys_setgid g k =
     (if suser k then (0, set_cur (\<lambda>t. t\<lparr>gid := g, egid := g, sgid := g\<rparr>) k)
      else if g = gid (cur k) \<or> g = sgid (cur k) then (0, set_cur (\<lambda>t. t\<lparr>egid := g\<rparr>) k)
      else (- EPERM, k))"

definition sys_setreuid :: "u16 \<Rightarrow> u16 \<Rightarrow> kernel \<Rightarrow> int \<times> kernel" where
  "sys_setreuid ru eu k =
     (let old_ruid = uid (cur k);
          ok_r = (euid (cur k) = ru \<or> old_ruid = ru \<or> suser k);
          k1 = (if ru \<noteq> - 1 then set_cur (\<lambda>t. t\<lparr>uid := ru\<rparr>) k else k)
      in if ru \<noteq> - 1 \<and> \<not> ok_r then (- EPERM, k)
         else if eu \<noteq> - 1 then
           if old_ruid = eu \<or> euid (cur k1) = eu \<or> suser k1
           then (0, set_cur (\<lambda>t. t\<lparr>euid := eu, suid := eu\<rparr>) k1)
           else (- EPERM, set_cur (\<lambda>t. t\<lparr>uid := old_ruid\<rparr>) k1)
         else (0, k1))"

definition sys_setuid :: "u16 \<Rightarrow> kernel \<Rightarrow> int \<times> kernel" where
  "sys_setuid u k =
     (if suser k then (0, set_cur (\<lambda>t. t\<lparr>uid := u, euid := u, suid := u\<rparr>) k)
      else if u = uid (cur k) \<or> u = suid (cur k) then (0, set_cur (\<lambda>t. t\<lparr>euid := u\<rparr>) k)
      else (- EPERM, k))"

section \<open>Time\<close>

definition sys_time :: "u32 \<Rightarrow> kernel \<Rightarrow> int \<times> kernel" where
  "sys_time tloc k =
     (let i = sint (current_time k)
      in if tloc \<noteq> 0 then
           let err = verify_area VERIFY_WRITE tloc 4
           in if err \<noteq> 0 then (err, k) else (i, k\<lparr>umem := put_fs_long (to_u32 i) tloc (umem k)\<rparr>)
         else (i, k))"

definition sys_stime :: "u32 \<Rightarrow> kernel \<Rightarrow> int \<times> kernel" where
  "sys_stime tloc k =
     (if \<not> suser k then (- EPERM, k)
      else (0, k\<lparr>startup_time := get_fs_long (umem k) tloc - jiffies k div HZ, jiffies_offset := 0\<rparr>))"

fun put_longs :: "u32 list \<Rightarrow> u32 \<Rightarrow> umem \<Rightarrow> umem" where
  "put_longs [] a m = m"
| "put_longs (v # vs) a m = put_longs vs (a + 4) (put_fs_long v a m)"

definition sys_times :: "u32 \<Rightarrow> kernel \<Rightarrow> int \<times> kernel" where
  "sys_times tbuf k =
     (if tbuf \<noteq> 0 then
        let err = verify_area VERIFY_WRITE tbuf 16
        in if err \<noteq> 0 then (err, k)
           else (sint (jiffies k),
                 k\<lparr>umem := put_longs [to_u32 (utime (cur k)), to_u32 (stime (cur k)),
                                      to_u32 (cutime (cur k)), to_u32 (cstime (cur k))] tbuf (umem k)\<rparr>)
      else (sint (jiffies k), k))"

text \<open>\<open>do_gettimeofday\<close>: \<open>count\<close> is the latched value of the interval timer, \<open>irq\<close> tells whether a clock
  interrupt is pending in the interrupt controller.\<close>

abbreviation (input) LATCH :: int where "LATCH \<equiv> 11932"

definition do_gettimeofday :: "int \<Rightarrow> bool \<Rightarrow> kernel \<Rightarrow> timeval" where
  "do_gettimeofday count irq k =
     (let nowtime = jiffies k;
          nowtime = (if count < LATCH - LATCH sdiv 100 then nowtime else if irq then nowtime + 1 else nowtime);
          nowtime = nowtime + to_u32 (jiffies_offset k)
      in \<lparr>tv_sec = sint (startup_time k + nowtime div HZ),
          tv_usec = sint ((nowtime mod HZ) * 1000000 div HZ + to_u32 (((LATCH - 1) - count) * (1000000 sdiv 100) sdiv LATCH))\<rparr>)"

definition sys_gettimeofday :: "int \<Rightarrow> bool \<Rightarrow> u32 \<Rightarrow> u32 \<Rightarrow> kernel \<Rightarrow> int \<times> kernel" where
  "sys_gettimeofday count irq tv tz k =
     (let err = (if tv \<noteq> 0 then verify_area VERIFY_WRITE tv 8 else 0);
          ktv = do_gettimeofday count irq k;
          k1 = (if tv \<noteq> 0 then k\<lparr>umem := put_longs [to_u32 (tv_sec ktv), to_u32 (tv_usec ktv)] tv (umem k)\<rparr> else k)
      in if err \<noteq> 0 then (err, k)
         else if tz \<noteq> 0 then
           let err = verify_area VERIFY_WRITE tz 8
           in if err \<noteq> 0 then (err, k1)
              else (0, k1\<lparr>umem := put_longs [to_u32 (tz_minuteswest k), to_u32 (tz_dsttime k)] tz (umem k1)\<rparr>)
         else (0, k1))"

definition adjust_clock :: "kernel \<Rightarrow> kernel" where
  "adjust_clock k = k\<lparr>startup_time := startup_time k + to_u32 (tz_minuteswest k * 60)\<rparr>"

definition set_timezone :: "bool \<Rightarrow> u32 \<Rightarrow> kernel \<Rightarrow> kernel" where
  "set_timezone have_tv tz k =
     (let k = k\<lparr>tz_minuteswest := sint (get_fs_long (umem k) tz), tz_dsttime := sint (get_fs_long (umem k) (tz + 4))\<rparr>
      in if settime_first k then
           let k = k\<lparr>settime_first := False\<rparr>
           in if \<not> have_tv then adjust_clock k else k
         else k)"

definition sys_settimeofday :: "u32 \<Rightarrow> u32 \<Rightarrow> kernel \<Rightarrow> int \<times> kernel" where
  "sys_settimeofday tv tz k =
     (if \<not> suser k then (- EPERM, k)
      else
        let k = (if tz \<noteq> 0 then set_timezone (tv \<noteq> 0) tz k else k)
        in (0, if tv \<noteq> 0 then
                 let sec = get_fs_long (umem k) tv;
                     usec = sint (get_fs_long (umem k) (tv + 4))
                 in k\<lparr>startup_time := sec - jiffies k div HZ,
                      jiffies_offset := sint (to_u32 (s32 (usec * 100) sdiv 1000000) - jiffies k mod HZ)\<rparr>
               else k))"

section \<open>Process groups and sessions\<close>

fun setpgid_loop :: "int \<Rightarrow> int \<Rightarrow> tptr option list \<Rightarrow> kernel \<Rightarrow> int \<times> kernel" where
  "setpgid_loop pd pgid [] k = (- ESRCH, k)"
| "setpgid_loop pd pgid (None # ts) k = setpgid_loop pd pgid ts k"
| "setpgid_loop pd pgid (Some p # ts) k =
     (if pid (tasks k p) = pd \<and> (p_pptr (tasks k p) = current k \<or> p = current k) then
        if leader (tasks k p) then (- EPERM, k)
        else if session (tasks k p) \<noteq> session (cur k) \<or>
                pgid \<noteq> pd \<and> session_of_pgrp pgid k \<noteq> session (cur k) then (- EPERM, k)
        else (0, upd_task p (\<lambda>t. t\<lparr>pgrp := pgid\<rparr>) k)
      else setpgid_loop pd pgid ts k)"

definition sys_setpgid :: "int \<Rightarrow> int \<Rightarrow> kernel \<Rightarrow> int \<times> kernel" where
  "sys_setpgid pd pgid k =
     (let pd = (if pd = 0 then pid (cur k) else pd);
          pgid = (if pgid = 0 then pid (cur k) else pgid)
      in if pgid < 0 then (- EINVAL, k) else setpgid_loop pd pgid (task k) k)"

definition sys_getpgrp :: "kernel \<Rightarrow> int" where
  "sys_getpgrp k = pgrp (cur k)"

definition sys_setsid :: "kernel \<Rightarrow> int \<times> kernel" where
  "sys_setsid k =
     (if leader (cur k) \<and> \<not> suser k then (- EPERM, k)
      else
        let k = set_cur (\<lambda>t. t\<lparr>leader := True, session := pid t, pgrp := pid t, tty := - 1\<rparr>) k
        in (pgrp (cur k), k))"

section \<open>Supplementary groups\<close>

text \<open>\<open>groups\<close> is the array of NGROUPS ints, ended by NOGROUP when shorter.\<close>

fun getgroups_loop :: "nat \<Rightarrow> int list \<Rightarrow> int \<Rightarrow> int \<Rightarrow> u32 \<Rightarrow> umem \<Rightarrow> int \<times> umem" where
  "getgroups_loop 0 gs i sz a m = (i, m)"
| "getgroups_loop (Suc n) gs i sz a m =
     (if gs ! nat i \<noteq> NOGROUP then
        if sz = 0 then getgroups_loop n gs (i + 1) sz a m
        else if i \<ge> sz then (i, m)
        else getgroups_loop n gs (i + 1) sz (a + 2) (put_fs_word (word_of_int (gs ! nat i)) a m)
      else (i, m))"

definition sys_getgroups :: "int \<Rightarrow> u32 \<Rightarrow> kernel \<Rightarrow> int \<times> kernel" where
  "sys_getgroups gidsetsize grouplist k =
     (let err = (if gidsetsize \<noteq> 0 then verify_area VERIFY_WRITE grouplist (2 * to_u32 gidsetsize) else 0)
      in if err \<noteq> 0 then (err, k)
         else
           let (i, m) = getgroups_loop NGROUPS (groups (cur k)) 0 gidsetsize grouplist (umem k)
           in (i, k\<lparr>umem := m\<rparr>))"

fun setgroups_loop :: "nat \<Rightarrow> umem \<Rightarrow> nat \<Rightarrow> u32 \<Rightarrow> int list \<Rightarrow> int list" where
  "setgroups_loop 0 m i a gs = gs"
| "setgroups_loop (Suc n) m i a gs = setgroups_loop n m (Suc i) (a + 2) (gs[i := uint (get_fs_word m a)])"

definition sys_setgroups :: "int \<Rightarrow> u32 \<Rightarrow> kernel \<Rightarrow> int \<times> kernel" where
  "sys_setgroups gidsetsize grouplist k =
     (if \<not> suser k then (- EPERM, k)
      else if gidsetsize > 32 then (- EINVAL, k)
      else
        let n = nat gidsetsize;
            gs = setgroups_loop n (umem k) 0 grouplist (groups (cur k));
            gs = (if n < NGROUPS then gs[n := NOGROUP] else gs)
        in (0, set_cur (\<lambda>t. t\<lparr>groups := gs\<rparr>) k))"

fun in_group_loop :: "nat \<Rightarrow> nat \<Rightarrow> int list \<Rightarrow> int \<Rightarrow> bool" where
  "in_group_loop 0 i gs grp = False"
| "in_group_loop (Suc n) i gs grp =
     (if gs ! i = NOGROUP then False else if gs ! i = grp then True else in_group_loop n (Suc i) gs grp)"

definition in_group_p :: "u16 \<Rightarrow> kernel \<Rightarrow> bool" where
  "in_group_p grp k \<longleftrightarrow> grp = egid (cur k) \<or> in_group_loop NGROUPS 0 (groups (cur k)) (uint grp)"

section \<open>Host names\<close>

text \<open>The loop of \<open>sethostname\<close> and \<open>setdomainname\<close>: the new contents of the array of 65 bytes.\<close>

fun copy_name :: "nat \<Rightarrow> umem \<Rightarrow> u32 \<Rightarrow> nat \<Rightarrow> u8 list \<Rightarrow> u8 list" where
  "copy_name 0 m a i buf = buf[i := 0]"
| "copy_name (Suc n) m a i buf =
     (let c = get_fs_byte m a; buf = buf[i := c]
      in if c = 0 then buf else copy_name n m (a + 1) (Suc i) buf)"

definition sys_sethostname :: "u32 \<Rightarrow> int \<Rightarrow> kernel \<Rightarrow> int \<times> kernel" where
  "sys_sethostname name len k =
     (if \<not> suser k then (- EPERM, k)
      else if len > 64 then (- EINVAL, k)
      else (0, k\<lparr>nodename := copy_name (nat len) (umem k) name 0 (nodename k)\<rparr>))"

definition sys_setdomainname :: "u32 \<Rightarrow> int \<Rightarrow> kernel \<Rightarrow> int \<times> kernel" where
  "sys_setdomainname name len k =
     (if \<not> suser k then (- EPERM, k)
      else if len > 64 then (- EINVAL, k)
      else (0, k\<lparr>domainname := copy_name (nat len) (umem k) name 0 (domainname k)\<rparr>))"

section \<open>Resources\<close>

definition sys_getrlimit :: "u32 \<Rightarrow> u32 \<Rightarrow> kernel \<Rightarrow> int \<times> kernel" where
  "sys_getrlimit resource rl k =
     (if resource \<ge> 6 then (- EINVAL, k)
      else
        let err = verify_area VERIFY_WRITE rl 8; l = rlim (cur k) ! unat resource
        in if err \<noteq> 0 then (err, k)
           else (0, k\<lparr>umem := put_longs [to_u32 (rlim_cur l), to_u32 (rlim_max l)] rl (umem k)\<rparr>))"

definition sys_setrlimit :: "u32 \<Rightarrow> u32 \<Rightarrow> kernel \<Rightarrow> int \<times> kernel" where
  "sys_setrlimit resource rl k =
     (if resource \<ge> 6 then (- EINVAL, k)
      else
        let old = rlim (cur k) ! unat resource;
            new = \<lparr>rlim_cur = sint (get_fs_long (umem k) rl), rlim_max = sint (get_fs_long (umem k) (rl + 4))\<rparr>
        in if (rlim_cur new > rlim_max old \<or> rlim_max new > rlim_max old) \<and> \<not> suser k then (- EPERM, k)
           else (0, set_cur (\<lambda>t. t\<lparr>rlim := (rlim t)[unat resource := new]\<rparr>) k))"

abbreviation (input) RUSAGE_SELF :: int where "RUSAGE_SELF \<equiv> 0"
abbreviation (input) RUSAGE_CHILDREN :: int where "RUSAGE_CHILDREN \<equiv> - 1"
abbreviation (input) RUSAGE_BOTH :: int where "RUSAGE_BOTH \<equiv> - 2"

text \<open>\<open>struct rusage\<close> is 18 longs: two times, then 14 counters of which two are kept.\<close>

definition ct_to_secs :: "int \<Rightarrow> u32" where "ct_to_secs x = to_u32 (x sdiv 100)"

definition ct_to_usecs :: "int \<Rightarrow> u32" where "ct_to_usecs x = to_u32 (s32 (x smod 100 * 1000000) sdiv 100)"

definition rusage_longs :: "int \<Rightarrow> int \<Rightarrow> u32 \<Rightarrow> u32 \<Rightarrow> u32 list" where
  "rusage_longs ut st minf majf =
     [ct_to_secs ut, ct_to_usecs ut, ct_to_secs st, ct_to_usecs st, 0, 0, 0, 0, minf, majf, 0, 0, 0, 0, 0, 0, 0, 0]"

definition getrusage :: "task_struct \<Rightarrow> int \<Rightarrow> u32 \<Rightarrow> kernel \<Rightarrow> int \<times> kernel" where
  "getrusage p who ru k =
     (let err = verify_area VERIFY_WRITE ru 72;
          r = (if who = RUSAGE_SELF then rusage_longs (utime p) (stime p) (min_flt p) (maj_flt p)
               else if who = RUSAGE_CHILDREN then rusage_longs (cutime p) (cstime p) (cmin_flt p) (cmaj_flt p)
               else rusage_longs (s32 (utime p + cutime p)) (s32 (stime p + cstime p))
                      (min_flt p + cmin_flt p) (maj_flt p + cmaj_flt p))
      in if err \<noteq> 0 then (err, k) else (0, k\<lparr>umem := put_longs r ru (umem k)\<rparr>))"

definition sys_getrusage :: "int \<Rightarrow> u32 \<Rightarrow> kernel \<Rightarrow> int \<times> kernel" where
  "sys_getrusage who ru k =
     (if who \<noteq> RUSAGE_SELF \<and> who \<noteq> RUSAGE_CHILDREN then (- EINVAL, k)
      else getrusage (cur k) who ru k)"

definition sys_umask :: "int \<Rightarrow> kernel \<Rightarrow> int \<times> kernel" where
  "sys_umask msk k =
     (uint (umask (cur k)), set_cur (\<lambda>t. t\<lparr>umask := word_of_int msk AND 0x1FF\<rparr>) k)"

section \<open>What an unprivileged process can make of its identities\<close>

text \<open>The interface: while a state is \<open>safe\<close>, a step keeps it so and gives nothing that was not there.\<close>

locale confined =
  fixes step :: "'c \<Rightarrow> 'k \<Rightarrow> 'k"
    and safe :: "'k \<Rightarrow> bool"
    and ids :: "'k \<Rightarrow> 'i set"
  assumes step_safe: "safe k \<Longrightarrow> safe (step c k)"
    and step_ids: "safe k \<Longrightarrow> ids (step c k) \<subseteq> ids k"
begin

lemma run_confined: "safe k \<Longrightarrow> safe (fold step cs k) \<and> ids (fold step cs k) \<subseteq> ids k"
  by (induction cs arbitrary: k) (use step_safe step_ids in \<open>fastforce+\<close>)

end

datatype id_call = Setuid u16 | Setreuid u16 u16 | Setgid u16 | Setregid u16 u16

fun id_step :: "id_call \<Rightarrow> kernel \<Rightarrow> kernel" where
  "id_step (Setuid u) k = snd (sys_setuid u k)"
| "id_step (Setreuid r e) k = snd (sys_setreuid r e k)"
| "id_step (Setgid g) k = snd (sys_setgid g k)"
| "id_step (Setregid r e) k = snd (sys_setregid r e k)"

definition uids :: "kernel \<Rightarrow> u16 set" where
  "uids k = {uid (cur k), euid (cur k), suid (cur k)}"

definition gids :: "kernel \<Rightarrow> u16 set" where
  "gids k = {gid (cur k), egid (cur k), sgid (cur k)}"

lemmas id_call_defs = sys_setuid_def sys_setreuid_def sys_setgid_def sys_setregid_def Let_def suser_def uids_def gids_def

lemma id_step_uids: "0 \<notin> uids k \<Longrightarrow> uids (id_step c k) \<subseteq> uids k"
  by (cases c) (auto simp: id_call_defs)

lemma id_step_gids: "0 \<notin> uids k \<Longrightarrow> gids (id_step c k) \<subseteq> gids k"
  by (cases c) (auto simp: id_call_defs)

interpretation kuid: confined id_step "\<lambda>k. 0 \<notin> uids k" uids
  by unfold_locales (use id_step_uids in blast)+

interpretation kgid: confined id_step "\<lambda>k. 0 \<notin> uids k" gids
  by unfold_locales (use id_step_uids id_step_gids in blast)+

text \<open>C28. No privilege escalation through the identity calls: a process with no zero among its real,
  effective and saved user ids gets, by any sequence of \<open>setuid\<close>, \<open>setreuid\<close>, \<open>setgid\<close> and \<open>setregid\<close>,
  only user and group ids it already has.\<close>

theorem unprivileged_ids_confined:
  assumes "0 \<notin> uids k"
  shows "uids (fold id_step cs k) \<subseteq> uids k \<and> gids (fold id_step cs k) \<subseteq> gids k"
  using kuid.run_confined [OF assms] kgid.run_confined [OF assms] by blast

theorem unprivileged_ids_confined_witness:
  "uids (fold id_step [Setreuid 0 0, Setuid 0, Setgid 0] demo_kernel) \<subseteq> {1000} \<and>
   gids (fold id_step [Setreuid 0 0, Setuid 0, Setgid 0] demo_kernel) \<subseteq> {1000}"
proof -
  have "uids demo_kernel = {1000}" "gids demo_kernel = {1000}"
    by (simp_all add: uids_def gids_def demo_kernel_def demo_heap_def demo_task_def)
  then show ?thesis using unprivileged_ids_confined [of demo_kernel "[Setreuid 0 0, Setuid 0, Setgid 0]"] by simp
qed

text \<open>What the comment above \<open>setreuid\<close> promises: a set-uid program drops its privileges for good by
  \<open>setreuid(u, u)\<close> with its real user id; no later identity call brings any of them back.\<close>

theorem setreuid_drops_privileges:
  assumes "uid (cur k) = u" and "u \<noteq> 0" and "u \<noteq> - 1"
  shows "fst (sys_setreuid u u k) = 0 \<and> uids (fold id_step cs (snd (sys_setreuid u u k))) = {u}"
proof -
  let ?k = "snd (sys_setreuid u u k)"
  have e: "fst (sys_setreuid u u k) = 0" "uids ?k = {u}" using assms by (auto simp: id_call_defs)
  then have "uids (fold id_step cs ?k) \<subseteq> {u}" using kuid.run_confined [of ?k cs] assms(2) by auto
  then show ?thesis using e(1) by (auto simp: uids_def)
qed

theorem setreuid_drops_privileges_witness:
  "fst (sys_setreuid 1000 1000 (upd_task 2 (\<lambda>t. t\<lparr>euid := 0, suid := 0\<rparr>) demo_kernel)) = 0 \<and>
   uids (fold id_step [Setuid 0] (snd (sys_setreuid 1000 1000 (upd_task 2 (\<lambda>t. t\<lparr>euid := 0, suid := 0\<rparr>) demo_kernel)))) = {1000}"
  using setreuid_drops_privileges [of "upd_task 2 (\<lambda>t. t\<lparr>euid := 0, suid := 0\<rparr>) demo_kernel" 1000 "[Setuid 0]"]
  by (simp add: demo_kernel_def demo_heap_def demo_task_def)

section \<open>Setting and reading the clock\<close>

lemma unat_div_mod_HZ: "unat (j div HZ) = unat j div 100" "unat (j mod HZ) = unat j mod 100"
  by (simp_all add: unat_div_distrib unat_mod_distrib)

lemma settimeofday_ticks:
  assumes "jiffies k < 4294967200" "0 \<le> usec" "usec < 1000000"
  defines "q \<equiv> s32 (usec * 100) sdiv 1000000"
  shows "(jiffies k + to_u32 (sint (to_u32 q - jiffies k mod HZ))) div HZ = jiffies k div HZ"
proof -
  let ?j = "jiffies k"
  have "s32 (usec * 100) = usec * 100" using assms(2,3) by (intro s32_id) auto
  then have q: "q = usec * 100 div 1000000" using assms(2) by (simp add: q_def sdiv_nonneg)
  have q0: "0 \<le> q" using assms(2) by (simp add: q)
  have q1: "q \<le> 99" using zdiv_mono1 [of "usec * 100" 99999999 1000000] assms(3) by (simp add: q)
  have e: "?j + to_u32 (sint (to_u32 q - ?j mod HZ)) = (?j - ?j mod HZ) + to_u32 q" by (simp add: ac_simps)
  have m: "?j - ?j mod HZ = ?j div HZ * HZ" by (simp add: minus_mod_eq_div_mult)
  have d: "unat ?j div 100 \<le> 42949671" using assms(1) by (simp add: word_less_nat_alt)
  have u: "unat (?j div HZ * HZ) = unat ?j div 100 * 100"
    using d by (simp add: unat_word_ariths unat_div_mod_HZ)
  have uq: "unat (to_u32 q) = nat q" using q0 q1 by (simp add: unat_eq_nat_uint uint_word_of_int)
  have "unat (?j div HZ * HZ + to_u32 q) = unat ?j div 100 * 100 + nat q"
    using d q1 by (simp add: unat_word_ariths(1) u uq)
  then have "unat ((?j div HZ * HZ + to_u32 q) div HZ) = unat ?j div 100"
    using q1 q0 by (simp add: unat_div_mod_HZ)
  then have "unat ((?j div HZ * HZ + to_u32 q) div HZ) = unat (?j div HZ)" by (simp add: unat_div_mod_HZ)
  then show ?thesis unfolding e m by (simp only: word_unat_eq_iff)
qed

lemma set_timezone_frame [simp]: "umem (set_timezone b tz k) = umem k" "jiffies (set_timezone b tz k) = jiffies k"
  by (simp_all add: set_timezone_def adjust_clock_def Let_def)

text \<open>The clock is what it was set to: right after the super-user's \<open>settimeofday(sec, usec)\<close>, or
  \<open>stime(sec)\<close>, the kernel's time in seconds is \<open>sec\<close>, at any uptime but the last second before the tick
  counter wraps.\<close>

theorem settimeofday_current_time:
  assumes "suser k" and "tv \<noteq> 0" and "jiffies k < 4294967200"
    and "0 \<le> sint (get_fs_long (umem k) (tv + 4))" and "sint (get_fs_long (umem k) (tv + 4)) < 1000000"
  shows "current_time (snd (sys_settimeofday tv tz k)) = get_fs_long (umem k) tv \<and>
    current_time (snd (sys_stime tv k)) = get_fs_long (umem k) tv"
proof -
  have "current_time (snd (sys_settimeofday tv tz k)) = get_fs_long (umem k) tv"
    using assms settimeofday_ticks [of k "sint (get_fs_long (umem k) (tv + 4))"]
    by (simp add: sys_settimeofday_def current_time_def Let_def)
  then show ?thesis using assms(1) by (simp add: sys_stime_def current_time_def)
qed

theorem settimeofday_current_time_witness:
  "current_time (snd (sys_settimeofday 0x1000 0 (demo_kernel\<lparr>current := 1, jiffies := 777\<rparr>))) = 0"
  using settimeofday_current_time [of "demo_kernel\<lparr>current := 1, jiffies := 777\<rparr>" "0x1000" 0]
  by (simp add: suser_def demo_kernel_def demo_heap_def demo_task_def get_fs_long_def)

text \<open>The comment in \<open>do_gettimeofday\<close> that the correction term is in [0, 1) clock tick: for every
  value the interval timer can hold, the microseconds reported are in [0, 1000000).\<close>

theorem gettimeofday_usec_range:
  assumes "0 \<le> count" and "count \<le> LATCH"
  shows "0 \<le> tv_usec (do_gettimeofday count irq k) \<and> tv_usec (do_gettimeofday count irq k) < 1000000"
proof -
  define n where "n = (if count < LATCH - LATCH sdiv 100 then jiffies k else if irq then jiffies k + 1 else jiffies k)
    + to_u32 (jiffies_offset k)"
  define c where "c = ((LATCH - 1) - count) * (1000000 sdiv 100) sdiv LATCH"
  have t: "tv_usec (do_gettimeofday count irq k) = sint ((n mod HZ) * 1000000 div HZ + to_u32 c)"
    by (simp add: do_gettimeofday_def Let_def n_def c_def)
  have c: "0 \<le> c \<and> c < 10000"
  proof (cases "count = LATCH")
    case True
    then have "c = 0" by (simp add: c_def signed_divide_int_def)
    then show ?thesis by simp
  next
    case False
    then have le: "0 \<le> ((LATCH - 1) - count) * 10000" "((LATCH - 1) - count) * 10000 \<le> 119310000" using assms by auto
    have s: "c = ((LATCH - 1) - count) * 10000 div LATCH" using le by (simp add: c_def sdiv_nonneg)
    show ?thesis unfolding s using le(1) zdiv_mono1 [OF le(2), of LATCH] by (simp add: pos_imp_zdiv_nonneg_iff)
  qed
  have r: "uint (n mod HZ) \<le> 99" "0 \<le> uint (n mod HZ)"
    using pos_mod_bound [of 100 "uint n"] by (simp_all add: uint_mod_distrib)
  then have m: "uint ((n mod HZ) * 1000000) = uint (n mod HZ) * 1000000" by (simp add: uint_word_ariths)
  have d: "uint ((n mod HZ) * 1000000 div HZ) = uint (n mod HZ) * 10000"
    unfolding uint_div_distrib m by simp
  have "uint ((n mod HZ) * 1000000 div HZ + to_u32 c) = uint (n mod HZ) * 10000 + c"
    using c r by (subst uint_word_ariths(1)) (simp add: d uint_to_u32)
  then have "sint ((n mod HZ) * 1000000 div HZ + to_u32 c) = uint (n mod HZ) * 10000 + c"
    using c r by (subst sint_small) simp_all
  then show ?thesis unfolding t using c r by linarith
qed

theorem gettimeofday_usec_range_witness:
  "0 \<le> tv_usec (do_gettimeofday 11932 False demo_kernel) \<and> tv_usec (do_gettimeofday 11932 False demo_kernel) < 1000000"
  using gettimeofday_usec_range [of 11932 False demo_kernel] by simp

section \<open>Groups\<close>

definition group_words :: "umem \<Rightarrow> u32 \<Rightarrow> nat \<Rightarrow> u16 list" where
  "group_words m a n = map (\<lambda>i. get_fs_word m (a + 2 * word_of_nat i)) [0..<n]"

lemma setgroups_loop_eq:
  "i + n \<le> length gs \<Longrightarrow> setgroups_loop n m i a gs = take i gs @ map uint (group_words m a n) @ drop (i + n) gs"
proof (induction n arbitrary: i a gs)
  case (Suc n)
  let ?gs = "gs[i := uint (get_fs_word m a)]"
  have w: "group_words m a (Suc n) = get_fs_word m a # group_words m (a + 2) n"
    by (simp add: group_words_def upt_conv_Cons map_Suc_upt [symmetric] o_def algebra_simps del: upt_Suc)
  have t: "take (Suc i) ?gs = take i gs @ [uint (get_fs_word m a)]"
    using Suc.prems by (simp add: take_Suc_conv_app_nth)
  have "setgroups_loop (Suc n) m i a gs = take (Suc i) ?gs @ map uint (group_words m (a + 2) n) @ drop (Suc i + n) ?gs"
    using Suc by simp
  then show ?case unfolding t w by simp
qed (simp add: group_words_def)

lemma length_setgroups_loop [simp]: "length (setgroups_loop n m i a gs) = length gs"
  by (induction n m i a gs rule: setgroups_loop.induct) simp_all

lemma in_group_loop_iff:
  "i + n \<le> length gs \<Longrightarrow> in_group_loop n i gs g \<longleftrightarrow> g \<in> set (takeWhile (\<lambda>x. x \<noteq> NOGROUP) (take n (drop i gs)))"
proof (induction n arbitrary: i)
  case (Suc n)
  then have "take (Suc n) (drop i gs) = gs ! i # take n (drop (Suc i) gs)"
    by (simp add: Cons_nth_drop_Suc [symmetric])
  then show ?case using Suc by auto
qed simp

lemma length_group_words [simp]: "length (group_words m a n) = n"
  by (simp add: group_words_def)

text \<open>The supplementary groups set by the super-user are the ones \<open>in_group_p\<close> grants, beside the
  effective group: no stale entry of the fixed-size table survives, and a full table of 32 is used whole.\<close>

theorem setgroups_in_group_p:
  assumes "suser k" and "0 \<le> n" and "n \<le> 32" and "length (groups (cur k)) = 32"
  shows "fst (sys_setgroups n a k) = 0 \<and>
    (in_group_p g (snd (sys_setgroups n a k)) \<longleftrightarrow> g = egid (cur k) \<or> g \<in> set (group_words (umem k) a (nat n)))"
proof -
  let ?w = "map uint (group_words (umem k) a (nat n))"
  let ?gs = "setgroups_loop (nat n) (umem k) 0 a (groups (cur k))"
  let ?fs = "if nat n < 32 then ?gs[nat n := NOGROUP] else ?gs"
  have gs: "?gs = ?w @ drop (nat n) (groups (cur k))" using setgroups_loop_eq [of 0 "nat n"] assms by simp
  have n: "nat n \<le> 32" using assms by simp
  then have l: "length ?fs = 32" using assms(4) by simp
  have k: "sys_setgroups n a k = (0, set_cur (\<lambda>t. t\<lparr>groups := ?fs\<rparr>) k)"
    using assms by (simp add: sys_setgroups_def Let_def)
  have nw: "\<forall>x\<in>set ?w. x \<noteq> NOGROUP" 
  proof -
    have "uint x \<noteq> NOGROUP" for x :: u16 using uint_ge_0 [of x] by linarith
    then show ?thesis by auto
  qed
  have tw: "takeWhile (\<lambda>x. x \<noteq> NOGROUP) ?fs = ?w"
  proof (cases "nat n < 32")
    case True
    then have "?fs = ?w @ NOGROUP # drop (Suc (nat n)) (groups (cur k))"
      using assms(4) by (simp add: gs list_update_append drop_update_cancel flip: Cons_nth_drop_Suc)
    moreover have "takeWhile (\<lambda>x. x \<noteq> NOGROUP) (?w @ zs) = ?w @ takeWhile (\<lambda>x. x \<noteq> NOGROUP) zs" for zs
      by (rule takeWhile_append2) (use nw in blast)
    ultimately show ?thesis by simp
  next
    case False
    then have "?fs = ?w" using assms by (simp add: gs)
    then show ?thesis using nw by (simp add: takeWhile_eq_all_conv)
  qed
  have "in_group_p g (snd (sys_setgroups n a k)) \<longleftrightarrow> g = egid (cur k) \<or> uint g \<in> set ?w"
    using in_group_loop_iff [of 0 32 ?fs "uint g"] l tw by (simp add: in_group_p_def k del: map_map)
  moreover have "uint g \<in> set ?w \<longleftrightarrow> g \<in> set (group_words (umem k) a (nat n))"
    by (metis (no_types, lifting) image_iff list.set_map word_uint_eq_iff)
  ultimately show ?thesis by (simp add: k)
qed

theorem setgroups_in_group_p_witness:
  "in_group_p 0 (snd (sys_setgroups 3 0x1000 (upd_task 1 (\<lambda>t. t\<lparr>groups := replicate 32 7\<rparr>) (demo_kernel\<lparr>current := 1\<rparr>))))"
  using setgroups_in_group_p [of "upd_task 1 (\<lambda>t. t\<lparr>groups := replicate 32 7\<rparr>) (demo_kernel\<lparr>current := 1\<rparr>)" 3 "0x1000" 0]
  by (simp add: suser_def demo_kernel_def demo_heap_def demo_task_def)

section \<open>Limits, names and sessions\<close>

text \<open>Resource limits are a one-way street for an unprivileged process: \<open>setrlimit\<close> never raises a
  hard limit and never sets a soft limit above the hard limit that was in force.\<close>

theorem setrlimit_never_raises:
  assumes "\<not> suser k" and "r < 6" and "length (rlim (cur k)) = 6"
  shows "rlim_max (rlim (cur (snd (sys_setrlimit res rl k))) ! r) \<le> rlim_max (rlim (cur k) ! r) \<and>
    (rlim (cur (snd (sys_setrlimit res rl k))) ! r = rlim (cur k) ! r \<or>
     rlim_cur (rlim (cur (snd (sys_setrlimit res rl k))) ! r) \<le> rlim_max (rlim (cur k) ! r))"
proof (cases "res < 6")
  case True
  then have "unat res < 6" by (simp add: word_less_nat_alt)
  then show ?thesis using assms True
    by (cases "r = unat res") (auto simp: sys_setrlimit_def Let_def)
qed (simp add: sys_setrlimit_def not_less)

theorem setrlimit_never_raises_witness:
  "rlim_max (rlim (cur (snd (sys_setrlimit 2 0x1000 demo_kernel))) ! 2) \<le> 0x7fffffff"
  using setrlimit_never_raises [of demo_kernel 2 2 "0x1000"]
  by (simp add: suser_def demo_kernel_def demo_heap_def demo_task_def)

lemma copy_name_string:
  "i + n < length buf \<Longrightarrow> takeWhile (\<lambda>c. c \<noteq> 0) (take i buf) = take i buf \<Longrightarrow>
   length (copy_name n m a i buf) = length buf \<and>
   takeWhile (\<lambda>c. c \<noteq> 0) (copy_name n m a i buf) = take i buf @ takeWhile (\<lambda>c. c \<noteq> 0) (memcpy_fromfs m a n)"
proof (induction n arbitrary: a i buf)
  case 0
  then have "buf[i := 0] = take i buf @ 0 # drop (Suc i) buf" by (simp add: upd_conv_take_nth_drop)
  moreover have "\<forall>x\<in>set (take i buf). x \<noteq> 0" using 0(2) unfolding takeWhile_eq_all_conv .
  ultimately show ?case using 0(1) by (simp add: takeWhile_append2)
next
  case (Suc n)
  let ?c = "m a" and ?buf = "buf[i := m a]"
  have t: "take (Suc i) ?buf = take i buf @ [?c]" using Suc.prems by (simp add: take_Suc_conv_app_nth)
  have b: "?buf = take i buf @ ?c # drop (Suc i) buf" using Suc.prems by (simp add: upd_conv_take_nth_drop)
  have nz: "\<forall>x\<in>set (take i buf). x \<noteq> 0" using Suc.prems(2) unfolding takeWhile_eq_all_conv .
  show ?case
  proof (cases "?c = 0")
    case True
    have "takeWhile (\<lambda>c. c \<noteq> 0) ?buf = take i buf" unfolding b using True nz by (simp add: takeWhile_append2)
    then show ?thesis using True by (simp add: get_fs_byte_def)
  next
    case False
    have "takeWhile (\<lambda>c. c \<noteq> 0) (take (Suc i) ?buf) = take (Suc i) ?buf" unfolding t using nz False by (simp add: takeWhile_eq_all_conv)
    with Suc.IH [of "Suc i" ?buf "a + 1"] Suc.prems(1) False t show ?thesis
      by (simp add: get_fs_byte_def Let_def)
  qed
qed

lemma memcpy_fromfs_2: "memcpy_fromfs m a 2 = [m a, m (a + 1)]"
  by (simp add: numeral_2_eq_2)

text \<open>\<open>sethostname\<close> stores exactly the user's string (up to its NUL, or \<open>len\<close> bytes), always
  terminated, and never writes outside the array of 65 bytes.\<close>

theorem sethostname_stores_name:
  assumes "suser k" and "0 \<le> len" and "len \<le> 64" and "length (nodename k) = 65"
  shows "length (nodename (snd (sys_sethostname a len k))) = 65 \<and>
    takeWhile (\<lambda>c. c \<noteq> 0) (nodename (snd (sys_sethostname a len k))) =
      takeWhile (\<lambda>c. c \<noteq> 0) (memcpy_fromfs (umem k) a (nat len))"
  using copy_name_string [of 0 "nat len" "nodename k" "umem k" a] assms by (simp add: sys_sethostname_def)

theorem sethostname_stores_name_witness:
  "takeWhile (\<lambda>c. c \<noteq> 0) (nodename (snd (sys_sethostname 0x1000 2
     (demo_kernel\<lparr>current := 1, nodename := replicate 65 1, umem := (\<lambda>_. 0)(0x1000 := 120)\<rparr>)))) = [120]"
proof -
  let ?k = "demo_kernel\<lparr>current := 1, nodename := replicate 65 1, umem := (\<lambda>_. 0)(0x1000 := 120)\<rparr>"
  have "suser ?k" by (simp add: suser_def demo_kernel_def demo_heap_def demo_task_def)
  moreover have "memcpy_fromfs (umem ?k) 0x1000 2 = [120, 0]" by (simp add: memcpy_fromfs_2)
  ultimately show ?thesis using sethostname_stores_name [of ?k 2 "0x1000"] by simp
qed

text \<open>A session leader leads its own session and process group.\<close>

definition leader_ok :: "task_struct \<Rightarrow> bool" where
  "leader_ok t \<longleftrightarrow> (leader t \<longrightarrow> session t = pid t \<and> pgrp t = pid t)"

lemma setpgid_loop_leader: "\<forall>p. leader_ok (tasks k p) \<Longrightarrow> leader_ok (tasks (snd (setpgid_loop pd g ts k)) q)"
  by (induction pd g ts k rule: setpgid_loop.induct) (auto simp: leader_ok_def)

text \<open>Session leaders stay leaders of their own group and session under \<open>setsid\<close> and \<open>setpgid\<close>.\<close>

theorem leader_ok_preserved:
  assumes "\<forall>p. leader_ok (tasks k p)"
  shows "leader_ok (tasks (snd (sys_setsid k)) q) \<and> leader_ok (tasks (snd (sys_setpgid pd g k)) q)"
  using assms setpgid_loop_leader [OF assms]
  by (auto simp: sys_setsid_def sys_setpgid_def Let_def) (auto simp: leader_ok_def)

theorem leader_ok_preserved_witness:
  "leader_ok (tasks (snd (sys_setsid demo_kernel)) 2) \<and> leader_ok (tasks (snd (sys_setpgid 3 2 demo_kernel)) 2)"
proof -
  have "\<forall>p. leader_ok (tasks demo_kernel p)"
    by (simp add: leader_ok_def demo_kernel_def demo_heap_def demo_task_def)
  then show ?thesis by (rule leader_ok_preserved)
qed

end
