(* ===== verification/Process.thy ===== *)
theory Process
  imports Sys
begin

text \<open>
  The life of a process: creation (\<^verbatim>\<open>kernel/fork.c\<close>), exit and reaping (\<^verbatim>\<open>kernel/exit.c\<close>), on the process
  table and the family links. What these calls do to the memory map, the open files, the inodes, the
  processor state and the IPC facilities is outside the model: whether copying the memory of a new
  process succeeds is an argument. \<open>None\<close> is a panic, a NULL pointer followed, or a loop that has used
  up its fuel; the theorems show when that cannot happen.
\<close>

section \<open>Creating a process\<close>

abbreviation (input) MAX_TASKS_PER_USER :: nat where "MAX_TASKS_PER_USER \<equiv> 32"

text \<open>The scan for the number \<open>lp\<close>: \<open>None\<close> when a task uses it as pid or process group (\<open>goto repeat\<close>),
  otherwise the number of tasks of the calling user.\<close>

fun scan_tasks :: "kernel \<Rightarrow> int \<Rightarrow> tptr option list \<Rightarrow> nat \<Rightarrow> nat option" where
  "scan_tasks k lp [] n = Some n"
| "scan_tasks k lp (None # ts) n = scan_tasks k lp ts n"
| "scan_tasks k lp (Some p # ts) n =
     (let n = (if uid (tasks k p) = uid (cur k) then Suc n else n)
      in if pid (tasks k p) = lp \<or> pgrp (tasks k p) = lp then None else scan_tasks k lp ts n)"

definition next_pid :: "int \<Rightarrow> int" where
  "next_pid lp = (let lp = s32 (lp + 1) in if to_u32 lp AND 0xffff8000 \<noteq> 0 then 1 else lp)"

text \<open>The \<open>repeat\<close> loop; the number chosen and the count of the user's tasks.\<close>

fun find_pid :: "nat \<Rightarrow> kernel \<Rightarrow> int \<Rightarrow> (int \<times> nat) option" where
  "find_pid 0 k lp = None"
| "find_pid (Suc f) k lp =
     (let lp = next_pid lp
      in case scan_tasks k lp (task k) 0 of
           None \<Rightarrow> find_pid f k lp
         | Some n \<Rightarrow> Some (lp, n))"

text \<open>The scan for a slot: the second free one stops it.\<close>

fun find_slot :: "tptr option list \<Rightarrow> nat \<Rightarrow> nat \<Rightarrow> nat + nat" where
  "find_slot [] i task_nr = Inr task_nr"
| "find_slot (Some p # ts) i task_nr = find_slot ts (Suc i) task_nr"
| "find_slot (None # ts) i task_nr = (if task_nr \<noteq> 0 then Inl task_nr else find_slot ts (Suc i) i)"

definition find_empty_process :: "kernel \<Rightarrow> (int \<times> kernel) option" where
  "find_empty_process k =
     (case find_pid 200 k (last_pid k) of
        None \<Rightarrow> None
      | Some (lp, this_user_tasks) \<Rightarrow>
          let k = k\<lparr>last_pid := lp\<rparr>
          in if this_user_tasks > MAX_TASKS_PER_USER \<and> uid (cur k) \<noteq> 0 then Some (- EAGAIN, k)
             else
               case find_slot (tl (task k)) 1 0 of
                 Inl task_nr \<Rightarrow> Some (int task_nr, k)
               | Inr task_nr \<Rightarrow>
                   if task_nr \<noteq> 0 \<and> suser k then Some (int task_nr, k) else Some (- EAGAIN, k))"

text \<open>The arguments of \<open>fork\<close>: the page for the task structure (NULL on failure), whether the kernel
  stack page is available and whether \<open>copy_vm\<close> and \<open>shm_fork\<close> succeed, and the registers that select
  \<open>clone\<close>.\<close>

record fork_env =
  fork_page :: "tptr option"
  stack_ok :: bool
  vm_ok :: bool
  is_clone :: bool
  reg_ebx :: u32
  reg_ecx :: u32
  reg_esp :: u32

abbreviation (input) COPYVM :: u32 where "COPYVM \<equiv> 0x100"
abbreviation (input) CSIGNAL :: u32 where "CSIGNAL \<equiv> 0xff"

definition clone_flags :: "fork_env \<Rightarrow> u32" where
  "clone_flags e =
     (if is_clone e then
        let child_esp = (if reg_ebx e \<noteq> 0 then reg_ebx e else reg_esp e)
        in if child_esp = reg_esp e then reg_ecx e OR COPYVM else reg_ecx e
      else COPYVM OR SIGCHLD)"

definition fork_copy :: "tptr \<Rightarrow> int \<Rightarrow> task_struct \<Rightarrow> task_struct" where
  "fork_copy parent lp t =
     t\<lparr>state := TASK_UNINTERRUPTIBLE, flags := flags t AND NOT (PF_PTRACED OR PF_TRACESYS),
       pid := lp, p_pptr := parent, p_opptr := parent, p_cptr := None\<rparr>"

definition fork_reset :: "u32 \<Rightarrow> task_struct \<Rightarrow> task_struct" where
  "fork_reset now t =
     t\<lparr>signal := 0, it_real_value := 0, it_virt_value := 0, it_prof_value := 0,
       it_real_incr := 0, it_virt_incr := 0, it_prof_incr := 0, leader := False,
       utime := 0, stime := 0, cutime := 0, cstime := 0,
       min_flt := 0, maj_flt := 0, cmin_flt := 0, cmaj_flt := 0, start_time := sint now\<rparr>"

definition fork_cleanup :: "nat \<Rightarrow> tptr \<Rightarrow> kernel \<Rightarrow> int \<times> kernel" where
  "fork_cleanup nr p k = (- EAGAIN, k\<lparr>task := (task k)[nr := None], tasks := REMOVE_LINKS p (tasks k)\<rparr>)"

definition fork_link :: "nat \<Rightarrow> tptr \<Rightarrow> kernel \<Rightarrow> kernel" where
  "fork_link nr p k =
     (let k = k\<lparr>task := (task k)[nr := Some p]\<rparr>;
          k = upd_task p (\<lambda>_. fork_copy (current k) (last_pid k) (cur k)) k;
          k = k\<lparr>tasks := SET_LINKS p (tasks k)\<rparr>
      in upd_task p (fork_reset (jiffies k)) k)"

definition sys_fork :: "fork_env \<Rightarrow> kernel \<Rightarrow> (int \<times> kernel) option" where
  "sys_fork e k =
     (case fork_page e of
        None \<Rightarrow> Some (- EAGAIN, k)
      | Some p \<Rightarrow>
          (case find_empty_process k of
             None \<Rightarrow> None
           | Some (nr, k) \<Rightarrow>
               if nr < 0 then Some (- EAGAIN, k)
               else
                 let k = fork_link (nat nr) p k
                 in if \<not> stack_ok e then Some (fork_cleanup (nat nr) p k)
                    else
                      let k = upd_task p (\<lambda>t. t\<lparr>exit_signal := uint (clone_flags e AND CSIGNAL),
                                                io_bitmap := replicate 33 0xffffffff\<rparr>) k
                      in if \<not> vm_ok e then Some (fork_cleanup (nat nr) p k)
                         else
                           let k = upd_task p (\<lambda>t. t\<lparr>counter := drop_bit 1 (counter (cur k)), state := TASK_RUNNING\<rparr>) k
                           in Some (pid (tasks k p), k)))"

section \<open>Exit\<close>

definition release :: "tptr \<Rightarrow> kernel \<Rightarrow> kernel option" where
  "release p k =
     (if p = current k then Some k
      else
        case find (\<lambda>i. task k ! i = Some p) [1..<NR_TASKS] of
          Some i \<Rightarrow> Some (k\<lparr>task := (task k)[i := None], tasks := REMOVE_LINKS p (tasks k)\<rparr>)
        | None \<Rightarrow> None)"

definition orphan_check :: "int \<Rightarrow> kernel \<Rightarrow> kernel" where
  "orphan_check grp k =
     (if is_orphaned_pgrp grp k \<noteq> 0 \<and> has_stopped_jobs grp k \<noteq> 0
      then snd (kill_pg grp 18 True (snd (kill_pg grp 1 True k))) else k)"

text \<open>The pointer part of the loop of \<open>do_exit\<close>: \<open>p\<close>, the youngest child of \<open>c\<close>, goes to \<open>r\<close>.\<close>

definition adopt :: "tptr \<Rightarrow> tptr \<Rightarrow> tptr \<Rightarrow> heap \<Rightarrow> heap option" where
  "adopt c r p h =
     (let h = hupd c (\<lambda>t. t\<lparr>p_cptr := p_osptr (h p)\<rparr>) h;
          h = hupd p (\<lambda>t. t\<lparr>p_ysptr := None, flags := flags t AND NOT (PF_PTRACED OR PF_TRACESYS), p_pptr := r\<rparr>) h;
          h = hupd p (\<lambda>t. t\<lparr>p_osptr := p_cptr (h r)\<rparr>) h
      in case p_osptr (h p) of
           None \<Rightarrow> None
         | Some os \<Rightarrow>
             let h = hupd os (\<lambda>t. t\<lparr>p_ysptr := Some p\<rparr>) h
             in Some (hupd r (\<lambda>t. t\<lparr>p_cptr := Some p\<rparr>) h))"

definition adopted_check :: "tptr \<Rightarrow> kernel \<Rightarrow> kernel" where
  "adopted_check p k =
     (let k = (if state (tasks k p) = TASK_ZOMBIE then notify_parent p k else k)
      in if pgrp (tasks k p) \<noteq> pgrp (cur k) \<and> session (tasks k p) = session (cur k)
         then orphan_check (pgrp (tasks k p)) k else k)"

fun reparent_loop :: "nat \<Rightarrow> kernel \<Rightarrow> kernel option" where
  "reparent_loop 0 k = None"
| "reparent_loop (Suc n) k =
     (case p_cptr (cur k) of
        None \<Rightarrow> Some k
      | Some p \<Rightarrow>
          (case adopt (current k) (reaper k) p (tasks k) of
             None \<Rightarrow> None
           | Some h \<Rightarrow> reparent_loop n (adopted_check p (k\<lparr>tasks := h\<rparr>))))"

text \<open>\<open>ttyp\<close> is the process group and session of the controlling terminal, if there is one; the
  result gives its new value.\<close>

definition leader_exit :: "(int \<times> int) option \<Rightarrow> kernel \<Rightarrow> kernel \<times> (int \<times> int) option" where
  "leader_exit ttyp k =
     (if leader (cur k) then
        let tp = (if tty (cur k) \<ge> 0 then ttyp else None);
            k = (case tp of Some (grp, sess) \<Rightarrow> if grp > 0 then snd (kill_pg grp 1 True k) else k | None \<Rightarrow> k)
        in (fold (\<lambda>p k. if session (tasks k p) = session (cur k) then upd_task p (\<lambda>t. t\<lparr>tty := - 1\<rparr>) k else k)
              (for_each_task k) k,
            if tp = None then ttyp else Some (- 1, 0))
      else (k, ttyp))"

definition exit_zombie :: "int \<Rightarrow> kernel \<Rightarrow> kernel" where
  "exit_zombie code k =
     (let k = set_cur (\<lambda>t. t\<lparr>state := TASK_ZOMBIE, exit_code := code, rss := 0\<rparr>) k;
          par = tasks k (p_pptr (cur k));
          k = (if pgrp par \<noteq> pgrp (cur k) \<and> session par = session (cur k)
               then orphan_check (pgrp (cur k)) k else k)
      in notify_parent (current k) k)"

definition do_exit :: "nat \<Rightarrow> int \<Rightarrow> (int \<times> int) option \<Rightarrow> kernel \<Rightarrow> (kernel \<times> (int \<times> int) option) option" where
  "do_exit fuel code ttyp k =
     (let k = forget_original_parent (current k) k;
          k = exit_zombie code k
      in case reparent_loop fuel k of
           None \<Rightarrow> None
         | Some k \<Rightarrow>
             let (k, ttyp) = leader_exit ttyp k
             in Some (schedule k, ttyp))"

definition sys_exit :: "nat \<Rightarrow> int \<Rightarrow> (int \<times> int) option \<Rightarrow> kernel \<Rightarrow> (kernel \<times> (int \<times> int) option) option" where
  "sys_exit fuel error_code ttyp k = do_exit fuel (push_bit 8 (error_code AND 0xff)) ttyp k"

section \<open>Waiting\<close>

abbreviation (input) WNOHANG :: u32 where "WNOHANG \<equiv> 1"
abbreviation (input) WUNTRACED :: u32 where "WUNTRACED \<equiv> 2"
abbreviation (input) WCLONE :: u32 where "WCLONE \<equiv> 0x80000000"

definition wait_selects :: "int \<Rightarrow> u32 \<Rightarrow> kernel \<Rightarrow> tptr \<Rightarrow> bool" where
  "wait_selects pd opts k p \<longleftrightarrow>
     (if pd > 0 then pid (tasks k p) = pd
      else if pd = 0 then pgrp (tasks k p) = pgrp (cur k)
      else if pd \<noteq> - 1 then pgrp (tasks k p) = s32 (- pd)
      else True) \<and>
     (exit_signal (tasks k p) \<noteq> 17) = (opts AND WCLONE \<noteq> 0)"

definition store_status :: "u32 \<Rightarrow> u32 \<Rightarrow> kernel \<Rightarrow> kernel" where
  "store_status stat_addr v k = (if stat_addr \<noteq> 0 then k\<lparr>umem := put_fs_long v stat_addr (umem k)\<rparr> else k)"

definition store_rusage :: "u32 \<Rightarrow> tptr \<Rightarrow> kernel \<Rightarrow> kernel" where
  "store_rusage ru p k = (if ru \<noteq> 0 then snd (getrusage (tasks k p) RUSAGE_BOTH ru k) else k)"

definition wait_stopped :: "u32 \<Rightarrow> u32 \<Rightarrow> tptr \<Rightarrow> kernel \<Rightarrow> int \<times> kernel" where
  "wait_stopped stat_addr ru p k =
     (let k = store_status stat_addr (to_u32 (push_bit 8 (exit_code (tasks k p))) OR 0x7f) k;
          k = upd_task p (\<lambda>t. t\<lparr>exit_code := 0\<rparr>) k;
          k = store_rusage ru p k
      in (pid (tasks k p), k))"

definition add_child_times :: "tptr \<Rightarrow> kernel \<Rightarrow> kernel" where
  "add_child_times p k =
     (let c = tasks k p
      in set_cur (\<lambda>t. t\<lparr>cutime := s32 (cutime t + (utime c + cutime c)),
                        cstime := s32 (cstime t + (stime c + cstime c)),
                        cmin_flt := cmin_flt t + (min_flt c + cmin_flt c),
                        cmaj_flt := cmaj_flt t + (maj_flt c + cmaj_flt c)\<rparr>) k)"

definition reap :: "tptr \<Rightarrow> kernel \<Rightarrow> kernel option" where
  "reap p k =
     (if p_opptr (tasks k p) \<noteq> p_pptr (tasks k p) then
        let k = k\<lparr>tasks := REMOVE_LINKS p (tasks k)\<rparr>;
            k = upd_task p (\<lambda>t. t\<lparr>p_pptr := p_opptr t\<rparr>) k;
            k = k\<lparr>tasks := SET_LINKS p (tasks k)\<rparr>
        in Some (notify_parent p k)
      else release p k)"

definition wait_zombie :: "u32 \<Rightarrow> u32 \<Rightarrow> tptr \<Rightarrow> kernel \<Rightarrow> (int \<times> kernel) option" where
  "wait_zombie stat_addr ru p k =
     (let k = add_child_times p k;
          k = store_rusage ru p k;
          flag = pid (tasks k p);
          k = store_status stat_addr (to_u32 (exit_code (tasks k p))) k
      in map_option (\<lambda>k. (flag, k)) (reap p k))"

text \<open>One pass over the children. \<open>WDone\<close> leaves the call with a result, \<open>WNone found\<close> falls out of
  the loop.\<close>

datatype wait_result = WDone int kernel | WNone bool | WPanic

fun wait_pass :: "int \<Rightarrow> u32 \<Rightarrow> u32 \<Rightarrow> u32 \<Rightarrow> kernel \<Rightarrow> tptr list \<Rightarrow> bool \<Rightarrow> wait_result" where
  "wait_pass pd stat_addr opts ru k [] flag = WNone flag"
| "wait_pass pd stat_addr opts ru k (p # ps) flag =
     (if \<not> wait_selects pd opts k p then wait_pass pd stat_addr opts ru k ps flag
      else
        case state (tasks k p) of
          TASK_STOPPED \<Rightarrow>
            if exit_code (tasks k p) = 0 \<or> opts AND WUNTRACED = 0 \<and> flags (tasks k p) AND PF_PTRACED = 0
            then wait_pass pd stat_addr opts ru k ps True
            else (case wait_stopped stat_addr ru p k of (r, k) \<Rightarrow> WDone r k)
        | TASK_ZOMBIE \<Rightarrow>
            (case wait_zombie stat_addr ru p k of None \<Rightarrow> WPanic | Some (r, k) \<Rightarrow> WDone r k)
        | _ \<Rightarrow> wait_pass pd stat_addr opts ru k ps True)"

text \<open>The \<open>repeat\<close> loop. \<open>env\<close> is what the rest of the system does from the call of \<open>schedule\<close> until
  this task runs again; the fuel bounds the number of sleeps.\<close>

fun wait_loop :: "nat \<Rightarrow> (kernel \<Rightarrow> kernel) \<Rightarrow> int \<Rightarrow> u32 \<Rightarrow> u32 \<Rightarrow> u32 \<Rightarrow> kernel \<Rightarrow> (int \<times> kernel) option" where
  "wait_loop 0 env pd stat_addr opts ru k = None"
| "wait_loop (Suc n) env pd stat_addr opts ru k =
     (case wait_pass pd stat_addr opts ru k (walk_sibs NR_TASKS (tasks k) (p_cptr (cur k))) False of
        WPanic \<Rightarrow> None
      | WDone r k \<Rightarrow> Some (r, k)
      | WNone False \<Rightarrow> Some (- ECHILD, k)
      | WNone True \<Rightarrow>
          if opts AND WNOHANG \<noteq> 0 then Some (0, k)
          else
            let k = env (schedule (set_cur (\<lambda>t. t\<lparr>state := TASK_INTERRUPTIBLE\<rparr>) k));
                k = set_cur (\<lambda>t. t\<lparr>signal := signal t AND NOT (sigbit SIGCHLD)\<rparr>) k
            in if signal_pending k then Some (- ERESTARTSYS, k)
               else wait_loop n env pd stat_addr opts ru k)"

definition sys_wait4 :: "nat \<Rightarrow> (kernel \<Rightarrow> kernel) \<Rightarrow> int \<Rightarrow> u32 \<Rightarrow> u32 \<Rightarrow> u32 \<Rightarrow> kernel \<Rightarrow> (int \<times> kernel) option" where
  "sys_wait4 fuel env pd stat_addr opts ru k =
     (let flag = (if stat_addr \<noteq> 0 then verify_area VERIFY_WRITE stat_addr 4 else 0)
      in if flag \<noteq> 0 then Some (flag, k)
         else
           let k = set_cur (\<lambda>t. t\<lparr>wait_chldexit :=
                      (case wait_chldexit t of [] \<Rightarrow> [current k] | x # xs \<Rightarrow> x # current k # xs)\<rparr>) k
           in map_option (\<lambda>(r, k). (r, set_cur (\<lambda>t. t\<lparr>wait_chldexit := remove1 (current k) (wait_chldexit t)\<rparr>) k))
                (wait_loop fuel env pd stat_addr opts ru k))"

definition sys_waitpid :: "nat \<Rightarrow> (kernel \<Rightarrow> kernel) \<Rightarrow> int \<Rightarrow> u32 \<Rightarrow> u32 \<Rightarrow> kernel \<Rightarrow> (int \<times> kernel) option" where
  "sys_waitpid fuel env pd stat_addr opts k = sys_wait4 fuel env pd stat_addr opts 0 k"

section \<open>Choosing a process number\<close>

lemma next_pid_mod:
  assumes "0 \<le> lp" "lp \<le> 32767"
  shows "next_pid lp = lp mod 32767 + 1"
proof -
  have s: "s32 (lp + 1) = lp + 1" using assms by (intro s32_id) auto
  show ?thesis
  proof (cases "lp = 32767")
    case True
    then show ?thesis by (simp add: next_pid_def s32_id)
  next
    case False
    then have lt: "lp + 1 < 32768" "0 \<le> lp + 1" using assms by auto
    let ?x = "to_u32 (lp + 1)"
    have "uint ?x = lp + 1" using lt by (intro uint_to_u32) auto
    then have "uint (take_bit 15 ?x) = uint ?x"
      using lt by (simp add: unsigned_take_bit_eq take_bit_int_eq_self del: wi_hom_syms)
    then have "take_bit 15 ?x = ?x" by (simp only: word_uint_eq_iff)
    then have "?x AND mask 15 = ?x" by (simp only: take_bit_eq_mask)
    moreover have "(0xffff8000 :: u32) = NOT (mask 15)" by (simp add: mask_eq_exp_minus_1)
    ultimately have "?x AND 0xffff8000 = 0"
      by (metis bit.conj_cancel_right and.assoc and_zero_eq)
    then show ?thesis using False assms by (simp add: next_pid_def s del: wi_hom_syms)
  qed
qed

lemma next_pid_iter:
  assumes "0 \<le> lp" "lp \<le> 32767"
  shows "(next_pid ^^ Suc i) lp = (lp + int i) mod 32767 + 1"
proof (induction i)
  case 0
  then show ?case using next_pid_mod [OF assms] by simp
next
  case (Suc i)
  have r: "0 \<le> (lp + int i) mod 32767" "(lp + int i) mod 32767 < 32767" by simp_all
  have "(next_pid ^^ Suc (Suc i)) lp = next_pid ((lp + int i) mod 32767 + 1)" using Suc by simp
  also have "\<dots> = ((lp + int i) mod 32767 + 1) mod 32767 + 1" using r by (intro next_pid_mod) auto
  also have "((lp + int i) mod 32767 + 1) mod 32767 = (lp + int (Suc i)) mod 32767"
    by (simp add: mod_simps ac_simps)
  finally show ?case .
qed

lemma next_pid_inj:
  assumes "0 \<le> lp" "lp \<le> 32767" "f \<le> 32767"
  shows "inj_on (\<lambda>i. (next_pid ^^ Suc i) lp) {..<f}"
proof (rule inj_onI)
  fix i j
  assume "i \<in> {..<f}" "j \<in> {..<f}" "(next_pid ^^ Suc i) lp = (next_pid ^^ Suc j) lp"
  then have "(lp + int i) mod 32767 = (lp + int j) mod 32767" "i < 32767" "j < 32767"
    unfolding next_pid_iter [OF assms(1,2)] using assms(3) by auto
  then have d: "32767 dvd (int i - int j)" by (metis add_diff_cancel_left mod_eq_dvd_iff)
  have "\<bar>int i - int j\<bar> < 32767" using \<open>i < 32767\<close> \<open>j < 32767\<close> by auto
  with d have "int i - int j = 0" using dvd_imp_le_int [of "int i - int j" 32767] by fastforce
  then show "i = j" by simp
qed

definition used_ids :: "kernel \<Rightarrow> int set" where
  "used_ids k = (\<Union>p\<in>{p. Some p \<in> set (task k)}. {pid (tasks k p), pgrp (tasks k p)})"

lemma scan_tasks_None:
  "scan_tasks k lp ts n = None \<longleftrightarrow> (\<exists>p. Some p \<in> set ts \<and> (pid (tasks k p) = lp \<or> pgrp (tasks k p) = lp))"
  by (induction k lp ts n rule: scan_tasks.induct) (auto simp: Let_def)

lemma find_pid_None: "find_pid f k lp = None \<Longrightarrow> i < f \<Longrightarrow> (next_pid ^^ Suc i) lp \<in> used_ids k"
proof (induction f arbitrary: lp i)
  case (Suc f)
  have u: "next_pid lp \<in> used_ids k" and n: "find_pid f k (next_pid lp) = None"
    using Suc.prems(1) scan_tasks_None [of k "next_pid lp" "task k" 0]
    by (auto simp: Let_def used_ids_def split: option.splits)
  show ?case
  proof (cases i)
    case (Suc j)
    then have "(next_pid ^^ Suc j) (next_pid lp) \<in> used_ids k" using Suc.IH [OF n, of j] Suc.prems(2) by simp
    then show ?thesis using Suc by (simp add: funpow_swap1)
  qed (simp add: u)
qed simp

lemma find_pid_Some:
  assumes "find_pid f k lp = Some (lp', n)"
  shows "lp' \<notin> used_ids k" "\<exists>i. lp' = (next_pid ^^ Suc i) lp"
proof -
  have "lp' \<notin> used_ids k \<and> (\<exists>i. lp' = (next_pid ^^ Suc i) lp)"
    using assms
  proof (induction f arbitrary: lp)
    case (Suc f)
    show ?case
    proof (cases "scan_tasks k (next_pid lp) (task k) 0")
      case None
      then obtain i where "lp' \<notin> used_ids k" "lp' = (next_pid ^^ Suc i) (next_pid lp)"
        using Suc by (auto simp: Let_def)
      then show ?thesis by (metis funpow_swap1 funpow.simps(2) o_apply)
    next
      case (Some m)
      then have "lp' = next_pid lp" using Suc.prems by (simp add: Let_def)
      then show ?thesis using Some scan_tasks_None [of k "next_pid lp" "task k" 0]
        by (auto simp: used_ids_def intro: exI [of _ 0])
    qed
  qed simp
  then show "lp' \<notin> used_ids k" "\<exists>i. lp' = (next_pid ^^ Suc i) lp" by auto
qed

lemma finite_tasks: "finite {p. Some p \<in> set ts}" "card {p. Some p \<in> set ts} \<le> length ts"
proof -
  have s: "{p. Some p \<in> set ts} \<subseteq> the ` set ts" by force
  then show "finite {p. Some p \<in> set ts}" by (rule finite_subset) simp
  have "card {p. Some p \<in> set ts} \<le> card (the ` set ts)" using s by (intro card_mono) auto
  also have "\<dots> \<le> length ts" using card_image_le [OF finite_set, of the ts] card_length [of ts] by linarith
  finally show "card {p. Some p \<in> set ts} \<le> length ts" .
qed

lemma card_used_ids: "finite (used_ids k)" "card (used_ids k) \<le> 2 * length (task k)"
proof -
  let ?T = "{p. Some p \<in> set (task k)}"
  have u: "used_ids k = (\<lambda>p. pid (tasks k p)) ` ?T \<union> (\<lambda>p. pgrp (tasks k p)) ` ?T"
    by (auto simp: used_ids_def)
  show "finite (used_ids k)" unfolding u by (intro finite_UnI finite_imageI finite_tasks)
  have "card (used_ids k) \<le> card ((\<lambda>p. pid (tasks k p)) ` ?T) + card ((\<lambda>p. pgrp (tasks k p)) ` ?T)"
    unfolding u by (rule card_Un_le)
  also have "\<dots> \<le> card ?T + card ?T" by (intro add_mono card_image_le finite_tasks)
  finally show "card (used_ids k) \<le> 2 * length (task k)" using finite_tasks(2) [of "task k"] by linarith
qed

lemma find_pid_returns:
  assumes "length (task k) = 64" "0 \<le> lp" "lp \<le> 32767"
  shows "\<exists>lp' n. find_pid 200 k lp = Some (lp', n) \<and> 1 \<le> lp' \<and> lp' \<le> 32767 \<and> lp' \<notin> used_ids k"
proof (cases "find_pid 200 k lp")
  case None
  have "(\<lambda>i. (next_pid ^^ Suc i) lp) ` {..<200} \<subseteq> used_ids k" using find_pid_None [OF None] by auto
  then have "card ((\<lambda>i. (next_pid ^^ Suc i) lp) ` {..<200::nat}) \<le> card (used_ids k)"
    by (intro card_mono card_used_ids)
  moreover have "card ((\<lambda>i. (next_pid ^^ Suc i) lp) ` {..<200::nat}) = 200"
    using next_pid_inj [OF assms(2,3), of 200] by (subst card_image) auto
  ultimately show ?thesis using card_used_ids(2) [of k] assms(1) by simp
next
  case (Some r)
  then obtain lp' n where r: "find_pid 200 k lp = Some (lp', n)" by (cases r) auto
  from find_pid_Some(2) [OF r] obtain i where "lp' = (lp + int i) mod 32767 + 1"
    unfolding next_pid_iter [OF assms(2,3)] by blast
  moreover have "0 \<le> (lp + int i) mod 32767" "(lp + int i) mod 32767 < 32767" by simp_all
  ultimately show ?thesis using r find_pid_Some(1) [OF r] by auto
qed

lemma find_slot_Inl:
  "find_slot ts i n = Inl j \<Longrightarrow> 0 < i \<Longrightarrow>
     n \<noteq> 0 \<and> j = n \<and> None \<in> set ts \<or>
     n = 0 \<and> (\<exists>m < length ts. j = i + m \<and> ts ! m = None \<and> None \<in> set (drop (Suc m) ts))"
proof (induction ts i n rule: find_slot.induct)
  case (2 p ts i n)
  then have "n \<noteq> 0 \<and> j = n \<and> None \<in> set ts \<or>
     n = 0 \<and> (\<exists>m < length ts. j = Suc i + m \<and> ts ! m = None \<and> None \<in> set (drop (Suc m) ts))" by simp
  then show ?case
  proof (elim disjE conjE exE)
    fix m
    assume "n = 0" "m < length ts" "j = Suc i + m" "ts ! m = None" "None \<in> set (drop (Suc m) ts)"
    then show ?thesis by (intro disjI2 conjI exI [of _ "Suc m"]) auto
  qed auto
next
  case (3 ts i n)
  then show ?case by (cases "n = 0") fastforce+
qed simp

lemma find_slot_Inr:
  "find_slot ts i n = Inr j \<Longrightarrow> 0 < i \<Longrightarrow>
     n \<noteq> 0 \<and> j = n \<or> n = 0 \<and> (j = 0 \<or> (\<exists>m < length ts. j = i + m \<and> ts ! m = None))"
proof (induction ts i n rule: find_slot.induct)
  case (2 p ts i n)
  then have "n \<noteq> 0 \<and> j = n \<or> n = 0 \<and> (j = 0 \<or> (\<exists>m < length ts. j = Suc i + m \<and> ts ! m = None))" by simp
  then show ?case
  proof (elim disjE conjE exE)
    fix m
    assume "n = 0" "m < length ts" "j = Suc i + m" "ts ! m = None"
    then show ?thesis by (intro disjI2 conjI exI [of _ "Suc m"]) auto
  qed auto
next
  case (3 ts i n)
  then show ?case by (cases "n = 0") fastforce+
qed auto

section \<open>The process table and the links agree\<close>

definition proc_ok :: "kernel \<Rightarrow> tptr list \<Rightarrow> (tptr \<Rightarrow> tptr list) \<Rightarrow> bool" where
  "proc_ok k xs fam \<longleftrightarrow>
     proc_links (tasks k) xs fam \<and>
     length (task k) = NR_TASKS \<and> task k ! 0 = Some init_task \<and>
     {p. Some p \<in> set (tl (task k))} = set xs \<and>
     distinct (filter (\<lambda>x. x \<noteq> None) (tl (task k))) \<and>
     inj_on (\<lambda>p. pid (tasks k p)) (insert init_task (set xs)) \<and>
     0 \<le> last_pid k \<and> last_pid k \<le> 32767"

lemma proc_links_cong:
  assumes "\<And>p. next_task (h' p) = next_task (h p)" "\<And>p. prev_task (h' p) = prev_task (h p)"
    "\<And>p. p_pptr (h' p) = p_pptr (h p)" "\<And>p. p_cptr (h' p) = p_cptr (h p)"
    "\<And>p. p_ysptr (h' p) = p_ysptr (h p)" "\<And>p. p_osptr (h' p) = p_osptr (h p)"
  shows "proc_links h' xs fam = proc_links h xs fam"
proof -
  have "sibs h' None cs None = sibs h None cs None" for cs using assms by (intro sibs_cong) auto
  then show ?thesis using ring_cong [of h' h xs] assms by (simp add: proc_links_def children_def)
qed

lemma proc_links_upd:
  assumes "next_task (f (h p)) = next_task (h p)" "prev_task (f (h p)) = prev_task (h p)"
    "p_pptr (f (h p)) = p_pptr (h p)" "p_cptr (f (h p)) = p_cptr (h p)"
    "p_ysptr (f (h p)) = p_ysptr (h p)" "p_osptr (f (h p)) = p_osptr (h p)"
  shows "proc_links (h(p := f (h p))) xs fam = proc_links h xs fam"
  using assms by (intro proc_links_cong) auto

lemma proc_ok_length: "proc_ok k xs fam \<Longrightarrow> length xs \<le> 63"
proof -
  assume ok: "proc_ok k xs fam"
  then have "distinct xs" by (simp add: proc_ok_def proc_links_def ring_def)
  then have "length xs = card {p. Some p \<in> set (tl (task k))}"
    using ok by (simp add: proc_ok_def distinct_card)
  then show ?thesis using finite_tasks(2) [of "tl (task k)"] ok by (simp add: proc_ok_def)
qed

lemma proc_ok_in_table:
  assumes "proc_ok k xs fam"
  shows "Some p \<in> set (task k) \<longleftrightarrow> p = init_task \<or> p \<in> set xs"
proof -
  have "task k = Some init_task # tl (task k)"
    using assms by (cases "task k") (auto simp: proc_ok_def)
  then have "Some p \<in> set (task k) \<longleftrightarrow> p = init_task \<or> Some p \<in> set (tl (task k))"
    by (metis option.inject set_ConsD list.set_intros)
  then show ?thesis using assms by (auto simp: proc_ok_def)
qed

lemma proc_ok_not_init: "proc_ok k xs fam \<Longrightarrow> init_task \<notin> set xs"
  by (simp add: proc_ok_def proc_links_def ring_def)

text \<open>A task of the table that is not on the ring has no children and is nobody's child.\<close>

lemma proc_links_fresh:
  assumes "proc_links h xs fam" "p \<notin> set xs"
  shows "p \<notin> set (fam q)"
  using assms by (auto simp: proc_links_def)

lemma proc_links_fresh_upd:
  assumes "proc_links h xs fam" "p \<notin> set xs" "p \<noteq> init_task" "fam p = []" "p_cptr t = None"
  shows "proc_links (h(p := t)) xs fam"
proof -
  let ?h = "h(p := t)"
  have f: "p \<notin> set (fam q)" for q using proc_links_fresh [OF assms(1,2)] .
  have old: "ring h xs" "\<And>q. children h q (fam q)" "\<And>q. set (fam q) = {c \<in> set xs. p_pptr (h c) = q}"
    using assms(1) by (simp_all add: proc_links_def)
  have "chain ?h init_task xs init_task = chain h init_task xs init_task"
    using assms(2,3) by (intro chain_cong) auto
  then have r: "ring ?h xs" using old(1) by (simp add: ring_def)
  have "children ?h q (fam q)" for q
  proof -
    have s: "sibs ?h None (fam q) None = sibs h None (fam q) None" using f [of q] by (intro sibs_cong) auto
    have c: "p_cptr (?h q) = hd_opt (fam q)" using old(2) [of q] assms(4,5) by (simp add: children_def)
    have "\<forall>c\<in>set (fam q). p_pptr (?h c) = q" using old(2) [of q] f [of q] by (auto simp: children_def)
    then show ?thesis using s c old(2) [of q] by (simp only: children_def)
  qed
  moreover have "{c \<in> set xs. p_pptr (?h c) = q} = {c \<in> set xs. p_pptr (h c) = q}" for q using assms(2) by auto
  ultimately show ?thesis using r old(3) unfolding proc_links_def by simp
qed

section \<open>Creating\<close>

text \<open>Setting a slot of the table.\<close>

lemma slot_sets:
  assumes "m < length ts" "ts ! m = None" "\<And>p. Some p \<in> set ts \<Longrightarrow> p \<noteq> q" "distinct (filter (\<lambda>x. x \<noteq> None) ts)"
  shows "{p. Some p \<in> set (ts[m := Some q])} = insert q {p. Some p \<in> set ts}"
    "distinct (filter (\<lambda>x. x \<noteq> None) (ts[m := Some q]))"
proof -
  have ts: "ts = take m ts @ None # drop (Suc m) ts" using assms(1,2) id_take_nth_drop by fastforce
  have u: "ts[m := Some q] = take m ts @ Some q # drop (Suc m) ts" using assms(1) by (rule upd_conv_take_nth_drop)
  have m: "x \<in> set ts \<longleftrightarrow> x = None \<or> x \<in> set (take m ts) \<or> x \<in> set (drop (Suc m) ts)" for x
    by (subst ts) auto
  show "{p. Some p \<in> set (ts[m := Some q])} = insert q {p. Some p \<in> set ts}"
    unfolding u m by auto
  have "distinct (filter (\<lambda>x. x \<noteq> None) (take m ts @ None # drop (Suc m) ts))" using assms(4) ts by simp
  moreover have "Some q \<notin> set (take m ts)" "Some q \<notin> set (drop (Suc m) ts)" using assms(3) m by auto
  ultimately show "distinct (filter (\<lambda>x. x \<noteq> None) (ts[m := Some q]))" unfolding u by auto
qed

lemma find_empty_process_spec:
  assumes "proc_ok k xs fam"
  shows "\<exists>nr lp. find_empty_process k = Some (nr, k\<lparr>last_pid := lp\<rparr>) \<and> 1 \<le> lp \<and> lp \<le> 32767 \<and> lp \<notin> used_ids k \<and>
    (nr = - EAGAIN \<or>
     (\<exists>m < 63. nr = int (Suc m) \<and> tl (task k) ! m = None \<and>
       (suser k \<or> None \<in> set (drop (Suc m) (tl (task k))))))"
proof -
  have l: "length (task k) = 64" "0 \<le> last_pid k" "last_pid k \<le> 32767" using assms by (auto simp: proc_ok_def)
  from find_pid_returns [OF l] obtain lp n where
    p: "find_pid 200 k (last_pid k) = Some (lp, n)" "1 \<le> lp" "lp \<le> 32767" "lp \<notin> used_ids k" by blast
  let ?k = "k\<lparr>last_pid := lp\<rparr>"
  have su: "suser ?k = suser k" by (simp add: suser_def)
  have e: "find_empty_process k =
      (if n > 32 \<and> uid (cur k) \<noteq> 0 then Some (- EAGAIN, ?k)
       else case find_slot (tl (task k)) 1 0 of
              Inl j \<Rightarrow> Some (int j, ?k)
            | Inr j \<Rightarrow> if j \<noteq> 0 \<and> suser k then Some (int j, ?k) else Some (- EAGAIN, ?k))"
    by (simp add: find_empty_process_def p(1) su Let_def split: sum.split)
  have "\<exists>nr. find_empty_process k = Some (nr, ?k) \<and>
      (nr = - EAGAIN \<or> (\<exists>m < 63. nr = int (Suc m) \<and> tl (task k) ! m = None \<and>
        (suser k \<or> None \<in> set (drop (Suc m) (tl (task k))))))"
  proof (cases "n > 32 \<and> uid (cur k) \<noteq> 0")
    case False
    show ?thesis
    proof (cases "find_slot (tl (task k)) 1 0")
      case (Inl j)
      then show ?thesis using find_slot_Inl [OF Inl] l(1) False by (auto simp: e)
    next
      case (Inr j)
      then show ?thesis using find_slot_Inr [OF Inr] l(1) False by (auto simp: e)
    qed
  qed (simp add: e)
  then show ?thesis using p(2-4) by blast
qed


lemma demo_proc_ok: "proc_ok demo_kernel [1, 2, 3] (\<lambda>q. if q < 3 then [Suc q] else [])"
proof -
  have r: "ring demo_heap [1, 2, 3]" using demo_ring by (simp add: demo_kernel_def)
  have c: "children demo_heap q (if q < 3 then [Suc q] else []) \<and>
      set (if q < 3 then [Suc q] else []) = {c \<in> set [1, 2, 3]. p_pptr (demo_heap c) = q}" for q
  proof -
    consider "q = 0" | "q = 1" | "q = 2" | "q = 3" | "q > 3" by linarith
    then show ?thesis
      by cases (auto simp: children_def demo_heap_def demo_task_def numeral_2_eq_2 numeral_3_eq_3)
  qed
  have i: "inj_on (\<lambda>p. pid (demo_heap p)) {0, 1, 2, 3}"
    by (auto simp: inj_on_def demo_heap_def demo_task_def)
  have "proc_links demo_heap [1, 2, 3] (\<lambda>q. if q < 3 then [Suc q] else [])"
    using r c by (simp add: proc_links_def)
  then show ?thesis using i by (auto simp: proc_ok_def demo_kernel_def)
qed


lemma hupd_field: "(\<And>t. g (f t) = g t) \<Longrightarrow> g (hupd p f h q) = g (h q)"
  by (simp add: hupd_apply)

lemma SET_LINKS_fields [simp]:
  "pid (SET_LINKS p h q) = pid (h q)" "pgrp (SET_LINKS p h q) = pgrp (h q)" "state (SET_LINKS p h q) = state (h q)"
  "session (SET_LINKS p h q) = session (h q)"
  by (simp_all add: SET_LINKS_def set_ring_def set_family_def Let_def hupd_field split: option.splits)

lemma REMOVE_LINKS_fields [simp]:
  "pid (REMOVE_LINKS p h q) = pid (h q)" "pgrp (REMOVE_LINKS p h q) = pgrp (h q)" "state (REMOVE_LINKS p h q) = state (h q)"
  "session (REMOVE_LINKS p h q) = session (h q)"
  by (simp_all add: REMOVE_LINKS_def remove_ring_def remove_family_def Let_def hupd_field split: option.splits)

text \<open>The links of a new task, before the call can fail any more.\<close>

lemma fork_link_spec:
  assumes ok: "proc_ok k xs fam" and p: "p \<noteq> init_task" "p \<notin> set xs" "fam p = []"
    and c: "current k \<in> insert init_task (set xs)"
    and m: "m < 63" "tl (task k) ! m = None" and lp: "last_pid k \<notin> used_ids (k\<lparr>last_pid := x\<rparr>)"
    and kl: "k' = fork_link (Suc m) p k"
  shows "proc_ok k' (xs @ [p]) (fam(current k := p # fam (current k)))"
    and "task k' = (task k)[Suc m := Some p]" and "current k' = current k"
    and "pid (tasks k' p) = last_pid k" and "p_pptr (tasks k' p) = current k" and "signal (tasks k' p) = 0"
proof -
  let ?h1 = "(tasks k)(p := fork_copy (current k) (last_pid k) (cur k))"
  let ?h2 = "SET_LINKS p ?h1"
  have k': "k' = k\<lparr>task := (task k)[Suc m := Some p], tasks := ?h2(p := fork_reset (jiffies k) (?h2 p))\<rparr>"
    by (simp add: kl fork_link_def upd_task_def Let_def)
  show t: "task k' = (task k)[Suc m := Some p]" and "current k' = current k" by (simp_all add: k')
  have pp: "p_pptr (?h1 p) = current k" by (simp add: fork_copy_def)
  have "proc_links ?h1 xs fam"
    using ok p by (intro proc_links_fresh_upd) (auto simp: proc_ok_def fork_copy_def)
  from proc_links_SET_LINKS [OF this p(1,2)] pp
  have "proc_links ?h2 (xs @ [p]) (fam(current k := p # fam (current k)))" by simp
  then have links: "proc_links (tasks k') (xs @ [p]) (fam(current k := p # fam (current k)))"
    unfolding k' using proc_links_upd [of "fork_reset (jiffies k)" ?h2 p] by (simp add: fork_reset_def [abs_def])
  have pid': "pid (tasks k' q) = (if q = p then last_pid k else pid (tasks k q))" for q
    by (simp add: k' fork_reset_def fork_copy_def)
  then show "pid (tasks k' p) = last_pid k" by simp
  have "p_pptr (?h2 p) = current k" using SET_LINKS_family(1) [of p ?h1 p] pp by simp
  then show "p_pptr (tasks k' p) = current k" "signal (tasks k' p) = 0" by (simp_all add: k' fork_reset_def)
  have fresh: "pid (tasks k q) \<noteq> last_pid k" if "q \<in> insert init_task (set xs)" for q
    using lp that proc_ok_in_table [OF ok] by (auto simp: used_ids_def)
  have inj: "inj_on (\<lambda>q. pid (tasks k' q)) (insert init_task (set (xs @ [p])))"
  proof -
    have "inj_on (\<lambda>q. pid (tasks k q)) (insert init_task (set xs))" using ok by (simp add: proc_ok_def)
    then have "inj_on (\<lambda>q. pid (tasks k' q)) (insert init_task (set xs))"
      using p by (subst inj_on_cong [where g = "\<lambda>q. pid (tasks k q)"]) (auto simp: pid')
    moreover have "pid (tasks k' p) \<notin> (\<lambda>q. pid (tasks k' q)) ` insert init_task (set xs)"
    proof
      assume "pid (tasks k' p) \<in> (\<lambda>q. pid (tasks k' q)) ` insert init_task (set xs)"
      then obtain q where "q \<in> insert init_task (set xs)" "pid (tasks k' p) = pid (tasks k' q)" by blast
      then show False using fresh [of q] p by (cases "q = p") (auto simp: pid')
    qed
    ultimately have "inj_on (\<lambda>q. pid (tasks k' q)) (insert p (insert init_task (set xs)))"
      using p by (subst inj_on_insert) (simp del: inj_on_insert image_insert)
    then show ?thesis by (simp add: insert_commute)
  qed
  have len: "length (task k) = 64" using ok by (simp add: proc_ok_def)
  have tl: "tl (task k') = (tl (task k))[m := Some p]" using len by (cases "task k") (simp_all add: t)
  have old: "{q. Some q \<in> set (tl (task k))} = set xs" "distinct (filter (\<lambda>x. x \<noteq> None) (tl (task k)))"
    using ok by (simp_all add: proc_ok_def)
  have "m < length (tl (task k))" using m(1) len by simp
  note S = slot_sets [OF this m(2), of p, OF _ old(2)]
  have "\<And>q. Some q \<in> set (tl (task k)) \<Longrightarrow> q \<noteq> p" using old(1) p(2) by auto
  then have "{q. Some q \<in> set (tl (task k'))} = set (xs @ [p])" "distinct (filter (\<lambda>x. x \<noteq> None) (tl (task k')))"
    using S old(1) by (auto simp: tl)
  then show "proc_ok k' (xs @ [p]) (fam(current k := p # fam (current k)))"
    using links inj ok by (simp add: proc_ok_def k')
qed

lemma proc_ok_upd:
  assumes "proc_ok k xs fam" "\<And>t. next_task (f t) = next_task t" "\<And>t. prev_task (f t) = prev_task t"
    "\<And>t. p_pptr (f t) = p_pptr t" "\<And>t. p_cptr (f t) = p_cptr t" "\<And>t. p_ysptr (f t) = p_ysptr t"
    "\<And>t. p_osptr (f t) = p_osptr t" "\<And>t. pid (f t) = pid t"
  shows "proc_ok (upd_task p f k) xs fam"
proof -
  have "inj_on (\<lambda>q. pid (tasks (upd_task p f k) q)) A = inj_on (\<lambda>q. pid (tasks k q)) A" for A
    using assms(8) by (intro inj_on_cong) simp
  then show ?thesis using assms unfolding proc_ok_def
    by (simp add: upd_task_tasks proc_links_upd)
qed

lemma proc_ok_unlink:
  assumes ok: "proc_ok k xs fam" and p: "p \<in> set xs" and i: "i < 64" "0 < i" "task k ! i = Some p"
  shows "proc_ok (k\<lparr>task := (task k)[i := None], tasks := REMOVE_LINKS p (tasks k)\<rparr>) (remove1 p xs)
    (fam(p_pptr (tasks k p) := remove1 p (fam (p_pptr (tasks k p)))))"
proof -
  have l: "proc_links (tasks k) xs fam" "length (task k) = 64" "distinct xs"
    using ok by (auto simp: proc_ok_def proc_links_def ring_def)
  obtain j where j: "i = Suc j" "j < length (tl (task k))" using i l(2) by (cases i) auto
  let ?ts = "tl (task k)"
  have tl: "tl ((task k)[i := None]) = ?ts[j := None]" using l(2) j by (cases "task k") simp_all
  have tj: "?ts ! j = Some p" using i(3) j l(2) by (simp add: nth_tl)
  have ts: "?ts = take j ?ts @ Some p # drop (Suc j) ?ts" using id_take_nth_drop [OF j(2)] unfolding tj .
  have u: "?ts[j := None] = take j ?ts @ None # drop (Suc j) ?ts" using j(2) by (rule upd_conv_take_nth_drop)
  have d: "distinct (filter (\<lambda>x. x \<noteq> None) (take j ?ts @ Some p # drop (Suc j) ?ts))"
    unfolding ts [symmetric] using ok by (simp add: proc_ok_def)
  then have n: "Some p \<notin> set (take j ?ts)" "Some p \<notin> set (drop (Suc j) ?ts)" by auto
  have m: "Some q \<in> set ?ts \<longleftrightarrow> q = p \<or> Some q \<in> set (take j ?ts) \<or> Some q \<in> set (drop (Suc j) ?ts)" for q
    by (subst ts) auto
  have x: "set (remove1 p xs) = {q. Some q \<in> set ?ts} - {p}"
    using ok l(3) by (simp add: proc_ok_def set_remove1_eq)
  have "{q. Some q \<in> set (?ts[j := None])} = set (remove1 p xs)"
    unfolding u x m using n by auto
  moreover have "distinct (filter (\<lambda>x. x \<noteq> None) (?ts[j := None]))" using d unfolding u by auto
  moreover have "inj_on (\<lambda>q. pid (REMOVE_LINKS p (tasks k) q)) (insert init_task (set (remove1 p xs)))"
  proof -
    have "inj_on (\<lambda>q. pid (tasks k q)) (insert init_task (set xs))" using ok by (simp add: proc_ok_def)
    then show ?thesis unfolding REMOVE_LINKS_fields by (rule inj_on_subset) (use set_remove1_subset in fastforce)
  qed
  moreover have "(task k)[i := None] ! 0 = Some init_task" "length ((task k)[i := None]) = 64"
      "0 \<le> last_pid k" "last_pid k \<le> 32767"
    using ok i(2) by (simp_all add: proc_ok_def)
  ultimately show ?thesis
    using proc_links_REMOVE_LINKS [OF l(1) p] unfolding proc_ok_def by (simp add: tl)
qed

lemma fork_cleanup_spec:
  assumes ok: "proc_ok k (xs @ [p]) (fam(c := p # fam c))" and p: "p \<notin> set xs" "p_pptr (tasks k p) = c"
    and m: "m < 63" "task k = ts[Suc m := Some p]" "length ts = 64"
  shows "proc_ok (snd (fork_cleanup (Suc m) p k)) xs fam"
proof -
  have "task k ! Suc m = Some p" using m by simp
  with proc_ok_unlink [OF ok, of p "Suc m"] p m(1) show ?thesis
    by (simp add: fork_cleanup_def remove1_append)
qed

text \<open>C6. \<open>fork\<close> always returns, keeps the process table, the task ring and the family links in
  agreement, and is all or nothing. When it succeeds, the ring has the new task at its end and the
  caller has it as its youngest child; its pid is used by no other task, as pid or as process group; it
  is runnable and has no pending signal. When it fails, at whatever point, the table and the links are
  as before.\<close>

theorem fork_keeps_table:
  assumes "proc_ok k xs fam" and "fork_page e = Some p"
    and "p \<noteq> init_task" and "p \<notin> set xs" and "fam p = []" and "current k \<in> insert init_task (set xs)"
  shows "\<exists>r k'. sys_fork e k = Some (r, k') \<and>
    (if r > 0 then proc_ok k' (xs @ [p]) (fam(current k := p # fam (current k))) \<and>
       pid (tasks k' p) = r \<and> state (tasks k' p) = TASK_RUNNING \<and> signal (tasks k' p) = 0 \<and>
       p_pptr (tasks k' p) = current k \<and>
       (\<forall>q. Some q \<in> set (task k) \<longrightarrow> pid (tasks k q) \<noteq> r \<and> pgrp (tasks k q) \<noteq> r)
     else r = - EAGAIN \<and> proc_ok k' xs fam)"
proof -
  from find_empty_process_spec [OF assms(1)] obtain nr lp where
    f: "find_empty_process k = Some (nr, k\<lparr>last_pid := lp\<rparr>)" and lp: "1 \<le> lp" "lp \<le> 32767" "lp \<notin> used_ids k" and
    nr: "nr = - EAGAIN \<or> (\<exists>m < 63. nr = int (Suc m) \<and> tl (task k) ! m = None)" by blast
  let ?k = "k\<lparr>last_pid := lp\<rparr>"
  have ok: "proc_ok ?k xs fam" using assms(1) lp by (simp add: proc_ok_def)
  show ?thesis
  proof (cases "nr = - EAGAIN")
    case True
    then show ?thesis using assms(2) f ok by (simp add: sys_fork_def)
  next
    case False
    then obtain m where m: "m < 63" "nr = int (Suc m)" "tl (task k) ! m = None" using nr by blast
    have nn: "nat nr = Suc m" "\<not> nr < 0" using m(2) by simp_all
    define k1 where "k1 = fork_link (Suc m) p ?k"
    have tk: "tl (task ?k) ! m = None" "current ?k \<in> insert init_task (set xs)" using m assms(6) by simp_all
    have lpu: "last_pid ?k \<notin> used_ids (?k\<lparr>last_pid := last_pid k\<rparr>)" using lp(3) by (simp add: used_ids_def)
    note L = fork_link_spec [OF ok assms(3-5) tk(2) m(1) tk(1) lpu k1_def, simplified]
    let ?k2 = "upd_task p (\<lambda>t. t\<lparr>exit_signal := uint (clone_flags e AND CSIGNAL), io_bitmap := replicate 33 0xffffffff\<rparr>) k1"
    let ?k3 = "upd_task p (\<lambda>t. t\<lparr>counter := drop_bit 1 (counter (cur ?k2)), state := TASK_RUNNING\<rparr>) ?k2"
    have e: "sys_fork e k = Some (if \<not> stack_ok e then fork_cleanup (Suc m) p k1
        else if \<not> vm_ok e then fork_cleanup (Suc m) p ?k2 else (pid (tasks ?k3 p), ?k3))"
      using assms(2) f nn by (simp add: sys_fork_def k1_def Let_def)
    have ok2: "proc_ok ?k2 (xs @ [p]) (fam(current k := p # fam (current k)))"
      by (rule proc_ok_upd [OF L(1)]) simp_all
    have ok3: "proc_ok ?k3 (xs @ [p]) (fam(current k := p # fam (current k)))"
      by (rule proc_ok_upd [OF ok2]) simp_all
    have len: "length (task k) = 64" using assms(1) by (simp add: proc_ok_def)
    have c1: "proc_ok (snd (fork_cleanup (Suc m) p k1)) xs fam"
      using L m(1) len assms(4) by (intro fork_cleanup_spec [of _ _ _ _ "current k" _ "task k"]) simp_all
    have c2: "proc_ok (snd (fork_cleanup (Suc m) p ?k2)) xs fam"
      using L m(1) len assms(4) ok2 by (intro fork_cleanup_spec [of _ _ _ _ "current k" _ "task k"]) simp_all
    have fail: "fork_cleanup (Suc m) p x = (- EAGAIN, snd (fork_cleanup (Suc m) p x))" for x
      by (simp add: fork_cleanup_def)
    show ?thesis
    proof (cases "stack_ok e \<and> vm_ok e")
      case True
      then have "sys_fork e k = Some (lp, ?k3)" using e L by simp
      moreover have "\<forall>q. Some q \<in> set (task k) \<longrightarrow> pid (tasks k q) \<noteq> lp \<and> pgrp (tasks k q) \<noteq> lp"
        using lp(3) by (auto simp: used_ids_def)
      ultimately show ?thesis using ok3 L lp(1) by (intro exI [of _ lp] exI [of _ ?k3]) simp
    next
      case False
      then have "sys_fork e k = Some (- EAGAIN, snd (fork_cleanup (Suc m) p (if stack_ok e then ?k2 else k1)))"
        using e fail by auto
      then show ?thesis using c1 c2 by auto
    qed
  qed
qed

theorem fork_keeps_table_witness:
  "\<exists>r k'. sys_fork \<lparr>fork_page = Some 4, stack_ok = True, vm_ok = True, is_clone = False, reg_ebx = 0, reg_ecx = 0, reg_esp = 0\<rparr>
      demo_kernel = Some (r, k') \<and>
    (r > 0 \<longrightarrow> proc_ok k' [1, 2, 3, 4] ((\<lambda>q. if q < 3 then [Suc q] else [])(2 := [4, 3])))"
proof -
  have "current demo_kernel = 2" by (simp add: demo_kernel_def)
  then show ?thesis
    using fork_keeps_table [OF demo_proc_ok, of "\<lparr>fork_page = Some 4, stack_ok = True, vm_ok = True, is_clone = False, reg_ebx = 0, reg_ecx = 0, reg_esp = 0\<rparr>" 4]
    by (auto simp: eval_nat_numeral split: if_splits)
qed

section \<open>What signals leave alone\<close>

definition same_links :: "heap \<Rightarrow> heap \<Rightarrow> bool" where
  "same_links h h' \<longleftrightarrow>
     (\<forall>p. next_task (h' p) = next_task (h p) \<and> prev_task (h' p) = prev_task (h p) \<and> p_pptr (h' p) = p_pptr (h p) \<and>
       p_cptr (h' p) = p_cptr (h p) \<and> p_ysptr (h' p) = p_ysptr (h p) \<and> p_osptr (h' p) = p_osptr (h p) \<and>
       pid (h' p) = pid (h p) \<and> (state (h p) = TASK_ZOMBIE \<longrightarrow> state (h' p) = TASK_ZOMBIE))"

definition keeps :: "kernel \<Rightarrow> kernel \<Rightarrow> bool" where
  "keeps k k' \<longleftrightarrow> task k' = task k \<and> current k' = current k \<and> last_pid k' = last_pid k \<and> same_links (tasks k) (tasks k')"

lemma keeps_refl [simp]: "keeps k k"
  by (simp add: keeps_def same_links_def)

lemma keeps_trans: "keeps k k' \<Longrightarrow> keeps k' k'' \<Longrightarrow> keeps k k''"
  by (simp add: keeps_def same_links_def)

lemma keeps_upd:
  assumes "\<And>t. next_task (f t) = next_task t" "\<And>t. prev_task (f t) = prev_task t"
    "\<And>t. p_pptr (f t) = p_pptr t" "\<And>t. p_cptr (f t) = p_cptr t" "\<And>t. p_ysptr (f t) = p_ysptr t"
    "\<And>t. p_osptr (f t) = p_osptr t" "\<And>t. pid (f t) = pid t"
    "\<And>t. state t = TASK_ZOMBIE \<Longrightarrow> state (f t) = TASK_ZOMBIE"
  shows "keeps k (upd_task p f k)"
  using assms by (simp add: keeps_def same_links_def)

lemma deliver_zombie: "state t = TASK_ZOMBIE \<Longrightarrow> state (deliver sig t) = TASK_ZOMBIE"
  by (simp add: deliver_def discard_cont_def resume_stopped_def Let_def)

lemma keeps_send_sig: "keeps k (snd (send_sig sig p priv k))"
proof (cases p)
  case None
  then show ?thesis by (simp add: send_sig_def)
next
  case (Some q)
  then show ?thesis by (simp add: send_sig_eq keeps_upd deliver_zombie)
qed

lemma keeps_kill_loop: "keeps k (snd (kill_loop sel sig priv ps acc k))"
proof (induction sel sig priv ps acc k rule: kill_loop.induct)
  case (2 sel sig priv p ps found retval k)
  obtain err k1 where s: "send_sig sig (Some p) priv k = (err, k1)" by fastforce
  have "keeps k k1" using keeps_send_sig [of k sig "Some p" priv] by (simp add: s)
  then show ?case using 2 s by (auto intro: keeps_trans)
qed simp

lemma keeps_kill_pg: "keeps k (snd (kill_pg grp sig priv k))"
proof -
  obtain f r k1 where l: "kill_loop (\<lambda>t. pgrp t = grp) (to_u32 sig) priv (for_each_task k) (0, - ESRCH) k = ((f, r), k1)"
    by (metis prod.collapse)
  then have "keeps k k1" using keeps_kill_loop [of k "\<lambda>t. pgrp t = grp" "to_u32 sig" priv "for_each_task k" "(0, - ESRCH)"] by simp
  then show ?thesis using l by (simp add: kill_pg_def)
qed

lemma keeps_wake: "keeps k (wake_up_interruptible q k)"
  by (simp add: keeps_def same_links_def wake_up_interruptible_tasks)

lemma keeps_notify_parent: "keeps k (notify_parent p k)"
proof -
  define k1 where "k1 = (if task k ! 1 = Some (p_pptr (tasks k p)) then upd_task p (\<lambda>t. t\<lparr>exit_signal := 17\<rparr>) k else k)"
  define k2 where "k2 = snd (send_sig (to_u32 (exit_signal (tasks k1 p))) (Some (p_pptr (tasks k1 p))) True k1)"
  have "keeps k k1" by (simp add: k1_def keeps_upd)
  moreover have "keeps k1 k2" unfolding k2_def by (rule keeps_send_sig)
  moreover have "notify_parent p k = wake_up_interruptible (wait_chldexit (tasks k2 (p_pptr (tasks k2 p)))) k2"
    by (simp add: notify_parent_def k1_def k2_def Let_def)
  ultimately show ?thesis using keeps_wake keeps_trans by metis
qed

lemma keeps_orphan_check: "keeps k (orphan_check grp k)"
  using keeps_trans [OF keeps_kill_pg keeps_kill_pg, of k grp 18 True grp 1 True] by (simp add: orphan_check_def)

lemma keeps_adopted_check: "keeps k (adopted_check p k)"
proof -
  let ?k = "if state (tasks k p) = TASK_ZOMBIE then notify_parent p k else k"
  have 1: "keeps k ?k" by (simp add: keeps_notify_parent)
  have 2: "keeps ?k (if pgrp (tasks ?k p) \<noteq> pgrp (cur ?k) \<and> session (tasks ?k p) = session (cur ?k)
      then orphan_check (pgrp (tasks ?k p)) ?k else ?k)"
    by (simp only: keeps_orphan_check keeps_refl split: if_split) simp
  show ?thesis using keeps_trans [OF 1 2] by (simp only: adopted_check_def Let_def)
qed

lemma keeps_fold:
  assumes "\<And>p k. keeps k (f p k)"
  shows "keeps k (fold f ps k)"
proof (induction ps arbitrary: k)
  case (Cons p ps)
  then show ?case using assms [of k p] keeps_trans by simp
qed simp

lemma keeps_forget: "keeps k (forget_original_parent c k)"
  unfolding forget_original_parent_def by (rule keeps_fold) (simp add: keeps_upd)

lemma keeps_leader_exit: "keeps k (fst (leader_exit ttyp k))"
proof -
  let ?k = "case (if tty (cur k) \<ge> 0 then ttyp else None) of
      Some (grp, sess) \<Rightarrow> if grp > 0 then snd (kill_pg grp 1 True k) else k | None \<Rightarrow> k"
  have 1: "keeps k ?k" by (simp add: keeps_kill_pg split: option.splits)
  have 2: "keeps ?k (fold (\<lambda>p k. if session (tasks k p) = session (cur k) then upd_task p (\<lambda>t. t\<lparr>tty := - 1\<rparr>) k else k)
      (for_each_task ?k) ?k)"
    by (rule keeps_fold) (simp add: keeps_upd)
  show ?thesis using keeps_trans [OF 1 2] by (simp add: leader_exit_def Let_def)
qed

lemma proc_ok_keeps: "proc_ok k xs fam \<Longrightarrow> keeps k k' \<Longrightarrow> proc_ok k' xs fam"
proof -
  assume ok: "proc_ok k xs fam" and kp: "keeps k k'"
  have "proc_links (tasks k') xs fam = proc_links (tasks k) xs fam"
    using kp by (intro proc_links_cong) (auto simp: keeps_def same_links_def)
  moreover have "inj_on (\<lambda>p. pid (tasks k' p)) A = inj_on (\<lambda>p. pid (tasks k p)) A" for A
    using kp by (intro inj_on_cong) (auto simp: keeps_def same_links_def)
  ultimately show ?thesis using ok kp by (simp add: proc_ok_def keeps_def)
qed

section \<open>Orphans go to init\<close>

lemma adopt_fields:
  assumes "p_cptr (h r) = Some d" "p \<noteq> c" "p \<noteq> r" "c \<noteq> r" "d \<noteq> p"
  shows "\<exists>h'. adopt c r p h = Some h' \<and>
    (\<forall>x. p_cptr (h' x) = (if x = r then Some p else if x = c then p_osptr (h p) else p_cptr (h x)) \<and>
      p_ysptr (h' x) = (if x = d then Some p else if x = p then None else p_ysptr (h x)) \<and>
      p_osptr (h' x) = (if x = p then Some d else p_osptr (h x)) \<and>
      p_pptr (h' x) = (if x = p then r else p_pptr (h x)) \<and>
      next_task (h' x) = next_task (h x) \<and> prev_task (h' x) = prev_task (h x) \<and> pid (h' x) = pid (h x) \<and>
      state (h' x) = state (h x))"
  using assms by (simp add: adopt_def Let_def hupd_apply)

lemma children_adopt:
  assumes "children h r (d # ds)" "p \<notin> set (d # ds)"
    "\<And>x. p_cptr (h' x) = (if x = r then Some p else if x = c then p_osptr (h p) else p_cptr (h x))"
    "\<And>x. p_ysptr (h' x) = (if x = d then Some p else if x = p then None else p_ysptr (h x))"
    "\<And>x. p_osptr (h' x) = (if x = p then Some d else p_osptr (h x))"
    "\<And>x. p_pptr (h' x) = (if x = p then r else p_pptr (h x))"
  shows "children h' r (p # d # ds)"
proof -
  have o: "distinct (d # ds)" "sibs h None (d # ds) None" "\<forall>x\<in>set (d # ds). p_pptr (h x) = r"
    using assms(1) by (auto simp: children_def)
  have "sibs h' (Some d) ds None = sibs h (Some d) ds None"
    using o(1) assms(2) by (intro sibs_cong) (auto simp: assms(4,5))
  then have "sibs h' None (p # d # ds) None"
    using o assms(2) by (auto simp: assms(4,5))
  then show ?thesis using o assms(2) by (auto simp: children_def assms(3,6))
qed

text \<open>The loop's invariant and result. \<open>c\<close> is the exiting task with the children \<open>cs\<close> still to go, \<open>r\<close>
  the task that inherits them.\<close>

definition reparented :: "tptr \<Rightarrow> tptr \<Rightarrow> tptr list \<Rightarrow> tptr list \<Rightarrow> kernel \<Rightarrow> kernel \<Rightarrow> bool" where
  "reparented c r cs ds k k' \<longleftrightarrow>
     current k' = c \<and> task k' = task k \<and> last_pid k' = last_pid k \<and>
     p_cptr (tasks k' c) = None \<and> children (tasks k') r (rev cs @ ds) \<and>
     (\<forall>x. next_task (tasks k' x) = next_task (tasks k x) \<and> prev_task (tasks k' x) = prev_task (tasks k x) \<and>
       pid (tasks k' x) = pid (tasks k x) \<and> (state (tasks k x) = TASK_ZOMBIE \<longrightarrow> state (tasks k' x) = TASK_ZOMBIE) \<and>
       p_pptr (tasks k' x) = (if x \<in> set cs then r else p_pptr (tasks k x)) \<and>
       (x \<noteq> c \<and> x \<noteq> r \<longrightarrow> p_cptr (tasks k' x) = p_cptr (tasks k x)) \<and>
       (x \<notin> set cs \<union> set ds \<longrightarrow> p_ysptr (tasks k' x) = p_ysptr (tasks k x) \<and> p_osptr (tasks k' x) = p_osptr (tasks k x)))"

lemma reparent_loop_spec:
  assumes "p_cptr (tasks k c) = hd_opt cs" "sibs (tasks k) y cs None" "distinct cs"
    "children (tasks k) r ds" "ds \<noteq> []" "set cs \<inter> set ds = {}" "c \<notin> set cs" "r \<notin> set cs" "c \<noteq> r"
    "current k = c" "reaper k = r" "length cs < n"
  shows "\<exists>k'. reparent_loop n k = Some k' \<and> reparented c r cs ds k k'"
  using assms
proof (induction cs arbitrary: k y ds n)
  case Nil
  then obtain m where "n = Suc m" by (cases n) auto
  then show ?case using Nil by (simp add: reparented_def)
next
  case (Cons p cs)
  obtain m where m: "n = Suc m" using Cons.prems by (cases n) auto
  obtain d ds' where ds: "ds = d # ds'" using Cons.prems(5) by (cases ds) auto
  have rc: "p_cptr (tasks k r) = Some d" using Cons.prems(4) ds by (simp add: children_def)
  have ne: "p \<noteq> c" "p \<noteq> r" "d \<noteq> p" using Cons.prems(6-8) ds by auto
  obtain h where h: "adopt c r p (tasks k) = Some h" and
    F: "\<And>x. p_cptr (h x) = (if x = r then Some p else if x = c then p_osptr (tasks k p) else p_cptr (tasks k x))"
      "\<And>x. p_ysptr (h x) = (if x = d then Some p else if x = p then None else p_ysptr (tasks k x))"
      "\<And>x. p_osptr (h x) = (if x = p then Some d else p_osptr (tasks k x))"
      "\<And>x. p_pptr (h x) = (if x = p then r else p_pptr (tasks k x))"
      "\<And>x. next_task (h x) = next_task (tasks k x)" "\<And>x. prev_task (h x) = prev_task (tasks k x)"
      "\<And>x. pid (h x) = pid (tasks k x)" "\<And>x. state (h x) = state (tasks k x)"
    using adopt_fields [of "tasks k" r d p c] rc ne Cons.prems(9) by auto
  define k2 where "k2 = adopted_check p (k\<lparr>tasks := h\<rparr>)"
  have kp: "keeps (k\<lparr>tasks := h\<rparr>) k2" unfolding k2_def by (rule keeps_adopted_check)
  then have K: "task k2 = task k" "current k2 = current k" "last_pid k2 = last_pid k"
    "\<And>x. next_task (tasks k2 x) = next_task (h x)" "\<And>x. prev_task (tasks k2 x) = prev_task (h x)"
    "\<And>x. p_pptr (tasks k2 x) = p_pptr (h x)" "\<And>x. p_cptr (tasks k2 x) = p_cptr (h x)"
    "\<And>x. p_ysptr (tasks k2 x) = p_ysptr (h x)" "\<And>x. p_osptr (tasks k2 x) = p_osptr (h x)"
    "\<And>x. pid (tasks k2 x) = pid (h x)" "\<And>x. state (h x) = TASK_ZOMBIE \<Longrightarrow> state (tasks k2 x) = TASK_ZOMBIE"
    by (auto simp: keeps_def same_links_def)
  have step: "reparent_loop n k = reparent_loop m k2"
    using Cons.prems(1,10,11) h by (simp add: m k2_def)
  have i1: "p_cptr (tasks k2 c) = hd_opt cs"
    using Cons.prems(2,9) by (cases cs) (auto simp: K F)
  have s2: "sibs (tasks k) (Some p) cs None" "p \<notin> set cs" "d \<notin> set cs"
    using Cons.prems(2,3,6) ds by auto
  then have i2: "sibs (tasks k2) (Some p) cs None"
    by (subst sibs_cong [where h = "tasks k"]) (auto simp: K F)
  have i3: "children (tasks k2) r (p # ds)"
    using children_adopt [of "tasks k" r d ds' p "tasks k2" c] Cons.prems(4,6) by (simp add: ds K F)
  have i4: "reaper k2 = r" using Cons.prems(11) K(1) by (simp add: reaper_def)
  have i5: "distinct cs" "p # ds \<noteq> []" "set cs \<inter> set (p # ds) = {}" "c \<notin> set cs" "r \<notin> set cs" "current k2 = c" "length cs < m"
    using Cons.prems K(2) m by auto
  obtain k' where k': "reparent_loop m k2 = Some k'" "reparented c r cs (p # ds) k2 k'"
    using Cons.IH [OF i1 i2 i5(1) i3 i5(2-5) Cons.prems(9) i5(6) i4 i5(7)] by blast
  have "reparented c r (p # cs) ds k k'"
    using k'(2) K F ds unfolding reparented_def by simp
  then show ?case using step k'(1) by simp
qed

lemma proc_links_reparented:
  assumes l: "proc_links (tasks k) xs fam" and R: "reparented c r (fam c) (fam r) k k'"
    and cr: "c \<noteq> r"
  shows "proc_links (tasks k') xs (fam(c := [], r := rev (fam c) @ fam r))"
proof -
  let ?f = "fam(c := [], r := rev (fam c) @ fam r)"
  have old: "ring (tasks k) xs" "\<And>q. children (tasks k) q (fam q)" "\<And>q. set (fam q) = {x \<in> set xs. p_pptr (tasks k x) = q}"
    using l by (auto simp: proc_links_def)
  have F: "\<And>x. next_task (tasks k' x) = next_task (tasks k x)" "\<And>x. prev_task (tasks k' x) = prev_task (tasks k x)"
    "\<And>x. p_pptr (tasks k' x) = (if x \<in> set (fam c) then r else p_pptr (tasks k x))"
    "\<And>x. x \<noteq> c \<Longrightarrow> x \<noteq> r \<Longrightarrow> p_cptr (tasks k' x) = p_cptr (tasks k x)"
    "\<And>x. x \<notin> set (fam c) \<Longrightarrow> x \<notin> set (fam r) \<Longrightarrow> p_ysptr (tasks k' x) = p_ysptr (tasks k x)"
    "\<And>x. x \<notin> set (fam c) \<Longrightarrow> x \<notin> set (fam r) \<Longrightarrow> p_osptr (tasks k' x) = p_osptr (tasks k x)"
    "p_cptr (tasks k' c) = None" "children (tasks k') r (rev (fam c) @ fam r)"
    using R by (auto simp: reparented_def)
  have "ring (tasks k') xs" using old(1) F(1,2) by (subst ring_cong [where h = "tasks k"]) auto
  moreover have "children (tasks k') q (?f q)" for q
  proof -
    consider "q = r" | "q = c" "q \<noteq> r" | "q \<noteq> c" "q \<noteq> r" by blast
    then show ?thesis
    proof cases
      case 1
      then show ?thesis using F(8) by simp
    next
      case 2
      then show ?thesis using F(7) by (simp add: children_def)
    next
      case 3
      then have dj: "x \<notin> set (fam c)" "x \<notin> set (fam r)" if "x \<in> set (fam q)" for x using that old(3) by auto
      then have "sibs (tasks k') None (fam q) None = sibs (tasks k) None (fam q) None"
        by (intro sibs_cong) (simp add: F(5,6))
      then show ?thesis using 3 old(2) [of q] dj by (auto simp: children_def F(3,4))
    qed
  qed
  moreover have "set (?f q) = {x \<in> set xs. p_pptr (tasks k' x) = q}" for q
    using old(3) cr by (auto simp: F(3))
  ultimately show ?thesis by (simp add: proc_links_def)
qed

lemma keeps_exit_zombie:
  assumes "k0 = set_cur (\<lambda>t. t\<lparr>state := TASK_ZOMBIE, exit_code := code, rss := 0\<rparr>) k"
  shows "keeps k0 (exit_zombie code k)"
proof -
  let ?k1 = "if pgrp (tasks k0 (p_pptr (cur k0))) \<noteq> pgrp (cur k0) \<and> session (tasks k0 (p_pptr (cur k0))) = session (cur k0)
      then orphan_check (pgrp (cur k0)) k0 else k0"
  have 1: "keeps k0 ?k1" by (simp add: keeps_orphan_check)
  have "exit_zombie code k = notify_parent (current ?k1) ?k1"
    unfolding exit_zombie_def Let_def assms by (rule refl)
  then show ?thesis using keeps_trans [OF 1 keeps_notify_parent] by metis
qed

lemma schedule_keeps_links:
  assumes "ring (tasks k) xs" "length xs \<le> NR_TASKS"
  shows "same_links (tasks k) (tasks (schedule k))" "task (schedule k) = task k" "last_pid (schedule k) = last_pid k"
    and "current (schedule k) = init_task \<or> runnable k (current (schedule k))"
proof -
  show "same_links (tasks k) (tasks (schedule k))"
    by (auto simp: same_links_def schedule_eq(2) [OF assms] recount_def checked_def)
  have c: "task (fold sched_check ps k) = task k" "last_pid (fold sched_check ps k) = last_pid k" for ps k
    by (induction ps arbitrary: k) (simp_all add: sched_check_def)
  have r: "task (fold sched_recount ps k) = task k" "last_pid (fold sched_recount ps k) = last_pid k" for ps k
    by (induction ps arbitrary: k) (simp_all add: sched_recount_def)
  show "task (schedule k) = task k" "last_pid (schedule k) = last_pid k"
    by (simp_all add: schedule_def Let_def c r split: prod.split)
  let ?h = "\<lambda>p. if p \<in> set xs then checked (jiffies k) (tasks k p) else tasks k p"
  obtain c n where p: "sched_pick ?h xs (- 1) init_task = (c, n)" by fastforce
  show "current (schedule k) = init_task \<or> runnable k (current (schedule k))"
    using sched_pick_spec [OF p] schedule_eq(1) [OF assms] p by (auto simp: runnable_def checked_state)
qed



lemma adopt_self: "adopt c c p h = None \<or> (\<exists>h'. adopt c c p h = Some h' \<and> p_cptr (h' c) = Some p)"
  by (auto simp: adopt_def Let_def hupd_apply split: option.splits)

text \<open>C40. The one process that must not exit: if init itself exits while it has a child, the loop that
  hands the children over to init never ends (or follows a NULL pointer), whatever the fuel.\<close>

theorem init_exit_never_returns:
  assumes "task k ! 1 = Some (current k)" and "p_cptr (cur k) \<noteq> None"
  shows "reparent_loop fuel k = None"
  using assms
proof (induction fuel arbitrary: k)
  case (Suc n)
  then obtain p where p: "p_cptr (cur k) = Some p" by auto
  have r: "reaper k = current k" using Suc.prems(1) by (simp add: reaper_def)
  show ?case
  proof (cases "adopt (current k) (current k) p (tasks k)")
    case (Some h)
    then have h: "p_cptr (h (current k)) = Some p" using adopt_self [of "current k" p "tasks k"] by auto
    have "keeps (k\<lparr>tasks := h\<rparr>) (adopted_check p (k\<lparr>tasks := h\<rparr>))" by (rule keeps_adopted_check)
    then have "reparent_loop n (adopted_check p (k\<lparr>tasks := h\<rparr>)) = None"
      using h Suc.prems(1) by (intro Suc.IH) (auto simp: keeps_def same_links_def)
    then show ?thesis using p r Some by simp
  qed (simp add: p r)
qed simp

theorem init_exit_never_returns_witness:
  "reparent_loop 1000 (demo_kernel\<lparr>current := 1\<rparr>) = None"
  using init_exit_never_returns [of "demo_kernel\<lparr>current := 1\<rparr>" 1000]
  by (simp add: demo_kernel_def demo_heap_def demo_task_def)

section \<open>Reaping\<close>

text \<open>SIGCONT and SIGKILL wipe the exit status of a zombie: \<open>send_sig\<close> clears \<open>exit_code\<close> whatever the
  state of the task, so a status not yet collected by the parent is lost and reads as a normal exit.\<close>

theorem signal_erases_exit_status:
  assumes "state (tasks k p) = TASK_ZOMBIE" and "sig = SIGCONT \<or> sig = SIGKILL" and "priv \<or> may_signal k sig p"
  shows "fst (send_sig sig (Some p) priv k) = 0 \<and>
    state (tasks (snd (send_sig sig (Some p) priv k)) p) = TASK_ZOMBIE \<and>
    exit_code (tasks (snd (send_sig sig (Some p) priv k)) p) = 0"
proof -
  have "\<not> sig > 32" "sig \<noteq> 0" using assms(2) by auto
  then show ?thesis using assms
    by (auto simp: send_sig_eq deliver_zombie) (auto simp: deliver_def Let_def discard_cont_def resume_stopped_def)
qed

theorem signal_erases_exit_status_witness:
  "exit_code (tasks (snd (send_sig SIGCONT (Some 3) False (upd_task 3 (\<lambda>t. t\<lparr>state := TASK_ZOMBIE, exit_code := 256\<rparr>) demo_kernel))) 3) = 0"
  using signal_erases_exit_status [of "upd_task 3 (\<lambda>t. t\<lparr>state := TASK_ZOMBIE, exit_code := 256\<rparr>) demo_kernel" 3 SIGCONT False]
  by (simp add: may_signal_def demo_kernel_def demo_heap_def demo_task_def)

lemma proc_ok_children_walk:
  assumes "proc_ok k xs fam"
  shows "walk_sibs NR_TASKS (tasks k) (p_cptr (tasks k q)) = fam q"
proof -
  have c: "children (tasks k) q (fam q)" "set (fam q) \<subseteq> set xs" "distinct xs"
    using assms by (auto simp: proc_ok_def proc_links_def ring_def)
  have "length (fam q) = card (set (fam q))" using c(1) by (simp add: children_def distinct_card)
  also have "\<dots> \<le> card (set xs)" using c(2) by (intro card_mono) auto
  finally have "length (fam q) \<le> 64" using proc_ok_length [OF assms] distinct_card [OF c(3)] by linarith
  then show ?thesis using c(1) walk_sibs_eq [of "tasks k" None "fam q" 64] by (simp add: children_def)
qed

lemma release_spec:
  assumes ok: "proc_ok k xs fam" and p: "p \<in> set xs" "p \<noteq> current k"
  shows "\<exists>k'. release p k = Some k' \<and> umem k' = umem k \<and> current k' = current k \<and>
    (\<forall>q. wait_chldexit (tasks k' q) = wait_chldexit (tasks k q)) \<and>
    proc_ok k' (remove1 p xs) (fam(p_pptr (tasks k p) := remove1 p (fam (p_pptr (tasks k p)))))"
proof -
  have len: "length (task k) = 64" "Some p \<in> set (tl (task k))" using ok p(1) by (auto simp: proc_ok_def)
  then obtain j where j: "j < 63" "tl (task k) ! j = Some p" by (auto simp: in_set_conv_nth)
  then have "task k ! Suc j = Some p" using len by (simp add: nth_tl)
  then obtain i where i: "find (\<lambda>i. task k ! i = Some p) [1..<64] = Some i"
    using j(1) by (cases "find (\<lambda>i. task k ! i = Some p) [1..<64]") (auto simp: find_None_iff)
  then have ii: "0 < i" "i < 64" "task k ! i = Some p" by (auto simp: find_Some_iff nth_append split: if_splits)
  have w: "wait_chldexit (REMOVE_LINKS p h q) = wait_chldexit (h q)" for h q
    by (simp add: REMOVE_LINKS_def remove_ring_def remove_family_def Let_def hupd_field split: option.splits)
  show ?thesis using proc_ok_unlink [OF ok p(1) ii(2,1,3)] i p(2) by (simp add: release_def w)
qed

text \<open>What a call does to the caller's own structures before the child is looked at does not change the links.\<close>

lemma store_frames [simp]:
  "tasks (store_status a v k) = tasks k" "current (store_status a v k) = current k" "task (store_status a v k) = task k"
  "last_pid (store_status a v k) = last_pid k"
  "tasks (store_rusage ru p k) = tasks k" "current (store_rusage ru p k) = current k" "task (store_rusage ru p k) = task k"
  "last_pid (store_rusage ru p k) = last_pid k"
  by (simp_all add: store_status_def store_rusage_def getrusage_def Let_def)

lemma proc_ok_store [simp]:
  "proc_ok (store_status a v k) xs fam = proc_ok k xs fam" "proc_ok (store_rusage ru p k) xs fam = proc_ok k xs fam"
  by (simp_all add: proc_ok_def)

lemma proc_ok_add_times: "proc_ok k xs fam \<Longrightarrow> proc_ok (add_child_times p k) xs fam"
  unfolding add_child_times_def Let_def by (rule proc_ok_upd) simp_all

lemma add_times_fields [simp]:
  "current (add_child_times p k) = current k" "umem (add_child_times p k) = umem k"
  "p_opptr (tasks (add_child_times p k) q) = p_opptr (tasks k q)" "p_pptr (tasks (add_child_times p k) q) = p_pptr (tasks k q)"
  "exit_code (tasks (add_child_times p k) q) = exit_code (tasks k q)" "pid (tasks (add_child_times p k) q) = pid (tasks k q)"
  by (simp_all add: add_child_times_def Let_def)

lemma reap_returns:
  assumes "proc_ok k xs fam" "p \<in> set xs"
  shows "\<exists>k'. reap p k = Some k'"
proof (cases "p_opptr (tasks k p) = p_pptr (tasks k p) \<and> p \<noteq> current k")
  case True
  then show ?thesis using release_spec [OF assms] by (auto simp: reap_def)
qed (auto simp: reap_def release_def Let_def)

lemma wait_zombie_returns:
  assumes "proc_ok k xs fam" "p \<in> set xs"
  shows "\<exists>r k'. wait_zombie a ru p k = Some (r, k')"
proof -
  let ?k = "store_status a (to_u32 (exit_code (tasks (store_rusage ru p (add_child_times p k)) p)))
      (store_rusage ru p (add_child_times p k))"
  have "proc_ok ?k xs fam" using proc_ok_add_times [OF assms(1)] by simp
  then obtain k' where "reap p ?k = Some k'" using reap_returns assms(2) by blast
  then show ?thesis by (simp add: wait_zombie_def Let_def)
qed

lemma wait_pass_no_panic:
  assumes "proc_ok k xs fam" "set ps \<subseteq> set xs"
  shows "wait_pass pd a opts ru k ps flag \<noteq> WPanic"
  using assms(2)
proof (induction ps arbitrary: flag)
  case (Cons p ps)
  then have IH: "\<And>flag. wait_pass pd a opts ru k ps flag \<noteq> WPanic" and p: "p \<in> set xs" by auto
  obtain r k' where "wait_zombie a ru p k = Some (r, k')" using wait_zombie_returns [OF assms(1) p] by blast
  then show ?case using IH by (simp split: task_state.splits prod.splits)
qed simp

text \<open>With WNOHANG, \<open>wait4\<close> returns at once, without sleeping, whatever the children's states: one
  pass of the loop is enough and no reaping can run into the panic of \<open>release\<close>.\<close>

theorem wait4_nohang_returns:
  assumes "proc_ok k xs fam" and "opts AND WNOHANG \<noteq> 0"
  shows "\<exists>r k'. sys_wait4 1 env pd stat_addr opts ru k = Some (r, k')"
proof -
  let ?k = "set_cur (\<lambda>t. t\<lparr>wait_chldexit := (case wait_chldexit t of [] \<Rightarrow> [current k] | x # xs \<Rightarrow> x # current k # xs)\<rparr>) k"
  have ok: "proc_ok ?k xs fam" by (rule proc_ok_upd [OF assms(1)]) simp_all
  have sub: "set (fam (current k)) \<subseteq> set xs" using ok by (auto simp: proc_ok_def proc_links_def)
  have "wait_pass pd stat_addr opts ru ?k (fam (current k)) False \<noteq> WPanic"
    by (rule wait_pass_no_panic [OF ok sub])
  moreover have "walk_sibs NR_TASKS (tasks ?k) (p_cptr (cur ?k)) = fam (current k)"
    using proc_ok_children_walk [OF ok, of "current k"] by simp
  ultimately have "wait_loop 1 env pd stat_addr opts ru ?k \<noteq> None"
    using assms(2) by (simp split: wait_result.splits bool.splits)
  then show ?thesis by (auto simp: sys_wait4_def Let_def)
qed

theorem wait4_nohang_returns_witness:
  "\<exists>r k'. sys_wait4 1 (\<lambda>k. k) (- 1) 0 1 0 demo_kernel = Some (r, k')"
  using wait4_nohang_returns [OF demo_proc_ok, of 1 "\<lambda>k. k" "- 1" 0 0] by simp

lemma wait_pass_pid:
  assumes "p \<in> set ps" "state (tasks k p) = TASK_ZOMBIE" "pid (tasks k p) > 0" "exit_signal (tasks k p) = 17" "opts AND WCLONE = 0"
    "\<And>q. q \<in> set ps \<Longrightarrow> pid (tasks k q) = pid (tasks k p) \<Longrightarrow> q = p" "wait_zombie a ru p k = Some (r, k')"
  shows "wait_pass (pid (tasks k p)) a opts ru k ps flag = WDone r k'"
  using assms(1,6)
proof (induction ps arbitrary: flag)
  case (Cons q ps)
  show ?case
  proof (cases "q = p")
    case True
    then show ?thesis using assms(2-5,7) by (simp add: wait_selects_def)
  next
    case False
    then have "pid (tasks k q) \<noteq> pid (tasks k p)" using Cons.prems(2) [of q] by auto
    then have "\<not> wait_selects (pid (tasks k p)) opts k q" using assms(3) by (simp add: wait_selects_def)
    then show ?thesis using Cons False by auto
  qed
qed simp



end
