(* ===== verification/Sigdeliver.thy ===== *)
theory Sigdeliver
  imports Process
begin

text \<open>
  Delivering signals (\<^verbatim>\<open>kernel/signal.c\<close>: \<open>do_signal\<close>, \<open>setup_frame\<close>, \<open>sigreturn\<close>, \<open>sigsuspend\<close>). \<open>do_signal\<close>
  runs on the way back to user mode: it takes the pending signals one by one, lets the kernel act on
  those that have no handler, and builds one stack frame per handler. Writing a core file is an
  argument (\<open>core\<close>: whether \<open>core_dump\<close> wrote one), and so is what the rest of the system does while
  the process is stopped (\<open>env\<close>).

  The return path of a handler is machine code the kernel writes on the user's stack. The section on
  the trampoline gives the meaning of the handful of instructions it uses, so that the frame can be
  shown to restore the interrupted context.
\<close>

section \<open>Registers\<close>

record pt_regs =
  ebx :: u32
  ecx :: u32
  edx :: u32
  esi :: u32
  edi :: u32
  ebp :: u32
  eax :: u32
  ds :: u16
  es :: u16
  fs :: u16
  gs :: u16
  orig_eax :: u32
  eip :: u32
  cs :: u16
  eflags :: u32
  esp :: u32
  ss :: u16

section \<open>The signal frame\<close>

definition frame_words :: "u32 \<Rightarrow> u32 \<Rightarrow> pt_regs \<Rightarrow> u32 \<Rightarrow> u32 list" where
  "frame_words frame eip0 regs signr =
     [frame + 96, signr, ucast (gs regs), ucast (fs regs), ucast (es regs), ucast (ds regs),
      edi regs, esi regs, ebp regs, esp regs, ebx regs, edx regs, ecx regs, eax regs, 0, 0,
      eip regs, ucast (cs regs), eflags regs, esp regs, ucast (ss regs), 0, eflags regs, eip0]"

definition frame_code :: "u32 list" where
  "frame_code = [0x0000b858, 0x00bb0000, 0xcd000000, 0x0fa90f80, 0x611f07a1, 0x20c48390, 0x0020c29d]"

definition setup_frame :: "u32 \<Rightarrow> u32 \<Rightarrow> pt_regs \<Rightarrow> u32 \<Rightarrow> u32 \<Rightarrow> umem \<Rightarrow> u32 \<times> umem" where
  "setup_frame fp eip0 regs signr oldmask m =
     (let frame = fp - 128;
          m = put_longs (frame_words frame eip0 regs signr) frame m;
          m = put_longs frame_code (frame + 96) m;
          m = put_fs_long 69 (frame + 96 + 2) m;
          m = put_fs_long oldmask (frame + 96 + 7) m
      in (frame, m))"

section \<open>Taking the pending signals\<close>

definition bsf :: "u32 \<Rightarrow> nat" where
  "bsf w = (case find (\<lambda>i. bit w i) [0..<32] of Some i \<Rightarrow> i | None \<Rightarrow> 0)"

text \<open>The stop for a tracing parent: \<open>None\<close> is \<open>continue\<close>, otherwise the signal the tracer chose.\<close>

definition ptrace_stop :: "(kernel \<Rightarrow> kernel) \<Rightarrow> u32 \<Rightarrow> kernel \<Rightarrow> u32 option \<times> kernel" where
  "ptrace_stop env signr k =
     (let k = set_cur (\<lambda>t. t\<lparr>exit_code := uint signr, state := TASK_STOPPED\<rparr>) k;
          k = env (schedule (notify_parent (current k) k));
          signr = to_u32 (exit_code (cur k))
      in if signr = 0 then (None, k)
         else
           let k = set_cur (\<lambda>t. t\<lparr>exit_code := 0\<rparr>) k
           in if signr = SIGSTOP then (None, k)
              else if sigbit signr AND blocked (cur k) \<noteq> 0
              then (None, set_cur (\<lambda>t. t\<lparr>signal := signal t OR sigbit signr\<rparr>) k)
              else (Some signr, k))"

text \<open>\<open>while (sys_waitpid(-1,NULL,WNOHANG) > 0)\<close>\<close>

fun reap_all :: "nat \<Rightarrow> kernel \<Rightarrow> kernel option" where
  "reap_all 0 k = None"
| "reap_all (Suc n) k =
     (case sys_waitpid 1 (\<lambda>k. k) (- 1) 0 WNOHANG k of
        None \<Rightarrow> None
      | Some (r, k) \<Rightarrow> if r > 0 then reap_all n k else Some k)"

definition job_stop :: "(kernel \<Rightarrow> kernel) \<Rightarrow> u32 \<Rightarrow> kernel \<Rightarrow> kernel" where
  "job_stop env signr k =
     (let k = set_cur (\<lambda>t. t\<lparr>state := TASK_STOPPED, exit_code := uint signr\<rparr>) k;
          k = (if sa_flags (sa_of (tasks k (p_pptr (cur k))) SIGCHLD) AND SA_NOCLDSTOP = 0
               then notify_parent (current k) k else k)
      in env (schedule k))"

text \<open>What happens to one signal: the loop goes on, the process exits with a code, or a handler is to
  be called.\<close>

datatype sig_action = Continue kernel | Exit u32 kernel | Handle sigaction

definition default_action :: "(kernel \<Rightarrow> kernel) \<Rightarrow> (u32 \<Rightarrow> bool) \<Rightarrow> u32 \<Rightarrow> kernel \<Rightarrow> sig_action" where
  "default_action env core signr k =
     (if pid (cur k) = 1 then Continue k
      else if signr \<in> {SIGCONT, SIGCHLD, SIGWINCH} then Continue k
      else if signr \<in> {SIGSTOP, SIGTSTP, SIGTTIN, SIGTTOU} then Continue (job_stop env signr k)
      else
        let signr = (if signr \<in> {SIGQUIT, SIGILL, SIGTRAP, SIGIOT, SIGFPE, SIGSEGV} \<and> core signr
                     then signr OR 0x80 else signr)
        in Exit signr (set_cur (\<lambda>t. t\<lparr>signal := signal t OR sigbit (signr AND 0x7f)\<rparr>) k))"

definition signal_action :: "nat \<Rightarrow> (kernel \<Rightarrow> kernel) \<Rightarrow> (u32 \<Rightarrow> bool) \<Rightarrow> u32 \<Rightarrow> kernel \<Rightarrow> sig_action option" where
  "signal_action fuel env core signr k =
     (let sa = sa_of (cur k) signr
      in if sa_handler sa = SIG_IGN then
           (if signr \<noteq> SIGCHLD then Some (Continue k) else map_option Continue (reap_all fuel k))
         else if sa_handler sa = SIG_DFL then Some (default_action env core signr k)
         else Some (Handle sa))"

definition restart_eax :: "sigaction \<Rightarrow> pt_regs \<Rightarrow> pt_regs" where
  "restart_eax sa regs =
     (if sint (orig_eax regs) \<ge> 0 \<and>
         (eax regs = to_u32 (- ERESTARTNOHAND) \<or>
          eax regs = to_u32 (- ERESTARTSYS) \<and> sa_flags sa AND SA_RESTART = 0)
      then regs\<lparr>eax := to_u32 (- EINTR)\<rparr> else regs)"

datatype loop_result = LDone kernel pt_regs u32 | LExit u32 kernel

fun signal_loop :: "nat \<Rightarrow> (kernel \<Rightarrow> kernel) \<Rightarrow> (u32 \<Rightarrow> bool) \<Rightarrow> kernel \<Rightarrow> pt_regs \<Rightarrow> u32 \<Rightarrow> u32 \<Rightarrow> loop_result option" where
  "signal_loop 0 env core k regs msk hs = None"
| "signal_loop (Suc n) env core k regs msk hs =
     (if signal (cur k) AND msk = 0 then Some (LDone k regs hs)
      else
        let b = bsf (signal (cur k) AND msk);
            k = set_cur (\<lambda>t. t\<lparr>signal := signal t AND NOT (push_bit b 1)\<rparr>) k;
            signr = word_of_nat b + 1;
            (sg, k) = (if flags (cur k) AND PF_PTRACED \<noteq> 0 \<and> signr \<noteq> SIGKILL
                       then ptrace_stop env signr k else (Some signr, k))
        in case sg of
             None \<Rightarrow> signal_loop n env core k regs msk hs
           | Some signr \<Rightarrow>
               (case signal_action 65 env core signr k of
                  None \<Rightarrow> None
                | Some (Continue k) \<Rightarrow> signal_loop n env core k regs msk hs
                | Some (Exit code k) \<Rightarrow> Some (LExit code k)
                | Some (Handle sa) \<Rightarrow>
                    signal_loop n env core k (restart_eax sa regs) (msk AND NOT (sa_mask sa)) (hs OR sigbit signr)))"

section \<open>Building the frames\<close>

definition restart_call :: "pt_regs \<Rightarrow> pt_regs" where
  "restart_call regs =
     (if sint (orig_eax regs) \<ge> 0 \<and>
         (eax regs = to_u32 (- ERESTARTNOHAND) \<or> eax regs = to_u32 (- ERESTARTSYS) \<or> eax regs = to_u32 (- ERESTARTNOINTR))
      then regs\<lparr>eax := orig_eax regs, eip := eip regs - 2\<rparr> else regs)"

fun frame_loop :: "nat list \<Rightarrow> u32 \<Rightarrow> pt_regs \<Rightarrow> u32 \<Rightarrow> u32 \<Rightarrow> u32 \<Rightarrow> kernel \<Rightarrow> u32 \<times> u32 \<times> kernel" where
  "frame_loop [] hs regs oldmask fp ip k = (fp, ip, k)"
| "frame_loop (i # is) hs regs oldmask fp ip k =
     (if push_bit i 1 > hs then (fp, ip, k)
      else if push_bit i 1 AND hs = 0 then frame_loop is hs regs oldmask fp ip k
      else
        let sa = sigaction (cur k) ! i;
            k = (if sa_flags sa AND SA_ONESHOT \<noteq> 0
                 then set_cur (\<lambda>t. t\<lparr>sigaction := (sigaction t)[i := sa\<lparr>sa_handler := 0\<rparr>]\<rparr>) k else k);
            (fp, m) = setup_frame fp ip regs (word_of_nat i + 1) oldmask (umem k);
            k = set_cur (\<lambda>t. t\<lparr>blocked := blocked t OR sa_mask sa\<rparr>) (k\<lparr>umem := m\<rparr>)
        in frame_loop is hs regs (oldmask OR sa_mask sa) fp (sa_handler sa) k)"

datatype signal_result = Returned int kernel pt_regs | Exited u32 kernel

definition do_signal :: "nat \<Rightarrow> (kernel \<Rightarrow> kernel) \<Rightarrow> (u32 \<Rightarrow> bool) \<Rightarrow> u32 \<Rightarrow> pt_regs \<Rightarrow> kernel \<Rightarrow> signal_result option" where
  "do_signal fuel env core oldmask regs k =
     (case signal_loop fuel env core k regs (NOT (blocked (cur k))) 0 of
        None \<Rightarrow> None
      | Some (LExit code k) \<Rightarrow> Some (Exited code k)
      | Some (LDone k regs hs) \<Rightarrow>
          let regs = restart_call regs
          in if hs = 0 then Some (Returned 0 k regs)
             else
               let (fp, ip, k) = frame_loop [0..<32] hs regs oldmask (esp regs) (eip regs) k
               in Some (Returned 1 k (regs\<lparr>esp := fp, eip := ip\<rparr>)))"

section \<open>System calls\<close>

definition sys_sigreturn :: "u32 \<Rightarrow> u32 \<Rightarrow> u32 \<Rightarrow> pt_regs \<Rightarrow> kernel \<Rightarrow> int \<times> pt_regs \<times> kernel" where
  "sys_sigreturn oldmask ip sp regs k =
     (0, regs\<lparr>eip := ip, esp := sp\<rparr>, set_cur (\<lambda>t. t\<lparr>blocked := oldmask AND BLOCKABLE\<rparr>) k)"

fun sigsuspend_loop :: "nat \<Rightarrow> (kernel \<Rightarrow> kernel) \<Rightarrow> (u32 \<Rightarrow> bool) \<Rightarrow> u32 \<Rightarrow> pt_regs \<Rightarrow> kernel \<Rightarrow> signal_result option" where
  "sigsuspend_loop 0 env core msk regs k = None"
| "sigsuspend_loop (Suc n) env core msk regs k =
     (let k = env (schedule (set_cur (\<lambda>t. t\<lparr>state := TASK_INTERRUPTIBLE\<rparr>) k))
      in case do_signal (Suc n) env core msk regs k of
           None \<Rightarrow> None
         | Some (Exited code k) \<Rightarrow> Some (Exited code k)
         | Some (Returned r k regs) \<Rightarrow>
             if r \<noteq> 0 then Some (Returned (- EINTR) k regs) else sigsuspend_loop n env core msk regs k)"

definition sys_sigsuspend :: "nat \<Rightarrow> (kernel \<Rightarrow> kernel) \<Rightarrow> (u32 \<Rightarrow> bool) \<Rightarrow> u32 \<Rightarrow> pt_regs \<Rightarrow> kernel \<Rightarrow> signal_result option" where
  "sys_sigsuspend fuel env core st regs k =
     (let msk = blocked (cur k);
          k = set_cur (\<lambda>t. t\<lparr>blocked := st AND BLOCKABLE\<rparr>) k
      in sigsuspend_loop fuel env core msk (regs\<lparr>eax := to_u32 (- EINTR)\<rparr>) k)"

section \<open>The way back from a handler\<close>

text \<open>The instructions of the return code, as the processor executes them in user mode: \<open>popl\<close>, \<open>movl\<close> of an
  immediate, \<open>int $0x80\<close> with the system call \<open>ssetmask\<close>, \<open>popal\<close> (which skips the saved stack
  pointer), \<open>nop\<close>, \<open>addl\<close> of a byte to the stack pointer, \<open>popfl\<close> and \<open>ret\<close> with an operand.\<close>

definition pop :: "pt_regs \<Rightarrow> kernel \<Rightarrow> u32" where
  "pop r k = get_fs_long (umem k) (esp r)"

definition istep :: "pt_regs \<times> kernel \<Rightarrow> (pt_regs \<times> kernel) option" where
  "istep s =
     (case s of (r, k) \<Rightarrow>
        let m = umem k; ip = eip r; op = m ip; op2 = m (ip + 1)
        in if op = 0x58 then Some (r\<lparr>eax := pop r k, esp := esp r + 4, eip := ip + 1\<rparr>, k)
           else if op = 0xb8 then Some (r\<lparr>eax := get_fs_long m (ip + 1), eip := ip + 5\<rparr>, k)
           else if op = 0xbb then Some (r\<lparr>ebx := get_fs_long m (ip + 1), eip := ip + 5\<rparr>, k)
           else if op = 0xcd \<and> op2 = 0x80 \<and> eax r = 69 then
             (case sys_ssetmask (sint (ebx r)) k of (v, k) \<Rightarrow> Some (r\<lparr>eax := to_u32 v, eip := ip + 2\<rparr>, k))
           else if op = 0x0f \<and> op2 = 0xa9 then Some (r\<lparr>gs := ucast (pop r k), esp := esp r + 4, eip := ip + 2\<rparr>, k)
           else if op = 0x0f \<and> op2 = 0xa1 then Some (r\<lparr>fs := ucast (pop r k), esp := esp r + 4, eip := ip + 2\<rparr>, k)
           else if op = 0x07 then Some (r\<lparr>es := ucast (pop r k), esp := esp r + 4, eip := ip + 1\<rparr>, k)
           else if op = 0x1f then Some (r\<lparr>ds := ucast (pop r k), esp := esp r + 4, eip := ip + 1\<rparr>, k)
           else if op = 0x61 then
             Some (r\<lparr>edi := get_fs_long m (esp r), esi := get_fs_long m (esp r + 4), ebp := get_fs_long m (esp r + 8),
                     ebx := get_fs_long m (esp r + 16), edx := get_fs_long m (esp r + 20),
                     ecx := get_fs_long m (esp r + 24), eax := get_fs_long m (esp r + 28),
                     esp := esp r + 32, eip := ip + 1\<rparr>, k)
           else if op = 0x90 then Some (r\<lparr>eip := ip + 1\<rparr>, k)
           else if op = 0x83 \<and> op2 = 0xc4 then Some (r\<lparr>esp := esp r + scast (m (ip + 2)), eip := ip + 3\<rparr>, k)
           else if op = 0x9d then Some (r\<lparr>eflags := pop r k, esp := esp r + 4, eip := ip + 1\<rparr>, k)
           else if op = 0xc2 then
             Some (r\<lparr>eip := pop r k, esp := esp r + 4 + ucast (get_fs_word m (ip + 1))\<rparr>, k)
           else None)"

fun irun :: "nat \<Rightarrow> pt_regs \<times> kernel \<Rightarrow> (pt_regs \<times> kernel) option" where
  "irun 0 s = Some s"
| "irun (Suc n) s = (case istep s of None \<Rightarrow> None | Some s \<Rightarrow> irun n s)"

text \<open>The bytes and words of a frame, wherever it is.\<close>

definition frame_mem :: "u32 \<Rightarrow> u32 \<Rightarrow> pt_regs \<Rightarrow> u32 \<Rightarrow> u32 \<Rightarrow> umem \<Rightarrow> umem" where
  "frame_mem f ip regs signr old m =
     put_fs_long old (f + 96 + 7) (put_fs_long 69 (f + 96 + 2)
       (put_longs frame_code (f + 96) (put_longs (frame_words f ip regs signr) f m)))"

lemma setup_frame_eq: "setup_frame fp ip regs signr old m = (fp - 128, frame_mem (fp - 128) ip regs signr old m)"
  by (simp add: setup_frame_def frame_mem_def Let_def)

text \<open>Offsets from the frame make the addresses comparable.\<close>

lemma frame_code_bytes:
  "map (\<lambda>i. frame_mem f ip regs signr old m (f + i))
     [96, 97, 102, 107, 108, 109, 110, 111, 112, 113, 114, 115, 116, 117, 118, 119, 120, 121, 122, 123] =
   [0x58, 0xb8, 0xbb, 0xcd, 0x80, 0x0f, 0xa9, 0x0f, 0xa1, 0x07, 0x1f, 0x61, 0x90, 0x83, 0xc4, 0x20, 0x9d, 0xc2, 0x20, 0x00]"
  unfolding frame_mem_def frame_code_def by (simp add: put_fs_long_def add.assoc)

lemma frame_code_imm:
  "get_fs_long (frame_mem f ip regs signr old m) (f + 98) = 69"
  "get_fs_long (frame_mem f ip regs signr old m) (f + 103) = old"
  unfolding frame_mem_def by (simp_all add: get_put_fs_long_off add.assoc)

lemma frame_stack:
  "map (\<lambda>i. get_fs_long (frame_mem f ip regs signr old m) (f + i))
     [0, 4, 8, 12, 16, 20, 24, 28, 32, 40, 44, 48, 52, 88, 92] =
   [f + 96, signr, ucast (gs regs), ucast (fs regs), ucast (es regs), ucast (ds regs), edi regs, esi regs, ebp regs,
    ebx regs, edx regs, ecx regs, eax regs, eflags regs, ip]"
  unfolding frame_mem_def frame_code_def frame_words_def by (simp add: get_put_fs_long_off add.assoc)

lemmas frame_bytes = frame_code_bytes [simplified]
lemmas frame_longs = frame_stack [simplified]

lemma frame_ret_imm: "get_fs_word (frame_mem f ip regs signr old m) (f + 122) = 0x20"
  using frame_bytes [of f ip regs signr old m] by (simp add: get_fs_word_def add.assoc)

lemma irun_numeral: "irun (numeral n) s = (case istep s of None \<Rightarrow> None | Some t \<Rightarrow> irun (pred_numeral n) t)"
  by (simp add: numeral_eq_Suc)

lemma ucast_u16_back: "ucast (ucast (x :: u16) :: u32) = x"
  by (rule bit_word_eqI) (simp add: bit_simps)

text \<open>The code runs in two halves: up to the system call, and from there to the final \<open>ret\<close>.\<close>

lemma irun_mask:
  fixes f :: u32
  assumes "umem k = frame_mem f ip regs signr old m" "eip r = f + 96" "esp r = f + 4"
  shows "irun 4 (r, k) =
    Some (r\<lparr>ebx := old, eax := blocked (cur k), esp := f + 8, eip := f + 109\<rparr>, snd (sys_ssetmask (sint old) k))"
  using assms frame_bytes [of f ip regs signr old m] frame_code_imm [of f ip regs signr old m]
  by (simp add: irun_numeral istep_def pop_def add.assoc sys_ssetmask_def Let_def)

lemma irun_restore:
  fixes f :: u32
  assumes "umem k = frame_mem f ip regs signr old m" "eip r = f + 109" "esp r = f + 8"
  shows "irun 9 (r, k) =
    Some (r\<lparr>gs := gs regs, fs := fs regs, es := es regs, ds := ds regs, edi := edi regs, esi := esi regs, ebp := ebp regs,
      ebx := ebx regs, edx := edx regs, ecx := ecx regs, eax := eax regs, eflags := eflags regs, eip := ip, esp := f + 128\<rparr>, k)"
  using assms frame_bytes [of f ip regs signr old m] frame_longs [of f ip regs signr old m] frame_ret_imm [of f ip regs signr old m]
  by (simp add: irun_numeral istep_def pop_def add.assoc ucast_u16_back Let_def)

lemma irun_add: "irun (m + n) s = (case irun m s of None \<Rightarrow> None | Some t \<Rightarrow> irun n t)"
  by (induction m arbitrary: s) (simp_all split: option.splits)

text \<open>C8. The signal frame restores the interrupted context. When a handler that has left its frame
  intact returns, the code the kernel put on the user's stack runs 13 instructions, after which the
  blocked mask is the one saved (never with SIGKILL or SIGSTOP in it), every general and segment register,
  the flags, the stack pointer and the instruction pointer are those the frame was built for, and
  nothing else of the kernel state has changed.\<close>

theorem signal_frame_roundtrip:
  assumes "setup_frame fp ip regs signr old m = (f, m')"
    and "umem k = m'" and "eip r = get_fs_long m' f" and "esp r = f + 4"
  shows "irun 13 (r, k) =
    Some (r\<lparr>gs := gs regs, fs := fs regs, es := es regs, ds := ds regs, edi := edi regs, esi := esi regs, ebp := ebp regs,
      ebx := ebx regs, edx := edx regs, ecx := ecx regs, eax := eax regs, eflags := eflags regs, eip := ip, esp := fp\<rparr>,
      set_cur (\<lambda>t. t\<lparr>blocked := old AND BLOCKABLE\<rparr>) k)"
proof -
  have f: "f = fp - 128" "m' = frame_mem f ip regs signr old m" using assms(1) by (auto simp: setup_frame_eq)
  have e: "eip r = f + 96" using assms(3) frame_longs [of f ip regs signr old m] f(2) by simp
  let ?k = "snd (sys_ssetmask (sint old) k)"
  let ?r = "r\<lparr>ebx := old, eax := blocked (cur k), esp := f + 8, eip := f + 109\<rparr>"
  have 1: "irun 4 (r, k) = Some (?r, ?k)"
    using irun_mask [of k f ip regs signr old m r] assms(2,4) e f(2) by simp
  have u: "umem ?k = frame_mem f ip regs signr old m" using assms(2) f(2) by (simp add: sys_ssetmask_def)
  have 2: "irun 13 (r, k) = irun 9 (?r, ?k)" using irun_add [of 4 9 "(r, k)"] 1 by simp
  have k: "?k = set_cur (\<lambda>t. t\<lparr>blocked := old AND BLOCKABLE\<rparr>) k" by (simp add: sys_ssetmask_def)
  show ?thesis unfolding 2 using irun_restore [OF u, of ?r] f(1) by (simp add: k)
qed

definition demo_regs :: pt_regs where
  "demo_regs =
     \<lparr>ebx = 1, ecx = 2, edx = 3, esi = 4, edi = 5, ebp = 6, eax = 7, ds = 0x2b, es = 0x2b, fs = 0x2b, gs = 0x2b,
      orig_eax = 7, eip = 0x1000, cs = 0x23, eflags = 0x202, esp = 0xbffff000, ss = 0x2b\<rparr>"

theorem signal_frame_roundtrip_witness:
  "\<exists>f m'. setup_frame 0xbffff000 0x1000 demo_regs 2 0 (\<lambda>_. 0) = (f, m') \<and>
     map_option (\<lambda>(r, k). (eax r, esp r, eip r)) (irun 13 (demo_regs\<lparr>eip := f + 96, esp := f + 4\<rparr>, demo_kernel\<lparr>umem := m'\<rparr>)) =
       Some (7, 0xbffff000, 0x1000)"
proof -
  obtain f m' where s: "setup_frame 0xbffff000 0x1000 demo_regs 2 0 (\<lambda>_. 0) = (f, m')" by fastforce
  have e: "get_fs_long m' f = f + 96"
    using s frame_longs(1) [of f "0x1000" demo_regs 2 0 "\<lambda>_. 0"] by (auto simp: setup_frame_eq)
  have "irun 13 (demo_regs\<lparr>eip := f + 96, esp := f + 4\<rparr>, demo_kernel\<lparr>umem := m'\<rparr>) \<noteq> None"
    "map_option (\<lambda>(r, k). (eax r, esp r, eip r)) (irun 13 (demo_regs\<lparr>eip := f + 96, esp := f + 4\<rparr>, demo_kernel\<lparr>umem := m'\<rparr>)) =
       Some (7, 0xbffff000, 0x1000)"
    using signal_frame_roundtrip [OF s, of "demo_kernel\<lparr>umem := m'\<rparr>" "demo_regs\<lparr>eip := f + 96, esp := f + 4\<rparr>"] e
    by (simp_all add: demo_regs_def)
  with s show ?thesis by blast
qed

section \<open>SIGKILL and SIGSTOP cannot be kept out\<close>

text \<open>Everything that writes the blocked mask or the table of actions of the running process, and the
  sending of signals to it.\<close>

inductive sig_trans :: "kernel \<Rightarrow> kernel \<Rightarrow> bool" where
  setmask: "sig_trans k (snd (sys_ssetmask m k))"
| signal_call: "sig_trans k (snd (sys_signal s h k))"
| sigaction_call: "sig_trans k (snd (sys_sigaction s act old k))"
| sigreturn_call: "sig_trans k (snd (snd (sys_sigreturn old ip sp regs k)))"
| suspend: "sig_trans k (set_cur (\<lambda>t. t\<lparr>blocked := st AND BLOCKABLE\<rparr>) k)"
| frames: "frame_loop [0..<32] hs regs old fp ip k = (fp', ip', k') \<Longrightarrow> sig_trans k k'"
| send: "sig_trans k (snd (send_sig sig p priv k))"

lemma sig_ok_blocked: "sig_ok t \<Longrightarrow> sig_ok (t\<lparr>blocked := b AND BLOCKABLE\<rparr>)"
  by (simp add: sig_ok_def sa_of_def)

lemma sig_ok_frame_step:
  assumes "sig_ok t" "i < 32" "sa = sigaction t ! i"
  shows "sig_ok (t\<lparr>sigaction := (sigaction t)[i := sa\<lparr>sa_handler := 0\<rparr>]\<rparr>)"
    and "sig_ok (t\<lparr>blocked := blocked t OR sa_mask sa\<rparr>)"
proof -
  have m: "sa_mask sa AND NOT BLOCKABLE = 0" using assms by (auto simp: sig_ok_def)
  show "sig_ok (t\<lparr>sigaction := (sigaction t)[i := sa\<lparr>sa_handler := 0\<rparr>]\<rparr>)"
    using assms m by (auto simp: sig_ok_def sa_of_def nth_list_update dest!: subsetD [OF set_update_subset_insert])
  show "sig_ok (t\<lparr>blocked := blocked t OR sa_mask sa\<rparr>)"
    using assms m and_or_zero by (auto simp: sig_ok_def sa_of_def)
qed

lemma frame_loop_sig_ok:
  "frame_loop is hs regs old fp ip k = (fp', ip', k') \<Longrightarrow> sig_ok (cur k) \<Longrightarrow> \<forall>i\<in>set is. i < 32 \<Longrightarrow>
     current k' = current k \<and> sig_ok (tasks k' (current k))"
proof (induction "is" arbitrary: k old fp ip)
  case (Cons i "is")
  show ?case
  proof (cases "push_bit i 1 > hs \<or> push_bit i 1 AND hs = 0")
    case True
    then show ?thesis using Cons by (auto split: if_splits)
  next
    case False
    define sa where "sa = sigaction (cur k) ! i"
    define k1 where "k1 = (if sa_flags sa AND SA_ONESHOT \<noteq> 0
        then set_cur (\<lambda>t. t\<lparr>sigaction := (sigaction t)[i := sa\<lparr>sa_handler := 0\<rparr>]\<rparr>) k else k)"
    obtain fp1 m1 where s: "setup_frame fp ip regs (word_of_nat i + 1) old (umem k1) = (fp1, m1)" by fastforce
    define k2 where "k2 = set_cur (\<lambda>t. t\<lparr>blocked := blocked t OR sa_mask sa\<rparr>) (k1\<lparr>umem := m1\<rparr>)"
    have "frame_loop (i # is) hs regs old fp ip k = frame_loop is hs regs (old OR sa_mask sa) fp1 (sa_handler sa) k2"
      using False s unfolding k2_def k1_def sa_def by (simp add: Let_def)
    moreover have i: "i < 32" using Cons.prems(3) by simp
    have c1: "current k1 = current k" by (simp add: k1_def)
    have m: "sa_mask sa AND NOT BLOCKABLE = 0" using Cons.prems(2) i by (auto simp: sig_ok_def sa_def)
    have "sig_ok (cur k1)" using Cons.prems(2) sig_ok_frame_step(1) [OF _ i] by (simp add: k1_def sa_def)
    then have "sig_ok ((cur k1)\<lparr>blocked := blocked (cur k1) OR sa_mask sa\<rparr>)"
      using m and_or_zero by (auto simp: sig_ok_def sa_of_def)
    then have "sig_ok (cur k2)" "current k2 = current k" using c1 by (simp_all add: k2_def)
    ultimately show ?thesis
      using Cons.IH [of "old OR sa_mask sa" fp1 "sa_handler sa" k2] Cons.prems(1,3) by (simp del: frame_loop.simps)
  qed
qed simp

lemma sig_trans_ok: "sig_trans k k' \<Longrightarrow> sig_ok (cur k) \<Longrightarrow> current k' = current k \<and> sig_ok (cur k')"
proof (induction rule: sig_trans.induct)
  case (setmask k m)
  then show ?case by (simp add: sys_ssetmask_def sig_ok_blocked)
next
  case (signal_call k s h)
  moreover have "current (snd (sys_signal s h k)) = current k" by (simp add: sys_signal_def Let_def)
  ultimately show ?case using sig_ok_sys_signal [of k s h] by simp
next
  case (sigaction_call k s act old)
  moreover have "current (snd (sys_sigaction s act old k)) = current k" by (simp add: sys_sigaction_def Let_def)
  ultimately show ?case using sig_ok_sys_sigaction [of k s act old] by simp
next
  case (sigreturn_call k old ip sp regs)
  then show ?case by (simp add: sys_sigreturn_def sig_ok_blocked)
next
  case (suspend k st)
  then show ?case by (simp add: sig_ok_blocked)
next
  case (frames hs regs old fp ip k fp' ip' k')
  have "\<forall>i\<in>set [0..<32]. i < (32 :: nat)" by simp
  from frame_loop_sig_ok [OF frames(1,2) this] show ?case by simp
next
  case (send k sig p priv)
  have "sig_ok (deliver sig t) = sig_ok t" for t by (simp add: sig_ok_def)
  then have "sig_ok (cur (snd (send_sig sig (Some q) priv k)))" for q
    using send by (auto simp: send_sig_eq)
  moreover have "current (snd (send_sig sig (Some q) priv k)) = current k" for q by (simp add: send_sig_eq)
  ultimately show ?case using send by (cases p) (auto simp: send_sig_def [of _ None])
qed



section \<open>The loop takes every deliverable signal, once\<close>

definition bits :: "u32 \<Rightarrow> nat" where
  "bits w = card {i. i < 32 \<and> bit w i}"

lemma bsf_bit: "w \<noteq> 0 \<Longrightarrow> bsf w < 32 \<and> bit w (bsf w)"
proof -
  assume "w \<noteq> 0"
  moreover have "w = 0" if "\<forall>i < 32. \<not> bit w i" using that by (intro bit_word_eqI) simp
  ultimately obtain i where "i < 32" "bit w i" by blast
  then show ?thesis by (auto simp: bsf_def find_None_iff find_Some_iff split: option.splits)
qed

lemma signr_of_bit_aux:
  "list_all (\<lambda>b. sigbit (word_of_nat b + 1) = push_bit b 1 \<and> unat (word_of_nat b + 1 :: u32) = Suc b) [0..<32]"
  by code_simp

lemma signr_of_bit: "b < 32 \<Longrightarrow> sigbit (word_of_nat b + 1) = push_bit b 1 \<and> unat (word_of_nat b + 1 :: u32) = Suc b"
  using signr_of_bit_aux by (simp add: list_all_iff)

lemma bits_clear:
  assumes "bit (s AND m) b" "b < 32"
  shows "bits ((s AND NOT (push_bit b 1)) AND (m AND NOT x)) < bits (s AND m)"
proof -
  have "{i. i < 32 \<and> bit ((s AND NOT (push_bit b 1)) AND (m AND NOT x)) i} \<subseteq> {i. i < 32 \<and> bit (s AND m) i} - {b}"
    by (auto simp: bit_simps)
  then have "bits ((s AND NOT (push_bit b 1)) AND (m AND NOT x)) \<le> card ({i. i < 32 \<and> bit (s AND m) i} - {b})"
    unfolding bits_def by (intro card_mono) auto
  also have "\<dots> < bits (s AND m)"
    unfolding bits_def using assms by (intro card_Diff1_less) auto
  finally show ?thesis .
qed

lemma signal_loop_handlers:
  assumes "\<forall>sa\<in>set (sigaction (cur k)). sa_handler sa \<noteq> SIG_DFL \<and> sa_handler sa \<noteq> SIG_IGN"
    "length (sigaction (cur k)) = 32" "flags (cur k) AND PF_PTRACED = 0" "bits (signal (cur k) AND msk) < n"
  shows "\<exists>k' regs' taken. signal_loop n env core k regs msk hs = Some (LDone k' regs' (hs OR taken)) \<and>
    current k' = current k \<and>
    signal (cur k) = signal (cur k') OR taken \<and> signal (cur k') AND taken = 0 \<and> taken AND NOT msk = 0"
  using assms
proof (induction n arbitrary: k regs msk hs)
  case (Suc n)
  let ?s = "signal (cur k)"
  show ?case
  proof (cases "?s AND msk = 0")
    case True
    then show ?thesis by (intro exI [of _ k] exI [of _ regs] exI [of _ 0]) simp
  next
    case False
    define b where "b = bsf (?s AND msk)"
    define k1 where "k1 = set_cur (\<lambda>t. t\<lparr>signal := signal t AND NOT (push_bit b 1)\<rparr>) k"
    define sa where "sa = sigaction (cur k) ! b"
    have b: "b < 32" "bit (?s AND msk) b" using bsf_bit [OF False] by (auto simp: b_def)
    note sb = signr_of_bit [OF b(1)]
    have sa: "sa_of (cur k1) (word_of_nat b + 1) = sa" using sb by (simp add: sa_of_def k1_def sa_def)
    have h: "sa_handler sa \<noteq> SIG_DFL \<and> sa_handler sa \<noteq> SIG_IGN" using Suc.prems(1,2) b(1) by (simp add: sa_def)
    have f: "flags (cur k1) AND PF_PTRACED = 0" "sigaction (cur k1) = sigaction (cur k)" "current k1 = current k"
      "signal (cur k1) = ?s AND NOT (push_bit b 1)"
      using Suc.prems(3) by (simp_all add: k1_def)
    let ?m = "msk AND NOT (sa_mask sa)"
    have step: "signal_loop (Suc n) env core k regs msk hs =
        signal_loop n env core k1 (restart_eax sa regs) ?m (hs OR push_bit b 1)"
    proof -
      have "(if flags (cur k1) AND PF_PTRACED \<noteq> 0 \<and> word_of_nat b + 1 \<noteq> SIGKILL
          then ptrace_stop env (word_of_nat b + 1) k1 else (Some (word_of_nat b + 1), k1)) = (Some (word_of_nat b + 1), k1)"
        using f(1) by simp
      moreover have "signal_action 65 env core (word_of_nat b + 1) k1 = Some (Handle sa)"
        using sa h by (simp add: signal_action_def)
      moreover have "sigbit (word_of_nat b + 1) = push_bit b 1" using sb by blast
      ultimately show ?thesis using False
        by (simp only: signal_loop.simps Let_def b_def [symmetric] k1_def [symmetric] if_False prod.case option.case sig_action.case)
    qed
    have "bits (signal (cur k1) AND ?m) < n"
      using bits_clear [OF b(2,1), of "sa_mask sa"] Suc.prems(4) f(4) by simp
    then obtain k' regs' taken where
      r: "signal_loop n env core k1 (restart_eax sa regs) ?m (hs OR push_bit b 1) =
        Some (LDone k' regs' ((hs OR push_bit b 1) OR taken))" "current k' = current k1"
      "signal (cur k1) = signal (cur k') OR taken" "signal (cur k') AND taken = 0" "taken AND NOT ?m = 0"
      using Suc.IH [of k1 ?m "restart_eax sa regs" "hs OR push_bit b 1"] Suc.prems(1,2) f(1,2) by auto
    let ?t = "push_bit b 1 OR taken"
    have bb: "bit ?s b" "bit msk b" using b(2) by (simp_all add: bit_simps)
    have e: "(?s AND NOT (push_bit b 1)) = signal (cur k') OR taken" using r(3) f(4) by simp
    have ebit: "bit ?s i \<and> i \<noteq> b \<longleftrightarrow> bit (signal (cur k')) i \<or> bit taken i" if "i < 32" for i
      using arg_cong [OF e, of "\<lambda>w. bit w i"] that by (auto simp: bit_simps)
    have 1: "?s = signal (cur k') OR ?t"
      using ebit bb(1) by (intro bit_word_eqI) (auto simp: bit_simps)
    have 2: "signal (cur k') AND ?t = 0"
    proof (rule bit_word_eqI)
      fix i assume i: "i < LENGTH(32)"
      have "\<not> (bit (signal (cur k')) i \<and> bit taken i)" using arg_cong [OF r(4), of "\<lambda>w. bit w i"] by (simp add: bit_simps)
      then show "bit (signal (cur k') AND ?t) i = bit 0 i" using ebit [of i] i by (auto simp: bit_simps)
    qed
    have 3: "?t AND NOT msk = 0"
    proof (rule bit_word_eqI)
      fix i assume i: "i < LENGTH(32)"
      have "\<not> (bit taken i \<and> \<not> bit msk i)" using arg_cong [OF r(5), of "\<lambda>w. bit w i"] i by (auto simp: bit_simps)
      then show "bit (?t AND NOT msk) i = bit 0 i" using bb(2) i by (auto simp: bit_simps)
    qed
    have "signal_loop (Suc n) env core k regs msk hs = Some (LDone k' regs' (hs OR ?t))"
      using step r(1) by (simp add: or.assoc)
    then show ?thesis using r(2) f(3) 1 2 3 by (intro exI [of _ k'] exI [of _ regs'] exI [of _ ?t]) simp
  qed
qed simp

lemma bits_le: "bits w \<le> 32"
proof -
  have "bits w \<le> card {..<32::nat}" unfolding bits_def by (intro card_mono) auto
  then show ?thesis by simp
qed


definition demo_handlers :: kernel where
  "demo_handlers =
     set_cur (\<lambda>t. t\<lparr>signal := 0x4202, blocked := 2,
                     sigaction := replicate 32 \<lparr>sa_handler = 0x1000, sa_mask = 0, sa_flags = 0, sa_restorer = 0\<rparr>\<rparr>) demo_kernel"


text \<open>A system call interrupted by a handled signal (it returned \<open>-ERESTARTSYS\<close>) is restarted only when the
  handler was installed with SA_RESTART, and otherwise fails with EINTR; the header says that SA_RESTART
  is a no-op because restarting is the default.\<close>

theorem restart_needs_sa_restart:
  assumes "sint (orig_eax regs) \<ge> 0" and "eax regs = to_u32 (- ERESTARTSYS)"
  shows "restart_call (restart_eax sa regs) =
    (if sa_flags sa AND SA_RESTART \<noteq> 0 then regs\<lparr>eax := orig_eax regs, eip := eip regs - 2\<rparr>
     else regs\<lparr>eax := to_u32 (- EINTR)\<rparr>)"
  using assms by (simp add: restart_call_def restart_eax_def)

theorem restart_needs_sa_restart_witness:
  "eax (restart_call (restart_eax \<lparr>sa_handler = 0x1000, sa_mask = 0, sa_flags = 0, sa_restorer = 0\<rparr>
     (demo_regs\<lparr>eax := to_u32 (- ERESTARTSYS)\<rparr>))) = to_u32 (- EINTR)"
  using restart_needs_sa_restart [of "demo_regs\<lparr>eax := to_u32 (- ERESTARTSYS)\<rparr>" "\<lparr>sa_handler = 0x1000, sa_mask = 0, sa_flags = 0, sa_restorer = 0\<rparr>"]
  by (simp add: demo_regs_def)

end
