(* ===== verification/Locks.thy ===== *)
theory Locks
  imports Sched "HOL-Library.Multiset"
begin

text \<open>
  Advisory record locks (\<^verbatim>\<open>fs/locks.c\<close>). A \<^verbatim>\<open>struct file_lock\<close> is a record with the address of its slot
  in \<^verbatim>\<open>file_lock_table\<close>; the lock list of a file and the free list are lists in the order of their \<^verbatim>\<open>fl_next\<close>
  links. A pointer into the middle of the list (\<^verbatim>\<open>before\<close>) is the pair of the locks before it and the locks from
  it on; a pointer to a lock (\<^verbatim>\<open>left\<close>, \<^verbatim>\<open>right\<close>, \<^verbatim>\<open>caller\<close>) is an address.
\<close>

section \<open>Data\<close>

abbreviation (input) F_RDLCK :: int where "F_RDLCK \<equiv> 0"
abbreviation (input) F_WRLCK :: int where "F_WRLCK \<equiv> 1"
abbreviation (input) F_UNLCK :: int where "F_UNLCK \<equiv> 2"
abbreviation (input) F_EXLCK :: int where "F_EXLCK \<equiv> 4"
abbreviation (input) F_SHLCK :: int where "F_SHLCK \<equiv> 8"
abbreviation (input) F_SETLK :: u32 where "F_SETLK \<equiv> 6"
abbreviation (input) F_SETLKW :: u32 where "F_SETLKW \<equiv> 7"
abbreviation (input) NR_FILE_LOCKS :: nat where "NR_FILE_LOCKS \<equiv> 64"
abbreviation (input) NR_OPEN :: u32 where "NR_OPEN \<equiv> 256"
abbreviation (input) OFFSET_MAX :: int where "OFFSET_MAX \<equiv> 0x7fffffff"

record file_lock =
  fl_addr :: nat
  fl_owner :: tptr
  fl_wait :: "tptr list"
  fl_type :: int
  fl_whence :: int
  fl_start :: int
  fl_end :: int

record flock =
  l_type :: int
  l_whence :: int
  l_start :: int
  l_len :: int
  l_pid :: int

record inode =
  i_mode :: u16
  i_size :: int
  i_flock :: "file_lock list"

text \<open>The tables of file operations: those of pipes, and those of other files by address.\<close>

datatype file_operations =
  connecting_pipe_fops | read_pipe_fops | write_pipe_fops | rdwr_pipe_fops | other_fops nat

record file_struct =
  f_mode :: u16
  f_pos :: int
  f_flags :: u16
  f_count :: u16
  f_inode :: "nat option"
  f_op :: "file_operations option"

text \<open>The part of the system the calls on open files work on. \<open>inodes\<close> and \<open>files\<close> are indexed by address,
  \<open>filp\<close> and \<open>close_on_exec\<close> are the fields of that name of a task.\<close>

record fs =
  kernl :: kernel
  files :: "nat \<Rightarrow> file_struct"
  inodes :: "nat \<Rightarrow> inode"
  filp :: "tptr \<Rightarrow> nat option list"
  close_on_exec :: "tptr \<Rightarrow> bool list"
  file_lock_free_list :: "nat list"
  first_file :: "nat list"
  nr_files :: nat

definition S_ISREG :: "u16 \<Rightarrow> bool" where
  "S_ISREG m \<longleftrightarrow> m AND 0xf000 = 0x8000"

definition fcntl_init_locks :: "nat list" where
  "fcntl_init_locks = [0..<NR_FILE_LOCKS]"

section \<open>Requests\<close>

text \<open>\<open>struct flock\<close> in the user's memory: two shorts and three longs, 16 bytes.\<close>

definition read_flock :: "umem \<Rightarrow> u32 \<Rightarrow> flock" where
  "read_flock m l =
     \<lparr>l_type = sint (get_fs_word m l), l_whence = sint (get_fs_word m (l + 2)),
      l_start = sint (get_fs_long m (l + 4)), l_len = sint (get_fs_long m (l + 8)),
      l_pid = sint (get_fs_long m (l + 12))\<rparr>"

definition write_flock :: "flock \<Rightarrow> u32 \<Rightarrow> umem \<Rightarrow> umem" where
  "write_flock f l m =
     put_fs_long (to_u32 (l_pid f)) (l + 12)
       (put_fs_long (to_u32 (l_len f)) (l + 8)
         (put_fs_long (to_u32 (l_start f)) (l + 4)
           (put_fs_word (word_of_int (l_whence f)) (l + 2)
             (put_fs_word (word_of_int (l_type f)) l m))))"

definition flock_base :: "file_struct \<Rightarrow> inode \<Rightarrow> flock \<Rightarrow> int option" where
  "flock_base fp inode l =
     (if l_whence l = 0 then Some 0
      else if l_whence l = 1 then Some (f_pos fp)
      else if l_whence l = 2 then Some (i_size inode)
      else None)"

definition flock_end :: "int \<Rightarrow> int \<Rightarrow> int" where
  "flock_end start len =
     (if len = 0 then OFFSET_MAX else let e = s32 (start + len - 1) in if e < 0 then OFFSET_MAX else e)"

definition copy_flock :: "tptr \<Rightarrow> file_struct \<Rightarrow> (nat \<Rightarrow> inode) \<Rightarrow> flock \<Rightarrow> file_lock option" where
  "copy_flock self fp inos l =
     (case f_inode fp of
        None \<Rightarrow> None
      | Some ino \<Rightarrow>
          if \<not> S_ISREG (i_mode (inos ino)) then None
          else if l_type l \<notin> {F_UNLCK, F_RDLCK, F_WRLCK, F_SHLCK, F_EXLCK} then None
          else
            (case flock_base fp (inos ino) l of
               None \<Rightarrow> None
             | Some start \<Rightarrow>
                 let start = s32 (start + l_start l)
                 in if start < 0 \<or> l_len l < 0 then None
                    else Some \<lparr>fl_addr = 0, fl_owner = self, fl_wait = [], fl_type = l_type l, fl_whence = 0,
                               fl_start = start, fl_end = flock_end start (l_len l)\<rparr>))"

definition overlap :: "file_lock \<Rightarrow> file_lock \<Rightarrow> bool" where
  "overlap fl1 fl2 \<longleftrightarrow> fl_end fl1 \<ge> fl_start fl2 \<and> fl_end fl2 \<ge> fl_start fl1"

definition conflict :: "file_lock \<Rightarrow> file_lock \<Rightarrow> bool" where
  "conflict caller sys \<longleftrightarrow>
     (if fl_owner caller = fl_owner sys then False
      else if \<not> overlap caller sys then False
      else if fl_type caller = F_RDLCK then fl_type sys \<noteq> F_RDLCK
      else fl_type caller = F_WRLCK)"

section \<open>Slots\<close>

text \<open>The free list and the rest of the kernel. A slot on the free list is only its address: the source's checks of
  \<open>fl_owner\<close> against \<open>NULL\<close> tell slots of the two lists apart.\<close>

record ltab =
  lkern :: kernel
  lfree :: "nat list"

definition alloc_lock :: "file_lock \<Rightarrow> ltab \<Rightarrow> (file_lock \<times> ltab) option" where
  "alloc_lock fl s =
     (case lfree s of
        [] \<Rightarrow> None
      | tmp # fr \<Rightarrow>
          Some (fl\<lparr>fl_addr := tmp, fl_owner := current (lkern s), fl_wait := []\<rparr>, s\<lparr>lfree := fr\<rparr>))"

definition free_lock :: "file_lock \<Rightarrow> 'a ltab_scheme \<Rightarrow> 'a ltab_scheme" where
  "free_lock fl s = s\<lparr>lfree := fl_addr fl # lfree s, lkern := wake_up (fl_wait fl) (lkern s)\<rparr>"

section \<open>Setting a lock\<close>

text \<open>The variables of \<open>lock_it\<close>. \<open>ldone\<close> are the locks before \<open>before\<close>. \<open>lcal\<close> is \<open>*caller\<close>; when
  \<open>caller\<close> points to a lock of the list, \<open>lcid\<close> is its address and \<open>set_caller\<close> writes the list too.\<close>

record lit = ltab +
  ldone :: "file_lock list"
  lcal :: file_lock
  lcid :: "nat option"
  lleft :: "nat option"
  lright :: "nat option"
  ladded :: bool

definition upd_lock :: "nat \<Rightarrow> (file_lock \<Rightarrow> file_lock) \<Rightarrow> file_lock list \<Rightarrow> file_lock list" where
  "upd_lock a f ls = map (\<lambda>l. if fl_addr l = a then f l else l) ls"

definition set_caller :: "(file_lock \<Rightarrow> file_lock) \<Rightarrow> lit \<Rightarrow> lit" where
  "set_caller f s =
     s\<lparr>lcal := f (lcal s),
       ldone := (case lcid s of None \<Rightarrow> ldone s | Some a \<Rightarrow> upd_lock a f (ldone s))\<rparr>"

definition merge_locks :: "file_lock \<Rightarrow> lit \<Rightarrow> file_lock \<times> lit" where
  "merge_locks fl s =
     (let (fl, s) = (if fl_start fl > fl_start (lcal s)
                     then (fl\<lparr>fl_start := fl_start (lcal s)\<rparr>, s)
                     else (fl, set_caller (\<lambda>c. c\<lparr>fl_start := fl_start fl\<rparr>) s))
      in if fl_end fl < fl_end (lcal s)
         then (fl\<lparr>fl_end := fl_end (lcal s)\<rparr>, s)
         else (fl, set_caller (\<lambda>c. c\<lparr>fl_end := fl_end fl\<rparr>) s))"

definition replace_lock :: "file_lock \<Rightarrow> lit \<Rightarrow> file_lock \<times> lit" where
  "replace_lock fl s =
     (fl\<lparr>fl_start := fl_start (lcal s), fl_end := fl_end (lcal s), fl_type := fl_type (lcal s), fl_wait := []\<rparr>,
      s\<lparr>lkern := wake_up (fl_wait fl) (lkern s)\<rparr>)"

text \<open>\<open>caller = fl; added = 1;\<close> and on to the next lock.\<close>

definition take_over :: "file_lock \<times> lit \<Rightarrow> lit" where
  "take_over = (\<lambda>(fl, s). s\<lparr>lcal := fl, lcid := Some (fl_addr fl), ladded := True, ldone := ldone s @ [fl]\<rparr>)"

definition next_lock :: "file_lock \<Rightarrow> lit \<Rightarrow> lit" where
  "next_lock fl s = s\<lparr>ldone := ldone s @ [fl]\<rparr>"

fun lock_loop :: "lit \<Rightarrow> file_lock list \<Rightarrow> lit \<times> file_lock list" where
  "lock_loop s [] = (s, [])"
| "lock_loop s (fl # rest) =
     (if fl_owner (lcal s) \<noteq> fl_owner fl then (s, fl # rest)
      else if fl_type (lcal s) = fl_type fl then
        if fl_end fl < fl_start (lcal s) - 1 then lock_loop (next_lock fl s) rest
        else if fl_start fl > s32 (fl_end (lcal s) + 1) then (s, fl # rest)
        else if ladded s then lock_loop (case_prod free_lock (merge_locks fl s)) rest
        else lock_loop (take_over (merge_locks fl s)) rest
      else if fl_end fl < fl_start (lcal s) then lock_loop (next_lock fl s) rest
      else if fl_start fl > fl_end (lcal s) then (s, fl # rest)
      else
        let s = (if fl_type (lcal s) = F_UNLCK then s\<lparr>ladded := True\<rparr> else s);
            s = (if fl_start fl < fl_start (lcal s) then s\<lparr>lleft := Some (fl_addr fl)\<rparr> else s)
        in if fl_end fl > fl_end (lcal s) then (s\<lparr>lright := Some (fl_addr fl)\<rparr>, fl # rest)
           else if fl_start fl \<ge> fl_start (lcal s) then
             if ladded s then lock_loop (free_lock fl s) rest
             else lock_loop (take_over (replace_lock fl s)) rest
           else lock_loop (next_lock fl s) rest)"

text \<open>After the loop. The lists are the locks before \<open>before\<close> and those from it on.\<close>

definition cut_right :: "file_lock \<Rightarrow> lit \<Rightarrow> file_lock list \<Rightarrow> file_lock list" where
  "cut_right c s ls = (case lright s of None \<Rightarrow> ls | Some r \<Rightarrow> upd_lock r (\<lambda>f. f\<lparr>fl_start := s32 (fl_end c + 1)\<rparr>) ls)"

definition cut_left :: "file_lock \<Rightarrow> nat option \<Rightarrow> file_lock list \<Rightarrow> file_lock list" where
  "cut_left c lft ls = (case lft of None \<Rightarrow> ls | Some a \<Rightarrow> upd_lock a (\<lambda>f. f\<lparr>fl_end := fl_start c - 1\<rparr>) ls)"

definition lock_split :: "file_lock \<Rightarrow> lit \<Rightarrow> file_lock list \<Rightarrow> int \<times> ltab \<times> file_lock list" where
  "lock_split c s rest =
     (if lright s \<noteq> None \<and> lleft s = lright s then
        case find (\<lambda>f. Some (fl_addr f) = lright s) rest of
          None \<Rightarrow> (0, ltab.truncate s, ldone s @ rest)
        | Some r \<Rightarrow>
            (case alloc_lock r (ltab.truncate s) of
               None \<Rightarrow>
                 if ladded s then (- ENOLCK, ltab.truncate s, ldone s @ rest)
                 else (- ENOLCK, free_lock (hd rest) (ltab.truncate s), ldone s @ tl rest)
             | Some (l, t) \<Rightarrow>
                 (0, t, cut_left c (Some (fl_addr l)) (cut_right c s (ldone s @ l # rest))))
      else (0, ltab.truncate s, cut_left c (lleft s) (cut_right c s (ldone s @ rest))))"

definition lock_finish :: "lit \<Rightarrow> file_lock list \<Rightarrow> int \<times> ltab \<times> file_lock list" where
  "lock_finish s rest =
     (if \<not> ladded s then
        if fl_type (lcal s) = F_UNLCK then (- EINVAL, ltab.truncate s, ldone s @ rest)
        else
          case alloc_lock (lcal s) (ltab.truncate s) of
            None \<Rightarrow> (- ENOLCK, ltab.truncate s, ldone s @ rest)
          | Some (n, t) \<Rightarrow> lock_split n (s\<lparr>lfree := lfree t, lkern := lkern t\<rparr>) (n # rest)
      else lock_split (lcal s) s rest)"

definition lock_it :: "file_lock \<Rightarrow> ltab \<Rightarrow> file_lock list \<Rightarrow> int \<times> ltab \<times> file_lock list" where
  "lock_it c t ls =
     (let pre = takeWhile (\<lambda>fl. fl_owner c \<noteq> fl_owner fl) ls;
          post = dropWhile (\<lambda>fl. fl_owner c \<noteq> fl_owner fl) ls;
          (s, rest) = lock_loop (ltab.extend t (lit.fields pre c None None None False)) post
      in lock_finish s rest)"

definition fcntl_remove_locks :: "tptr \<Rightarrow> ltab \<Rightarrow> file_lock list \<Rightarrow> ltab \<times> file_lock list" where
  "fcntl_remove_locks tsk t ls =
     (let pre = takeWhile (\<lambda>fl. tsk \<noteq> fl_owner fl) ls;
          post = dropWhile (\<lambda>fl. tsk \<noteq> fl_owner fl) ls
      in (fold free_lock (takeWhile (\<lambda>fl. tsk = fl_owner fl) post) t,
          pre @ dropWhile (\<lambda>fl. tsk = fl_owner fl) post))"

section \<open>What a lock list means\<close>

text \<open>The bytes a list of locks covers, per owner and lock type. Two locks of one owner never overlap, the locks of
  an owner stand together in the list, and their slots are distinct.\<close>

definition held :: "file_lock list \<Rightarrow> tptr \<Rightarrow> int \<Rightarrow> int \<Rightarrow> bool" where
  "held ls ow ty x \<longleftrightarrow> (\<exists>f\<in>set ls. fl_owner f = ow \<and> fl_type f = ty \<and> fl_start f \<le> x \<and> x \<le> fl_end f)"

definition lock_ok :: "file_lock \<Rightarrow> bool" where
  "lock_ok f \<longleftrightarrow> 0 \<le> fl_start f \<and> fl_start f \<le> fl_end f \<and> fl_end f \<le> OFFSET_MAX \<and> fl_type f \<in> {F_RDLCK, F_WRLCK}"

definition apart :: "file_lock \<Rightarrow> file_lock \<Rightarrow> bool" where
  "apart f g \<longleftrightarrow> (fl_owner f = fl_owner g \<longrightarrow> fl_end f < fl_start g)"

definition wf_locks :: "file_lock list \<Rightarrow> bool" where
  "wf_locks ls \<longleftrightarrow> (\<forall>f\<in>set ls. lock_ok f) \<and> sorted_wrt apart ls \<and> distinct (remdups_adj (map fl_owner ls))"

definition slots :: "file_lock list \<Rightarrow> nat list \<Rightarrow> nat multiset" where
  "slots ls fr = mset (map fl_addr ls) + mset fr"

lemma held_simps [simp]:
  "\<not> held [] ow ty x"
  "held (f # fs) ow ty x \<longleftrightarrow> fl_owner f = ow \<and> fl_type f = ty \<and> fl_start f \<le> x \<and> x \<le> fl_end f \<or> held fs ow ty x"
  "held (as @ bs) ow ty x \<longleftrightarrow> held as ow ty x \<or> held bs ow ty x"
  by (auto simp: held_def)

section \<open>The loop\<close>

text \<open>\<open>q\<close> is the request, \<open>H\<close> what its owner held before, \<open>Ls\<close>, \<open>Fr\<close> the list and the free list at the call
  and \<open>M\<close> all slots. The list up to \<open>before\<close> is \<open>D @ L @ C\<close>: locks below the new one, the lock that sticks out to
  its left, and the new lock itself once it has a slot.\<close>

definition grown :: "file_lock \<Rightarrow> file_lock \<Rightarrow> bool" where
  "grown q c \<longleftrightarrow> fl_owner c = fl_owner q \<and> fl_type c = fl_type q \<and> 0 \<le> fl_start c \<and> fl_start c \<le> fl_start q \<and>
     fl_start q \<le> fl_end q \<and> fl_end q \<le> fl_end c \<and> fl_end c \<le> OFFSET_MAX \<and>
     (fl_type q = F_UNLCK \<longrightarrow> fl_start c = fl_start q \<and> fl_end c = fl_end q)"

definition left_ok :: "file_lock \<Rightarrow> file_lock \<Rightarrow> nat option \<Rightarrow> file_lock list \<Rightarrow> bool" where
  "left_ok q c a L \<longleftrightarrow> L = [] \<and> a = None \<or>
     (\<exists>l. L = [l] \<and> a = Some (fl_addr l) \<and> fl_owner l = fl_owner q \<and> fl_start l < fl_start c \<and>
        fl_start c \<le> fl_end l \<and> fl_end l \<le> fl_end c)"

definition placed :: "file_lock \<Rightarrow> lit \<Rightarrow> file_lock list \<Rightarrow> file_lock list \<Rightarrow> bool" where
  "placed q s C R \<longleftrightarrow> (C = [] \<and> lcid s = None \<or> C = [lcal s] \<and> lcid s = Some (fl_addr (lcal s))) \<and>
     (C \<noteq> [] \<longrightarrow> ladded s) \<and> (ladded s \<longrightarrow> (C = [] \<longleftrightarrow> fl_type q = F_UNLCK)) \<and>
     (ladded s \<longrightarrow> (\<forall>r\<in>set R. fl_start (lcal s) \<le> fl_start r))"

definition around :: "file_lock \<Rightarrow> file_lock \<Rightarrow> file_lock list \<Rightarrow> file_lock list \<Rightarrow> file_lock list \<Rightarrow> bool" where
  "around q c D L R \<longleftrightarrow> sorted_wrt apart (D @ L @ R) \<and> (\<forall>f\<in>set (D @ L @ R). lock_ok f) \<and>
     (\<forall>r\<in>set R. fl_owner r = fl_owner q) \<and> (\<forall>d\<in>set D. fl_owner d = fl_owner q \<longrightarrow> fl_end d < fl_start c) \<and>
     (fl_end c < OFFSET_MAX \<or> R = [] \<or> (\<forall>r\<in>set R. fl_type r \<noteq> fl_type q))"

definition keeps_held :: "file_lock \<Rightarrow> (int \<Rightarrow> int \<Rightarrow> bool) \<Rightarrow> file_lock \<Rightarrow> file_lock list \<Rightarrow> bool" where
  "keeps_held q H c ls \<longleftrightarrow>
     (\<forall>ty x. \<not> (fl_start q \<le> x \<and> x \<le> fl_end q) \<longrightarrow>
        (H ty x \<longleftrightarrow> (if fl_start c \<le> x \<and> x \<le> fl_end c then ty = fl_type q else held ls (fl_owner q) ty x)))"

definition owned_from :: "file_lock list \<Rightarrow> file_lock \<Rightarrow> file_lock list \<Rightarrow> bool" where
  "owned_from P q D \<longleftrightarrow> (\<exists>D1. D = P @ D1 \<and> (\<forall>d\<in>set D1. fl_owner d = fl_owner q))"

definition linv ::
  "file_lock \<Rightarrow> file_lock list \<Rightarrow> (int \<Rightarrow> int \<Rightarrow> bool) \<Rightarrow> file_lock list \<Rightarrow> nat list \<Rightarrow> nat multiset \<Rightarrow>
   file_lock list \<Rightarrow> file_lock list \<Rightarrow> file_lock list \<Rightarrow> lit \<Rightarrow> file_lock list \<Rightarrow> bool" where
  "linv q P H Ls Fr M D L C s R \<longleftrightarrow>
     ldone s = D @ L @ C \<and> lright s = None \<and> current (lkern s) = fl_owner q \<and>
     slots (D @ L @ C @ R) (lfree s) = M \<and> (\<forall>a. count M a \<le> 1) \<and>
     grown q (lcal s) \<and> left_ok q (lcal s) (lleft s) L \<and> placed q s C R \<and>
     around q (lcal s) D L R \<and> keeps_held q H (lcal s) (D @ L @ R) \<and>
     (\<not> ladded s \<longrightarrow> D @ L @ R = Ls \<and> lfree s = Fr \<and> lcal s = q) \<and> owned_from P q D"

lemma owned_from_snoc: "owned_from P q D \<Longrightarrow> fl_owner f = fl_owner q \<Longrightarrow> owned_from P q (D @ [f])"
  by (fastforce simp: owned_from_def)

lemmas linv_parts = linv_def grown_def left_ok_def placed_def around_def

lemma linv_next:
  assumes I: "linv q P H Ls Fr M D L C s (fl # R)" and e: "fl_end fl < fl_start (lcal s)"
  shows "linv q P H Ls Fr M (D @ [fl]) [] [] (next_lock fl s) R"
proof -
  have ok: "fl_start fl \<le> fl_end fl" using I by (simp add: linv_def around_def lock_ok_def)
  have "\<not> ladded s" using I ok e by (auto simp: linv_def placed_def)
  moreover have "L = []" using I ok e by (fastforce simp: linv_def around_def left_ok_def sorted_wrt_append apart_def)
  ultimately show ?thesis using I e
    by (auto simp: linv_parts next_lock_def keeps_held_def owned_from_snoc)
qed

lemma linv_left:
  assumes I: "linv q P H Ls Fr M D L C s (fl # R)" and e: "fl_start fl < fl_start (lcal s)"
    "fl_start (lcal s) \<le> fl_end fl" "fl_end fl \<le> fl_end (lcal s)" and ty: "fl_type fl \<noteq> fl_type q"
  shows "linv q P H Ls Fr M D [fl] []
    (next_lock fl (s\<lparr>ladded := ladded s \<or> fl_type q = F_UNLCK, lleft := Some (fl_addr fl)\<rparr>)) R"
proof -
  have "\<not> ladded s" using I e by (auto simp: linv_def placed_def)
  moreover have "L = []" using I e by (fastforce simp: linv_def around_def left_ok_def sorted_wrt_append apart_def)
  ultimately show ?thesis using I e ty
    by (auto simp: linv_parts next_lock_def keeps_held_def apart_def sorted_wrt_append)
qed


lemma distinct_count_le: "(\<forall>a. count (mset xs) a \<le> 1) \<Longrightarrow> distinct xs"
  by (metis (mono_tags, lifting) count_eq_zero_iff distinct_count_atmost_1 le_neq_implies_less less_one set_mset_mset)

lemma linv_distinct:
  assumes "linv q P H Ls Fr M D L C s R"
  shows "distinct (map fl_addr (D @ L @ C @ R) @ lfree s)"
proof -
  have "mset (map fl_addr (D @ L @ C @ R) @ lfree s) = M" using assms by (simp add: linv_def slots_def add.assoc)
  then show ?thesis using assms by (intro distinct_count_le) (simp add: linv_def)
qed

lemma upd_lock_simps [simp]:
  "upd_lock a f [] = []"
  "upd_lock a f (l # ls) = (if fl_addr l = a then f l else l) # upd_lock a f ls"
  "upd_lock a f (xs @ ys) = upd_lock a f xs @ upd_lock a f ys"
  by (simp_all add: upd_lock_def)

lemma upd_lock_other: "a \<notin> fl_addr ` set ls \<Longrightarrow> upd_lock a f ls = ls"
  by (induction ls) auto

text \<open>Merging: the state after both comparisons, whether \<open>caller\<close> is the local request or a lock of the list.\<close>

definition hull :: "file_lock \<Rightarrow> file_lock \<Rightarrow> file_lock" where
  "hull fl c = c\<lparr>fl_start := min (fl_start fl) (fl_start c), fl_end := max (fl_end fl) (fl_end c)\<rparr>"

lemma merge_locks_local:
  assumes "lcid s = None"
  shows "merge_locks fl s = (hull (lcal s) fl, s\<lparr>lcal := hull fl (lcal s)\<rparr>)"
  using assms by (auto simp: merge_locks_def set_caller_def hull_def min_def max_def)

lemma merge_locks_slot:
  assumes "lcid s = Some (fl_addr (lcal s))" "ldone s = P @ [lcal s]" "fl_addr (lcal s) \<notin> fl_addr ` set P"
  shows "merge_locks fl s = (hull (lcal s) fl, s\<lparr>lcal := hull fl (lcal s), ldone := P @ [hull fl (lcal s)]\<rparr>)"
  using assms by (auto simp: merge_locks_def set_caller_def hull_def min_def max_def upd_lock_other)

lemma free_lock_fields [simp]:
  "lfree (free_lock fl s) = fl_addr fl # lfree s" "current (lkern (free_lock fl s)) = current (lkern s)"
  by (simp_all add: free_lock_def)

lemma free_lock_lit [simp]:
  "ldone (free_lock fl s) = ldone s" "lcal (free_lock fl s) = lcal s" "lcid (free_lock fl s) = lcid s"
  "lleft (free_lock fl s) = lleft s" "lright (free_lock fl s) = lright s" "ladded (free_lock fl s) = ladded s"
  by (simp_all add: free_lock_def)

lemma grown_hull:
  assumes "grown q c" "lock_ok fl" "fl_type fl = fl_type q" "fl_owner fl = fl_owner q"
  shows "grown q (hull fl c)" "grown q (hull c fl)"
  using assms by (auto simp: grown_def hull_def lock_ok_def min_def max_def)

lemma held_unique:
  assumes "sorted_wrt apart (A @ f # B)" "fl_owner f = ow" "fl_start f \<le> x" "x \<le> fl_end f"
  shows "held (A @ f # B) ow ty x \<longleftrightarrow> ty = fl_type f"
  using assms by (fastforce simp: held_def sorted_wrt_append apart_def)

lemma keeps_held_hull:
  assumes "keeps_held q H c (A @ f # B)" "sorted_wrt apart (A @ f # B)" "fl_owner f = fl_owner q" "fl_type f = fl_type q"
    and adj: "fl_start c - 1 \<le> fl_end f" "fl_start f \<le> fl_end c + 1"
    and c: "fl_start c' = min (fl_start f) (fl_start c)" "fl_end c' = max (fl_end f) (fl_end c)"
  shows "keeps_held q H c' (A @ B)"
  unfolding keeps_held_def
proof (intro allI impI)
  fix ty x assume x: "\<not> (fl_start q \<le> x \<and> x \<le> fl_end q)"
  have H: "H ty x \<longleftrightarrow> (if fl_start c \<le> x \<and> x \<le> fl_end c then ty = fl_type q else held (A @ f # B) (fl_owner q) ty x)"
    using assms(1) x by (simp add: keeps_held_def)
  show "H ty x \<longleftrightarrow> (if fl_start c' \<le> x \<and> x \<le> fl_end c' then ty = fl_type q else held (A @ B) (fl_owner q) ty x)"
  proof (cases "fl_start f \<le> x \<and> x \<le> fl_end f")
    case True
    then show ?thesis using H held_unique [OF assms(2,3)] assms(4) c by auto
  next
    case False
    then show ?thesis using H adj c by auto
  qed
qed

lemma around_hull:
  assumes "around q c D L (fl # R)" "fl_type fl = fl_type q" "fl_start c - 1 \<le> fl_end fl"
    and c: "fl_start c' = min (fl_start fl) (fl_start c)" "fl_end c' = max (fl_end fl) (fl_end c)"
  shows "around q c' D L R" "\<forall>r\<in>set R. fl_start c' \<le> fl_start r" "fl_end c < OFFSET_MAX"
    "L = [l] \<Longrightarrow> fl_owner l = fl_owner q \<Longrightarrow> fl_end l < fl_start fl"
proof -
  have fl: "lock_ok fl" "fl_owner fl = fl_owner q" "\<forall>r\<in>set R. fl_owner r = fl_owner q \<and> lock_ok r"
    "\<forall>r\<in>set R. fl_end fl < fl_start r" "\<forall>d\<in>set (D @ L). fl_owner d = fl_owner q \<longrightarrow> fl_end d < fl_start fl"
    using assms(1) by (simp_all add: around_def sorted_wrt_append apart_def ball_Un)
  have mx: "fl_end fl < OFFSET_MAX \<or> R = []"
  proof (cases R)
    case (Cons r R')
    then show ?thesis using fl(3,4) by (auto simp: lock_ok_def)
  qed simp
  show lt: "fl_end c < OFFSET_MAX" using assms(1,2) by (auto simp: around_def)
  then have e: "fl_end c' < OFFSET_MAX \<or> R = []" using mx c by auto
  have d: "\<forall>d\<in>set D. fl_owner d = fl_owner q \<longrightarrow> fl_end d < fl_start c'"
    using assms(1) fl(5) c by (auto simp: around_def)
  show "around q c' D L R" using assms(1) e d unfolding around_def by (auto simp: sorted_wrt_append)
  show "\<forall>r\<in>set R. fl_start c' \<le> fl_start r" using fl(4) assms(3) c by fastforce
  show "L = [l] \<Longrightarrow> fl_owner l = fl_owner q \<Longrightarrow> fl_end l < fl_start fl" using fl(5) by simp
qed

lemma left_ok_grow:
  assumes "left_ok q c a L" "\<And>l. L = [l] \<Longrightarrow> fl_owner l = fl_owner q \<Longrightarrow> fl_end l < fl_start fl" "lock_ok fl"
    and c: "fl_start c' = min (fl_start fl) (fl_start c)" "fl_end c' = max (fl_end fl) (fl_end c)"
  shows "left_ok q c' a L"
  using assms by (fastforce simp: left_ok_def lock_ok_def min_def max_def)

lemma linv_merge_new:
  assumes I: "linv q P H Ls Fr M D L C s (fl # R)" and ty: "fl_type fl = fl_type q" and na: "\<not> ladded s"
    and adj: "fl_start (lcal s) - 1 \<le> fl_end fl" "fl_start fl \<le> fl_end (lcal s) + 1"
  shows "linv q P H Ls Fr M D L [hull (lcal s) fl] (take_over (merge_locks fl s)) R"
proof -
  let ?c = "hull (lcal s) fl"
  have c: "fl_start ?c = min (fl_start fl) (fl_start (lcal s))" "fl_end ?c = max (fl_end fl) (fl_end (lcal s))"
    by (auto simp: hull_def)
  have C: "C = []" "lcid s = None" using I na by (auto simp: linv_def placed_def)
  have t: "take_over (merge_locks fl s) =
      s\<lparr>lcal := ?c, lcid := Some (fl_addr ?c), ladded := True, ldone := D @ L @ [?c]\<rparr>"
    using I C by (simp add: merge_locks_local take_over_def linv_def hull_def)
  have ar: "around q (lcal s) D L (fl # R)" "sorted_wrt apart ((D @ L) @ fl # R)" "lock_ok fl" "fl_owner fl = fl_owner q"
    using I by (auto simp: linv_def around_def)
  have g: "grown q ?c" using I ar(3,4) ty by (simp add: linv_def grown_hull)
  have un: "fl_type q \<noteq> F_UNLCK" using ar(3) ty by (auto simp: lock_ok_def)
  note A = around_hull [OF ar(1) ty adj(1) c]
  have "left_ok q (lcal s) (lleft s) L" using I by (simp add: linv_def)
  then have l: "left_ok q ?c (lleft s) L" using A(4) ar(3) c by (rule left_ok_grow)
  have h: "keeps_held q H ?c ((D @ L) @ R)"
    by (rule keeps_held_hull [OF _ ar(2,4) ty adj c]) (use I in \<open>simp add: linv_def\<close>)
  have m: "slots (D @ L @ [?c] @ R) (lfree s) = M" using I C by (simp add: linv_def slots_def hull_def ac_simps)
  show ?thesis using I m g l A(1,2) h un unfolding t by (simp add: linv_def placed_def)
qed

lemma linv_merge_free:
  assumes I: "linv q P H Ls Fr M D L C s (fl # R)" and ty: "fl_type fl = fl_type q" and ad: "ladded s"
    and adj: "fl_start (lcal s) - 1 \<le> fl_end fl" "fl_start fl \<le> fl_end (lcal s) + 1"
  shows "linv q P H Ls Fr M D L [hull fl (lcal s)] (case_prod free_lock (merge_locks fl s)) R"
proof -
  let ?c = "hull fl (lcal s)"
  have c: "fl_start ?c = min (fl_start fl) (fl_start (lcal s))" "fl_end ?c = max (fl_end fl) (fl_end (lcal s))"
    by (auto simp: hull_def)
  have ar: "around q (lcal s) D L (fl # R)" "sorted_wrt apart ((D @ L) @ fl # R)" "lock_ok fl" "fl_owner fl = fl_owner q"
    using I by (auto simp: linv_def around_def)
  have un: "fl_type q \<noteq> F_UNLCK" using ar(3) ty by (auto simp: lock_ok_def)
  have C: "C = [lcal s]" "lcid s = Some (fl_addr (lcal s))" using I ad un by (auto simp: linv_def placed_def)
  have nin: "fl_addr (lcal s) \<notin> fl_addr ` set (D @ L)" using linv_distinct [OF I] C by auto
  have t: "case_prod free_lock (merge_locks fl s) =
      free_lock (hull (lcal s) fl) (s\<lparr>lcal := ?c, ldone := (D @ L) @ [?c]\<rparr>)"
    using merge_locks_slot [of s "D @ L" fl] C nin I by (simp add: linv_def)
  have g: "grown q ?c" using I ar(3,4) ty by (simp add: linv_def grown_hull)
  note A = around_hull [OF ar(1) ty adj(1) c]
  have "left_ok q (lcal s) (lleft s) L" using I by (simp add: linv_def)
  then have l: "left_ok q ?c (lleft s) L" using A(4) ar(3) c by (rule left_ok_grow)
  have h: "keeps_held q H ?c ((D @ L) @ R)"
    by (rule keeps_held_hull [OF _ ar(2,4) ty adj c]) (use I in \<open>simp add: linv_def\<close>)
  have a: "fl_addr ?c = fl_addr (lcal s)" "fl_addr (hull (lcal s) fl) = fl_addr fl" by (simp_all add: hull_def)
  have m: "slots (D @ L @ [?c] @ R) (fl_addr fl # lfree s) = M" using I C by (simp add: linv_def slots_def a ac_simps)
  show ?thesis using I m g l A(1,2) h un ad C unfolding t by (simp add: linv_def placed_def a)
qed


lemma keeps_held_inside:
  assumes "keeps_held q H c (A @ f # B)" "fl_start c \<le> fl_start f" "fl_end f \<le> fl_end c"
    and "fl_start c' = fl_start c" "fl_end c' = fl_end c"
  shows "keeps_held q H c' (A @ B)"
  using assms by (auto simp: keeps_held_def)

lemma around_drop:
  assumes "around q c D L (fl # R)" "fl_start c' = fl_start c" "fl_end c' = fl_end c"
  shows "around q c' D L R"
  using assms unfolding around_def by (auto simp: sorted_wrt_append)

lemma around_after:
  assumes "around q c D L (fl # R)" "fl_start c \<le> fl_start fl" "r \<in> set R"
  shows "fl_start c \<le> fl_start r"
proof -
  have "fl_end fl < fl_start r" "fl_start fl \<le> fl_end fl"
    using assms(1,3) by (simp_all add: around_def sorted_wrt_append apart_def lock_ok_def)
  then show ?thesis using assms(2) by simp
qed

lemma linv_replace:
  assumes I: "linv q P H Ls Fr M D L C s (fl # R)" and ty: "fl_type q \<noteq> F_UNLCK" and na: "\<not> ladded s"
    and ins: "fl_start (lcal s) \<le> fl_start fl" "fl_end fl \<le> fl_end (lcal s)"
  shows "linv q P H Ls Fr M D L [fst (replace_lock fl s)] (take_over (replace_lock fl s)) R"
proof -
  let ?c = "fst (replace_lock fl s)"
  have c: "fl_start ?c = fl_start (lcal s)" "fl_end ?c = fl_end (lcal s)" "fl_type ?c = fl_type (lcal s)"
    "fl_owner ?c = fl_owner fl" "fl_addr ?c = fl_addr fl"
    by (simp_all add: replace_lock_def)
  have C: "C = []" "lcid s = None" using I na by (auto simp: linv_def placed_def)
  have t: "take_over (replace_lock fl s) =
      s\<lparr>lkern := wake_up (fl_wait fl) (lkern s), lcal := ?c, lcid := Some (fl_addr ?c), ladded := True, ldone := D @ L @ [?c]\<rparr>"
    using I C by (simp add: replace_lock_def take_over_def linv_def)
  have ar: "around q (lcal s) D L (fl # R)" "fl_owner fl = fl_owner q"
    using I by (simp_all add: linv_def around_def)
  have g: "grown q ?c" using I ar(2) by (simp add: linv_def grown_def c)
  have l: "left_ok q ?c (lleft s) L" using I by (simp add: linv_def left_ok_def c)
  have h: "keeps_held q H ?c ((D @ L) @ R)"
    by (rule keeps_held_inside [OF _ ins c(1,2)]) (use I in \<open>simp add: linv_def\<close>)
  have m: "slots (D @ L @ [?c] @ R) (lfree s) = M" using I C by (simp add: linv_def slots_def c ac_simps)
  show ?thesis using I m g l around_drop [OF ar(1) c(1,2)] around_after [OF ar(1) ins(1)] h ty unfolding t
    by (simp add: linv_def placed_def c(1))
qed

lemma linv_drop:
  assumes I: "linv q P H Ls Fr M D L C s (fl # R)" and ad: "ladded s \<or> fl_type q = F_UNLCK"
    and ins: "fl_start (lcal s) \<le> fl_start fl" "fl_end fl \<le> fl_end (lcal s)"
  shows "linv q P H Ls Fr M D L C (free_lock fl (s\<lparr>ladded := True\<rparr>)) R"
proof -
  have ar: "around q (lcal s) D L (fl # R)" using I by (simp add: linv_def)
  have h: "keeps_held q H (lcal s) ((D @ L) @ R)"
    by (rule keeps_held_inside [OF _ ins refl refl]) (use I in \<open>simp add: linv_def\<close>)
  have m: "slots (D @ L @ C @ R) (fl_addr fl # lfree s) = M" using I by (simp add: linv_def slots_def ac_simps)
  have p: "placed q (free_lock fl (s\<lparr>ladded := True\<rparr>)) C R"
    using I ad around_after [OF ar ins(1)] by (auto simp: linv_def placed_def)
  show ?thesis using I m p h around_drop [OF ar refl refl] by (simp add: linv_def)
qed

text \<open>How the loop ends: past the last lock that meets the new one, or at a lock that sticks out to its right.\<close>

definition loop_end :: "file_lock \<Rightarrow> lit \<Rightarrow> lit \<Rightarrow> file_lock list \<Rightarrow> bool" where
  "loop_end q s0 s R \<longleftrightarrow>
     s = s0 \<and> (\<forall>r\<in>set R. fl_end (lcal s) < fl_start r) \<or>
     (\<exists>r R'. R = r # R' \<and> fl_start (lcal s) \<le> fl_end r \<and> fl_start r \<le> fl_end (lcal s) \<and> fl_end (lcal s) < fl_end r \<and>
        s = s0\<lparr>ladded := ladded s0 \<or> fl_type q = F_UNLCK,
               lleft := (if fl_start r < fl_start (lcal s0) then Some (fl_addr r) else lleft s0),
               lright := Some (fl_addr r)\<rparr>)"

lemma after_break:
  assumes "around q c D L (fl # R)" "e < fl_start fl" "r \<in> set (fl # R)"
  shows "e < fl_start r"
proof (cases "r = fl")
  case False
  then have "fl_end fl < fl_start r" "fl_start fl \<le> fl_end fl"
    using assms(1,3) by (simp_all add: around_def sorted_wrt_append apart_def lock_ok_def)
  then show ?thesis using assms(2) by simp
qed (use assms in simp)

lemma lock_loop_inv:
  "linv q P H Ls Fr M D L C s R \<Longrightarrow>
   \<exists>D' L' C' s0. linv q P H Ls Fr M D' L' C' s0 (snd (lock_loop s R)) \<and>
     loop_end q s0 (fst (lock_loop s R)) (snd (lock_loop s R))"
proof (induction R arbitrary: D L C s)
  case Nil
  then show ?case by (intro exI [of _ D] exI [of _ L] exI [of _ C] exI [of _ s]) (simp add: loop_end_def)
next
  case (Cons fl R)
  note I = Cons.prems
  let ?c = "lcal s"
  have g: "fl_owner ?c = fl_owner q" "fl_type ?c = fl_type q" "fl_owner fl = fl_owner q"
    "0 \<le> fl_start ?c" "fl_end ?c \<le> OFFSET_MAX" "fl_start ?c \<le> fl_end ?c"
    using I by (auto simp: linv_def grown_def around_def)
  have ar: "around q ?c D L (fl # R)" using I by (simp add: linv_def)
  have s1: "(if fl_type ?c = F_UNLCK then s\<lparr>ladded := True\<rparr> else s) = s\<lparr>ladded := ladded s \<or> fl_type q = F_UNLCK\<rparr>"
    using g(2) by simp
  have sa: "s\<lparr>ladded := True\<rparr> = s" if "ladded s" using that by (cases s) simp
  have stop: ?case if "lock_loop s (fl # R) = (s, fl # R)" "fl_end ?c < fl_start fl"
    using I after_break [OF ar that(2)] that(1)
    by (intro exI [of _ D] exI [of _ L] exI [of _ C] exI [of _ s]) (auto simp: loop_end_def)
  consider (below) "fl_end fl < fl_start ?c" "fl_type fl = fl_type q \<longrightarrow> fl_end fl < fl_start ?c - 1"
    | (merge) "fl_type fl = fl_type q" "fl_start ?c - 1 \<le> fl_end fl" "fl_start fl \<le> fl_end ?c + 1"
    | (far) "fl_type fl = fl_type q" "fl_start ?c - 1 \<le> fl_end fl" "fl_end ?c + 1 < fl_start fl"
    | (brk) "fl_type fl \<noteq> fl_type q" "fl_start ?c \<le> fl_end fl" "fl_end ?c < fl_start fl"
    | (right) "fl_type fl \<noteq> fl_type q" "fl_start ?c \<le> fl_end fl" "fl_start fl \<le> fl_end ?c" "fl_end ?c < fl_end fl"
    | (inside) "fl_type fl \<noteq> fl_type q" "fl_start ?c \<le> fl_start fl" "fl_start fl \<le> fl_end ?c" "fl_end fl \<le> fl_end ?c" "fl_start ?c \<le> fl_end fl"
    | (left) "fl_type fl \<noteq> fl_type q" "fl_start fl < fl_start ?c" "fl_start ?c \<le> fl_end fl" "fl_end fl \<le> fl_end ?c" "fl_start fl \<le> fl_end ?c"
    by linarith
  then show ?case
  proof cases
    case below
    have "lock_loop s (fl # R) = lock_loop (next_lock fl s) R" using below g by simp
    then show ?thesis using Cons.IH [OF linv_next [OF I below(1)]] by simp
  next
    case merge
    have "fl_end ?c < OFFSET_MAX" using ar merge(1) by (auto simp: around_def)
    then have w: "s32 (fl_end ?c + 1) = fl_end ?c + 1" using g by (intro s32_id) auto
    show ?thesis
    proof (cases "ladded s")
      case True
      then have "lock_loop s (fl # R) = lock_loop (case_prod free_lock (merge_locks fl s)) R" using merge g w by simp
      then show ?thesis using Cons.IH [OF linv_merge_free [OF I merge(1) True merge(2,3)]] by simp
    next
      case False
      then have "lock_loop s (fl # R) = lock_loop (take_over (merge_locks fl s)) R" using merge g w by simp
      then show ?thesis using Cons.IH [OF linv_merge_new [OF I merge(1) False merge(2,3)]] by simp
    qed
  next
    case far
    have "fl_end ?c < OFFSET_MAX" using ar far(1) by (auto simp: around_def)
    then have w: "s32 (fl_end ?c + 1) = fl_end ?c + 1" using g by (intro s32_id) auto
    show ?thesis by (rule stop) (use far g w in auto)
  next
    case brk
    show ?thesis by (rule stop) (use brk g in auto)
  next
    case right
    then have e: "lock_loop s (fl # R) =
       (s\<lparr>ladded := ladded s \<or> fl_type q = F_UNLCK,
          lleft := (if fl_start fl < fl_start ?c then Some (fl_addr fl) else lleft s), lright := Some (fl_addr fl)\<rparr>, fl # R)"
      using g by (auto simp: Let_def)
    show ?thesis using I right unfolding e
      by (intro exI [of _ D] exI [of _ L] exI [of _ C] exI [of _ s]) (simp add: loop_end_def)
  next
    case inside
    show ?thesis
    proof (cases "ladded s \<or> fl_type q = F_UNLCK")
      case True
      have "lock_loop s (fl # R) = lock_loop (free_lock fl (s\<lparr>ladded := True\<rparr>)) R"
        using True inside g by (cases "ladded s") (simp_all add: Let_def sa)
      then show ?thesis using Cons.IH [OF linv_drop [OF I True inside(2,4)]] by simp
    next
      case False
      then have "lock_loop s (fl # R) = lock_loop (take_over (replace_lock fl s)) R"
        using inside g by (simp add: Let_def)
      then show ?thesis using Cons.IH [OF linv_replace [OF I _ _ inside(2,4)]] False by simp
    qed
  next
    case left
    have "lock_loop s (fl # R) =
        lock_loop (next_lock fl (s\<lparr>ladded := ladded s \<or> fl_type q = F_UNLCK, lleft := Some (fl_addr fl)\<rparr>)) R"
      using left g by (auto simp: Let_def)
    then show ?thesis using Cons.IH [OF linv_left [OF I left(2,3,4,1)]] by simp
  qed
qed

section \<open>The result\<close>

text \<open>What \<open>lock_it\<close> leaves: either it failed and nothing has changed, or the owner holds the requested type on
  the requested bytes and what it held elsewhere.\<close>

definition set_on :: "file_lock \<Rightarrow> (int \<Rightarrow> int \<Rightarrow> bool) \<Rightarrow> int \<Rightarrow> int \<Rightarrow> bool" where
  "set_on q H ty x \<longleftrightarrow>
     (if fl_start q \<le> x \<and> x \<le> fl_end q then fl_type q \<noteq> F_UNLCK \<and> ty = fl_type q else H ty x)"

definition lock_post ::
  "file_lock \<Rightarrow> file_lock list \<Rightarrow> (int \<Rightarrow> int \<Rightarrow> bool) \<Rightarrow> nat multiset \<Rightarrow> file_lock list \<Rightarrow> nat list \<Rightarrow> bool" where
  "lock_post q P H M ls fr \<longleftrightarrow>
     sorted_wrt apart ls \<and> (\<forall>f\<in>set ls. lock_ok f) \<and> slots ls fr = M \<and> owned_from P q ls \<and>
     (\<forall>ty x. held ls (fl_owner q) ty x \<longleftrightarrow> set_on q H ty x)"

text \<open>The new lock between what is left of the old ones.\<close>

lemma assemble:
  assumes I: "linv q P H Ls Fr M D L C s R"
    and L1: "L1 = [] \<or> (\<exists>l0 a w. L1 = [l0\<lparr>fl_addr := a, fl_owner := fl_owner q, fl_wait := w, fl_end := fl_start (lcal s) - 1\<rparr>] \<and>
        fl_owner l0 = fl_owner q \<and> lock_ok l0 \<and> fl_start l0 < fl_start (lcal s) \<and> (\<forall>d\<in>set D. apart d l0))"
    and K: "K = [] \<and> fl_type q = F_UNLCK \<or>
      (\<exists>k. K = [k] \<and> fl_owner k = fl_owner q \<and> fl_type k = fl_type q \<and> fl_start k = fl_start (lcal s) \<and> fl_end k = fl_end (lcal s)) \<and> fl_type q \<in> {F_RDLCK, F_WRLCK}"
    and R1: "\<forall>r\<in>set R1. fl_end (lcal s) < fl_start r \<and> fl_owner r = fl_owner q \<and> lock_ok r" "sorted_wrt apart R1"
    and out: "\<And>ty x. \<not> (fl_start (lcal s) \<le> x \<and> x \<le> fl_end (lcal s)) \<Longrightarrow>
      held (L @ R) (fl_owner q) ty x \<longleftrightarrow> held (L1 @ R1) (fl_owner q) ty x"
    and m: "slots (D @ L1 @ K @ R1) fr = M"
  shows "lock_post q P H M (D @ L1 @ K @ R1) fr"
proof -
  have g: "fl_start (lcal s) \<le> fl_start q" "fl_end q \<le> fl_end (lcal s)" "0 \<le> fl_start (lcal s)" "fl_end (lcal s) \<le> OFFSET_MAX"
    "fl_start q \<le> fl_end q" "fl_type q = F_UNLCK \<longrightarrow> fl_start (lcal s) = fl_start q \<and> fl_end (lcal s) = fl_end q"
    using I by (auto simp: linv_def grown_def)
  have D: "sorted_wrt apart D" "\<forall>d\<in>set D. lock_ok d" "\<forall>d\<in>set D. fl_owner d = fl_owner q \<longrightarrow> fl_end d < fl_start (lcal s)"
    using I by (simp_all add: linv_def around_def sorted_wrt_append)
  have Lp: "\<forall>l\<in>set L1. fl_owner l = fl_owner q \<and> fl_end l < fl_start (lcal s) \<and> lock_ok l \<and> (\<forall>d\<in>set D. apart d l)" "sorted_wrt apart L1"
    using L1 g by (auto simp: lock_ok_def apart_def)
  have Kp: "\<forall>k\<in>set K. fl_owner k = fl_owner q \<and> fl_start k = fl_start (lcal s) \<and> fl_end k = fl_end (lcal s) \<and> lock_ok k" "sorted_wrt apart K"
    using K g by (auto simp: lock_ok_def)
  have cs: "fl_start (lcal s) \<le> fl_end (lcal s)" using g by linarith
  have "apart d f" if "d \<in> set D" "f \<in> set (L1 @ K @ R1)" for d f
    using that D(3) Lp(1) Kp(1) R1(1) cs unfolding apart_def by fastforce
  moreover have "apart l f" if "l \<in> set L1" "f \<in> set (K @ R1)" for l f
    using that Lp(1) Kp(1) R1(1) cs unfolding apart_def by fastforce
  moreover have "apart k r" if "k \<in> set K" "r \<in> set R1" for k r
    using that Kp(1) R1(1) unfolding apart_def by fastforce
  ultimately have srt: "sorted_wrt apart (D @ L1 @ K @ R1)"
    using D(1) Lp(2) Kp(2) R1(2) by (simp add: sorted_wrt_append)
  have ok: "\<forall>f\<in>set (D @ L1 @ K @ R1). lock_ok f" using D Lp Kp R1 by auto
  have own: "owned_from P q (D @ L1 @ K @ R1)"
  proof -
    obtain D1 where "D = P @ D1" "\<forall>d\<in>set D1. fl_owner d = fl_owner q"
      using I by (auto simp: linv_def owned_from_def)
    then show ?thesis unfolding owned_from_def using Lp Kp R1 by (intro exI [of _ "D1 @ L1 @ K @ R1"]) auto
  qed
  have h: "held (D @ L1 @ K @ R1) (fl_owner q) ty x \<longleftrightarrow> set_on q H ty x" for ty x
  proof (cases "fl_start (lcal s) \<le> x \<and> x \<le> fl_end (lcal s)")
    case True
    have "\<not> held D (fl_owner q) ty x" using D(3) True unfolding held_def by fastforce
    moreover have "\<not> held L1 (fl_owner q) ty x" using Lp(1) True unfolding held_def by fastforce
    moreover have "\<not> held R1 (fl_owner q) ty x" using R1(1) True unfolding held_def by fastforce
    moreover have "held K (fl_owner q) ty x \<longleftrightarrow> fl_type q \<noteq> F_UNLCK \<and> ty = fl_type q"
      using K True by (auto simp: held_def)
    moreover have "set_on q H ty x \<longleftrightarrow> fl_type q \<noteq> F_UNLCK \<and> ty = fl_type q"
      using I True g(6) by (auto simp: set_on_def linv_def keeps_held_def)
    ultimately show ?thesis by simp
  next
    case False
    have "\<not> held K (fl_owner q) ty x" using Kp(1) False unfolding held_def by fastforce
    moreover have "set_on q H ty x \<longleftrightarrow> held (D @ L @ R) (fl_owner q) ty x"
      using I False g(1,2) by (auto simp: set_on_def linv_def keeps_held_def)
    ultimately show ?thesis using out [OF False, of ty] by simp
  qed
  show ?thesis unfolding lock_post_def using srt ok own h m by blast
qed


lemma truncate_fields [simp]: "lfree (ltab.truncate s) = lfree s" "lkern (ltab.truncate s) = lkern s"
  by (simp_all add: ltab.truncate_def)

text \<open>The last phase when nothing has to be split: trim the neighbours.\<close>

lemma lock_trim:
  assumes I: "linv q P H Ls Fr M D L C s0 R" and e: "loop_end q s0 s R"
    and ns: "\<not> (lright s \<noteq> None \<and> lleft s = lright s)"
    and c: "fl_start c = fl_start (lcal s0)" "fl_end c = fl_end (lcal s0)"
    and K: "K = [] \<and> fl_type q = F_UNLCK \<or>
      (\<exists>k. K = [k] \<and> fl_owner k = fl_owner q \<and> fl_type k = fl_type q \<and> fl_start k = fl_start (lcal s0) \<and> fl_end k = fl_end (lcal s0)) \<and> fl_type q \<in> {F_RDLCK, F_WRLCK}"
    and d: "distinct (map fl_addr (D @ L @ K @ R))" and m: "slots (D @ L @ K @ R) fr = M"
  shows "lock_post q P H M (cut_left c (lleft s) (cut_right c s (D @ L @ K @ R))) fr"
proof -
  have ar: "around q (lcal s0) D L R" and l: "left_ok q (lcal s0) (lleft s0) L" and g: "grown q (lcal s0)"
    and rn: "lright s0 = None"
    using I by (simp_all add: linv_def)
  have mx: "0 \<le> fl_start c" "fl_end c \<le> OFFSET_MAX" "0 \<le> fl_end c" using g c by (auto simp: grown_def)
  have R: "\<forall>r\<in>set R. fl_owner r = fl_owner q \<and> lock_ok r" "sorted_wrt apart R" "\<forall>f\<in>set L. lock_ok f"
    "\<forall>f\<in>set L. \<forall>d\<in>set D. apart d f"
    using ar by (auto simp: around_def sorted_wrt_append)
  define L1 where "L1 = map (\<lambda>f. f\<lparr>fl_end := fl_start c - 1\<rparr>) L"
  have L1: "L1 = [] \<or> (\<exists>l0 a w. L1 = [l0\<lparr>fl_addr := a, fl_owner := fl_owner q, fl_wait := w, fl_end := fl_start (lcal s0) - 1\<rparr>] \<and>
        fl_owner l0 = fl_owner q \<and> lock_ok l0 \<and> fl_start l0 < fl_start (lcal s0) \<and> (\<forall>d\<in>set D. apart d l0))"
  proof (cases L)
    case (Cons l0 L')
    then have "L1 = [l0\<lparr>fl_addr := fl_addr l0, fl_owner := fl_owner q, fl_wait := fl_wait l0, fl_end := fl_start (lcal s0) - 1\<rparr>]"
      using l c by (auto simp: L1_def left_ok_def)
    then show ?thesis using Cons l R(3,4) 
      by (intro disjI2 exI [of _ l0] exI [of _ "fl_addr l0"] exI [of _ "fl_wait l0"]) (auto simp: left_ok_def)
  qed (simp add: L1_def)
  have hL: "held L (fl_owner q) ty x \<longleftrightarrow> held L1 (fl_owner q) ty x"
    if "\<not> (fl_start (lcal s0) \<le> x \<and> x \<le> fl_end (lcal s0))" for ty x
    using l that c by (auto simp: L1_def left_ok_def)
  have adr: "map fl_addr L1 = map fl_addr L" by (simp add: L1_def comp_def)
  have cutl: "cut_left c (lleft s0) (D @ L @ K @ R1) = D @ L1 @ K @ R1" if "map fl_addr R1 = map fl_addr R" for R1
  proof -
    have "fl_addr ` set R1 = fl_addr ` set R" using that by (metis list.set_map)
    then show ?thesis using l d by (auto simp: cut_left_def L1_def left_ok_def upd_lock_other image_iff)
  qed
  have fin: "lock_post q P H M (D @ L1 @ K @ R1) fr"
    if "\<forall>r\<in>set R1. fl_end (lcal s0) < fl_start r \<and> fl_owner r = fl_owner q \<and> lock_ok r" "sorted_wrt apart R1"
      "\<And>ty x. \<not> (fl_start (lcal s0) \<le> x \<and> x \<le> fl_end (lcal s0)) \<Longrightarrow>
        held R (fl_owner q) ty x \<longleftrightarrow> held R1 (fl_owner q) ty x" "map fl_addr R1 = map fl_addr R" for R1
  proof -
    have m1: "slots (D @ L1 @ K @ R1) fr = M" using m that(4) adr by (simp add: slots_def flip: mset_map)
    show ?thesis using assemble [OF I L1 K that(1,2) _ m1] hL that(3) by simp
  qed
  from e consider (clean) "s = s0" "\<forall>r\<in>set R. fl_end (lcal s0) < fl_start r"
    | (right) r R' where "R = r # R'" "fl_start (lcal s0) \<le> fl_end r" "fl_start r \<le> fl_end (lcal s0)" "fl_end (lcal s0) < fl_end r"
      "lright s = Some (fl_addr r)" "lleft s = (if fl_start r < fl_start (lcal s0) then Some (fl_addr r) else lleft s0)"
    by (auto simp: loop_end_def)
  then show ?thesis
  proof cases
    case clean
    have "lock_post q P H M (D @ L1 @ K @ R) fr" using clean R by (intro fin) auto
    then show ?thesis using clean rn cutl [of R] by (simp add: cut_right_def)
  next
    case right
    have nl: "fl_start (lcal s0) \<le> fl_start r" "lleft s = lleft s0" using ns right(5,6) by (auto split: if_splits)
    define R1 where "R1 = r\<lparr>fl_start := fl_end c + 1\<rparr> # R'"
    have ok: "lock_ok r" "fl_owner r = fl_owner q" using R(1) right(1) by auto
    have w: "s32 (fl_end c + 1) = fl_end c + 1"
      using mx right(4) ok(1) c by (intro s32_id) (auto simp: lock_ok_def)
    have cr: "cut_right c s (D @ L @ K @ R) = D @ L @ K @ R1"
      using d right(1,5) w by (auto simp: cut_right_def R1_def upd_lock_other image_iff)
    have "lock_post q P H M (D @ L1 @ K @ R1) fr"
    proof (rule fin)
      have "\<forall>x\<in>set R'. fl_end r < fl_start x" using R(1,2) right(1) by (auto simp: apart_def)
      then show "\<forall>r\<in>set R1. fl_end (lcal s0) < fl_start r \<and> fl_owner r = fl_owner q \<and> lock_ok r"
        using R(1) right(1,4) c mx ok by (auto simp: R1_def lock_ok_def)
      show "sorted_wrt apart R1" using R(2) right(1) by (simp add: R1_def apart_def)
      show "held R (fl_owner q) ty x = held R1 (fl_owner q) ty x"
        if "\<not> (fl_start (lcal s0) \<le> x \<and> x \<le> fl_end (lcal s0))" for ty x
        using that right(3,4) nl(1) c by (auto simp: R1_def right(1))
      show "map fl_addr R1 = map fl_addr R" by (simp add: R1_def right(1))
    qed
    then show ?thesis using cutl [of R1] cr nl(2) by (simp add: R1_def right(1))
  qed
qed


text \<open>A lock that sticks out on both sides: before the loop met it, it had met nothing else.\<close>

lemma split_alone:
  assumes I: "linv q P H Ls Fr M D L C s0 (r # R')" and r: "fl_start r < fl_start (lcal s0)"
  shows "L = []" "C = []" "\<not> ladded s0" "D @ r # R' = Ls" "lfree s0 = Fr"
proof -
  show na: "\<not> ladded s0" using I r by (auto simp: linv_def placed_def)
  show l: "L = []" using I r by (fastforce simp: linv_def around_def left_ok_def sorted_wrt_append apart_def)
  show "C = []" using I na by (auto simp: linv_def placed_def)
  show "D @ r # R' = Ls" "lfree s0 = Fr" using I na l by (simp_all add: linv_def)
qed

lemma lock_cut_both:
  assumes I: "linv q P H Ls Fr M D [] C s0 (r # R')"
    and r: "fl_start r < fl_start (lcal s0)" "fl_start (lcal s0) \<le> fl_end r" "fl_end (lcal s0) < fl_end r"
    and c: "fl_start c = fl_start (lcal s0)" "fl_end c = fl_end (lcal s0)"
    and K: "K = [] \<and> fl_type q = F_UNLCK \<or>
      (\<exists>k. K = [k] \<and> fl_owner k = fl_owner q \<and> fl_type k = fl_type q \<and> fl_start k = fl_start (lcal s0) \<and> fl_end k = fl_end (lcal s0)) \<and> fl_type q \<in> {F_RDLCK, F_WRLCK}"
    and l: "l = r\<lparr>fl_addr := a, fl_owner := fl_owner q, fl_wait := []\<rparr>"
    and s: "lright s = Some (fl_addr r)"
    and d: "distinct (map fl_addr (D @ l # K @ r # R'))" and m: "slots (D @ l # K @ r # R') fr = M"
  shows "lock_post q P H M (cut_left c (Some (fl_addr l)) (cut_right c s (D @ l # K @ r # R'))) fr"
proof -
  have ar: "around q (lcal s0) D [] (r # R')" and g: "grown q (lcal s0)" using I by (simp_all add: linv_def)
  have R: "fl_owner r = fl_owner q" "lock_ok r" "\<forall>x\<in>set R'. fl_owner x = fl_owner q \<and> lock_ok x \<and> fl_end r < fl_start x"
    "sorted_wrt apart R'" "\<forall>x\<in>set R'. apart r x" "\<forall>d\<in>set D. apart d r"
    using ar by (auto simp: around_def sorted_wrt_append apart_def)
  have w: "s32 (fl_end c + 1) = fl_end c + 1"
    using g r(3) R(2) c by (intro s32_id) (auto simp: grown_def lock_ok_def)
  let ?l = "r\<lparr>fl_addr := a, fl_owner := fl_owner q, fl_wait := [], fl_end := fl_start (lcal s0) - 1\<rparr>"
  let ?r = "r\<lparr>fl_start := fl_end c + 1\<rparr>"
  have e: "cut_left c (Some (fl_addr l)) (cut_right c s (D @ l # K @ r # R')) = D @ [?l] @ K @ ?r # R'"
    using d s w c by (auto simp: cut_left_def cut_right_def upd_lock_other image_iff l)
  show ?thesis unfolding e
  proof (rule assemble [OF I _ K])
    show "[?l] = [] \<or> (\<exists>l0 a w. [?l] = [l0\<lparr>fl_addr := a, fl_owner := fl_owner q, fl_wait := w, fl_end := fl_start (lcal s0) - 1\<rparr>] \<and>
        fl_owner l0 = fl_owner q \<and> lock_ok l0 \<and> fl_start l0 < fl_start (lcal s0) \<and> (\<forall>d\<in>set D. apart d l0))"
      using R(1,2,6) r(1) by (intro disjI2 exI [of _ r] exI [of _ a] exI [of _ "[]"]) simp
    show "\<forall>x\<in>set (?r # R'). fl_end (lcal s0) < fl_start x \<and> fl_owner x = fl_owner q \<and> lock_ok x"
      using R(1-3) r(3) c g by (auto simp: lock_ok_def grown_def)
    show "sorted_wrt apart (?r # R')" using R(4,5) by (simp add: apart_def)
    show "held ([] @ r # R') (fl_owner q) ty x \<longleftrightarrow> held ([?l] @ ?r # R') (fl_owner q) ty x"
      if "\<not> (fl_start (lcal s0) \<le> x \<and> x \<le> fl_end (lcal s0))" for ty x
      using that R(1) r c g by (auto simp: grown_def)
    show "slots (D @ [?l] @ K @ ?r # R') fr = M" using m by (simp add: slots_def l)
  qed
qed


section \<open>The whole list\<close>

lemma lock_loop_append:
  assumes "\<forall>f\<in>set S. fl_owner f = fl_owner (lcal s)" "B = [] \<or> fl_owner (hd B) \<noteq> fl_owner (lcal s)"
  shows "lock_loop s (S @ B) = (fst (lock_loop s S), snd (lock_loop s S) @ B)"
  using assms
proof (induction S arbitrary: s)
  case Nil
  then show ?case by (cases B) auto
next
  case (Cons fl S)
  have m: "fl_owner (lcal (snd (merge_locks fl s))) = fl_owner (lcal s)" "fl_owner (fst (merge_locks fl s)) = fl_owner fl"
    by (simp_all add: merge_locks_def set_caller_def Let_def)
  have o1: "fl_owner (lcal (case_prod free_lock (merge_locks fl s))) = fl_owner (lcal s)"
    using m by (simp add: case_prod_beta)
  have o2: "fl_owner (lcal (take_over (merge_locks fl s))) = fl_owner fl"
    using m by (simp add: take_over_def case_prod_beta)
  have o3: "fl_owner (lcal (take_over (replace_lock fl s'))) = fl_owner fl" for s'
    by (simp add: take_over_def replace_lock_def)
  have o4: "lcal (next_lock fl s') = lcal s'" for s' by (simp add: next_lock_def)
  show ?case using Cons.prems Cons.IH o1 o2 o3 o4 by (simp add: Let_def)
qed

lemma cut_append:
  "cut_right c s (X @ B) = cut_right c s X @ cut_right c s B" "cut_left c a (X @ B) = cut_left c a X @ cut_left c a B"
  by (auto simp: cut_right_def cut_left_def split: option.splits)

lemma cut_other:
  "(\<And>a. lright s = Some a \<Longrightarrow> a \<notin> fl_addr ` set B) \<Longrightarrow> cut_right c s B = B"
  "(\<And>a. l = Some a \<Longrightarrow> a \<notin> fl_addr ` set B) \<Longrightarrow> cut_left c l B = B"
  by (auto simp: cut_right_def cut_left_def upd_lock_other split: option.splits)

lemma lock_split_append:
  assumes "\<And>a. lright s = Some a \<Longrightarrow> a \<notin> fl_addr ` set B \<and> (\<exists>f\<in>set rest. fl_addr f = a)"
    "\<And>a. lleft s = Some a \<Longrightarrow> a \<notin> fl_addr ` set B" "set (lfree s) \<inter> fl_addr ` set B = {}"
    "lock_split c s rest = (r, t, ls)"
  shows "lock_split c s (rest @ B) = (r, t, ls @ B)"
proof (cases "lright s \<noteq> None \<and> lleft s = lright s")
  case True
  then obtain a where a: "lright s = Some a" "lleft s = Some a" by auto
  then obtain f where f: "find (\<lambda>f. Some (fl_addr f) = lright s) rest = Some f"
    using assms(1) [OF a(1)] by (cases "find (\<lambda>f. Some (fl_addr f) = lright s) rest") (auto simp: find_None_iff)
  have ne: "rest \<noteq> []" using f by auto
  have fB: "find (\<lambda>f. Some (fl_addr f) = lright s) (rest @ B) = Some f"
    using f by (induction rest) auto
  show ?thesis
  proof (cases "alloc_lock f (ltab.truncate s)")
    case None
    then show ?thesis using assms(4) True f fB ne by (cases "ladded s") (auto simp: lock_split_def a)
  next
    case (Some p)
    obtain l t' where p: "p = (l, t')" by (cases p)
    have "fl_addr l \<in> set (lfree s)" using Some p by (auto simp: alloc_lock_def split: list.splits)
    then have B: "cut_left c (Some (fl_addr l)) (cut_right c s B) = B"
      using assms(1,3) cut_other by (metis disjoint_iff option.inject)
    have "cut_left c (Some (fl_addr l)) (cut_right c s (ldone s @ l # rest @ B)) =
        cut_left c (Some (fl_addr l)) (cut_right c s (ldone s @ l # rest)) @ B"
      using cut_append(1) [of c s "ldone s @ l # rest" B] B by (simp add: cut_append(2))
    then show ?thesis using assms(4) True f fB Some p by (simp add: lock_split_def)
  qed
next
  case False
  have "cut_left c (lleft s) (cut_right c s B) = B" using assms(1,2) by (simp add: cut_other)
  then show ?thesis using assms(4) False by (auto simp: lock_split_def cut_append)
qed

lemma owners_regroup:
  fixes p b :: "'a list"
  assumes "distinct (remdups_adj (p @ replicate n x @ b))" "x \<notin> set p" "b = [] \<or> hd b \<noteq> x" "n = 0 \<Longrightarrow> b = []"
  shows "x \<notin> set b" "distinct (remdups_adj (p @ replicate k x @ b))"
proof -
  have rep: "remdups_adj (replicate j x @ b) = (if j = 0 then remdups_adj b else x # remdups_adj b)" for j
    using assms(3) by (subst remdups_adj_append') (auto simp: remdups_adj_replicate hd_replicate)
  have px: "p = [] \<or> last p \<noteq> x" using assms(2) last_in_set by fastforce
  have split: "remdups_adj (p @ replicate j x @ b) = remdups_adj p @ remdups_adj (replicate j x @ b)"
    if "j = 0 \<Longrightarrow> set p \<inter> set b = {}" for j
  proof (rule remdups_adj_append')
    show "p = [] \<or> replicate j x @ b = [] \<or> last p \<noteq> hd (replicate j x @ b)"
    proof (cases "j = 0 \<and> p \<noteq> [] \<and> b \<noteq> []")
      case True
      then have "last p \<in> set p" "hd b \<in> set b" "set p \<inter> set b = {}" using that by simp_all
      then have "last p \<noteq> hd b" by force
      then show ?thesis using True by simp
    next
      case False
      then show ?thesis using px by (cases j) auto
    qed
  qed
  have "x \<notin> set b \<and> set p \<inter> set b = {} \<and> distinct (remdups_adj p) \<and> distinct (remdups_adj b)"
  proof (cases n)
    case 0
    then show ?thesis using assms(1,4) by simp
  next
    case (Suc m)
    then show ?thesis using assms(1) split [of n] rep [of n] by auto
  qed
  then show "x \<notin> set b" "distinct (remdups_adj (p @ replicate k x @ b))"
    using split [of k] rep [of k] assms(2) by auto
qed


section \<open>The call\<close>

lemma slots_distinct:
  assumes "slots ls fr = M" "\<forall>a. count M a \<le> 1"
  shows "distinct (map fl_addr ls @ fr)"
proof -
  have "mset (map fl_addr ls @ fr) = M" using assms(1) by (simp add: slots_def)
  then show ?thesis using assms(2) by (intro distinct_count_le) simp
qed

lemma lock_split_post:
  assumes I: "linv q P H Ls Fr M D L C s0 R" and e: "loop_end q s0 s R"
    and c: "fl_start c = fl_start (lcal s0)" "fl_end c = fl_end (lcal s0)"
    and K: "C @ N = [] \<and> fl_type q = F_UNLCK \<or>
      (\<exists>k. C @ N = [k] \<and> fl_owner k = fl_owner q \<and> fl_type k = fl_type q \<and> fl_start k = fl_start (lcal s0) \<and> fl_end k = fl_end (lcal s0)) \<and> fl_type q \<in> {F_RDLCK, F_WRLCK}"
    and s1: "ldone s1 = D @ L @ C" "lleft s1 = lleft s" "lright s1 = lright s" "ladded s1 = ladded s" "current (lkern s1) = fl_owner q"
    and N: "N = [] \<and> ladded s \<and> lfree s1 = lfree s0 \<or> (\<exists>n. N = [n] \<and> \<not> ladded s \<and> lfree s0 = fl_addr n # lfree s1)"
    and r: "lock_split c s1 (N @ R) = (r, t, X)"
  shows "r = 0 \<and> lock_post q P H M X (lfree t) \<or> r = - ENOLCK \<and> X = Ls \<and> lfree t = Fr"
proof -
  have m: "slots (D @ L @ (C @ N) @ R) (lfree s1) = M" "\<forall>a. count M a \<le> 1"
    using I N by (auto simp: linv_def slots_def ac_simps)
  note d = slots_distinct [OF m]
  have cr: "cut_right c s1 = cut_right c s" by (rule ext) (simp add: cut_right_def s1(3))
  show ?thesis
  proof (cases "lright s \<noteq> None \<and> lleft s = lright s")
    case False
    then have "X = cut_left c (lleft s) (cut_right c s (D @ L @ (C @ N) @ R))" "r = 0" "lfree t = lfree s1"
      using r cr by (auto simp: lock_split_def s1)
    then show ?thesis using lock_trim [OF I e False c K conjunct1 [OF d [unfolded distinct_append [of _ "lfree s1"]]] m(1)] by simp
  next
    case True
    have "lright s0 = None" using I by (simp add: linv_def)
    then obtain r0 R' where R: "R = r0 # R'" "fl_start (lcal s0) \<le> fl_end r0" "fl_end (lcal s0) < fl_end r0"
      "lright s = Some (fl_addr r0)" "lleft s = (if fl_start r0 < fl_start (lcal s0) then Some (fl_addr r0) else lleft s0)"
      using e True by (auto simp: loop_end_def)
    have "lleft s0 \<noteq> Some (fl_addr r0)" using I d R(1) by (auto simp: linv_def left_ok_def)
    then have r0: "fl_start r0 < fl_start (lcal s0)" using True R(4,5) by (auto split: if_splits)
    note A = split_alone [OF I [unfolded R(1)] r0]
    have f: "find (\<lambda>f. Some (fl_addr f) = lright s1) (N @ R) = Some r0"
      using N R(1,4) d by (auto simp: s1)
    show ?thesis
    proof (cases "alloc_lock r0 (ltab.truncate s1)")
      case None
      then have e0: "lfree s1 = []" by (auto simp: alloc_lock_def split: list.splits)
      show ?thesis using r None f True N A R(1) e0 by (auto simp: lock_split_def s1)
    next
      case (Some p)
      obtain l t' where p: "p = (l, t')" by (cases p)
      obtain a fr where fr: "lfree s1 = a # fr" "l = r0\<lparr>fl_addr := a, fl_owner := fl_owner q, fl_wait := []\<rparr>" "lfree t' = fr"
        using Some p s1(5) by (auto simp: alloc_lock_def split: list.splits)
      have X: "X = cut_left c (Some (fl_addr l)) (cut_right c s (D @ l # (C @ N) @ r0 # R'))" "r = 0" "t = t'"
        using r Some p f True A R(1) cr by (auto simp: lock_split_def s1)
      have m1: "slots (D @ l # (C @ N) @ r0 # R') fr = M" using m(1) fr A(1) R(1)
        by (simp add: slots_def ac_simps add_mset_commute)
      have "lock_post q P H M X fr"
        unfolding X(1) using lock_cut_both [OF I [unfolded R(1) A(1)] r0 R(2,3) c K fr(2) R(4) _ m1]
          conjunct1 [OF slots_distinct [OF m1 m(2), unfolded distinct_append [of _ fr]]] by blast
      then show ?thesis using X fr(3) by simp
    qed
  qed
qed


lemma lock_finish_post:
  assumes I: "linv q P H Ls Fr M D L C s0 R" and e: "loop_end q s0 s R" and ty: "fl_type q \<in> {F_RDLCK, F_WRLCK, F_UNLCK}"
    and B: "\<forall>f\<in>set B. fl_addr f \<notin># M" and r: "lock_finish s (R @ B) = (r, t, ls)"
  shows "\<exists>X. ls = X @ B \<and> (r = 0 \<and> lock_post q P H M X (lfree t) \<or> r \<in> {- EINVAL, - ENOLCK} \<and> X = Ls \<and> lfree t = Fr)"
proof -
  have s: "ldone s = D @ L @ C" "lcal s = lcal s0" "lfree s = lfree s0" "lkern s = lkern s0" "ladded s0 \<Longrightarrow> ladded s"
    "ladded s \<Longrightarrow> ladded s0 \<or> fl_type q = F_UNLCK" "fl_type q = F_UNLCK \<Longrightarrow> \<not> ladded s \<Longrightarrow> s = s0"
    using e I by (auto simp: loop_end_def linv_def)
  have g: "fl_type (lcal s0) = fl_type q" "fl_owner (lcal s0) = fl_owner q" "current (lkern s0) = fl_owner q"
    using I by (simp_all add: linv_def grown_def)
  have M: "slots (D @ L @ C @ R) (lfree s0) = M" using I by (simp add: linv_def)
  then have inM: "f \<in> set (D @ L @ C @ R) \<Longrightarrow> fl_addr f \<in># M" "a \<in> set (lfree s0) \<Longrightarrow> a \<in># M" for f a
    by (auto simp: slots_def)
  have lr: "\<exists>f\<in>set R. fl_addr f = a" if "lright s = Some a" for a
  proof -
    have "lright s0 = None" using I by (simp add: linv_def)
    then show ?thesis using that e by (auto simp: loop_end_def)
  qed
  have ll: "\<exists>f\<in>set (L @ R). fl_addr f = a" if "lleft s = Some a" for a
  proof -
    have "lleft s = lleft s0 \<or> (\<exists>r R'. R = r # R' \<and> lleft s = Some (fl_addr r))"
      using e by (auto simp: loop_end_def)
    moreover have "left_ok q (lcal s0) (lleft s0) L" using I by (simp add: linv_def)
    ultimately show ?thesis using that by (auto simp: left_ok_def)
  qed
  have nB: "a \<notin> fl_addr ` set B" if "a \<in># M" for a using that B by auto
  have app: "lock_split c s1 (N @ R @ B) = (r', t', X @ B)"
    if "lock_split c s1 (N @ R) = (r', t', X)" "lright s1 = lright s" "lleft s1 = lleft s" "set (lfree s1) \<subseteq> set (lfree s0)" for c s1 N r' t' X
  proof -
    have "lock_split c s1 ((N @ R) @ B) = (r', t', X @ B)"
    proof (rule lock_split_append [OF _ _ _ that(1)])
      show "a \<notin> fl_addr ` set B \<and> (\<exists>f\<in>set (N @ R). fl_addr f = a)" if "lright s1 = Some a" for a
        using lr [of a] that \<open>lright s1 = lright s\<close> inM(1) nB by fastforce
      show "a \<notin> fl_addr ` set B" if "lleft s1 = Some a" for a
        using ll [of a] that \<open>lleft s1 = lleft s\<close> inM(1) nB by fastforce
      show "set (lfree s1) \<inter> fl_addr ` set B = {}" using that(4) inM(2) nB by fastforce
    qed
    then show ?thesis by simp
  qed
  show ?thesis
  proof (cases "ladded s")
    case True
    have K: "C @ [] = [] \<and> fl_type q = F_UNLCK \<or>
      (\<exists>k. C @ [] = [k] \<and> fl_owner k = fl_owner q \<and> fl_type k = fl_type q \<and> fl_start k = fl_start (lcal s0) \<and> fl_end k = fl_end (lcal s0)) \<and> fl_type q \<in> {F_RDLCK, F_WRLCK}"
      using I True s(6) ty g by (auto simp: linv_def placed_def)
    obtain r' t' X where sp: "lock_split (lcal s0) s R = (r', t', X)" by (cases "lock_split (lcal s0) s R")
    have "lock_finish s (R @ B) = (r', t', X @ B)"
      using app [of "lcal s0" s "[]"] sp True s by (simp add: lock_finish_def)
    moreover have "r' = 0 \<and> lock_post q P H M X (lfree t') \<or> r' = - ENOLCK \<and> X = Ls \<and> lfree t' = Fr"
      by (rule lock_split_post [OF I e refl refl K s(1) refl refl refl]) (use True s(3,4) g sp in simp_all)
    ultimately show ?thesis using r by auto
  next
    case False
    then have na: "\<not> ladded s0" using s(5) by blast
    have C: "C = []" "D @ L @ R = Ls" "lfree s0 = Fr" using I na by (auto simp: linv_def placed_def)
    show ?thesis
    proof (cases "fl_type q = F_UNLCK")
      case True
      have "lock_finish s (R @ B) = (- EINVAL, ltab.truncate s, Ls @ B)"
        using True False by (simp add: lock_finish_def s(1,2) g(1) C(1) flip: C(2))
      then show ?thesis using r s(3) C(3) by (intro exI [of _ Ls]) simp
    next
      case nun: False
      show ?thesis
      proof (cases "alloc_lock (lcal s) (ltab.truncate s)")
        case None
        have "lock_finish s (R @ B) = (- ENOLCK, ltab.truncate s, Ls @ B)"
          using None False nun by (simp add: lock_finish_def s(1,2) g(1) C(1) flip: C(2))
        then show ?thesis using r s(3) C(3) by (intro exI [of _ Ls]) simp
      next
        case (Some p)
        obtain n u where p: "p = (n, u)" by (cases p)
        obtain a fr where fr: "lfree s0 = a # fr" "n = (lcal s0)\<lparr>fl_addr := a, fl_owner := fl_owner q, fl_wait := []\<rparr>" "lfree u = fr" "lkern u = lkern s0"
          using Some p by (auto simp: alloc_lock_def s(2-4) g(3) split: list.splits)
        let ?s = "s\<lparr>lfree := lfree u, lkern := lkern u\<rparr>"
        obtain r' t' X where sp: "lock_split n ?s (n # R) = (r', t', X)" by (cases "lock_split n ?s (n # R)")
        have "lock_finish s (R @ B) = (r', t', X @ B)"
          using app [of n ?s "[n]" r' t' X] sp False Some p nun fr(1,3) by (simp add: lock_finish_def s(2) g(1) subset_insertI)
        moreover have "r' = 0 \<and> lock_post q P H M X (lfree t') \<or> r' = - ENOLCK \<and> X = Ls \<and> lfree t' = Fr"
        proof (rule lock_split_post [OF I e, where c = n and N = "[n]" and ?s1.0 = ?s])
          show "C @ [n] = [] \<and> fl_type q = F_UNLCK \<or>
            (\<exists>k. C @ [n] = [k] \<and> fl_owner k = fl_owner q \<and> fl_type k = fl_type q \<and> fl_start k = fl_start (lcal s0) \<and> fl_end k = fl_end (lcal s0)) \<and> fl_type q \<in> {F_RDLCK, F_WRLCK}"
            using C(1) fr(2) g(1) nun ty by auto
        qed (use sp s(1) fr g(3) False in simp_all)
        ultimately show ?thesis using r by auto
      qed
    qed
  qed
qed

text \<open>A well-formed request: what \<open>copy_flock\<close> and the checks before \<open>lock_it\<close> let through.\<close>

definition req_ok :: "file_lock \<Rightarrow> bool" where
  "req_ok q \<longleftrightarrow> 0 \<le> fl_start q \<and> fl_start q \<le> fl_end q \<and> fl_end q \<le> OFFSET_MAX \<and>
     fl_type q \<in> {F_RDLCK, F_WRLCK, F_UNLCK}"

text \<open>The one case the code gets wrong is excluded: a lock up to the end of the file on top of one of the same type.\<close>

definition no_wrap :: "file_lock \<Rightarrow> file_lock list \<Rightarrow> bool" where
  "no_wrap q ls \<longleftrightarrow> fl_end q < OFFSET_MAX \<or> (\<forall>f\<in>set ls. fl_owner f = fl_owner q \<longrightarrow> fl_type f \<noteq> fl_type q)"

lemma owner_segments:
  fixes ls :: "file_lock list"
  assumes "distinct (remdups_adj (map fl_owner ls))"
  obtains S B where "dropWhile (\<lambda>f. x \<noteq> fl_owner f) ls = S @ B" "\<forall>f\<in>set S. fl_owner f = x"
    "\<forall>f\<in>set B. fl_owner f \<noteq> x" "S = [] \<longrightarrow> B = []"
    "S = takeWhile (\<lambda>f. x = fl_owner f) (dropWhile (\<lambda>f. x \<noteq> fl_owner f) ls)"
    "\<forall>X. (\<forall>f\<in>set X. fl_owner f = x) \<longrightarrow>
       distinct (remdups_adj (map fl_owner (takeWhile (\<lambda>f. x \<noteq> fl_owner f) ls @ X @ B)))"
proof -
  define pre where "pre = takeWhile (\<lambda>f. x \<noteq> fl_owner f) ls"
  define post where "post = dropWhile (\<lambda>f. x \<noteq> fl_owner f) ls"
  define S where "S = takeWhile (\<lambda>f. x = fl_owner f) post"
  define B where "B = dropWhile (\<lambda>f. x = fl_owner f) post"
  have sp: "post = S @ B" "ls = pre @ S @ B" by (simp_all add: S_def B_def post_def pre_def)
  have S: "\<forall>f\<in>set S. fl_owner f = x" by (auto simp: S_def dest: set_takeWhileD)
  have rep: "map fl_owner X = replicate (length X) x" if "\<forall>f\<in>set X. fl_owner f = x" for X :: "file_lock list"
    using that by (induction X) auto
  have hB: "map fl_owner B = [] \<or> hd (map fl_owner B) \<noteq> x"
    using dropWhile_eq_Cons_conv [of "\<lambda>f. x = fl_owner f" post "hd B" "tl B"] by (cases B) (auto simp: B_def)
  have pr: "x \<notin> set (map fl_owner pre)" by (auto simp: pre_def dest: set_takeWhileD)
  have SB: "S = [] \<Longrightarrow> B = []"
  proof (cases post)
    case (Cons p ps)
    then have "x = fl_owner p"
      using dropWhile_eq_Cons_conv [of "\<lambda>f. x \<noteq> fl_owner f" ls p ps] by (simp add: post_def)
    then show "S = [] \<Longrightarrow> B = []" using Cons by (simp add: S_def)
  qed (simp add: B_def)
  have d: "distinct (remdups_adj (map fl_owner pre @ replicate (length S) x @ map fl_owner B))"
    using assms rep [OF S] sp(2) by simp
  note G = owners_regroup [OF d pr hB]
  show thesis
  proof (rule that [OF sp(1) [unfolded post_def] S])
    show "S = [] \<longrightarrow> B = []" using SB by blast
    show "\<forall>f\<in>set B. fl_owner f \<noteq> x" using G(1) SB by auto
    show "S = takeWhile (\<lambda>f. x = fl_owner f) (dropWhile (\<lambda>f. x \<noteq> fl_owner f) ls)" by (simp add: S_def post_def)
    show "\<forall>X. (\<forall>f\<in>set X. fl_owner f = x) \<longrightarrow>
        distinct (remdups_adj (map fl_owner (takeWhile (\<lambda>f. x \<noteq> fl_owner f) ls @ X @ B)))"
    proof (intro allI impI)
      fix X :: "file_lock list" assume "\<forall>f\<in>set X. fl_owner f = x"
      from rep [OF this] show "distinct (remdups_adj (map fl_owner (takeWhile (\<lambda>f. x \<noteq> fl_owner f) ls @ X @ B)))"
        using G(2) [of "length X"] SB by (simp add: pre_def)
    qed
  qed
qed

lemma lock_it_result:
  assumes wf: "wf_locks ls" and dis: "distinct (map fl_addr ls @ lfree t)" and own: "fl_owner q = current (lkern t)"
    and q: "req_ok q" "no_wrap q ls" and r: "lock_it q t ls = (r, t', ls')"
  shows "r = 0 \<and> wf_locks ls' \<and> slots ls' (lfree t') = slots ls (lfree t) \<and>
      (\<forall>ow ty x. held ls' ow ty x \<longleftrightarrow>
         (if ow = fl_owner q then set_on q (held ls ow) ty x else held ls ow ty x)) \<or>
    r \<in> {- EINVAL, - ENOLCK} \<and> ls' = ls \<and> lfree t' = lfree t"
proof -
  define ow where "ow = fl_owner q"
  define pre where "pre = takeWhile (\<lambda>f. ow \<noteq> fl_owner f) ls"
  have od: "distinct (remdups_adj (map fl_owner ls))" using wf by (simp add: wf_locks_def)
  obtain S B where S: "dropWhile (\<lambda>f. ow \<noteq> fl_owner f) ls = S @ B" "\<forall>f\<in>set S. fl_owner f = ow"
    "\<forall>f\<in>set B. fl_owner f \<noteq> ow" "S = [] \<longrightarrow> B = []"
    "S = takeWhile (\<lambda>f. ow = fl_owner f) (dropWhile (\<lambda>f. ow \<noteq> fl_owner f) ls)"
    and grp: "\<forall>X. (\<forall>f\<in>set X. fl_owner f = ow) \<longrightarrow> distinct (remdups_adj (map fl_owner (pre @ X @ B)))"
    by (rule owner_segments [OF od, where x = ow, folded pre_def])
  have ls: "ls = pre @ S @ B" unfolding pre_def S(1) [symmetric] by simp
  have pre: "\<forall>f\<in>set pre. fl_owner f \<noteq> ow" by (auto simp: pre_def dest: set_takeWhileD)
  define H where "H = held ls ow"
  define M where "M = slots (pre @ S) (lfree t)"
  define s where "s = (ltab.extend t (lit.fields pre q None None None False) :: lit)"
  have sf: "ldone s = pre" "lcal s = q" "lcid s = None" "lleft s = None" "lright s = None" "\<not> ladded s"
    "lfree s = lfree t" "lkern s = lkern t"
    by (simp_all add: s_def ltab.defs lit.defs)
  have cnt: "\<forall>a. count M a \<le> 1"
  proof
    fix a
    have "distinct (map fl_addr (pre @ S) @ lfree t)" using dis by (auto simp: ls)
    then show "count M a \<le> 1"
      by (simp add: M_def slots_def distinct_count_atmost_1 flip: mset_append mset_map)
  qed
  have I: "linv q pre H (pre @ S) (lfree t) M pre [] [] s S"
  proof -
    have "around q q pre [] S" using wf S(2) pre q(2) ls
      by (auto simp: around_def wf_locks_def sorted_wrt_append no_wrap_def ow_def)
    moreover have "keeps_held q H q (pre @ S)" using S(3) by (auto simp: keeps_held_def H_def ls held_def ow_def)
    moreover have "grown q q" using q(1) by (auto simp: grown_def req_ok_def)
    ultimately show ?thesis using own cnt sf
      by (simp add: linv_def M_def left_ok_def placed_def owned_from_def)
  qed
  obtain D L C s0 where J: "linv q pre H (pre @ S) (lfree t) M D L C s0 (snd (lock_loop s S))"
    and e: "loop_end q s0 (fst (lock_loop s S)) (snd (lock_loop s S))"
    using lock_loop_inv [OF I] by blast
  have "lock_loop s (S @ B) = (fst (lock_loop s S), snd (lock_loop s S) @ B)"
    by (rule lock_loop_append) (use S(2,3) sf(2) in \<open>cases B; simp add: ow_def\<close>)+
  then have lf: "lock_finish (fst (lock_loop s S)) (snd (lock_loop s S) @ B) = (r, t', ls')"
    using S(1) r by (simp add: lock_it_def s_def pre_def ow_def Let_def)
  have BM: "\<forall>f\<in>set B. fl_addr f \<notin># M" using dis by (auto simp: ls M_def slots_def)
  have ty: "fl_type q \<in> {F_RDLCK, F_WRLCK, F_UNLCK}" using q(1) by (simp add: req_ok_def)
  obtain X where X: "ls' = X @ B"
    "r = 0 \<and> lock_post q pre H M X (lfree t') \<or> r \<in> {- EINVAL, - ENOLCK} \<and> X = pre @ S \<and> lfree t' = lfree t"
    using lock_finish_post [OF J e ty BM lf] by blast
  show ?thesis
  proof (cases "r = 0")
    case False
    then show ?thesis using X by (auto simp: ls)
  next
    case True
    then have post: "lock_post q pre H M X (lfree t')" using X(2) by auto
    obtain X1 where X1: "X = pre @ X1" "\<forall>f\<in>set X1. fl_owner f = ow"
      using post by (auto simp: lock_post_def owned_from_def ow_def)
    have "sorted_wrt apart (X @ B)"
      using post wf X1 S(3) by (auto simp: lock_post_def wf_locks_def ls sorted_wrt_append apart_def)
    then have w: "wf_locks ls'" using post wf grp [rule_format, OF X1(2) [rule_format]] X(1) X1(1) by (auto simp: wf_locks_def lock_post_def ls)
    have sl: "slots ls' (lfree t') = slots ls (lfree t)"
      using post X(1) by (auto simp: lock_post_def M_def slots_def ls ac_simps)
    have h: "held ls' w ty x \<longleftrightarrow> (if w = fl_owner q then set_on q (held ls w) ty x else held ls w ty x)" for w ty x
    proof (cases "w = ow")
      case True
      have "\<not> held B ow ty x" using S(3) by (auto simp: held_def)
      then show ?thesis using True post X(1) by (simp add: lock_post_def ow_def H_def)
    next
      case False
      have "\<not> held X1 w ty x" "\<not> held S w ty x" using False X1(2) S(2) by (auto simp: held_def)
      then show ?thesis using False X(1) X1(1) by (simp add: ls ow_def)
    qed
    show ?thesis using True w sl h by blast
  qed
qed

end
