(* ===== verification/Fcntl.thy ===== *)
theory Fcntl
  imports Locks
begin

text \<open>
  Open files: the lock calls of \<^verbatim>\<open>fs/locks.c\<close> on the files of the calling task, duplicating and closing
  descriptors (\<^verbatim>\<open>fs/fcntl.c\<close>, \<^verbatim>\<open>fs/open.c\<close>) and the table of open files (\<^verbatim>\<open>fs/file_table.c\<close>). The
  operations of file systems that closing a file calls (\<^verbatim>\<open>f_op->release\<close>, \<^verbatim>\<open>iput\<close>) are arguments.
\<close>

section \<open>Access\<close>

abbreviation (input) EMFILE :: int where "EMFILE \<equiv> 24"

definition cur_filp :: "u32 \<Rightarrow> fs \<Rightarrow> nat option" where
  "cur_filp fd s = (if fd \<ge> NR_OPEN then None else filp s (current (kernl s)) ! unat fd)"

definition ltab_of :: "fs \<Rightarrow> ltab" where
  "ltab_of s = \<lparr>lkern = kernl s, lfree = file_lock_free_list s\<rparr>"

definition set_flock :: "nat \<Rightarrow> file_lock list \<Rightarrow> fs \<Rightarrow> fs" where
  "set_flock ino ls s = s\<lparr>inodes := (inodes s)(ino := (inodes s ino)\<lparr>i_flock := ls\<rparr>)\<rparr>"

definition put_ltab :: "ltab \<Rightarrow> fs \<Rightarrow> fs" where
  "put_ltab t s = s\<lparr>kernl := lkern t, file_lock_free_list := lfree t\<rparr>"

definition put_umem :: "(umem \<Rightarrow> umem) \<Rightarrow> fs \<Rightarrow> fs" where
  "put_umem f s = s\<lparr>kernl := (kernl s)\<lparr>umem := f (umem (kernl s))\<rparr>\<rparr>"

section \<open>Asking for and setting locks\<close>

definition fcntl_getlk :: "u32 \<Rightarrow> u32 \<Rightarrow> fs \<Rightarrow> int \<times> fs" where
  "fcntl_getlk fd l s =
     (case cur_filp fd s of
        None \<Rightarrow> (- EBADF, s)
      | Some fp \<Rightarrow>
          let error = verify_area VERIFY_WRITE l 16
          in if error \<noteq> 0 then (error, s)
             else
               let fl = read_flock (umem (kernl s)) l
               in if l_type fl = F_UNLCK then (- EINVAL, s)
                  else
                    (case copy_flock (current (kernl s)) (files s fp) (inodes s) fl of
                       None \<Rightarrow> (- EINVAL, s)
                     | Some q \<Rightarrow>
                         (case find (conflict q) (i_flock (inodes s (the (f_inode (files s fp))))) of
                            Some b \<Rightarrow>
                              (0, put_umem (write_flock
                                 \<lparr>l_type = fl_type b, l_whence = fl_whence b, l_start = fl_start b,
                                  l_len = (if fl_end b = OFFSET_MAX then 0 else fl_end b - fl_start b + 1),
                                  l_pid = pid (tasks (kernl s) (fl_owner b))\<rparr> l) s)
                          | None \<Rightarrow> (0, put_umem (write_flock (fl\<lparr>l_type := F_UNLCK\<rparr>) l) s))))"

text \<open>The access check; the result is the request with a BSD type turned into the POSIX one.\<close>

definition lock_mode :: "u16 \<Rightarrow> file_lock \<Rightarrow> file_lock option" where
  "lock_mode m q =
     (if fl_type q = F_RDLCK then if m AND 1 = 0 then None else Some q
      else if fl_type q = F_WRLCK then if m AND 2 = 0 then None else Some q
      else if fl_type q = F_SHLCK then if m AND 3 = 0 then None else Some (q\<lparr>fl_type := F_RDLCK\<rparr>)
      else if fl_type q = F_EXLCK then if m AND 3 = 0 then None else Some (q\<lparr>fl_type := F_WRLCK\<rparr>)
      else Some q)"

text \<open>Sleeping on a lock found in the way: the wait queue is in its slot, and on waking the task leaves the queue of
  that slot, whatever lock it holds by then. \<open>env\<close> is what the rest of the system does meanwhile.\<close>

definition lock_sleep :: "(fs \<Rightarrow> fs) \<Rightarrow> nat \<Rightarrow> file_lock \<Rightarrow> fs \<Rightarrow> fs option" where
  "lock_sleep env ino b s =
     (case sleep_on_enter TASK_INTERRUPTIBLE (fl_wait b) (kernl s) of
        None \<Rightarrow> None
      | Some (wq, k) \<Rightarrow>
          let s = set_flock ino (upd_lock (fl_addr b) (\<lambda>f. f\<lparr>fl_wait := wq\<rparr>) (i_flock (inodes s ino))) (s\<lparr>kernl := k\<rparr>);
              s = env s;
              leave = upd_lock (fl_addr b) (\<lambda>f. f\<lparr>fl_wait := sleep_on_leave (fl_wait f) (kernl s)\<rparr>)
          in Some (s\<lparr>inodes := (\<lambda>i. (inodes s i)\<lparr>i_flock := leave (i_flock (inodes s i))\<rparr>)\<rparr>))"

text \<open>The scan at \<open>repeat\<close>. \<open>None\<close>: the fuel is used up, the idle task went to sleep, or the file lost its inode;
  a result \<open>None\<close> inside: no conflict is left.\<close>

fun setlk_scan :: "nat \<Rightarrow> (fs \<Rightarrow> fs) \<Rightarrow> u32 \<Rightarrow> nat \<Rightarrow> file_lock \<Rightarrow> fs \<Rightarrow> (int option \<times> fs) option" where
  "setlk_scan 0 env cmd fp q s = None"
| "setlk_scan (Suc n) env cmd fp q s =
     (case f_inode (files s fp) of
        None \<Rightarrow> None
      | Some ino \<Rightarrow>
          (case find (conflict q) (i_flock (inodes s ino)) of
             None \<Rightarrow> Some (None, s)
           | Some b \<Rightarrow>
               if cmd = F_SETLKW then
                 if signal_pending (kernl s) then Some (Some (- ERESTARTSYS), s)
                 else
                   (case lock_sleep env ino b s of
                      None \<Rightarrow> None
                    | Some s \<Rightarrow>
                        if signal_pending (kernl s) then Some (Some (- ERESTARTSYS), s)
                        else setlk_scan n env cmd fp q s)
               else Some (Some (- EAGAIN), s)))"

definition do_lock :: "nat \<Rightarrow> file_lock \<Rightarrow> fs \<Rightarrow> int \<times> fs" where
  "do_lock ino q s =
     (let (r, t, ls) = lock_it q (ltab_of s) (i_flock (inodes s ino))
      in (r, set_flock ino ls (put_ltab t s)))"

definition fcntl_setlk :: "nat \<Rightarrow> (fs \<Rightarrow> fs) \<Rightarrow> u32 \<Rightarrow> u32 \<Rightarrow> u32 \<Rightarrow> fs \<Rightarrow> (int \<times> fs) option" where
  "fcntl_setlk fuel env fd cmd l s =
     (case cur_filp fd s of
        None \<Rightarrow> Some (- EBADF, s)
      | Some fp \<Rightarrow>
          let error = verify_area VERIFY_WRITE l 16
          in if error \<noteq> 0 then Some (error, s)
             else
               (case copy_flock (current (kernl s)) (files s fp) (inodes s) (read_flock (umem (kernl s)) l) of
                  None \<Rightarrow> Some (- EINVAL, s)
                | Some q \<Rightarrow>
                    (case lock_mode (f_mode (files s fp)) q of
                       None \<Rightarrow> Some (- EBADF, s)
                     | Some q \<Rightarrow>
                         (case (if fl_type q \<noteq> F_UNLCK then setlk_scan fuel env cmd fp q s else Some (None, s)) of
                            None \<Rightarrow> None
                          | Some (Some err, s) \<Rightarrow> Some (err, s)
                          | Some (None, s) \<Rightarrow>
                              (case f_inode (files s fp) of
                                 None \<Rightarrow> None
                               | Some ino \<Rightarrow> Some (do_lock ino q s))))))"

section \<open>Closing\<close>

definition remove_locks :: "tptr \<Rightarrow> nat \<Rightarrow> fs \<Rightarrow> fs" where
  "remove_locks tsk ino s =
     (let (t, ls) = fcntl_remove_locks tsk (ltab_of s) (i_flock (inodes s ino))
      in set_flock ino ls (put_ltab t s))"

definition upd_file :: "nat \<Rightarrow> (file_struct \<Rightarrow> file_struct) \<Rightarrow> fs \<Rightarrow> fs" where
  "upd_file fp f s = s\<lparr>files := (files s)(fp := f (files s fp))\<rparr>"

definition close_fp :: "(nat option \<Rightarrow> nat \<Rightarrow> fs \<Rightarrow> fs) \<Rightarrow> (nat option \<Rightarrow> fs \<Rightarrow> fs) \<Rightarrow> nat \<Rightarrow> fs \<Rightarrow> int \<times> fs" where
  "close_fp rel iput fp s =
     (if f_count (files s fp) = 0 then (0, s)
      else
        let inode = f_inode (files s fp);
            s = (case inode of
                   None \<Rightarrow> s
                 | Some ino \<Rightarrow> if S_ISREG (i_mode (inodes s ino)) then remove_locks (current (kernl s)) ino s else s)
        in if f_count (files s fp) > 1 then (0, upd_file fp (\<lambda>f. f\<lparr>f_count := f_count f - 1\<rparr>) s)
           else
             let s = rel inode fp s;
                 s = upd_file fp (\<lambda>f. f\<lparr>f_count := f_count f - 1, f_inode := None\<rparr>) s
             in (0, iput inode s))"

definition set_fd :: "u32 \<Rightarrow> nat option \<Rightarrow> fs \<Rightarrow> fs" where
  "set_fd fd x s = (let p = current (kernl s) in s\<lparr>filp := (filp s)(p := (filp s p)[unat fd := x])\<rparr>)"

definition set_cloexec :: "u32 \<Rightarrow> bool \<Rightarrow> fs \<Rightarrow> fs" where
  "set_cloexec fd b s =
     (let p = current (kernl s) in s\<lparr>close_on_exec := (close_on_exec s)(p := (close_on_exec s p)[unat fd := b])\<rparr>)"

definition sys_close :: "(nat option \<Rightarrow> nat \<Rightarrow> fs \<Rightarrow> fs) \<Rightarrow> (nat option \<Rightarrow> fs \<Rightarrow> fs) \<Rightarrow> u32 \<Rightarrow> fs \<Rightarrow> int \<times> fs" where
  "sys_close rel iput fd s =
     (if fd \<ge> NR_OPEN then (- EBADF, s)
      else
        let s = set_cloexec fd False s
        in case cur_filp fd s of
             None \<Rightarrow> (- EBADF, s)
           | Some fp \<Rightarrow> close_fp rel iput fp (set_fd fd None s))"

section \<open>Duplicating\<close>

text \<open>\<open>while (arg < NR_OPEN) if (current->filp[arg]) arg++; else break;\<close> The fuel is the number of descriptors.\<close>

fun free_fd :: "nat \<Rightarrow> nat option list \<Rightarrow> nat \<Rightarrow> nat" where
  "free_fd 0 fds arg = arg"
| "free_fd (Suc n) fds arg = (if arg < 256 \<and> fds ! arg \<noteq> None then free_fd n fds (arg + 1) else arg)"

definition dupfd :: "u32 \<Rightarrow> u32 \<Rightarrow> fs \<Rightarrow> int \<times> fs" where
  "dupfd fd arg s =
     (case cur_filp fd s of
        None \<Rightarrow> (- EBADF, s)
      | Some fp \<Rightarrow>
          if arg \<ge> NR_OPEN then (- EINVAL, s)
          else
            let a = free_fd 256 (filp s (current (kernl s))) (unat arg)
            in if a \<ge> 256 then (- EMFILE, s)
               else
                 let s = set_cloexec (of_nat a) False s;
                     s = set_fd (of_nat a) (Some fp) s
                 in (int a, upd_file fp (\<lambda>f. f\<lparr>f_count := f_count f + 1\<rparr>) s))"

definition sys_dup2 :: "(nat option \<Rightarrow> nat \<Rightarrow> fs \<Rightarrow> fs) \<Rightarrow> (nat option \<Rightarrow> fs \<Rightarrow> fs) \<Rightarrow> u32 \<Rightarrow> u32 \<Rightarrow> fs \<Rightarrow> int \<times> fs" where
  "sys_dup2 rel iput oldfd newfd s =
     (if cur_filp oldfd s = None then (- EBADF, s)
      else if newfd = oldfd then (uint newfd, s)
      else if newfd > NR_OPEN then (- EBADF, s)
      else if newfd = NR_OPEN then (- EBADF, s)
      else dupfd oldfd newfd (snd (sys_close rel iput newfd s)))"

definition sys_dup :: "u32 \<Rightarrow> fs \<Rightarrow> int \<times> fs" where
  "sys_dup fildes s = dupfd fildes 0 s"

abbreviation (input) O_APPEND_NONBLOCK :: u16 where "O_APPEND_NONBLOCK \<equiv> 0xc00"

definition S_ISSOCK :: "u16 \<Rightarrow> bool" where
  "S_ISSOCK m \<longleftrightarrow> m AND 0xf000 = 0xc000"

definition sys_fcntl ::
  "nat \<Rightarrow> (fs \<Rightarrow> fs) \<Rightarrow> (nat \<Rightarrow> u32 \<Rightarrow> u32 \<Rightarrow> fs \<Rightarrow> int \<times> fs) \<Rightarrow> u32 \<Rightarrow> u32 \<Rightarrow> u32 \<Rightarrow> fs \<Rightarrow> (int \<times> fs) option" where
  "sys_fcntl fuel env sock fd cmd arg s =
     (case cur_filp fd s of
        None \<Rightarrow> Some (- EBADF, s)
      | Some fp \<Rightarrow>
          if cmd = 0 then Some (dupfd fd arg s)
          else if cmd = 1 then Some (if close_on_exec s (current (kernl s)) ! unat fd then 1 else 0, s)
          else if cmd = 2 then Some (0, set_cloexec fd (arg AND 1 \<noteq> 0) s)
          else if cmd = 3 then Some (uint (f_flags (files s fp)), s)
          else if cmd = 4 then
            Some (0, upd_file fp (\<lambda>f. f\<lparr>f_flags := (f_flags f AND NOT O_APPEND_NONBLOCK) OR (ucast arg AND O_APPEND_NONBLOCK)\<rparr>) s)
          else if cmd = 5 then Some (fcntl_getlk fd arg s)
          else if cmd = 6 then fcntl_setlk fuel env fd cmd arg s
          else if cmd = 7 then fcntl_setlk fuel env fd cmd arg s
          else
            (case f_inode (files s fp) of
               None \<Rightarrow> None
             | Some ino \<Rightarrow> Some (if S_ISSOCK (i_mode (inodes s ino)) then sock fp cmd arg s else (- EINVAL, s))))"

section \<open>The table of open files\<close>

text \<open>The ring of all file structures is the list from \<open>first_file\<close> on along \<open>f_next\<close>.\<close>

definition insert_file_free :: "nat \<Rightarrow> fs \<Rightarrow> fs" where
  "insert_file_free f s = s\<lparr>first_file := f # first_file s\<rparr>"

definition remove_file_free :: "nat \<Rightarrow> fs \<Rightarrow> fs" where
  "remove_file_free f s = s\<lparr>first_file := remove1 f (first_file s)\<rparr>"

definition put_last_free :: "nat \<Rightarrow> fs \<Rightarrow> fs" where
  "put_last_free f s = (let s = remove_file_free f s in s\<lparr>first_file := first_file s @ [f]\<rparr>)"

text \<open>\<open>page\<close> gives the addresses of the structures of a fresh page, in ascending order; \<open>None\<close>: no memory.\<close>

definition grow_files :: "nat list option \<Rightarrow> fs \<Rightarrow> fs" where
  "grow_files page s =
     (case page of
        None \<Rightarrow> s
      | Some fs \<Rightarrow> fold insert_file_free fs (s\<lparr>nr_files := nr_files s + length fs\<rparr>))"

definition empty_file :: file_struct where
  "empty_file = \<lparr>f_mode = 0, f_pos = 0, f_flags = 0, f_count = 0, f_inode = None, f_op = None\<rparr>"

text \<open>The loop at \<open>repeat\<close>: \<open>pages\<close> are the answers of the page allocator, one for each attempt to grow; \<open>None\<close> as the
  result is a loop that does not end with them.\<close>

fun get_empty_filp_loop :: "nat list option list \<Rightarrow> fs \<Rightarrow> (nat option \<times> fs) option" where
  "get_empty_filp_loop pages s =
     (case find (\<lambda>f. f_count (files s f) = 0) (take (nr_files s) (first_file s)) of
        Some f \<Rightarrow>
          let s = remove_file_free f s;
              s = upd_file f (\<lambda>_. empty_file) s;
              s = put_last_free f s
          in Some (Some f, upd_file f (\<lambda>x. x\<lparr>f_count := 1\<rparr>) s)
      | None \<Rightarrow>
          if nr_files s < 1024 then
            (case pages of [] \<Rightarrow> None | p # pages \<Rightarrow> get_empty_filp_loop pages (grow_files p s))
          else Some (None, s))"

definition get_empty_filp :: "nat list option list \<Rightarrow> fs \<Rightarrow> (nat option \<times> fs) option" where
  "get_empty_filp pages s =
     (case first_file s of
        [] \<Rightarrow> (case pages of [] \<Rightarrow> None | p # pages \<Rightarrow> get_empty_filp_loop pages (grow_files p s))
      | _ \<Rightarrow> get_empty_filp_loop pages s)"

section \<open>Exclusion\<close>

text \<open>Locks of different owners on the same byte are read locks.\<close>

definition compatible :: "file_lock list \<Rightarrow> bool" where
  "compatible ls \<longleftrightarrow>
     (\<forall>o1 o2 t1 t2 x. o1 \<noteq> o2 \<and> held ls o1 t1 x \<and> held ls o2 t2 x \<longrightarrow> t1 = F_RDLCK \<and> t2 = F_RDLCK)"

definition locks_ok :: "fs \<Rightarrow> bool" where
  "locks_ok s \<longleftrightarrow>
     (\<forall>i. wf_locks (i_flock (inodes s i)) \<and> compatible (i_flock (inodes s i)) \<and>
          distinct (map fl_addr (i_flock (inodes s i)) @ file_lock_free_list s)) \<and>
     (\<forall>i j. i \<noteq> j \<longrightarrow> fl_addr ` set (i_flock (inodes s i)) \<inter> fl_addr ` set (i_flock (inodes s j)) = {})"

text \<open>A request that ends below the largest offset, or only unlocks.\<close>

definition bounded_req :: "u32 \<Rightarrow> u32 \<Rightarrow> fs \<Rightarrow> bool" where
  "bounded_req fd l s \<longleftrightarrow>
     (case cur_filp fd s of
        None \<Rightarrow> True
      | Some fp \<Rightarrow>
          (case copy_flock (current (kernl s)) (files s fp) (inodes s) (read_flock (umem (kernl s)) l) of
             None \<Rightarrow> True
           | Some q \<Rightarrow> fl_end q < OFFSET_MAX \<or> fl_type q = F_UNLCK))"

lemma s32_wrapped:
  assumes "2147483648 \<le> x" "x < 4294967296"
  shows "s32 x = x - 4294967296"
proof -
  have "(x + 2147483648) mod 4294967296 = ((x - 2147483648) + 4294967296) mod 4294967296"
    by (simp add: add.commute)
  also have "\<dots> = x - 2147483648" using assms unfolding mod_add_self2 by (intro mod_pos_pos_trivial) simp_all
  finally show ?thesis by (simp add: s32_def signed_take_bit_eq_take_bit_shift take_bit_eq_mod)
qed

lemma flock_end_range:
  assumes "0 \<le> st" "in_s32 st" "0 \<le> len" "in_s32 len"
  shows "st \<le> flock_end st len" "flock_end st len \<le> OFFSET_MAX"
proof -
  have "st \<le> s32 (st + len - 1)" if "len \<noteq> 0" "0 \<le> s32 (st + len - 1)"
  proof (cases "st + len - 1 \<le> 2147483647")
    case True
    then show ?thesis using assms that by (simp add: s32_id)
  next
    case False
    then show ?thesis using assms that s32_wrapped [of "st + len - 1"] by (auto simp: in_s32_def)
  qed
  then show "st \<le> flock_end st len" using assms by (auto simp: flock_end_def Let_def in_s32_def)
  show "flock_end st len \<le> OFFSET_MAX" using in_s32_s32 [of "st + len - 1"] by (auto simp: flock_end_def Let_def in_s32_def)
qed

lemma copy_flock_ok:
  assumes "copy_flock p fp inos l = Some q" "in_s32 (l_len l)"
  shows "fl_owner q = p" "0 \<le> fl_start q" "fl_start q \<le> fl_end q" "fl_end q \<le> OFFSET_MAX"
    "fl_type q \<in> {F_RDLCK, F_WRLCK, F_UNLCK, F_EXLCK, F_SHLCK}" "f_inode fp \<noteq> None"
proof -
  obtain ino b where q: "q = \<lparr>fl_addr = 0, fl_owner = p, fl_wait = [], fl_type = l_type l, fl_whence = 0,
      fl_start = s32 (b + l_start l), fl_end = flock_end (s32 (b + l_start l)) (l_len l)\<rparr>"
    and st: "0 \<le> s32 (b + l_start l)" "0 \<le> l_len l"
    and ty: "l_type l \<in> {F_UNLCK, F_RDLCK, F_WRLCK, F_SHLCK, F_EXLCK}" and ino: "f_inode fp = Some ino"
    using assms(1) by (auto simp: copy_flock_def Let_def split: option.splits if_splits)
  show "fl_owner q = p" "0 \<le> fl_start q" "f_inode fp \<noteq> None"
    "fl_type q \<in> {F_RDLCK, F_WRLCK, F_UNLCK, F_EXLCK, F_SHLCK}"
    using q st ty ino by auto
  show "fl_start q \<le> fl_end q" "fl_end q \<le> OFFSET_MAX"
    using q flock_end_range [OF st(1) _ st(2) assms(2)] by simp_all
qed


lemma compatible_set:
  assumes c: "compatible ls" and nc: "fl_type q \<noteq> F_UNLCK \<longrightarrow> (\<forall>f\<in>set ls. \<not> conflict q f)"
    and q: "req_ok q"
    and h: "\<And>ow ty x. held ls' ow ty x \<longleftrightarrow> (if ow = fl_owner q then set_on q (held ls ow) ty x else held ls ow ty x)"
  shows "compatible ls'"
proof -
  have other: "fl_type q = F_RDLCK \<and> t2 = F_RDLCK"
    if "fl_start q \<le> x" "x \<le> fl_end q" "fl_type q \<noteq> F_UNLCK" "o2 \<noteq> fl_owner q" "held ls o2 t2 x" for x o2 t2
  proof -
    from that(5) obtain f where f: "f \<in> set ls" "fl_owner f = o2" "fl_type f = t2" "fl_start f \<le> x" "x \<le> fl_end f"
      by (auto simp: held_def)
    then have "\<not> conflict q f" "overlap q f" using nc that by (auto simp: overlap_def)
    then show ?thesis using f that q by (auto simp: conflict_def req_ok_def split: if_splits)
  qed
  show ?thesis unfolding compatible_def
  proof (intro allI impI, elim conjE)
    fix o1 o2 t1 t2 x assume a: "o1 \<noteq> o2" "held ls' o1 t1 x" "held ls' o2 t2 x"
    have old: "t1 = F_RDLCK \<and> t2 = F_RDLCK" if "held ls o1 t1 x" "held ls o2 t2 x"
      using c a(1) that unfolding compatible_def by blast
    show "t1 = F_RDLCK \<and> t2 = F_RDLCK"
    proof (cases "(o1 = fl_owner q \<or> o2 = fl_owner q) \<and> fl_start q \<le> x \<and> x \<le> fl_end q")
      case True
      then consider "o1 = fl_owner q" "o2 \<noteq> fl_owner q" | "o2 = fl_owner q" "o1 \<noteq> fl_owner q" using a(1) by auto
      then show ?thesis
        using a(2,3) True other [of x o1 t1] other [of x o2 t2] by cases (simp_all add: h set_on_def)
    next
      case False
      then show ?thesis using a(2,3) old by (auto simp: h set_on_def split: if_splits)
    qed
  qed
qed

lemma locks_ok_update:
  assumes s: "locks_ok s" and w: "wf_locks ls" "compatible ls"
    and sl: "slots ls fr = slots (i_flock (inodes s ino)) (file_lock_free_list s)"
    and s': "inodes s' = (inodes s)(ino := (inodes s ino)\<lparr>i_flock := ls\<rparr>)" "file_lock_free_list s' = fr"
  shows "locks_ok s'"
proof -
  let ?l = "\<lambda>i. i_flock (inodes s i)"
  have m: "mset (map fl_addr ls @ fr) = mset (map fl_addr (?l ino) @ file_lock_free_list s)"
    using sl by (simp add: slots_def)
  then have d: "distinct (map fl_addr ls @ fr)"
    using s mset_eq_imp_distinct_iff [OF m] by (simp add: locks_ok_def)
  have st: "fl_addr ` set ls \<union> set fr = fl_addr ` set (?l ino) \<union> set (file_lock_free_list s)"
    using mset_eq_setD [OF m] by simp
  have dis: "(fl_addr ` set ls \<union> set fr) \<inter> fl_addr ` set (?l i) = {}" if "i \<noteq> ino" for i
  proof -
    have "fl_addr ` set (?l ino) \<inter> fl_addr ` set (?l i) = {}" "set (file_lock_free_list s) \<inter> fl_addr ` set (?l i) = {}"
      using s that by (simp_all add: locks_ok_def Int_commute)
    then show ?thesis unfolding st by blast
  qed
  have "distinct (map fl_addr (?l i) @ fr)" if "i \<noteq> ino" for i
    using dis [OF that] d s by (auto simp: locks_ok_def)
  moreover have "fl_addr ` set ls \<inter> fl_addr ` set (?l i) = {}" "fl_addr ` set (?l i) \<inter> fl_addr ` set ls = {}"
    if "i \<noteq> ino" for i
    using dis [OF that] by blast+
  ultimately show ?thesis using s w d unfolding locks_ok_def s' by simp
qed

lemma do_lock_ok:
  assumes s: "locks_ok s" and q: "req_ok q" "fl_owner q = current (kernl s)" "fl_end q < OFFSET_MAX \<or> fl_type q = F_UNLCK"
    and nc: "fl_type q \<noteq> F_UNLCK \<longrightarrow> (\<forall>f\<in>set (i_flock (inodes s ino)). \<not> conflict q f)"
    and r: "do_lock ino q s = (r, s')"
  shows "locks_ok s'" and "r = 0 \<Longrightarrow> held (i_flock (inodes s' ino)) ow ty x \<longleftrightarrow>
      (if ow = fl_owner q then set_on q (held (i_flock (inodes s ino)) ow) ty x
       else held (i_flock (inodes s ino)) ow ty x)"
    and "r \<noteq> 0 \<Longrightarrow> i_flock (inodes s' ino) = i_flock (inodes s ino)"
proof -
  let ?ls = "i_flock (inodes s ino)"
  obtain t ls where l: "lock_it q (ltab_of s) ?ls = (r, t, ls)" and s': "s' = set_flock ino ls (put_ltab t s)"
    using r by (auto simp: do_lock_def split: prod.splits)
  have f: "inodes s' = (inodes s)(ino := (inodes s ino)\<lparr>i_flock := ls\<rparr>)" "file_lock_free_list s' = lfree t"
    by (simp_all add: s' set_flock_def put_ltab_def)
  have ty: "\<forall>f\<in>set ?ls. lock_ok f" "wf_locks ?ls" "compatible ?ls" using s by (auto simp: locks_ok_def wf_locks_def)
  have nw: "no_wrap q ?ls" using q(3) ty(1) by (auto simp: no_wrap_def lock_ok_def)
  have d: "distinct (map fl_addr ?ls @ lfree (ltab_of s))" using s by (simp add: locks_ok_def ltab_of_def)
  have R: "r = 0 \<and> wf_locks ls \<and> slots ls (lfree t) = slots ?ls (lfree (ltab_of s)) \<and>
      (\<forall>ow ty x. held ls ow ty x \<longleftrightarrow> (if ow = fl_owner q then set_on q (held ?ls ow) ty x else held ?ls ow ty x)) \<or>
      r \<in> {- EINVAL, - ENOLCK} \<and> ls = ?ls \<and> lfree t = lfree (ltab_of s)"
    using lock_it_result [OF ty(2) d _ q(1) nw l] q(2) by (simp add: ltab_of_def)
  show "locks_ok s'"
  proof (cases "r = 0")
    case True
    then have h: "wf_locks ls" "slots ls (lfree t) = slots ?ls (file_lock_free_list s)"
      "\<And>ow ty x. held ls ow ty x \<longleftrightarrow> (if ow = fl_owner q then set_on q (held ?ls ow) ty x else held ?ls ow ty x)"
      using R by (auto simp: ltab_of_def)
    show ?thesis by (rule locks_ok_update [OF s h(1) compatible_set [OF ty(3) nc q(1) h(3)] h(2) f])
  next
    case False
    then show ?thesis using R f by (intro locks_ok_update [OF s ty(2,3)]) (auto simp: ltab_of_def)
  qed
  show "r = 0 \<Longrightarrow> held (i_flock (inodes s' ino)) ow ty x \<longleftrightarrow>
      (if ow = fl_owner q then set_on q (held ?ls ow) ty x else held ?ls ow ty x)"
    using R by (auto simp: f(1))
  show "r \<noteq> 0 \<Longrightarrow> i_flock (inodes s' ino) = ?ls" using R by (auto simp: f(1))
qed

text \<open>Wait queues do not matter to what the locks mean.\<close>

definition unwait :: "file_lock \<Rightarrow> file_lock" where
  "unwait f = f\<lparr>fl_wait := []\<rparr>"

lemma unwait_fields [simp]:
  "fl_owner (unwait f) = fl_owner f" "fl_start (unwait f) = fl_start f" "fl_end (unwait f) = fl_end f"
  "fl_type (unwait f) = fl_type f" "fl_addr (unwait f) = fl_addr f" "lock_ok (unwait f) = lock_ok f"
  "apart (unwait f) (unwait g) = apart f g"
  by (simp_all add: unwait_def lock_ok_def apart_def)

lemma unwait_list:
  "wf_locks (map unwait ls) = wf_locks ls" "held (map unwait ls) ow ty x = held ls ow ty x"
  "compatible (map unwait ls) = compatible ls" "map fl_addr (map unwait ls) = map fl_addr ls"
proof -
  show h: "held (map unwait ls) ow ty x = held ls ow ty x" for ow ty x by (auto simp: held_def)
  show "wf_locks (map unwait ls) = wf_locks ls" by (simp add: wf_locks_def sorted_wrt_map comp_def)
  show "compatible (map unwait ls) = compatible ls" by (simp add: compatible_def h)
  show "map fl_addr (map unwait ls) = map fl_addr ls" by (simp add: comp_def)
qed

lemma unwait_upd: "(\<And>f. unwait (g f) = unwait f) \<Longrightarrow> map unwait (upd_lock a g ls) = map unwait ls"
  by (simp add: upd_lock_def)

lemma locks_ok_unwait:
  assumes "locks_ok s" "\<And>i. map unwait (i_flock (inodes s' i)) = map unwait (i_flock (inodes s i))"
    "file_lock_free_list s' = file_lock_free_list s"
  shows "locks_ok s'"
proof -
  let ?l = "\<lambda>i. i_flock (inodes s i)" and ?m = "\<lambda>i. i_flock (inodes s' i)"
  have a: "map fl_addr (?m i) = map fl_addr (?l i)" for i using unwait_list(4) assms(2) by metis
  then have "fl_addr ` set (?m i) = fl_addr ` set (?l i)" for i by (metis list.set_map)
  moreover have "wf_locks (?m i) = wf_locks (?l i)" "compatible (?m i) = compatible (?l i)" for i
    using unwait_list(1,3) assms(2) by metis+
  ultimately show ?thesis using assms(1,3) a by (simp add: locks_ok_def)
qed

text \<open>What the rest of the system may do while a task waits for a lock: it keeps the locks in order, returns to the
  task, and leaves its file open.\<close>

definition lock_env :: "(fs \<Rightarrow> fs) \<Rightarrow> tptr \<Rightarrow> nat \<Rightarrow> bool" where
  "lock_env env p fp \<longleftrightarrow>
     (\<forall>s. locks_ok s \<longrightarrow> locks_ok (env s) \<and> current (kernl (env s)) = p \<and> f_inode (files (env s) fp) = f_inode (files s fp))"

lemma lock_sleep_ok:
  assumes "locks_ok s" "lock_env env p fp" "lock_sleep env ino b s = Some s'"
  shows "locks_ok s'" "current (kernl s') = p" "f_inode (files s' fp) = f_inode (files s fp)"
proof -
  obtain wq k where e: "sleep_on_enter TASK_INTERRUPTIBLE (fl_wait b) (kernl s) = Some (wq, k)"
    using assms(3) by (auto simp: lock_sleep_def split: option.splits)
  let ?s1 = "set_flock ino (upd_lock (fl_addr b) (\<lambda>f. f\<lparr>fl_wait := wq\<rparr>) (i_flock (inodes s ino))) (s\<lparr>kernl := k\<rparr>)"
  have "locks_ok ?s1"
    by (rule locks_ok_unwait [OF assms(1)]) (simp_all add: set_flock_def unwait_upd unwait_def)
  then have E: "locks_ok (env ?s1)" "current (kernl (env ?s1)) = p" "f_inode (files (env ?s1) fp) = f_inode (files ?s1 fp)"
    using assms(2) by (auto simp: lock_env_def)
  have s': "s' = (env ?s1)\<lparr>inodes := (\<lambda>i. (inodes (env ?s1) i)\<lparr>i_flock :=
      upd_lock (fl_addr b) (\<lambda>f. f\<lparr>fl_wait := sleep_on_leave (fl_wait f) (kernl (env ?s1))\<rparr>) (i_flock (inodes (env ?s1) i))\<rparr>)\<rparr>"
    using assms(3) e by (simp add: lock_sleep_def Let_def)
  show "locks_ok s'" by (rule locks_ok_unwait [OF E(1)]) (simp_all add: s' unwait_upd unwait_def)
  show "current (kernl s') = p" "f_inode (files s' fp) = f_inode (files s fp)"
    using E(2,3) by (simp_all add: s' set_flock_def)
qed

lemma setlk_scan_ok:
  assumes "locks_ok s" "lock_env env p fp" "current (kernl s) = p" "f_inode (files s fp) = Some ino"
    "setlk_scan n env cmd fp q s = Some (r, s')"
  shows "locks_ok s' \<and> current (kernl s') = p \<and> f_inode (files s' fp) = Some ino \<and>
    (r = None \<longrightarrow> (\<forall>f\<in>set (i_flock (inodes s' ino)). \<not> conflict q f)) \<and> r \<noteq> Some 0"
  using assms
proof (induction n arbitrary: s)
  case (Suc n)
  let ?ls = "i_flock (inodes s ino)"
  show ?case
  proof (cases "find (conflict q) ?ls")
    case None
    then have "r = None \<and> s' = s" using Suc.prems(4,5) by simp
    moreover have "\<forall>f\<in>set ?ls. \<not> conflict q f" using None by (simp add: find_None_iff)
    ultimately show ?thesis using Suc.prems by simp
  next
    case (Some b)
    show ?thesis
    proof (cases "cmd = F_SETLKW \<and> \<not> signal_pending (kernl s)")
      case False
      then show ?thesis using Suc.prems Some by (auto split: if_splits)
    next
      case True
      then obtain s1 where s1: "lock_sleep env ino b s = Some s1"
        using Suc.prems Some by (auto split: option.splits)
      note K = lock_sleep_ok [OF Suc.prems(1,2) s1]
      show ?thesis
      proof (cases "signal_pending (kernl s1)")
        case sp: True
        then show ?thesis using Suc.prems Some True s1 K by auto
      next
        case ns: False
        then have "setlk_scan n env cmd fp q s1 = Some (r, s')" using Suc.prems(4,5) Some True s1 by simp
        then show ?thesis using Suc.IH [OF K(1) Suc.prems(2) K(2)] K(3) Suc.prems(4) by simp
      qed
    qed
  qed
qed simp

lemma lock_mode_ok:
  assumes "lock_mode m q = Some q'" "fl_type q \<in> {F_RDLCK, F_WRLCK, F_UNLCK, F_EXLCK, F_SHLCK}"
  shows "fl_type q' \<in> {F_RDLCK, F_WRLCK, F_UNLCK}" "fl_start q' = fl_start q" "fl_end q' = fl_end q"
    "fl_owner q' = fl_owner q" "fl_type q' = F_UNLCK \<longleftrightarrow> fl_type q = F_UNLCK"
  using assms by (auto simp: lock_mode_def split: if_splits)


section \<open>A small system\<close>

text \<open>Task 2 has a regular file open for reading and writing as descriptor 0; task 3 has a read lock on its bytes 5 to 9.
  The user's memory has a request for a read lock on bytes 0 to 9 at address 0.\<close>

definition demo_fs :: fs where
  "demo_fs =
     \<lparr>kernl = demo_kernel\<lparr>umem := (\<lambda>a. if a = 8 then 10 else 0)\<rparr>,
      files = (\<lambda>f. \<lparr>f_mode = 3, f_pos = 0, f_flags = 0, f_count = (if f = 5 then 4 else 0), f_inode = Some 7, f_op = None\<rparr>),
      inodes = (\<lambda>i. \<lparr>i_mode = 0x81a4, i_size = 100,
         i_flock = (if i = 7 then [\<lparr>fl_addr = 0, fl_owner = 3, fl_wait = [], fl_type = F_RDLCK, fl_whence = 0, fl_start = 5, fl_end = 9\<rparr>]
                    else [])\<rparr>),
      filp = (\<lambda>_. (replicate 256 None)[0 := Some 5]), close_on_exec = (\<lambda>_. replicate 256 False),
      file_lock_free_list = [1..<64], first_file = [5], nr_files = 1\<rparr>"

definition demo_env :: "fs \<Rightarrow> fs" where
  "demo_env s = s\<lparr>kernl := (kernl s)\<lparr>current := 2\<rparr>\<rparr>"

lemma demo_fs_locks_ok: "locks_ok demo_fs"
  by (auto simp: locks_ok_def demo_fs_def wf_locks_def lock_ok_def compatible_def)

lemma demo_env_ok: "lock_env demo_env 2 fp"
  by (simp add: lock_env_def demo_env_def locks_ok_def)

lemma demo_request:
  "cur_filp 0 demo_fs = Some 5" "current (kernl demo_fs) = 2"
  "copy_flock 2 (files demo_fs 5) (inodes demo_fs) (read_flock (umem (kernl demo_fs)) 0) =
     Some \<lparr>fl_addr = 0, fl_owner = 2, fl_wait = [], fl_type = F_RDLCK, fl_whence = 0, fl_start = 0, fl_end = 9\<rparr>"
  by (simp_all add: cur_filp_def demo_fs_def demo_kernel_def copy_flock_def read_flock_def get_fs_long_def get_fs_word_def
      S_ISREG_def flock_base_def flock_end_def s32_id Let_def)

lemma setlk_scan_nowait:
  assumes "cmd \<noteq> F_SETLKW" "f_inode (files s fp) = Some ino"
  shows "setlk_scan (Suc n) env cmd fp q s =
    Some (if \<exists>f\<in>set (i_flock (inodes s ino)). conflict q f then Some (- EAGAIN) else None, s)"
  using assms by (auto simp: find_None_iff split: option.splits) (metis find_Some_iff nth_mem)

lemma copy_flock_inode: "copy_flock p fp inos fl = Some q \<Longrightarrow> \<exists>ino. f_inode fp = Some ino"
  by (auto simp: copy_flock_def split: option.splits)

text \<open>Without waiting the call always returns.\<close>

lemma setlk_returns:
  assumes "cmd \<noteq> F_SETLKW"
  shows "fcntl_setlk (Suc n) env fd cmd l s \<noteq> None"
proof (cases "cur_filp fd s")
  case (Some fp)
  show ?thesis
  proof (cases "copy_flock (current (kernl s)) (files s fp) (inodes s) (read_flock (umem (kernl s)) l)")
    case q: (Some q)
    then obtain ino where "f_inode (files s fp) = Some ino" using copy_flock_inode by blast
    then show ?thesis using Some q assms setlk_scan_nowait [of cmd s fp ino n env]
      by (auto simp: fcntl_setlk_def Let_def simp del: setlk_scan.simps split: option.split)
  qed (simp add: fcntl_setlk_def Some Let_def)
qed (simp add: fcntl_setlk_def)


section \<open>The lock list as a map\<close>


definition mk_lock :: "tptr \<Rightarrow> int \<Rightarrow> int \<Rightarrow> int \<Rightarrow> file_lock" where
  "mk_lock ow ty a b = \<lparr>fl_addr = 0, fl_owner = ow, fl_wait = [], fl_type = ty, fl_whence = 0, fl_start = a, fl_end = b\<rparr>"

definition demo_ltab :: ltab where
  "demo_ltab = \<lparr>lkern = demo_kernel, lfree = [1, 2, 3]\<rparr>"



section \<open>Closing a file\<close>

lemma free_fold:
  "mset (lfree (fold free_lock fs t)) = mset (map fl_addr fs) + mset (lfree t)"
  "current (lkern (fold free_lock fs t)) = current (lkern t)"
  by (induction fs arbitrary: t) simp_all

lemma remove_locks_ok:
  assumes "locks_ok s"
  shows "locks_ok (remove_locks p ino s)"
    and "held (i_flock (inodes (remove_locks p ino s) ino)) ow ty x \<longleftrightarrow> ow \<noteq> p \<and> held (i_flock (inodes s ino)) ow ty x"
proof -
  let ?ls = "i_flock (inodes s ino)"
  have wf: "wf_locks ?ls" "compatible ?ls" using assms by (auto simp: locks_ok_def)
  define pre where "pre = takeWhile (\<lambda>f. p \<noteq> fl_owner f) ?ls"
  have od: "distinct (remdups_adj (map fl_owner ?ls))" using wf by (simp add: wf_locks_def)
  obtain S B where S: "dropWhile (\<lambda>f. p \<noteq> fl_owner f) ?ls = S @ B" "\<forall>f\<in>set S. fl_owner f = p"
    "\<forall>f\<in>set B. fl_owner f \<noteq> p" "S = [] \<longrightarrow> B = []"
    "S = takeWhile (\<lambda>f. p = fl_owner f) (dropWhile (\<lambda>f. p \<noteq> fl_owner f) ?ls)"
    and grp: "\<forall>X. (\<forall>f\<in>set X. fl_owner f = p) \<longrightarrow> distinct (remdups_adj (map fl_owner (pre @ X @ B)))"
    by (rule owner_segments [OF od, where x = p, folded pre_def])
  have ls: "?ls = pre @ S @ B" unfolding pre_def S(1) [symmetric] by simp
  have "dropWhile (\<lambda>f. p = fl_owner f) (S @ B) = dropWhile (\<lambda>f. p = fl_owner f) B"
    using S(2) by (simp add: dropWhile_append2)
  then have B: "dropWhile (\<lambda>f. p = fl_owner f) (S @ B) = B" using S(3) by (cases B) auto
  have r: "fcntl_remove_locks p (ltab_of s) ?ls = (fold free_lock S (ltab_of s), pre @ B)"
    by (simp add: fcntl_remove_locks_def S(1) S(5) [symmetric, unfolded S(1)] B pre_def)
  have pre: "\<forall>f\<in>set pre. fl_owner f \<noteq> p" by (auto simp: pre_def dest: set_takeWhileD)
  have h: "held (pre @ B) ow ty x \<longleftrightarrow> ow \<noteq> p \<and> held ?ls ow ty x" for ow ty x
    using S(2,3) pre by (auto simp: ls held_def)
  have w: "wf_locks (pre @ B)" using wf(1) grp [rule_format, of "[]"] by (auto simp: wf_locks_def ls sorted_wrt_append)
  have c: "compatible (pre @ B)" using wf(2) unfolding compatible_def h by blast
  have sl: "slots (pre @ B) (lfree (fold free_lock S (ltab_of s))) = slots ?ls (file_lock_free_list s)"
    by (simp add: slots_def free_fold ls ltab_of_def ac_simps)
  show "locks_ok (remove_locks p ino s)"
    by (rule locks_ok_update [OF assms w c sl]) (simp_all add: remove_locks_def r set_flock_def put_ltab_def)
  show "held (i_flock (inodes (remove_locks p ino s) ino)) ow ty x \<longleftrightarrow> ow \<noteq> p \<and> held ?ls ow ty x"
    unfolding h [symmetric] by (simp add: remove_locks_def r set_flock_def put_ltab_def)
qed

section \<open>Reference counts\<close>

text \<open>The descriptors that refer to an open file, over all tasks of the task table.\<close>

definition live :: "fs \<Rightarrow> tptr set" where
  "live s = {p. Some p \<in> set (task (kernl s))}"

definition fd_refs :: "fs \<Rightarrow> nat \<Rightarrow> nat" where
  "fd_refs s f = (\<Sum>p\<in>live s. count_list (filp s p) (Some f))"

text \<open>\<open>ext\<close> counts the references that are not descriptors; they are few.\<close>

definition refs_ok :: "(nat \<Rightarrow> nat) \<Rightarrow> fs \<Rightarrow> bool" where
  "refs_ok ext s \<longleftrightarrow>
     current (kernl s) \<in> live s \<and> (\<forall>p. length (filp s p) = 256) \<and> length (task (kernl s)) = NR_TASKS \<and>
     (\<forall>f. unat (f_count (files s f)) = fd_refs s f + ext f \<and> ext f \<le> 40000)"

lemma finite_live [simp]: "finite (live s)"
proof -
  have "live s \<subseteq> the ` set (task (kernl s))" by (force simp: live_def)
  then show ?thesis by (rule finite_subset) simp
qed

lemma count_list_update:
  "i < length xs \<Longrightarrow>
   count_list (xs[i := y]) z + (if xs ! i = z then 1 else 0) = count_list xs z + (if y = z then 1 else 0)"
proof (induction xs arbitrary: i)
  case (Cons a xs)
  then show ?case
  proof (cases i)
    case (Suc j)
    then show ?thesis using Cons.IH [of j] Cons.prems by (simp split: if_splits)
  qed simp
qed simp

lemma count_list_le: "count_list xs x \<le> length xs"
  by (induction xs) auto

lemma card_live: "length (task (kernl s)) = NR_TASKS \<Longrightarrow> card (live s) \<le> NR_TASKS"
proof -
  assume l: "length (task (kernl s)) = NR_TASKS"
  have "live s \<subseteq> the ` set (task (kernl s))" by (force simp: live_def)
  then have "card (live s) \<le> card (the ` set (task (kernl s)))" by (intro card_mono) auto
  also have "\<dots> \<le> length (task (kernl s))" by (metis card_image_le card_length finite_set le_trans)
  finally show ?thesis using l by simp
qed

lemma fd_refs_bound:
  assumes "refs_ok ext s"
  shows "fd_refs s f \<le> 16384"
proof -
  have "fd_refs s f \<le> (\<Sum>p\<in>live s. 256)"
    unfolding fd_refs_def using assms count_list_le [of _ "Some f"] by (intro sum_mono) (metis refs_ok_def)
  also have "\<dots> \<le> 256 * NR_TASKS" using card_live [of s] assms by (simp add: refs_ok_def)
  finally show ?thesis by simp
qed

lemma fd_refs_set:
  assumes "refs_ok ext s" "unat fd < 256"
  shows "fd_refs (set_fd fd y s) f + (if filp s (current (kernl s)) ! unat fd = Some f then 1 else 0) =
    fd_refs s f + (if y = Some f then 1 else 0)"
proof -
  let ?p = "current (kernl s)" and ?c = "\<lambda>p. count_list (filp s p) (Some f)"
  have p: "?p \<in> live s" and l: "length (filp s ?p) = 256" using assms(1) by (auto simp: refs_ok_def)
  have lv: "live (set_fd fd y s) = live s" by (simp add: live_def set_fd_def Let_def)
  have a: "fd_refs s f = ?c ?p + (\<Sum>p\<in>live s - {?p}. ?c p)"
    unfolding fd_refs_def using p by (intro sum.remove) auto
  have "fd_refs (set_fd fd y s) f =
      count_list ((filp s ?p)[unat fd := y]) (Some f) + (\<Sum>p\<in>live s - {?p}. count_list (filp (set_fd fd y s) p) (Some f))"
    unfolding fd_refs_def lv using p by (subst sum.remove [where x = ?p]) (auto simp: set_fd_def Let_def)
  moreover have "(\<Sum>p\<in>live s - {?p}. count_list (filp (set_fd fd y s) p) (Some f)) = (\<Sum>p\<in>live s - {?p}. ?c p)"
    by (intro sum.cong) (auto simp: set_fd_def Let_def)
  ultimately show ?thesis using a count_list_update [of "unat fd" "filp s ?p" y "Some f"] l assms(2) by simp
qed

lemma fd_refs_cong:
  "filp s' = filp s \<Longrightarrow> task (kernl s') = task (kernl s) \<Longrightarrow> fd_refs s' f = fd_refs s f"
  by (simp add: fd_refs_def live_def)

lemma unat_inc: "unat (c :: u16) \<le> 60000 \<Longrightarrow> unat (c + 1) = unat c + 1"
  by (simp add: unat_word_ariths)

lemma unat_dec: "c \<noteq> 0 \<Longrightarrow> unat ((c :: u16) - 1) = unat c - 1"
  by (rule unat_minus_one)

section \<open>Duplicating\<close>

text \<open>The descriptor found: the lowest free one from \<open>arg\<close> on, or 256.\<close>

lemma free_fd_spec:
  assumes "256 - arg \<le> n" "arg \<le> 256"
  shows "arg \<le> free_fd n fds arg \<and> free_fd n fds arg \<le> 256 \<and> (\<forall>i. arg \<le> i \<and> i < free_fd n fds arg \<longrightarrow> fds ! i \<noteq> None) \<and>
    (free_fd n fds arg < 256 \<longrightarrow> fds ! free_fd n fds arg = None)"
  using assms
proof (induction n fds arg rule: free_fd.induct)
  case (2 n fds arg)
  show ?case
  proof (cases "arg < 256 \<and> fds ! arg \<noteq> None")
    case True
    then have IH: "arg + 1 \<le> free_fd n fds (arg + 1)" "free_fd n fds (arg + 1) \<le> 256"
      "\<forall>i. arg + 1 \<le> i \<and> i < free_fd n fds (arg + 1) \<longrightarrow> fds ! i \<noteq> None"
      "free_fd n fds (arg + 1) < 256 \<longrightarrow> fds ! free_fd n fds (arg + 1) = None"
      using 2 by auto
    have "fds ! i \<noteq> None" if "arg \<le> i" "i < free_fd n fds (arg + 1)" for i
      using that True IH(3) by (cases "i = arg") auto
    then show ?thesis using True IH by auto
  next
    case False
    then show ?thesis using 2 by auto
  qed
qed auto

lemma refs_ok_dup:
  assumes s: "refs_ok ext s" and fd: "unat fd < 256" "filp s (current (kernl s)) ! unat fd = None"
  shows "refs_ok ext (upd_file fp (\<lambda>f. f\<lparr>f_count := f_count f + 1\<rparr>) (set_fd fd (Some fp) (set_cloexec c b s)))"
    (is "refs_ok ext ?t")
proof -
  let ?s = "set_cloexec c b s"
  have s1: "refs_ok ext ?s" "filp ?s = filp s" "kernl ?s = kernl s" "files ?s = files s"
    using s by (simp_all add: set_cloexec_def Let_def refs_ok_def fd_refs_def live_def)
  have r: "fd_refs ?t f = fd_refs s f + (if f = fp then 1 else 0)" for f
    using fd_refs_set [OF s1(1) fd(1), of "Some fp" f] fd(2) s1(2,3) fd_refs_cong [of ?s s f]
      fd_refs_cong [of ?t "set_fd fd (Some fp) ?s" f]
    by (auto simp: upd_file_def)
  have c: "unat (f_count (files ?t f)) = fd_refs ?t f + ext f" for f
  proof -
    have n: "unat (f_count (files s f)) = fd_refs s f + ext f" "ext f \<le> 40000" using s by (auto simp: refs_ok_def)
    then have "unat (f_count (files s f) + 1) = unat (f_count (files s f)) + 1"
      using fd_refs_bound [OF s, of f] by (intro unat_inc) simp
    then show ?thesis using n(1) r [of f] s1(4) by (auto simp: upd_file_def set_fd_def Let_def)
  qed
  show ?thesis using s s1 c by (simp add: refs_ok_def upd_file_def set_fd_def Let_def live_def)
qed

lemma dupfd_free:
  assumes "refs_ok ext s" "cur_filp fd s = Some fp" "arg < NR_OPEN"
  shows "let (r, s') = dupfd fd arg s; fds = filp s (current (kernl s)) in
    refs_ok ext s' \<and>
    (if \<exists>i\<ge>unat arg. i < 256 \<and> fds ! i = None
     then (\<exists>a. r = int a \<and> unat arg \<le> a \<and> a < 256 \<and> fds ! a = None \<and> (\<forall>i. unat arg \<le> i \<and> i < a \<longrightarrow> fds ! i \<noteq> None) \<and>
            filp s' = (filp s)(current (kernl s) := fds[a := Some fp]))
     else r = - EMFILE \<and> s' = s)"
proof -
  let ?fds = "filp s (current (kernl s))" and ?a = "free_fd 256 (filp s (current (kernl s))) (unat arg)"
  have ar: "unat arg < 256" using assms(3) by (simp add: word_less_nat_alt)
  then have F: "unat arg \<le> ?a" "?a \<le> 256" "\<forall>i. unat arg \<le> i \<and> i < ?a \<longrightarrow> ?fds ! i \<noteq> None"
    "?a < 256 \<longrightarrow> ?fds ! ?a = None"
    using free_fd_spec [of "unat arg" 256 ?fds] by auto
  show ?thesis
  proof (cases "?a < 256")
    case True
    have u: "unat (word_of_nat ?a :: u32) = ?a" using True by (simp add: unat_of_nat)
    have d: "dupfd fd arg s = (int ?a, upd_file fp (\<lambda>f. f\<lparr>f_count := f_count f + 1\<rparr>)
        (set_fd (of_nat ?a) (Some fp) (set_cloexec (of_nat ?a) False s)))"
      using assms(2,3) True by (simp add: dupfd_def Let_def)
    have "refs_ok ext (snd (dupfd fd arg s))" unfolding d snd_conv
      by (rule refs_ok_dup [OF assms(1)]) (use True F(4) u in simp_all)
    moreover have "\<exists>i\<ge>unat arg. i < 256 \<and> ?fds ! i = None" using F True by blast
    moreover have "filp (snd (dupfd fd arg s)) = (filp s)(current (kernl s) := ?fds[?a := Some fp])"
      using u by (simp add: d upd_file_def set_fd_def set_cloexec_def Let_def)
    ultimately show ?thesis using F True d by (auto simp: Let_def)
  next
    case False
    then have "\<not> (\<exists>i\<ge>unat arg. i < 256 \<and> ?fds ! i = None)" using F by auto
    moreover have "dupfd fd arg s = (- EMFILE, s)" using False assms(2,3) by (simp add: dupfd_def Let_def)
    ultimately show ?thesis using assms(1) by simp
  qed
qed

text \<open>Duplicating a descriptor: the result is the lowest free descriptor from \<open>arg\<close> on (EMFILE exactly when there
  is none), it refers to the same open file as the original, which keeps its own, no other descriptor of any task
  changes, and the file's reference count is again the number of references.\<close>

theorem dupfd_lowest_free:
  assumes "refs_ok ext s" "cur_filp fd s = Some fp" "arg < NR_OPEN"
  shows "let (r, s') = dupfd fd arg s; fds = filp s (current (kernl s)) in
    refs_ok ext s' \<and>
    (if \<exists>i\<ge>unat arg. i < 256 \<and> fds ! i = None
     then (\<exists>a. r = int a \<and> unat arg \<le> a \<and> a < 256 \<and> fds ! a = None \<and> (\<forall>i. unat arg \<le> i \<and> i < a \<longrightarrow> fds ! i \<noteq> None) \<and>
            filp s' = (filp s)(current (kernl s) := fds[a := Some fp]))
     else r = - EMFILE \<and> s' = s)"
  using assms by (rule dupfd_free)

section \<open>Closing and dup2\<close>

text \<open>What a file system's code must leave alone when a file is released.\<close>

definition quiet :: "(fs \<Rightarrow> fs) \<Rightarrow> bool" where
  "quiet g \<longleftrightarrow> (\<forall>s. filp (g s) = filp s \<and> current (kernl (g s)) = current (kernl s) \<and>
     task (kernl (g s)) = task (kernl s) \<and> (\<forall>f. f_count (files (g s) f) = f_count (files s f)))"

lemma remove_locks_frame [simp]:
  "filp (remove_locks p ino s) = filp s" "files (remove_locks p ino s) = files s"
  "current (kernl (remove_locks p ino s)) = current (kernl s)" "task (kernl (remove_locks p ino s)) = task (kernl s)"
proof -
  have "task (lkern (fold free_lock xs t)) = task (lkern t)" for xs and t :: ltab
    by (induction xs arbitrary: t) (simp_all add: free_lock_def)
  then show "task (kernl (remove_locks p ino s)) = task (kernl s)"
    by (simp add: remove_locks_def fcntl_remove_locks_def Let_def set_flock_def put_ltab_def ltab_of_def)
qed (simp_all add: remove_locks_def fcntl_remove_locks_def Let_def set_flock_def put_ltab_def ltab_of_def free_fold)

text \<open>Closing an open file decrements its count, whatever path it takes.\<close>

lemma close_fp_frame:
  assumes "\<And>i f. quiet (rel i f)" "\<And>i. quiet (iput i)" "f_count (files s fp) \<noteq> 0"
  shows "filp (snd (close_fp rel iput fp s)) = filp s"
    "current (kernl (snd (close_fp rel iput fp s))) = current (kernl s)"
    "task (kernl (snd (close_fp rel iput fp s))) = task (kernl s)"
    "f_count (files (snd (close_fp rel iput fp s)) f) = (if f = fp then f_count (files s fp) - 1 else f_count (files s f))"
    "fst (close_fp rel iput fp s) = 0"
proof -
  define s1 where "s1 = (case f_inode (files s fp) of None \<Rightarrow> s
    | Some ino \<Rightarrow> if S_ISREG (i_mode (inodes s ino)) then remove_locks (current (kernl s)) ino s else s)"
  have a: "filp s1 = filp s" "files s1 = files s" "current (kernl s1) = current (kernl s)" "task (kernl s1) = task (kernl s)"
    by (simp_all add: s1_def split: option.splits)
  have e: "close_fp rel iput fp s =
      (if f_count (files s1 fp) > 1 then (0, upd_file fp (\<lambda>f. f\<lparr>f_count := f_count f - 1\<rparr>) s1)
       else (0, iput (f_inode (files s fp)) (upd_file fp (\<lambda>f. f\<lparr>f_count := f_count f - 1, f_inode := None\<rparr>)
              (rel (f_inode (files s fp)) fp s1))))"
    using assms(3) by (simp add: close_fp_def Let_def s1_def)
  show "filp (snd (close_fp rel iput fp s)) = filp s"
    "current (kernl (snd (close_fp rel iput fp s))) = current (kernl s)"
    "task (kernl (snd (close_fp rel iput fp s))) = task (kernl s)"
    "f_count (files (snd (close_fp rel iput fp s)) f) = (if f = fp then f_count (files s fp) - 1 else f_count (files s f))"
    "fst (close_fp rel iput fp s) = 0"
    using assms(1,2) a by (auto simp: e quiet_def upd_file_def)
qed

lemma refs_pos:
  fixes fd :: u32
  assumes "refs_ok ext s" "unat fd < 256" "filp s (current (kernl s)) ! unat fd = Some fp"
  shows "f_count (files s fp) \<noteq> 0"
proof -
  have "0 < fd_refs s fp" using fd_refs_set [OF assms(1,2), of None fp] assms(3) by simp
  then have "0 < unat (f_count (files s fp))" using assms(1) by (simp add: refs_ok_def)
  then show ?thesis by (auto simp: unat_gt_0)
qed

lemma sys_close_ok:
  assumes s: "refs_ok ext s" and q: "\<And>i f. quiet (rel i f)" "\<And>i. quiet (iput i)" and fd: "fd < NR_OPEN"
  shows "refs_ok ext (snd (sys_close rel iput fd s))"
    and "filp (snd (sys_close rel iput fd s)) = (filp s)(current (kernl s) := (filp s (current (kernl s)))[unat fd := None])"
    and "current (kernl (snd (sys_close rel iput fd s))) = current (kernl s)"
    and "fst (sys_close rel iput fd s) = (if filp s (current (kernl s)) ! unat fd = None then - EBADF else 0)"
proof -
  let ?s = "set_cloexec fd False s" and ?p = "current (kernl s)"
  have u: "unat fd < 256" using fd by (simp add: word_less_nat_alt)
  have s1: "refs_ok ext ?s" "filp ?s = filp s" "kernl ?s = kernl s" "files ?s = files s"
    using s by (simp_all add: set_cloexec_def Let_def refs_ok_def fd_refs_def live_def)
  have cf: "cur_filp fd ?s = filp s ?p ! unat fd" using fd s1 by (auto simp: cur_filp_def)
  have "refs_ok ext (snd (sys_close rel iput fd s)) \<and>
    filp (snd (sys_close rel iput fd s)) = (filp s)(?p := (filp s ?p)[unat fd := None]) \<and>
    current (kernl (snd (sys_close rel iput fd s))) = ?p \<and>
    fst (sys_close rel iput fd s) = (if filp s ?p ! unat fd = None then - EBADF else 0)"
  proof (cases "filp s ?p ! unat fd")
    case None
    then have e: "sys_close rel iput fd s = (- EBADF, ?s)" using fd cf by (auto simp: sys_close_def Let_def)
    have "(filp s ?p)[unat fd := None] = filp s ?p" using None by (metis list_update_id)
    then show ?thesis using s1 None by (simp add: e)
  next
    case (Some fp)
    let ?t = "set_fd fd None ?s"
    have e: "sys_close rel iput fd s = close_fp rel iput fp ?t" using fd cf Some by (auto simp: sys_close_def Let_def)
    have t: "filp ?t = (filp s)(?p := (filp s ?p)[unat fd := None])" "kernl ?t = kernl s" "files ?t = files s"
      using s1 by (simp_all add: set_fd_def Let_def)
    have nz: "f_count (files s fp) \<noteq> 0" using refs_pos [OF s u Some] .
    note C = close_fp_frame [where rel = rel and iput = iput and s = ?t and fp = fp, OF q, unfolded t(2,3), OF nz]
    have r: "fd_refs (snd (close_fp rel iput fp ?t)) f = fd_refs s f - (if f = fp then 1 else 0)" for f
      using fd_refs_set [OF s1(1) u, of None f] Some s1(2,3) fd_refs_cong [of ?s s f]
        fd_refs_cong [of "snd (close_fp rel iput fp ?t)" ?t f] C(1,3) t(2)
      by (auto split: if_splits)
    have c: "unat (f_count (files (snd (close_fp rel iput fp ?t)) f)) = fd_refs (snd (close_fp rel iput fp ?t)) f + ext f" for f
    proof -
      have "unat (f_count (files s f)) = fd_refs s f + ext f" using s by (simp add: refs_ok_def)
      moreover have "0 < fd_refs s fp" using fd_refs_set [OF s u, of None fp] Some by simp
      ultimately show ?thesis unfolding C(4) r using unat_dec [OF nz] by auto
    qed
    have "refs_ok ext (snd (close_fp rel iput fp ?t))"
      using s c C(1-3) t(1) by (simp add: refs_ok_def live_def)
    then show ?thesis using C t Some by (simp add: e)
  qed
  then show "refs_ok ext (snd (sys_close rel iput fd s))"
    "filp (snd (sys_close rel iput fd s)) = (filp s)(?p := (filp s ?p)[unat fd := None])"
    "current (kernl (snd (sys_close rel iput fd s))) = ?p"
    "fst (sys_close rel iput fd s) = (if filp s ?p ! unat fd = None then - EBADF else 0)"
    by simp_all
qed

text \<open>\<open>dup2\<close> for two different descriptors: when the old one is open and the new one is in range, the call returns
  the new descriptor, which then refers to the same file as the old one, whatever it referred to before (that is closed
  first); no other descriptor changes, and every file's reference count is the number of its references.\<close>

theorem dup2_shares_file:
  assumes "refs_ok ext s" "\<And>i f. quiet (rel i f)" "\<And>i. quiet (iput i)"
    "cur_filp oldfd s = Some fp" "newfd \<noteq> oldfd" "newfd < NR_OPEN"
  shows "let (r, s') = sys_dup2 rel iput oldfd newfd s in
    r = uint newfd \<and> refs_ok ext s' \<and>
    filp s' = (filp s)(current (kernl s) := (filp s (current (kernl s)))[unat newfd := Some fp])"
proof -
  let ?p = "current (kernl s)" and ?t = "snd (sys_close rel iput newfd s)"
  note C = sys_close_ok [OF assms(1-3,6)]
  have u: "unat newfd < 256" using assms(6) by (simp add: word_less_nat_alt)
  have l: "length (filp s ?p) = 256" using assms(1) by (simp add: refs_ok_def)
  have o1: "oldfd < NR_OPEN" "filp s ?p ! unat oldfd = Some fp" using assms(4) by (auto simp: cur_filp_def split: if_splits)
  have ne: "unat newfd \<noteq> unat oldfd" using assms(5) by (simp add: word_unat_eq_iff)
  have cf: "cur_filp oldfd ?t = Some fp" using o1 ne C(2,3) by (simp add: cur_filp_def not_le)
  have e: "sys_dup2 rel iput oldfd newfd s = dupfd oldfd newfd ?t"
    using assms(4-6) by (auto simp: sys_dup2_def)
  have fr: "filp ?t ?p ! unat newfd = None" using C(2) u l by simp
  obtain r s' where d: "dupfd oldfd newfd ?t = (r, s')" by (cases "dupfd oldfd newfd ?t")
  have ex: "(\<exists>i\<ge>unat newfd. i < 256 \<and> filp ?t ?p ! i = None) = True" using fr u by blast
  have D: "refs_ok ext s' \<and> (\<exists>a. r = int a \<and> unat newfd \<le> a \<and> a < 256 \<and> filp ?t ?p ! a = None \<and>
      (\<forall>i. unat newfd \<le> i \<and> i < a \<longrightarrow> filp ?t ?p ! i \<noteq> None) \<and> filp s' = (filp ?t)(?p := (filp ?t ?p)[a := Some fp]))"
    using dupfd_free [OF C(1) cf assms(6)] unfolding d C(3) Let_def prod.case ex if_True .
  from D have ro: "refs_ok ext s'" by (rule conjunct1)
  from D obtain a where a: "r = int a" "unat newfd \<le> a" "a < 256" "filp ?t ?p ! a = None"
    "\<forall>i. unat newfd \<le> i \<and> i < a \<longrightarrow> filp ?t ?p ! i \<noteq> None" "filp s' = (filp ?t)(?p := (filp ?t ?p)[a := Some fp])"
    by (elim conjE exE) (rule that)
  have "\<not> unat newfd < a" using a(5) fr by blast
  then have "a = unat newfd" using a(2) by simp
  then show ?thesis using a(1,6) ro e d C(2) by simp
qed

lemma count_list_replicate_None: "count_list (replicate n None) (Some f) = 0"
  by (induction n) auto

lemma demo_fs_live: "live demo_fs = {0, 1, 2, 3}"
  by (auto simp: live_def demo_fs_def demo_kernel_def)

lemma demo_fs_refs: "refs_ok (\<lambda>_. 0) demo_fs"
proof -
  have "count_list ((replicate 256 None)[0 := Some 5]) (Some f) = (if f = (5::nat) then 1 else 0)" for f
    using count_list_update [of 0 "replicate 256 None" "Some 5" "Some f"] by (simp add: count_list_replicate_None)
  then have "fd_refs demo_fs f = (if f = 5 then 4 else 0)" for f
    unfolding fd_refs_def demo_fs_live by (simp add: demo_fs_def)
  moreover have "current (kernl demo_fs) \<in> live demo_fs" by (simp add: demo_fs_live demo_request)
  ultimately show ?thesis by (simp add: refs_ok_def) (simp add: demo_fs_def demo_kernel_def)
qed

theorem dupfd_lowest_free_witness:
  "let (r, s') = dupfd 0 0 demo_fs; fds = filp demo_fs (current (kernl demo_fs)) in
    refs_ok (\<lambda>_. 0) s' \<and>
    (if \<exists>i\<ge>unat (0 :: u32). i < 256 \<and> fds ! i = None
     then (\<exists>a. r = int a \<and> unat (0 :: u32) \<le> a \<and> a < 256 \<and> fds ! a = None \<and>
            (\<forall>i. unat (0 :: u32) \<le> i \<and> i < a \<longrightarrow> fds ! i \<noteq> None) \<and>
            filp s' = (filp demo_fs)(current (kernl demo_fs) := fds[a := Some 5]))
     else r = - EMFILE \<and> s' = demo_fs)"
  by (rule dupfd_lowest_free [OF demo_fs_refs demo_request(1)]) simp

theorem dup2_shares_file_witness:
  "let (r, s') = sys_dup2 (\<lambda>i f s. s) (\<lambda>i s. s) 0 9 demo_fs in
    r = uint (9 :: u32) \<and> refs_ok (\<lambda>_. 0) s' \<and>
    filp s' = (filp demo_fs)(current (kernl demo_fs) := (filp demo_fs (current (kernl demo_fs)))[unat (9 :: u32) := Some 5])"
  by (rule dup2_shares_file [OF demo_fs_refs _ _ demo_request(1)]) (simp_all add: quiet_def)

section \<open>Asking for a lock\<close>

lemma get_fs_word_put_long:
  "a \<notin> {b, b + 1, b + 2, b + 3} \<Longrightarrow> a + 1 \<notin> {b, b + 1, b + 2, b + 3} \<Longrightarrow>
   get_fs_word (put_fs_long v b m) a = get_fs_word m a"
  by (simp add: get_fs_word_def put_fs_long_other)

lemma get_fs_word_put_word:
  "a \<notin> {b, b + 1} \<Longrightarrow> a + 1 \<notin> {b, b + 1} \<Longrightarrow> get_fs_word (put_fs_word v b m) a = get_fs_word m a"
  by (simp add: get_fs_word_def put_fs_word_def)

lemma l_type_write_read:
  assumes "- 32768 \<le> l_type f" "l_type f \<le> 32767"
  shows "l_type (read_flock (write_flock f l m) l) = l_type f"
proof -
  have "get_fs_word (write_flock f l m) l = word_of_int (l_type f)"
    unfolding write_flock_def by (simp add: get_fs_word_put_long get_fs_word_put_word)
  then show ?thesis using assms by (simp add: read_flock_def sint_sbintrunc' signed_take_bit_int_eq_self)
qed

lemma lock_it_codes: "fst (lock_it q t ls) \<in> {0, - EINVAL, - ENOLCK}"
  by (auto simp: lock_it_def lock_finish_def lock_split_def Let_def split: prod.splits option.splits)

text \<open>C38. F_GETLK predicts F_SETLK: for a read or write lock the file is open for, F_GETLK reports a free range
  (F_UNLCK) exactly when an F_SETLK with the same request would not be refused because of another process's lock.\<close>

theorem getlk_predicts_setlk:
  assumes "locks_ok s" "cur_filp fd s = Some fp" "verify_area VERIFY_WRITE l 16 = 0"
    "copy_flock (current (kernl s)) (files s fp) (inodes s) (read_flock (umem (kernl s)) l) = Some q"
    "fl_type q \<in> {F_RDLCK, F_WRLCK}" "lock_mode (f_mode (files s fp)) q = Some q"
  shows "l_type (read_flock (umem (kernl (snd (fcntl_getlk fd l s)))) l) = F_UNLCK \<longleftrightarrow>
    (\<forall>s'. fcntl_setlk (Suc n) env fd F_SETLK l s \<noteq> Some (- EAGAIN, s'))"
proof -
  let ?f = "read_flock (umem (kernl s)) l"
  obtain ino where ino: "f_inode (files s fp) = Some ino" using copy_flock_inode [OF assms(4)] by blast
  let ?ls = "i_flock (inodes s ino)"
  have ty: "l_type ?f = fl_type q" using assms(4) by (auto simp: copy_flock_def Let_def split: option.splits if_splits)
  have get: "fcntl_getlk fd l s =
      (case find (conflict q) ?ls of
         Some b \<Rightarrow> (0, put_umem (write_flock \<lparr>l_type = fl_type b, l_whence = fl_whence b, l_start = fl_start b,
            l_len = (if fl_end b = OFFSET_MAX then 0 else fl_end b - fl_start b + 1),
            l_pid = pid (tasks (kernl s) (fl_owner b))\<rparr> l) s)
       | None \<Rightarrow> (0, put_umem (write_flock (?f\<lparr>l_type := F_UNLCK\<rparr>) l) s))"
    using assms(2-5) ty ino by (auto simp: fcntl_getlk_def Let_def split: option.splits)
  have set: "fcntl_setlk (Suc n) env fd F_SETLK l s =
      (if \<exists>f\<in>set ?ls. conflict q f then Some (- EAGAIN, s) else Some (do_lock ino q s))"
    using assms(2-6) ino setlk_scan_nowait [of F_SETLK s fp ino n env q]
    by (auto simp: fcntl_setlk_def Let_def simp del: setlk_scan.simps)
  show ?thesis
  proof (cases "find (conflict q) ?ls")
    case None
    then have nc: "\<not> (\<exists>f\<in>set ?ls. conflict q f)" by (simp add: find_None_iff)
    obtain r s' where d: "do_lock ino q s = (r, s')" by (cases "do_lock ino q s")
    have "r \<noteq> - EAGAIN" using d lock_it_codes [of q "ltab_of s" ?ls] by (auto simp: do_lock_def split: prod.splits)
    then show ?thesis using None nc d by (simp add: get set put_umem_def l_type_write_read)
  next
    case (Some b)
    then have b: "b \<in> set ?ls" "conflict q b" by (auto simp: find_Some_iff)
    then have "fl_type b \<in> {F_RDLCK, F_WRLCK}" using assms(1) by (auto simp: locks_ok_def wf_locks_def lock_ok_def)
    then show ?thesis using Some b by (auto simp: get set put_umem_def l_type_write_read)
  qed
qed


theorem getlk_predicts_setlk_witness:
  "l_type (read_flock (umem (kernl (snd (fcntl_getlk 0 0 demo_fs)))) 0) = F_UNLCK \<longleftrightarrow>
    (\<forall>s'. fcntl_setlk (Suc 0) demo_env 0 F_SETLK 0 demo_fs \<noteq> Some (- EAGAIN, s'))"
proof (rule getlk_predicts_setlk [OF demo_fs_locks_ok demo_request(1) _ demo_request(3) [folded demo_request(2)]])
  show "lock_mode (f_mode (files demo_fs 5)) \<lparr>fl_addr = 0, fl_owner = current (kernl demo_fs), fl_wait = [],
      fl_type = F_RDLCK, fl_whence = 0, fl_start = 0, fl_end = 9\<rparr> =
    Some \<lparr>fl_addr = 0, fl_owner = current (kernl demo_fs), fl_wait = [],
      fl_type = F_RDLCK, fl_whence = 0, fl_start = 0, fl_end = 9\<rparr>"
    by (simp add: lock_mode_def demo_fs_def)
qed (simp_all add: verify_area_def)

text \<open>F_GETLK does not know the BSD lock types: asked about F_EXLCK or F_SHLCK, which F_SETLK takes for write and
  read locks, it always answers that the range is free.\<close>

theorem getlk_blind_to_bsd_types:
  assumes "cur_filp fd s = Some fp" "verify_area VERIFY_WRITE l 16 = 0"
    "copy_flock (current (kernl s)) (files s fp) (inodes s) (read_flock (umem (kernl s)) l) = Some q"
    "fl_type q \<in> {F_EXLCK, F_SHLCK}"
  shows "fst (fcntl_getlk fd l s) = 0 \<and>
    l_type (read_flock (umem (kernl (snd (fcntl_getlk fd l s)))) l) = F_UNLCK"
proof -
  have ty: "l_type (read_flock (umem (kernl s)) l) = fl_type q"
    using assms(3) by (auto simp: copy_flock_def Let_def split: option.splits if_splits)
  have "find (conflict q) ls = None" for ls using assms(4) by (auto simp: find_None_iff conflict_def)
  then have "fcntl_getlk fd l s =
      (0, put_umem (write_flock ((read_flock (umem (kernl s)) l)\<lparr>l_type := F_UNLCK\<rparr>) l) s)"
    using assms ty by (auto simp: fcntl_getlk_def Let_def)
  then show ?thesis by (simp add: put_umem_def l_type_write_read)
qed

definition demo_bsd :: fs where
  "demo_bsd = demo_fs\<lparr>kernl := (kernl demo_fs)\<lparr>umem := (\<lambda>a. if a = 0 then 4 else if a = 8 then 10 else 0)\<rparr>\<rparr>"

lemma demo_bsd_request:
  "cur_filp 0 demo_bsd = Some 5" "current (kernl demo_bsd) = 2"
  "copy_flock 2 (files demo_bsd 5) (inodes demo_bsd) (read_flock (umem (kernl demo_bsd)) 0) =
     Some \<lparr>fl_addr = 0, fl_owner = 2, fl_wait = [], fl_type = F_EXLCK, fl_whence = 0, fl_start = 0, fl_end = 9\<rparr>"
  by (simp_all add: demo_bsd_def cur_filp_def demo_fs_def demo_kernel_def copy_flock_def read_flock_def get_fs_long_def get_fs_word_def
      S_ISREG_def flock_base_def flock_end_def s32_id Let_def)

theorem getlk_blind_to_bsd_types_witness:
  "fst (fcntl_getlk 0 0 demo_bsd) = 0 \<and> l_type (read_flock (umem (kernl (snd (fcntl_getlk 0 0 demo_bsd)))) 0) = F_UNLCK \<and>
   (\<exists>f\<in>set (i_flock (inodes demo_bsd 7)). conflict (mk_lock 2 F_WRLCK 0 9) f)"
  using getlk_blind_to_bsd_types [OF demo_bsd_request(1) _ demo_bsd_request(3) [folded demo_bsd_request(2)]]
  by (simp add: verify_area_def demo_bsd_def demo_fs_def mk_lock_def conflict_def overlap_def)

section \<open>Finding a free file structure\<close>

text \<open>\<open>get_empty_filp\<close>: while the ring has a free structure the call returns one that nobody uses, cleared and
  with count 1, no other structure changes, and the ring keeps its members.\<close>

theorem get_empty_filp_fresh:
  assumes "f \<in> set (first_file s)" "f_count (files s f) = 0" "nr_files s = length (first_file s)" "distinct (first_file s)"
  shows "\<exists>g s'. get_empty_filp pages s = Some (Some g, s') \<and> f_count (files s g) = 0 \<and>
    files s' = (files s)(g := empty_file\<lparr>f_count := 1\<rparr>) \<and> mset (first_file s') = mset (first_file s) \<and>
    filp s' = filp s"
proof -
  have "find (\<lambda>f. f_count (files s f) = 0) (first_file s) \<noteq> None" using assms(1,2) by (auto simp: find_None_iff)
  then obtain g where g: "find (\<lambda>f. f_count (files s f) = 0) (first_file s) = Some g" by auto
  then have gi: "g \<in> set (first_file s)" "f_count (files s g) = 0" by (auto simp: find_Some_iff)
  have "first_file s \<noteq> []" using gi(1) by auto
  then have e: "get_empty_filp pages s = get_empty_filp_loop pages s"
    by (cases "first_file s") (simp_all add: get_empty_filp_def del: get_empty_filp_loop.simps)
  have "g \<notin> set (remove1 g (first_file s))" using assms(4) by simp
  then have m: "mset (remove1 g (remove1 g (first_file s)) @ [g]) = mset (first_file s)"
    using gi(1) by (simp add: remove1_idem)
  show ?thesis unfolding e using g gi(2) assms(3) m
    by (simp add: upd_file_def remove_file_free_def put_last_free_def Let_def)
qed

theorem get_empty_filp_fresh_witness:
  "\<exists>g s'. get_empty_filp [] (demo_fs\<lparr>first_file := [5, 6], nr_files := 2\<rparr>) = Some (Some g, s') \<and> g = 6"
proof -
  let ?s = "demo_fs\<lparr>first_file := [5, 6], nr_files := 2\<rparr>"
  have "\<exists>g s'. get_empty_filp [] ?s = Some (Some g, s') \<and> f_count (files ?s g) = 0 \<and>
    files s' = (files ?s)(g := empty_file\<lparr>f_count := 1\<rparr>) \<and> mset (first_file s') = mset (first_file ?s) \<and> filp s' = filp ?s"
    by (rule get_empty_filp_fresh [of 6]) (simp_all add: demo_fs_def)
  moreover have "fst (the (get_empty_filp [] ?s)) = Some 6"
    by (simp add: get_empty_filp_def demo_fs_def)
  ultimately show ?thesis by auto
qed


text \<open>Without a free structure and without memory the loop at \<open>repeat\<close> never ends, whatever the number of attempts:
  the failure of \<open>grow_files\<close> is not noticed.\<close>

lemma get_empty_filp_spins:
  assumes "\<forall>f\<in>set (first_file s). f_count (files s f) \<noteq> 0" "nr_files s < 1024"
  shows "get_empty_filp_loop (replicate n None) s = None"
proof (induction n)
  case 0
  have "find (\<lambda>f. f_count (files s f) = 0) (take (nr_files s) (first_file s)) = None"
    using assms(1) by (auto simp: find_None_iff dest: in_set_takeD)
  then show ?case using assms(2) by simp
next
  case (Suc n)
  have "find (\<lambda>f. f_count (files s f) = 0) (take (nr_files s) (first_file s)) = None"
    using assms(1) by (auto simp: find_None_iff dest: in_set_takeD)
  then show ?case using assms(2) Suc by (simp add: grow_files_def)
qed

end
