(* ===== verification/Pipe.thy ===== *)
theory Pipe
  imports Fcntl
begin

text \<open>
  Pipes and FIFOs (\<^verbatim>\<open>fs/pipe.c\<close>, \<^verbatim>\<open>fs/fifo.c\<close>). A pipe is a page used as a ring buffer between \<^verbatim>\<open>tail\<close> and
  \<^verbatim>\<open>head\<close>; what it holds is a queue of bytes. Readers and writers that have to wait sleep; \<open>env\<close> is then what
  the rest of the system does until the task runs again, and the fuel bounds the number of such waits.
\<close>

section \<open>State\<close>

abbreviation (input) PAGE_SIZE :: int where "PAGE_SIZE \<equiv> 4096"
abbreviation (input) ENFILE :: int where "ENFILE \<equiv> 23"
abbreviation (input) ENXIO :: int where "ENXIO \<equiv> 6"
abbreviation (input) SIGPIPE :: u32 where "SIGPIPE \<equiv> 13"

record pipe_inode_info =
  read_wait :: "tptr list"
  write_wait :: "tptr list"
  base :: "u8 list option"
  head :: u32
  tail :: u32
  rd_openers :: u32
  wr_openers :: u32
  readers :: u32
  writers :: u32

record pst = pipe_inode_info +
  pkern :: kernel

definition PIPE_SIZE :: "'a pipe_inode_info_scheme \<Rightarrow> u32" where
  "PIPE_SIZE s = (head s - tail s) AND 0xfff"

definition PIPE_EMPTY :: "'a pipe_inode_info_scheme \<Rightarrow> bool" where
  "PIPE_EMPTY s \<longleftrightarrow> head s = tail s"

definition PIPE_FULL :: "'a pipe_inode_info_scheme \<Rightarrow> bool" where
  "PIPE_FULL s \<longleftrightarrow> PIPE_SIZE s = 0xfff"

definition wake_readers :: "pst \<Rightarrow> pst" where
  "wake_readers s = s\<lparr>pkern := wake_up (read_wait s) (pkern s)\<rparr>"

definition wake_writers :: "pst \<Rightarrow> pst" where
  "wake_writers s = s\<lparr>pkern := wake_up (write_wait s) (pkern s)\<rparr>"

definition sleep_read :: "(pst \<Rightarrow> pst) \<Rightarrow> pst \<Rightarrow> pst option" where
  "sleep_read env s =
     (case sleep_on_enter TASK_INTERRUPTIBLE (read_wait s) (pkern s) of
        None \<Rightarrow> None
      | Some (q, k) \<Rightarrow>
          let s = env (s\<lparr>read_wait := q, pkern := k\<rparr>)
          in Some (s\<lparr>read_wait := sleep_on_leave (read_wait s) (pkern s)\<rparr>))"

definition sleep_write :: "(pst \<Rightarrow> pst) \<Rightarrow> pst \<Rightarrow> pst option" where
  "sleep_write env s =
     (case sleep_on_enter TASK_INTERRUPTIBLE (write_wait s) (pkern s) of
        None \<Rightarrow> None
      | Some (q, k) \<Rightarrow>
          let s = env (s\<lparr>write_wait := q, pkern := k\<rparr>)
          in Some (s\<lparr>write_wait := sleep_on_leave (write_wait s) (pkern s)\<rparr>))"

section \<open>The ring\<close>

text \<open>One round of the copy loops: how many bytes, and the step itself. A page has 4096 bytes.\<close>

definition chunk :: "u32 \<Rightarrow> int \<Rightarrow> int \<Rightarrow> int" where
  "chunk pos cnt sz =
     (let chars = PAGE_SIZE - uint pos;
          chars = (if chars > cnt then cnt else chars)
      in if chars > sz then sz else chars)"

definition get_bytes :: "int \<Rightarrow> pst \<Rightarrow> u8 list" where
  "get_bytes chars s = take (nat chars) (drop (unat (tail s)) (the (base s)))"

definition advance_tail :: "int \<Rightarrow> pst \<Rightarrow> pst" where
  "advance_tail chars s = s\<lparr>tail := (tail s + of_int chars) AND 0xfff\<rparr>"

definition put_bytes :: "u8 list \<Rightarrow> pst \<Rightarrow> pst" where
  "put_bytes bs s =
     (let h = unat (head s); pg = the (base s)
      in s\<lparr>base := Some (take h pg @ bs @ drop (h + length bs) pg)\<rparr>)"

definition advance_head :: "int \<Rightarrow> pst \<Rightarrow> pst" where
  "advance_head chars s = s\<lparr>head := (head s + of_int chars) AND 0xfff\<rparr>"

section \<open>Reading\<close>

text \<open>The copy loop. Two rounds are enough, so the fuel 3 is; \<open>pipe_read_spec\<close> below shows it.\<close>

fun read_copy :: "nat \<Rightarrow> u32 \<Rightarrow> int \<Rightarrow> int \<Rightarrow> pst \<Rightarrow> (int \<times> pst) option" where
  "read_copy 0 buf cnt rd s = None"
| "read_copy (Suc n) buf cnt rd s =
     (if cnt > 0 \<and> PIPE_SIZE s \<noteq> 0 then
        let chars = chunk (tail s) cnt (uint (PIPE_SIZE s));
            k = (pkern s)\<lparr>umem := memcpy_tofs buf (get_bytes chars s) (umem (pkern s))\<rparr>
        in read_copy n (buf + of_int chars) (cnt - chars) (rd + chars) (advance_tail chars (s\<lparr>pkern := k\<rparr>))
      else Some (rd, s))"

text \<open>The wait for data: \<open>Inl\<close> is a return from the call.\<close>

fun read_wait_loop :: "nat \<Rightarrow> (pst \<Rightarrow> pst) \<Rightarrow> pst \<Rightarrow> ((int \<times> pst) + pst) option" where
  "read_wait_loop 0 env s = None"
| "read_wait_loop (Suc n) env s =
     (if PIPE_SIZE s \<noteq> 0 then Some (Inr s)
      else
        let s = wake_writers s
        in if writers s = 0 then Some (Inl (0, s))
           else if signal_pending (pkern s) then Some (Inl (- ERESTARTSYS, s))
           else
             (case sleep_read env s of
                None \<Rightarrow> None
              | Some s \<Rightarrow> read_wait_loop n env s))"

definition read_finish :: "u32 \<Rightarrow> int \<Rightarrow> pst \<Rightarrow> (int \<times> pst) option" where
  "read_finish buf cnt s =
     (case read_copy 3 buf cnt 0 s of
        None \<Rightarrow> None
      | Some (rd, s) \<Rightarrow>
          let s = wake_writers s
          in Some (if rd \<noteq> 0 then rd else if writers s \<noteq> 0 then - EAGAIN else 0, s))"

definition pipe_read :: "nat \<Rightarrow> (pst \<Rightarrow> pst) \<Rightarrow> bool \<Rightarrow> u32 \<Rightarrow> int \<Rightarrow> pst \<Rightarrow> (int \<times> pst) option" where
  "pipe_read fuel env nonblock buf cnt s =
     (case (if nonblock then Some (Inr s) else read_wait_loop fuel env s) of
        None \<Rightarrow> None
      | Some (Inl r) \<Rightarrow> Some r
      | Some (Inr s) \<Rightarrow> read_finish buf cnt s)"

section \<open>Writing\<close>

fun write_copy :: "nat \<Rightarrow> u32 \<Rightarrow> int \<Rightarrow> int \<Rightarrow> pst \<Rightarrow> (u32 \<times> int \<times> int \<times> pst) option" where
  "write_copy 0 buf cnt written s = None"
| "write_copy (Suc n) buf cnt written s =
     (if cnt > 0 \<and> 0xfff - PIPE_SIZE s \<noteq> 0 then
        let chars = chunk (head s) cnt (uint (0xfff - PIPE_SIZE s));
            s = put_bytes (memcpy_fromfs (umem (pkern s)) buf (nat chars)) s
        in write_copy n (buf + of_int chars) (cnt - chars) (written + chars) (advance_head chars s)
      else Some (buf, cnt, written, s))"

definition or_written :: "int \<Rightarrow> int \<Rightarrow> int" where
  "or_written written err = (if written \<noteq> 0 then written else err)"

fun write_wait_loop :: "nat \<Rightarrow> (pst \<Rightarrow> pst) \<Rightarrow> bool \<Rightarrow> int \<Rightarrow> int \<Rightarrow> pst \<Rightarrow> ((int \<times> pst) + pst) option" where
  "write_wait_loop 0 env nonblock sz written s = None"
| "write_wait_loop (Suc n) env nonblock sz written s =
     (if uint (PIPE_SIZE s) \<ge> sz then
        if readers s = 0 then
          Some (Inl (or_written written (- EPIPE), s\<lparr>pkern := snd (send_sig SIGPIPE (Some (current (pkern s))) False (pkern s))\<rparr>))
        else if signal_pending (pkern s) then Some (Inl (or_written written (- ERESTARTSYS), s))
        else if nonblock then Some (Inl (or_written written (- EAGAIN), s))
        else
          (case sleep_write env s of
             None \<Rightarrow> None
           | Some s \<Rightarrow> write_wait_loop n env nonblock sz written s)
      else Some (Inr s))"

fun write_loop :: "nat \<Rightarrow> nat \<Rightarrow> (pst \<Rightarrow> pst) \<Rightarrow> bool \<Rightarrow> u32 \<Rightarrow> int \<Rightarrow> int \<Rightarrow> int \<Rightarrow> pst \<Rightarrow> (int \<times> pst) option" where
  "write_loop 0 m env nonblock buf cnt sz written s = None"
| "write_loop (Suc n) m env nonblock buf cnt sz written s =
     (if cnt > 0 then
        (case write_wait_loop m env nonblock sz written s of
           None \<Rightarrow> None
         | Some (Inl r) \<Rightarrow> Some r
         | Some (Inr s) \<Rightarrow>
             (case write_copy 3 buf cnt written s of
                None \<Rightarrow> None
              | Some (buf, cnt, written, s) \<Rightarrow>
                  write_loop n m env nonblock buf cnt (PAGE_SIZE - 1) written (wake_readers s)))
      else Some (written, s))"

definition pipe_write :: "nat \<Rightarrow> nat \<Rightarrow> (pst \<Rightarrow> pst) \<Rightarrow> bool \<Rightarrow> u32 \<Rightarrow> int \<Rightarrow> pst \<Rightarrow> (int \<times> pst) option" where
  "pipe_write n m env nonblock buf cnt s =
     (if readers s = 0 then
        Some (- EPIPE, s\<lparr>pkern := snd (send_sig SIGPIPE (Some (current (pkern s))) False (pkern s))\<rparr>)
      else
        let sz = (if cnt < PAGE_SIZE then PAGE_SIZE - cnt else PAGE_SIZE - 1)
        in write_loop n m env nonblock buf cnt sz 0 s)"

section \<open>The other operations\<close>

definition pipe_lseek :: int where "pipe_lseek = - ESPIPE"

definition pipe_readdir :: int where "pipe_readdir = - ENOTDIR"

definition bad_pipe_rw :: int where "bad_pipe_rw = - EBADF"

definition pipe_ioctl :: "u32 \<Rightarrow> u32 \<Rightarrow> pst \<Rightarrow> int \<times> pst" where
  "pipe_ioctl cmd arg s =
     (if cmd = 0x541b then
        let error = verify_area VERIFY_WRITE arg 4
        in if error = 0
           then (error, s\<lparr>pkern := (pkern s)\<lparr>umem := put_fs_long (PIPE_SIZE s) arg (umem (pkern s))\<rparr>\<rparr>)
           else (error, s)
      else (- EINVAL, s))"

datatype sel_type = SEL_IN | SEL_OUT | SEL_EX

text \<open>The queue a select operation enters the caller in (\<open>select_wait\<close>) when it returns 0; \<open>None\<close> is the result 1.\<close>

datatype sel_queue = PIPE_READ_WAIT | PIPE_WRITE_WAIT | I_WAIT

definition pipe_select :: "sel_type \<Rightarrow> pst \<Rightarrow> sel_queue option" where
  "pipe_select sel s =
     (case sel of
        SEL_IN \<Rightarrow> if \<not> PIPE_EMPTY s \<or> writers s = 0 then None else Some PIPE_READ_WAIT
      | SEL_OUT \<Rightarrow> if \<not> PIPE_FULL s \<or> readers s = 0 then None else Some PIPE_WRITE_WAIT
      | SEL_EX \<Rightarrow> if readers s = 0 \<or> writers s = 0 then None else Some I_WAIT)"

definition connect_select :: "sel_type \<Rightarrow> file_operations \<Rightarrow> pst \<Rightarrow> sel_queue option \<times> file_operations" where
  "connect_select sel fop s =
     (case sel of
        SEL_IN \<Rightarrow> if \<not> PIPE_EMPTY s then (None, read_pipe_fops) else (Some PIPE_READ_WAIT, fop)
      | SEL_OUT \<Rightarrow> (if \<not> PIPE_FULL s then None else Some PIPE_WRITE_WAIT, fop)
      | SEL_EX \<Rightarrow> (if readers s = 0 \<or> writers s = 0 then None else Some I_WAIT, fop))"

fun connect_wait :: "nat \<Rightarrow> (pst \<Rightarrow> pst) \<Rightarrow> bool \<Rightarrow> pst \<Rightarrow> ((int \<times> pst) + pst) option" where
  "connect_wait 0 env nonblock s = None"
| "connect_wait (Suc n) env nonblock s =
     (if PIPE_SIZE s \<noteq> 0 \<or> writers s \<noteq> 0 then Some (Inr s)
      else if nonblock then Some (Inl (- EAGAIN, s))
      else
        let s = wake_writers s
        in if signal_pending (pkern s) then Some (Inl (- ERESTARTSYS, s))
           else
             (case sleep_read env s of
                None \<Rightarrow> None
              | Some s \<Rightarrow> connect_wait n env nonblock s))"

definition connect_read :: "nat \<Rightarrow> (pst \<Rightarrow> pst) \<Rightarrow> bool \<Rightarrow> u32 \<Rightarrow> int \<Rightarrow> pst \<Rightarrow> (int \<times> file_operations \<times> pst) option" where
  "connect_read fuel env nonblock buf cnt s =
     (case connect_wait fuel env nonblock s of
        None \<Rightarrow> None
      | Some (Inl (r, s)) \<Rightarrow> Some (r, connecting_pipe_fops, s)
      | Some (Inr s) \<Rightarrow> map_option (\<lambda>(r, s). (r, read_pipe_fops, s)) (pipe_read fuel env nonblock buf cnt s))"

definition pipe_read_release :: "pst \<Rightarrow> pst" where
  "pipe_read_release s = wake_writers (s\<lparr>readers := readers s - 1\<rparr>)"

definition pipe_write_release :: "pst \<Rightarrow> pst" where
  "pipe_write_release s = wake_readers (s\<lparr>writers := writers s - 1\<rparr>)"

definition pipe_rdwr_release :: "pst \<Rightarrow> pst" where
  "pipe_rdwr_release s = wake_writers (wake_readers (s\<lparr>readers := readers s - 1, writers := writers s - 1\<rparr>))"

text \<open>The tables of operations. The result of a read has the table of the file after it; \<open>None\<close>: not a pipe.\<close>

definition fops_read ::
  "file_operations \<Rightarrow> nat \<Rightarrow> (pst \<Rightarrow> pst) \<Rightarrow> bool \<Rightarrow> u32 \<Rightarrow> int \<Rightarrow> pst \<Rightarrow> (int \<times> file_operations \<times> pst) option" where
  "fops_read fop fuel env nonblock buf cnt s =
     (case fop of
        connecting_pipe_fops \<Rightarrow> connect_read fuel env nonblock buf cnt s
      | read_pipe_fops \<Rightarrow> map_option (\<lambda>(r, s). (r, fop, s)) (pipe_read fuel env nonblock buf cnt s)
      | write_pipe_fops \<Rightarrow> Some (bad_pipe_rw, fop, s)
      | rdwr_pipe_fops \<Rightarrow> map_option (\<lambda>(r, s). (r, fop, s)) (pipe_read fuel env nonblock buf cnt s)
      | other_fops _ \<Rightarrow> None)"

definition fops_write ::
  "file_operations \<Rightarrow> nat \<Rightarrow> nat \<Rightarrow> (pst \<Rightarrow> pst) \<Rightarrow> bool \<Rightarrow> u32 \<Rightarrow> int \<Rightarrow> pst \<Rightarrow> (int \<times> pst) option" where
  "fops_write fop n m env nonblock buf cnt s =
     (case fop of
        connecting_pipe_fops \<Rightarrow> Some (bad_pipe_rw, s)
      | read_pipe_fops \<Rightarrow> Some (bad_pipe_rw, s)
      | write_pipe_fops \<Rightarrow> pipe_write n m env nonblock buf cnt s
      | rdwr_pipe_fops \<Rightarrow> pipe_write n m env nonblock buf cnt s
      | other_fops _ \<Rightarrow> None)"

definition fops_select :: "file_operations \<Rightarrow> sel_type \<Rightarrow> pst \<Rightarrow> sel_queue option \<times> file_operations" where
  "fops_select fop sel s =
     (case fop of connecting_pipe_fops \<Rightarrow> connect_select sel fop s | _ \<Rightarrow> (pipe_select sel s, fop))"

definition fops_release :: "file_operations \<Rightarrow> pst \<Rightarrow> pst" where
  "fops_release fop s =
     (case fop of
        connecting_pipe_fops \<Rightarrow> pipe_read_release s
      | read_pipe_fops \<Rightarrow> pipe_read_release s
      | write_pipe_fops \<Rightarrow> pipe_write_release s
      | rdwr_pipe_fops \<Rightarrow> pipe_rdwr_release s
      | other_fops _ \<Rightarrow> s)"

section \<open>Opening a FIFO\<close>

fun wait_for_writer :: "nat \<Rightarrow> (pst \<Rightarrow> pst) \<Rightarrow> pst \<Rightarrow> (int \<times> pst) option" where
  "wait_for_writer 0 env s = None"
| "wait_for_writer (Suc n) env s =
     (if writers s \<noteq> 0 then Some (0, s)
      else if signal_pending (pkern s) then Some (- ERESTARTSYS, s)
      else (case sleep_read env s of None \<Rightarrow> None | Some s \<Rightarrow> wait_for_writer n env s))"

fun wait_for_reader :: "nat \<Rightarrow> (pst \<Rightarrow> pst) \<Rightarrow> pst \<Rightarrow> (int \<times> pst) option" where
  "wait_for_reader 0 env s = None"
| "wait_for_reader (Suc n) env s =
     (if readers s \<noteq> 0 then Some (0, s)
      else if signal_pending (pkern s) then Some (- ERESTARTSYS, s)
      else (case sleep_write env s of None \<Rightarrow> None | Some s \<Rightarrow> wait_for_reader n env s))"

fun wait_wr_openers :: "nat \<Rightarrow> (pst \<Rightarrow> pst) \<Rightarrow> pst \<Rightarrow> pst option" where
  "wait_wr_openers 0 env s = None"
| "wait_wr_openers (Suc n) env s =
     (if wr_openers s \<noteq> 0 then (case sleep_read env s of None \<Rightarrow> None | Some s \<Rightarrow> wait_wr_openers n env s) else Some s)"

fun wait_rd_openers :: "nat \<Rightarrow> (pst \<Rightarrow> pst) \<Rightarrow> pst \<Rightarrow> pst option" where
  "wait_rd_openers 0 env s = None"
| "wait_rd_openers (Suc n) env s =
     (if rd_openers s \<noteq> 0 then (case sleep_write env s of None \<Rightarrow> None | Some s \<Rightarrow> wait_rd_openers n env s) else Some s)"

definition inc_readers :: "pst \<Rightarrow> pst" where
  "inc_readers s = (let t = s\<lparr>readers := readers s + 1\<rparr> in if readers s = 0 then wake_writers t else t)"

definition inc_writers :: "pst \<Rightarrow> pst" where
  "inc_writers s = (let t = s\<lparr>writers := writers s + 1\<rparr> in if writers s = 0 then wake_readers t else t)"

definition dec_readers :: "pst \<Rightarrow> pst" where
  "dec_readers s = (let t = s\<lparr>readers := readers s - 1\<rparr> in if readers t = 0 then wake_writers t else t)"

definition dec_writers :: "pst \<Rightarrow> pst" where
  "dec_writers s = (let t = s\<lparr>writers := writers s - 1\<rparr> in if writers t = 0 then wake_readers t else t)"

text \<open>The two halves of the rendezvous: a blocking open for reading waits for a writer while counted in
  \<open>rd_openers\<close>, and the other way round.\<close>

definition meet_writer :: "nat \<Rightarrow> (pst \<Rightarrow> pst) \<Rightarrow> bool \<Rightarrow> pst \<Rightarrow> (int \<times> pst) option" where
  "meet_writer n env nonblock s =
     (if \<not> nonblock \<and> writers s = 0 then
        (case wait_for_writer n env (s\<lparr>rd_openers := rd_openers s + 1\<rparr>) of
           None \<Rightarrow> None
         | Some (r, s) \<Rightarrow>
             let t = s\<lparr>rd_openers := rd_openers s - 1\<rparr>
             in Some (r, if rd_openers t = 0 then wake_writers t else t))
      else Some (0, s))"

definition meet_reader :: "nat \<Rightarrow> (pst \<Rightarrow> pst) \<Rightarrow> pst \<Rightarrow> (int \<times> pst) option" where
  "meet_reader n env s =
     (if readers s = 0 then
        (case wait_for_reader n env (s\<lparr>wr_openers := wr_openers s + 1\<rparr>) of
           None \<Rightarrow> None
         | Some (r, s) \<Rightarrow>
             let t = s\<lparr>wr_openers := wr_openers s - 1\<rparr>
             in Some (r, if wr_openers t = 0 then wake_readers t else t))
      else Some (0, s))"

definition fifo_open_rd :: "nat \<Rightarrow> (pst \<Rightarrow> pst) \<Rightarrow> bool \<Rightarrow> pst \<Rightarrow> (int \<times> file_operations \<times> pst) option" where
  "fifo_open_rd n env nonblock s =
     (case meet_writer n env nonblock (inc_readers s) of
        None \<Rightarrow> None
      | Some (r, s) \<Rightarrow>
          (case wait_wr_openers n env s of
             None \<Rightarrow> None
           | Some s \<Rightarrow>
               let fop = (if writers s \<noteq> 0 then read_pipe_fops else connecting_pipe_fops)
               in Some (r, fop, if r \<noteq> 0 then dec_readers s else s)))"

definition fifo_open_wr :: "nat \<Rightarrow> (pst \<Rightarrow> pst) \<Rightarrow> bool \<Rightarrow> pst \<Rightarrow> (int \<times> file_operations option \<times> pst) option" where
  "fifo_open_wr n env nonblock s =
     (if nonblock \<and> readers s = 0 then Some (- ENXIO, None, s)
      else
        (case meet_reader n env (inc_writers s) of
           None \<Rightarrow> None
         | Some (r, s) \<Rightarrow>
             (case wait_rd_openers n env s of
                None \<Rightarrow> None
              | Some s \<Rightarrow> Some (r, Some write_pipe_fops, if r \<noteq> 0 then dec_writers s else s))))"

definition fifo_open_rdwr :: "nat \<Rightarrow> (pst \<Rightarrow> pst) \<Rightarrow> pst \<Rightarrow> (int \<times> file_operations \<times> pst) option" where
  "fifo_open_rdwr n env s =
     (case wait_wr_openers n env (inc_readers s) of
        None \<Rightarrow> None
      | Some s \<Rightarrow>
          (case wait_rd_openers n env (inc_writers s) of
             None \<Rightarrow> None
           | Some s \<Rightarrow> Some (0, rdwr_pipe_fops, s)))"

text \<open>The page for the first open. \<open>get_page\<close> is \<open>__get_free_page\<close>, which may sleep.\<close>

definition fifo_page :: "(pst \<Rightarrow> u8 list option \<times> pst) \<Rightarrow> int \<Rightarrow> pst \<Rightarrow> int \<times> pst" where
  "fifo_page get_page retval s =
     (if retval \<noteq> 0 \<or> base s \<noteq> None then (retval, s)
      else
        let (page, s) = get_page s
        in if base s \<noteq> None then (0, s)
           else if page = None then (- ENOMEM, s)
           else (0, s\<lparr>head := 0, tail := 0, base := page\<rparr>))"

definition fifo_open ::
  "nat \<Rightarrow> (pst \<Rightarrow> pst) \<Rightarrow> (pst \<Rightarrow> u8 list option \<times> pst) \<Rightarrow> u16 \<Rightarrow> bool \<Rightarrow> pst \<Rightarrow> (int \<times> file_operations option \<times> pst) option" where
  "fifo_open n env get_page fmode nonblock s =
     (case (if fmode = 1 then map_option (\<lambda>(r, fop, s). (r, Some fop, s)) (fifo_open_rd n env nonblock s)
            else if fmode = 2 then fifo_open_wr n env nonblock s
            else if fmode = 3 then map_option (\<lambda>(r, fop, s). (r, Some fop, s)) (fifo_open_rdwr n env s)
            else Some (- EINVAL, None, s)) of
        None \<Rightarrow> None
      | Some (retval, fop, s) \<Rightarrow> (let (r, s) = fifo_page get_page retval s in Some (r, fop, s)))"

section \<open>Creating a pipe\<close>

text \<open>The descriptor loop: the first two free entries, as long as there are any.\<close>

fun pipe_fds :: "nat \<Rightarrow> nat option list \<Rightarrow> nat list \<Rightarrow> nat list" where
  "pipe_fds i [] got = got"
| "pipe_fds i (x # xs) got =
     (if length got < 2 then pipe_fds (i + 1) xs (if x = None then got @ [i] else got) else got)"

definition drop_count :: "nat \<Rightarrow> fs \<Rightarrow> fs" where
  "drop_count f s = upd_file f (\<lambda>x. x\<lparr>f_count := f_count x - 1\<rparr>) s"

definition pipe_files :: "nat \<Rightarrow> nat \<Rightarrow> nat \<Rightarrow> fs \<Rightarrow> fs" where
  "pipe_files f0 f1 ino s =
     upd_file f1 (\<lambda>x. x\<lparr>f_inode := Some ino, f_pos := 0, f_flags := 1, f_op := Some write_pipe_fops, f_mode := 2\<rparr>)
       (upd_file f0 (\<lambda>x. x\<lparr>f_inode := Some ino, f_pos := 0, f_flags := 0, f_op := Some read_pipe_fops, f_mode := 1\<rparr>) s)"

text \<open>\<open>gpi\<close> is \<open>get_pipe_inode\<close>, which takes an inode from the inode table and a page. Entering a file in the
  descriptor table and taking it out again are \<open>set_fd\<close>.\<close>

definition pipe_install :: "(fs \<Rightarrow> nat option \<times> fs) \<Rightarrow> u32 \<Rightarrow> nat \<Rightarrow> nat \<Rightarrow> fs \<Rightarrow> int \<times> fs" where
  "pipe_install gpi fildes f0 f1 s =
     (case pipe_fds 0 (filp s (current (kernl s))) [] of
        a # b # _ \<Rightarrow>
          let s = set_fd (of_nat b) (Some f1) (set_fd (of_nat a) (Some f0) s);
              (inode, s) = gpi s
          in (case inode of
                None \<Rightarrow>
                  (- ENFILE, drop_count f1 (drop_count f0 (set_fd (of_nat b) None (set_fd (of_nat a) None s))))
              | Some ino \<Rightarrow>
                  (0, put_umem (\<lambda>m. put_fs_long (of_nat b) (fildes + 4) (put_fs_long (of_nat a) fildes m))
                        (pipe_files f0 f1 ino s)))
      | [a] \<Rightarrow>
          (- EMFILE, drop_count f1 (drop_count f0 (set_fd (of_nat a) None (set_fd (of_nat a) (Some f0) s))))
      | [] \<Rightarrow> (- EMFILE, drop_count f1 (drop_count f0 s)))"

definition sys_pipe ::
  "nat list option list \<Rightarrow> nat list option list \<Rightarrow> (fs \<Rightarrow> nat option \<times> fs) \<Rightarrow> u32 \<Rightarrow> fs \<Rightarrow> (int \<times> fs) option" where
  "sys_pipe pages0 pages1 gpi fildes s =
     (let j = verify_area VERIFY_WRITE fildes 8
      in if j \<noteq> 0 then Some (j, s)
         else
           (case get_empty_filp pages0 s of
              None \<Rightarrow> None
            | Some (None, s) \<Rightarrow> Some (- ENFILE, s)
            | Some (Some f0, s) \<Rightarrow>
                (case get_empty_filp pages1 s of
                   None \<Rightarrow> None
                 | Some (None, s) \<Rightarrow> Some (- ENFILE, drop_count f0 s)
                 | Some (Some f1, s) \<Rightarrow> Some (pipe_install gpi fildes f0 f1 s))))"

section \<open>The ring as a queue\<close>

text \<open>What an interface to a bounded byte queue promises, and what follows for any use of it.\<close>

locale byte_queue =
  fixes inv :: "'s \<Rightarrow> bool" and conts :: "'s \<Rightarrow> 'a list" and cap :: nat
    and put :: "'a list \<Rightarrow> 's \<Rightarrow> 's" and get :: "nat \<Rightarrow> 's \<Rightarrow> 'a list \<times> 's"
    and put_ok :: "'a list \<Rightarrow> 's \<Rightarrow> bool" and get_ok :: "nat \<Rightarrow> 's \<Rightarrow> bool"
  assumes put_law: "inv s \<Longrightarrow> put_ok bs s \<Longrightarrow> inv (put bs s) \<and> conts (put bs s) = conts s @ bs"
    and get_law: "inv s \<Longrightarrow> get_ok n s \<Longrightarrow> inv (snd (get n s)) \<and> fst (get n s) = take n (conts s) \<and>
      conts (snd (get n s)) = drop n (conts s)"
    and bounded: "inv s \<Longrightarrow> length (conts s) \<le> cap"

datatype 'a q_op = Put "'a list" | Get nat

context byte_queue
begin

fun run :: "'a q_op list \<Rightarrow> 's \<Rightarrow> ('a list \<times> 's) option" where
  "run [] s = Some ([], s)"
| "run (Put bs # ops) s = (if put_ok bs s then run ops (put bs s) else None)"
| "run (Get n # ops) s =
     (if get_ok n s then map_option (\<lambda>(out, t). (fst (get n s) @ out, t)) (run ops (snd (get n s))) else None)"

fun fed :: "'a q_op list \<Rightarrow> 'a list" where
  "fed [] = []"
| "fed (Put bs # ops) = bs @ fed ops"
| "fed (Get n # ops) = fed ops"

text \<open>First in, first out: what has come out, followed by what is still inside, is what was inside followed by what
  went in.\<close>

lemma fifo:
  assumes "inv s" "run ops s = Some (out, t)"
  shows "inv t \<and> out @ conts t = conts s @ fed ops \<and> length (conts t) \<le> cap"
  using assms
proof (induction ops s arbitrary: out rule: run.induct)
  case (1 s)
  then show ?case by (auto simp: bounded)
next
  case (2 bs ops s)
  then show ?case using put_law [of s bs] by (auto split: if_splits)
next
  case (3 n ops s)
  then obtain out' where r: "run ops (snd (get n s)) = Some (out', t)" "out = fst (get n s) @ out'" and g: "get_ok n s"
    by (auto split: if_splits)
  have G: "inv (snd (get n s))" "fst (get n s) = take n (conts s)" "conts (snd (get n s)) = drop n (conts s)"
    using get_law [OF 3(2) g] by auto
  have "inv t \<and> out' @ conts t = drop n (conts s) @ fed ops \<and> length (conts t) \<le> cap"
    using "3.IH" [OF g G(1) r(1)] G(3) by simp
  then show ?case using r(2) G(2) by simp
qed

end

text \<open>The pipe's ring: the bytes from \<open>tail\<close> on, around the end of the page.\<close>

definition conts :: "pst \<Rightarrow> u8 list" where
  "conts s = take (unat (PIPE_SIZE s)) (rotate (unat (tail s)) (the (base s)))"

definition pipe_inv :: "pst \<Rightarrow> bool" where
  "pipe_inv s \<longleftrightarrow> (\<exists>pg. base s = Some pg \<and> length pg = 4096) \<and> unat (head s) < 4096 \<and> unat (tail s) < 4096"

lemma unat_and_fff: "unat ((w :: u32) AND 0xfff) = unat w mod 4096"
proof -
  have "w AND 0xfff = take_bit 12 w" by (simp add: take_bit_eq_mask mask_eq_exp_minus_1)
  then show ?thesis by (simp add: take_bit_eq_mod unat_mod)
qed

lemma unat_PIPE_SIZE:
  assumes "pipe_inv s"
  shows "unat (PIPE_SIZE s) = (unat (head s) + 4096 - unat (tail s)) mod 4096" "unat (PIPE_SIZE s) < 4096"
proof -
  let ?h = "unat (head s)" and ?t = "unat (tail s)"
  have b: "?h < 4096" "?t < 4096" using assms by (auto simp: pipe_inv_def)
  show "unat (PIPE_SIZE s) = (?h + 4096 - ?t) mod 4096"
  proof (cases "?t \<le> ?h")
    case True
    then have "unat (PIPE_SIZE s) = (?h - ?t) mod 4096" by (simp add: PIPE_SIZE_def unat_and_fff unat_sub_if')
    also have "\<dots> = (?h - ?t + 4096) mod 4096" by simp
    finally show ?thesis using True by simp
  next
    case False
    have "unat (PIPE_SIZE s) = (?h + 4294967296 - ?t) mod 4096"
      using False by (simp add: PIPE_SIZE_def unat_and_fff unat_sub_if')
    also have "?h + 4294967296 - ?t = (?h + 4096 - ?t) + 1048575 * 4096" using b by simp
    finally show ?thesis by (simp only: mod_mult_self1)
  qed
  then show "unat (PIPE_SIZE s) < 4096" by simp
qed

lemma head_eq:
  assumes "pipe_inv s"
  shows "unat (head s) = (unat (tail s) + unat (PIPE_SIZE s)) mod 4096"
proof -
  let ?h = "unat (head s)" and ?t = "unat (tail s)"
  have b: "?h < 4096" "?t < 4096" using assms by (auto simp: pipe_inv_def)
  have "(?t + (?h + 4096 - ?t) mod 4096) mod 4096 = (?t + (?h + 4096 - ?t)) mod 4096" by (simp only: mod_add_right_eq)
  also have "?t + (?h + 4096 - ?t) = ?h + 4096" using b by simp
  finally show ?thesis using b unat_PIPE_SIZE(1) [OF assms] by simp
qed

lemma length_conts: "pipe_inv s \<Longrightarrow> length (conts s) = unat (PIPE_SIZE s)"
  using unat_PIPE_SIZE(2) [of s] by (auto simp: conts_def pipe_inv_def)

lemma conts_nth:
  assumes "pipe_inv s" "i < unat (PIPE_SIZE s)"
  shows "conts s ! i = the (base s) ! ((unat (tail s) + i) mod 4096)"
  using assms unat_PIPE_SIZE(2) [OF assms(1)] by (auto simp: conts_def pipe_inv_def nth_rotate)

lemma advance_eq:
  assumes "unat w < 4096" "n < 4096"
  shows "unat ((w + of_nat n :: u32) AND 0xfff) = (unat w + n) mod 4096"
proof -
  have "unat (of_nat n :: u32) = n" using assms(2) by (simp add: unat_of_nat)
  then have "unat (w + of_nat n :: u32) = unat w + n" using assms by (simp add: unat_word_ariths)
  then show ?thesis by (simp add: unat_and_fff)
qed

lemma mod_add_cancel:
  fixes a x y N :: nat
  assumes "(a + x) mod N = (a + y) mod N" "x < N" "y < N"
  shows "x = y"
proof -
  have *: "x = y" if "x \<le> y" "(a + x) mod N = (a + y) mod N" "y < N" for x y
  proof -
    have "N dvd y - x" using that(1,2) mod_eq_dvd_iff_nat [of "a + x" "a + y" N] by simp
    moreover have "y - x < N" using that(3) by simp
    ultimately have "y - x = 0" by (metis dvd_imp_le linorder_not_less not_gr_zero)
    then show ?thesis using that(1) by simp
  qed
  show ?thesis using * [of x y] * [of y x] assms by (cases "x \<le> y") auto
qed

text \<open>Taking bytes out: a piece that does not cross the end of the page is the front of the queue.\<close>

lemma get_step:
  assumes I: "pipe_inv s" and n: "n \<le> unat (PIPE_SIZE s)" "n + unat (tail s) \<le> 4096"
  shows "pipe_inv (advance_tail (int n) s)" "get_bytes (int n) s = take n (conts s)"
    "conts (advance_tail (int n) s) = drop n (conts s)"
proof -
  let ?s = "advance_tail (int n) s" and ?t = "unat (tail s)" and ?z = "unat (PIPE_SIZE s)"
  obtain pg where pg: "base s = Some pg" "length pg = 4096" using I by (auto simp: pipe_inv_def)
  have z: "?z < 4096" "?t < 4096" using unat_PIPE_SIZE(2) [OF I] I by (auto simp: pipe_inv_def)
  have nl: "n < 4096" using n z by simp
  have t': "unat (tail ?s) = (?t + n) mod 4096" using advance_eq [OF z(2) nl] by (simp add: advance_tail_def)
  show I': "pipe_inv ?s" using I t' by (simp add: pipe_inv_def advance_tail_def)
  have "(?t + n + unat (PIPE_SIZE ?s)) mod 4096 = (?t + ?z) mod 4096"
    using head_eq [OF I] head_eq [OF I'] t' by (simp add: advance_tail_def mod_add_left_eq)
  then have "(?t + n + unat (PIPE_SIZE ?s)) mod 4096 = (?t + n + (?z - n)) mod 4096" using n(1) by simp
  then have z': "unat (PIPE_SIZE ?s) = ?z - n"
    using mod_add_cancel unat_PIPE_SIZE(2) [OF I'] z(1) by (metis diff_less_mono2 less_imp_diff_less)
  show "get_bytes (int n) s = take n (conts s)"
  proof (rule nth_equalityI)
    fix i assume "i < length (get_bytes (int n) s)"
    then have i: "i < n" "?t + i < 4096" using pg by (auto simp: get_bytes_def)
    then show "get_bytes (int n) s ! i = take n (conts s) ! i"
      using conts_nth [OF I, of i] n pg by (simp add: get_bytes_def)
  qed (use n pg z length_conts [OF I] in \<open>simp add: get_bytes_def\<close>)
  show "conts ?s = drop n (conts s)"
  proof (rule nth_equalityI)
    show "length (conts ?s) = length (drop n (conts s))" using z' length_conts [OF I] length_conts [OF I'] by simp
    fix i assume "i < length (conts ?s)"
    then have i: "i < ?z - n" using z' length_conts [OF I'] by simp
    then show "conts ?s ! i = drop n (conts s) ! i"
      using conts_nth [OF I', of i] conts_nth [OF I, of "n + i"] z' t' length_conts [OF I]
      by (simp add: advance_tail_def mod_add_left_eq add.assoc)
  qed
qed


text \<open>Putting bytes in, where they fit between the head and the end of the page and leave one byte of the ring free.\<close>

lemma put_step:
  assumes I: "pipe_inv s" and n: "length bs + unat (PIPE_SIZE s) < 4096" "length bs + unat (head s) \<le> 4096"
  shows "pipe_inv (advance_head (int (length bs)) (put_bytes bs s))"
    "conts (advance_head (int (length bs)) (put_bytes bs s)) = conts s @ bs"
proof -
  let ?n = "length bs"
  let ?s = "advance_head (int ?n) (put_bytes bs s)" and ?t = "unat (tail s)" and ?z = "unat (PIPE_SIZE s)" and ?h = "unat (head s)"
  obtain pg where pg: "base s = Some pg" "length pg = 4096" using I by (auto simp: pipe_inv_def)
  define pg' where "pg' = take ?h pg @ bs @ drop (?h + ?n) pg"
  have b: "?t < 4096" "?h < 4096" "?z < 4096" using unat_PIPE_SIZE(2) [OF I] I by (auto simp: pipe_inv_def)
  have l': "length pg' = 4096" using n b pg by (simp add: pg'_def)
  have nl: "?n < 4096" using n b by simp
  have f: "base ?s = Some pg'" "tail ?s = tail s" by (simp_all add: advance_head_def put_bytes_def pg pg'_def Let_def)
  have h': "unat (head ?s) = (?h + ?n) mod 4096"
    using advance_eq [OF b(2) nl] by (simp add: advance_head_def put_bytes_def Let_def)
  show I': "pipe_inv ?s" using f l' h' b by (simp add: pipe_inv_def)
  have "(?t + unat (PIPE_SIZE ?s)) mod 4096 = (?t + (?z + ?n)) mod 4096"
    using head_eq [OF I] head_eq [OF I'] h' f(2) by (simp add: mod_add_left_eq add.assoc)
  then have z': "unat (PIPE_SIZE ?s) = ?z + ?n"
    using mod_add_cancel unat_PIPE_SIZE(2) [OF I'] n(1) by (metis add.commute)
  have hj: "(?t + (?z + j)) mod 4096 = (?h + j) mod 4096" for j
    unfolding head_eq [OF I] by (simp add: mod_add_left_eq add.assoc)
  have nth': "pg' ! j = (if ?h \<le> j \<and> j < ?h + ?n then bs ! (j - ?h) else pg ! j)" if "j < 4096" for j
    using that n b pg by (auto simp: pg'_def nth_append min_def)
  show "conts ?s = conts s @ bs"
  proof (rule nth_equalityI)
    show "length (conts ?s) = length (conts s @ bs)" using z' length_conts [OF I] length_conts [OF I'] by simp
    fix i assume "i < length (conts ?s)"
    then have i: "i < ?z + ?n" using z' length_conts [OF I'] by simp
    have c: "conts ?s ! i = pg' ! ((?t + i) mod 4096)" using conts_nth [OF I'] i z' f by simp
    show "conts ?s ! i = (conts s @ bs) ! i"
    proof (cases "i < ?z")
      case True
      have "\<not> (?h \<le> (?t + i) mod 4096 \<and> (?t + i) mod 4096 < ?h + ?n)"
      proof
        assume a: "?h \<le> (?t + i) mod 4096 \<and> (?t + i) mod 4096 < ?h + ?n"
        define j where "j = (?t + i) mod 4096 - ?h"
        have j: "j < ?n" "(?t + i) mod 4096 = ?h + j" using a by (auto simp: j_def)
        have "?h + j < 4096" using j(2) by (metis mod_less_divisor zero_less_numeral)
        then have "(?t + i) mod 4096 = (?t + (?z + j)) mod 4096" using j(2) hj [of j] by simp
        then have "i = ?z + j" using True b(3) j(1) n(1) by (intro mod_add_cancel [of ?t i 4096]) auto
        then show False using True by simp
      qed
      then show ?thesis using c nth' [of "(?t + i) mod 4096"] conts_nth [OF I True] True length_conts [OF I] pg
        by (auto simp: nth_append)
    next
      case False
      define j where "j = i - ?z"
      have j: "j < ?n" "i = ?z + j" using i False by (auto simp: j_def)
      have "(?t + i) mod 4096 = (?h + j) mod 4096" using hj [of j] by (simp add: j(2))
      also have "\<dots> = ?h + j" using j(1) n(2) by simp
      finally show ?thesis using c nth' [of "?h + j"] j n(2) length_conts [OF I] by (simp add: nth_append)
    qed
  qed
qed

definition ring_put :: "u8 list \<Rightarrow> pst \<Rightarrow> pst" where
  "ring_put bs s = advance_head (int (length bs)) (put_bytes bs s)"

definition ring_get :: "nat \<Rightarrow> pst \<Rightarrow> u8 list \<times> pst" where
  "ring_get n s = (get_bytes (int n) s, advance_tail (int n) s)"

definition put_fits :: "u8 list \<Rightarrow> pst \<Rightarrow> bool" where
  "put_fits bs s \<longleftrightarrow> length bs + unat (PIPE_SIZE s) < 4096 \<and> length bs + unat (head s) \<le> 4096"

definition get_fits :: "nat \<Rightarrow> pst \<Rightarrow> bool" where
  "get_fits n s \<longleftrightarrow> n \<le> unat (PIPE_SIZE s) \<and> n + unat (tail s) \<le> 4096"

interpretation pq: byte_queue pipe_inv conts 4095 ring_put ring_get put_fits get_fits
proof
  show "pipe_inv (ring_put bs s) \<and> conts (ring_put bs s) = conts s @ bs" if "pipe_inv s" "put_fits bs s" for s bs
    using that put_step [of s bs] by (simp add: ring_put_def put_fits_def)
  show "pipe_inv (snd (ring_get n s)) \<and> fst (ring_get n s) = take n (conts s) \<and> conts (snd (ring_get n s)) = drop n (conts s)"
    if "pipe_inv s" "get_fits n s" for s n
    using that get_step [of s n] by (simp add: ring_get_def get_fits_def)
  show "length (conts s) \<le> 4095" if "pipe_inv s" for s
    using that length_conts [OF that] unat_PIPE_SIZE(2) [OF that] by simp
qed

lemma advance_advance:
  assumes "i + j < 4096" "unat w < 4096"
  shows "(((w :: u32) + of_nat i AND 0xfff) + of_nat j) AND 0xfff = (w + of_nat (i + j)) AND 0xfff"
proof -
  have "unat ((w + of_nat i) AND 0xfff) = (unat w + i) mod 4096" using assms by (intro advance_eq) auto
  moreover from this have "unat ((((w + of_nat i) AND 0xfff) + of_nat j) AND 0xfff) = ((unat w + i) mod 4096 + j) mod 4096"
    using assms by (subst advance_eq) auto
  moreover have "unat ((w + of_nat (i + j)) AND 0xfff) = (unat w + (i + j)) mod 4096" using assms by (intro advance_eq) auto
  ultimately show ?thesis by (simp add: word_unat_eq_iff mod_add_left_eq add.assoc)
qed

section \<open>Reading\<close>

lemma chunk_range:
  assumes "0 < cnt" "0 < sz" "unat w < 4096"
  shows "0 < chunk w cnt sz" "chunk w cnt sz \<le> cnt" "chunk w cnt sz \<le> sz" "chunk w cnt sz + uint w \<le> 4096"
    "chunk w cnt sz = min cnt sz \<or> chunk w cnt sz + uint w = 4096"
proof -
  have "uint w < 4096" using assms(3) by (metis of_nat_less_iff of_nat_numeral uint_nat)
  then show "0 < chunk w cnt sz" "chunk w cnt sz \<le> cnt" "chunk w cnt sz \<le> sz" "chunk w cnt sz + uint w \<le> 4096"
    "chunk w cnt sz = min cnt sz \<or> chunk w cnt sz + uint w = 4096"
    using assms by (auto simp: chunk_def Let_def)
qed

definition took :: "u32 \<Rightarrow> nat \<Rightarrow> pst \<Rightarrow> pst" where
  "took buf r s = advance_tail (int r) (s\<lparr>pkern := (pkern s)\<lparr>umem := memcpy_tofs buf (take r (conts s)) (umem (pkern s))\<rparr>\<rparr>)"


lemma conts_cong: "base s' = base s \<Longrightarrow> head s' = head s \<Longrightarrow> tail s' = tail s \<Longrightarrow> conts s' = conts s"
  by (simp add: conts_def PIPE_SIZE_def)

lemma pipe_inv_cong: "base s' = base s \<Longrightarrow> head s' = head s \<Longrightarrow> tail s' = tail s \<Longrightarrow> pipe_inv s' = pipe_inv s"
  by (simp add: pipe_inv_def)

lemma took_ok:
  assumes "pipe_inv s" "r \<le> unat (PIPE_SIZE s)" "r + unat (tail s) \<le> 4096"
  shows "pipe_inv (took buf r s)" "conts (took buf r s) = drop r (conts s)"
proof -
  let ?s = "s\<lparr>pkern := (pkern s)\<lparr>umem := memcpy_tofs buf (take r (conts s)) (umem (pkern s))\<rparr>\<rparr>"
  have i: "pipe_inv ?s" "conts ?s = conts s" "PIPE_SIZE ?s = PIPE_SIZE s"
    using assms(1) by (simp_all add: pipe_inv_def conts_def PIPE_SIZE_def)
  show "pipe_inv (took buf r s)" "conts (took buf r s) = drop r (conts s)"
    using get_step [OF i(1), of r] assms(2,3) i by (simp_all add: took_def)
qed

lemma took_took:
  assumes "pipe_inv s" "i + j \<le> unat (PIPE_SIZE s)" "i + unat (tail s) \<le> 4096"
  shows "took (buf + of_nat i) j (took buf i s) = took buf (i + j) s"
proof -
  have z: "unat (PIPE_SIZE s) < 4096" "unat (tail s) < 4096" using unat_PIPE_SIZE(2) [OF assms(1)] assms(1) by (auto simp: pipe_inv_def)
  have c: "conts (took buf i s) = drop i (conts s)" using assms by (intro took_ok) auto
  have l: "length (take i (conts s)) = i" using assms length_conts [OF assms(1)] by simp
  have "memcpy_tofs (buf + of_nat i) (take j (drop i (conts s))) (memcpy_tofs buf (take i (conts s)) m) =
      memcpy_tofs buf (take (i + j) (conts s)) m" for m
    using memcpy_tofs_append [of buf "take i (conts s)" "take j (drop i (conts s))" m] l by (simp add: take_add)
  then show ?thesis using advance_advance [of i j "tail s"] assms z
    by (simp add: took_def [of "buf + of_nat i"] c) (simp add: took_def advance_tail_def)
qed

lemma read_round:
  assumes I: "pipe_inv s" and c: "0 < cnt" "PIPE_SIZE s \<noteq> 0"
  defines "k \<equiv> nat (chunk (tail s) cnt (uint (PIPE_SIZE s)))"
  shows "read_copy (Suc n) buf cnt rd s = read_copy n (buf + of_nat k) (cnt - int k) (rd + int k) (took buf k s)"
    "0 < k" "int k \<le> cnt" "k \<le> unat (PIPE_SIZE s)" "k + unat (tail s) \<le> 4096"
    "k = min (nat cnt) (unat (PIPE_SIZE s)) \<or> k + unat (tail s) = 4096"
proof -
  have t: "unat (tail s) < 4096" using I by (simp add: pipe_inv_def)
  have z: "0 < uint (PIPE_SIZE s)" using c(2) by (simp add: word_neq_0_conv word_less_def)
  note R = chunk_range [OF c(1) z t]
  have k: "int k = chunk (tail s) cnt (uint (PIPE_SIZE s))" using R(1) by (simp add: k_def)
  have u: "uint (PIPE_SIZE s) = int (unat (PIPE_SIZE s))" "uint (tail s) = int (unat (tail s))" by simp_all
  show p: "0 < k" "int k \<le> cnt" "k \<le> unat (PIPE_SIZE s)" "k + unat (tail s) \<le> 4096"
    using R(1-4) k u by linarith+
  have "k = min (nat cnt) z" if "int k = min cnt (int z)" for z using that by (auto simp: min_def split: if_splits)
  then show "k = min (nat cnt) (unat (PIPE_SIZE s)) \<or> k + unat (tail s) = 4096"
    using R(5) k u by linarith
  have "get_bytes (int k) s = take k (conts s)" using get_step [OF I p(3,4)] by simp
  then show "read_copy (Suc n) buf cnt rd s = read_copy n (buf + of_nat k) (cnt - int k) (rd + int k) (took buf k s)"
    using c by (simp add: Let_def took_def flip: k)
qed

lemma read_copy_end:
  assumes "pipe_inv s" "cnt \<le> 0 \<or> PIPE_SIZE s = 0"
  shows "read_copy (Suc n) buf cnt rd s = Some (rd, s)"
  using assms by auto

declare read_copy.simps(2) [simp del]

lemma took_0: "pipe_inv s \<Longrightarrow> took buf 0 s = s"
proof -
  assume "pipe_inv s"
  then have "unat (tail s AND 0xfff) = unat (tail s)" by (simp add: unat_and_fff pipe_inv_def)
  then have "tail s AND 0xfff = tail s" by (simp add: word_unat_eq_iff)
  then show ?thesis by (simp add: took_def advance_tail_def)
qed

lemma PIPE_SIZE_took:
  assumes "pipe_inv s" "r \<le> unat (PIPE_SIZE s)" "r + unat (tail s) \<le> 4096"
  shows "unat (PIPE_SIZE (took buf r s)) = unat (PIPE_SIZE s) - r"
  using took_ok [OF assms, of buf] length_conts [of "took buf r s"] length_conts [OF assms(1)] by simp

text \<open>From the start of the page one round takes all there is to take; from anywhere two do.\<close>

lemma read_copy_start:
  assumes I: "pipe_inv s" and c: "0 \<le> cnt" and t: "tail s = 0"
  defines "r \<equiv> min (nat cnt) (unat (PIPE_SIZE s))"
  shows "read_copy (Suc (Suc n)) buf cnt rd s = Some (rd + int r, took buf r s)"
proof (cases "0 < cnt \<and> PIPE_SIZE s \<noteq> 0")
  case False
  then have "r = 0" using c by (auto simp: r_def)
  then show ?thesis using False read_copy_end [OF I, of cnt] took_0 [OF I] by auto
next
  case True
  then have k: "0 < cnt" "PIPE_SIZE s \<noteq> 0" by auto
  note R = read_round [OF I k]
  let ?k = "nat (chunk (tail s) cnt (uint (PIPE_SIZE s)))"
  have "?k \<noteq> 4096" using R(4) unat_PIPE_SIZE(2) [OF I] by linarith
  then have kr: "?k = r" using R(6) t by (simp add: r_def)
  have I': "pipe_inv (took buf ?k s)" using took_ok(1) [OF I R(4,5)] .
  have "cnt - int ?k \<le> 0 \<or> PIPE_SIZE (took buf ?k s) = 0"
    using PIPE_SIZE_took [OF I R(4,5), of buf] kr by (auto simp: r_def min_def unat_eq_0 split: if_splits)
  then show ?thesis using R(1) [of "Suc n" buf rd] read_copy_end [OF I'] kr by simp
qed

lemma read_copy_spec:
  assumes I: "pipe_inv s" and c: "0 \<le> cnt"
  defines "r \<equiv> min (nat cnt) (unat (PIPE_SIZE s))"
  shows "read_copy 3 buf cnt rd s = Some (rd + int r, took buf r s)"
proof (cases "0 < cnt \<and> PIPE_SIZE s \<noteq> 0")
  case False
  then have "r = 0" using c by (auto simp: r_def)
  then show ?thesis using False read_copy_end [OF I, of cnt 2] took_0 [OF I] by (auto simp: numeral_3_eq_3)
next
  case True
  then have k: "0 < cnt" "PIPE_SIZE s \<noteq> 0" by auto
  define k where "k = nat (chunk (tail s) cnt (uint (PIPE_SIZE s)))"
  note R = read_round [OF I k, folded k_def]
  have I': "pipe_inv (took buf k s)" using took_ok(1) [OF I R(4,5)] .
  have z: "unat (PIPE_SIZE (took buf k s)) = unat (PIPE_SIZE s) - k" using PIPE_SIZE_took [OF I R(4,5)] .
  have e: "read_copy 3 buf cnt rd s = read_copy 2 (buf + of_nat k) (cnt - int k) (rd + int k) (took buf k s)"
    using R(1) [of 2] by (simp add: numeral_3_eq_3 numeral_2_eq_2)
  show ?thesis
  proof (cases "k = min (nat cnt) (unat (PIPE_SIZE s))")
    case True
    then have kr: "k = r" by (simp add: r_def)
    have "cnt - int k \<le> 0 \<or> PIPE_SIZE (took buf k s) = 0" using z kr by (auto simp: r_def min_def unat_eq_0 split: if_splits)
    then show ?thesis using e kr read_copy_end [OF I', of _ 1] by (simp add: numeral_2_eq_2)
  next
    case False
    then have "unat (tail s) + k = 4096" using R(6) by simp
    then have "unat (tail (took buf k s)) = 0"
      using advance_eq [of "tail s" k] I R(4) unat_PIPE_SIZE(2) [OF I] by (simp add: took_def advance_tail_def pipe_inv_def)
    then have t: "tail (took buf k s) = 0" by (simp add: unat_eq_0)
    have m: "min (nat (cnt - int k)) (unat (PIPE_SIZE (took buf k s))) = r - k" using z R(3,4) by (auto simp: r_def min_def)
    have "k \<le> r" using R(3,4) by (auto simp: r_def)
    then show ?thesis
      using e read_copy_start [OF I' _ t, of "cnt - int k" 0 "buf + of_nat k" "rd + int k"] R(3) m
        took_took [OF I _ R(5), of "r - k" buf] by (simp add: numeral_2_eq_2 r_def)
  qed
qed

section \<open>Writing\<close>

definition room :: "pst \<Rightarrow> nat" where
  "room s = 4095 - unat (PIPE_SIZE s)"

lemma uint_room: "pipe_inv s \<Longrightarrow> uint (0xfff - PIPE_SIZE s) = int (room s)"
proof -
  assume "pipe_inv s"
  then have "unat (PIPE_SIZE s) \<le> unat (0xfff :: u32)" using unat_PIPE_SIZE(2) [of s] by simp
  then have "unat (0xfff - PIPE_SIZE s) = 4095 - unat (PIPE_SIZE s)" by (simp add: unat_sub word_le_nat_alt)
  then show ?thesis by (metis room_def uint_nat)
qed

lemma room_zero: "pipe_inv s \<Longrightarrow> 0xfff - PIPE_SIZE s = 0 \<longleftrightarrow> room s = 0"
  using uint_room [of s] by (metis of_nat_eq_0_iff uint_0_iff)

definition only_ring :: "pst \<Rightarrow> pst \<Rightarrow> bool" where
  "only_ring s s' \<longleftrightarrow> s' = s\<lparr>base := base s', head := head s'\<rparr>"

lemma only_ring_trans: "only_ring s t \<Longrightarrow> only_ring t u \<Longrightarrow> only_ring s u"
proof -
  assume a: "only_ring s t" "only_ring t u"
  have "u = (s\<lparr>base := base t, head := head t\<rparr>)\<lparr>base := base u, head := head u\<rparr>"
    using a unfolding only_ring_def by metis
  then show ?thesis unfolding only_ring_def by simp
qed

lemma only_ring_fields:
  assumes "only_ring s t"
  shows "pkern t = pkern s" "tail t = tail s" "readers t = readers s" "writers t = writers s"
  by (subst assms [unfolded only_ring_def], simp)+

lemma write_round:
  assumes I: "pipe_inv s" and c: "0 < cnt" "room s \<noteq> 0"
  defines "k \<equiv> nat (chunk (head s) cnt (int (room s)))"
  shows "write_copy (Suc n) buf cnt w s =
      write_copy n (buf + of_nat k) (cnt - int k) (w + int k) (ring_put (memcpy_fromfs (umem (pkern s)) buf k) s)"
    "0 < k" "int k \<le> cnt" "k \<le> room s" "k + unat (head s) \<le> 4096"
    "k = min (nat cnt) (room s) \<or> k + unat (head s) = 4096"
proof -
  have t: "unat (head s) < 4096" using I by (simp add: pipe_inv_def)
  have z: "0 < int (room s)" using c(2) by simp
  note R = chunk_range [OF c(1) z t]
  have k: "int k = chunk (head s) cnt (int (room s))" using R(1) by (simp add: k_def)
  have u: "uint (head s) = int (unat (head s))" by simp
  show "0 < k" "int k \<le> cnt" "k \<le> room s" "k + unat (head s) \<le> 4096" using R(1-4) k u by linarith+
  have "k = min (nat cnt) z" if "int k = min cnt (int z)" for z using that by (auto simp: min_def split: if_splits)
  then show "k = min (nat cnt) (room s) \<or> k + unat (head s) = 4096" using R(5) k u by linarith
  show "write_copy (Suc n) buf cnt w s =
      write_copy n (buf + of_nat k) (cnt - int k) (w + int k) (ring_put (memcpy_fromfs (umem (pkern s)) buf k) s)"
    using c room_zero [OF I] by (simp add: Let_def ring_put_def uint_room [OF I] flip: k)
qed

lemma write_copy_end:
  assumes "pipe_inv s" "cnt \<le> 0 \<or> room s = 0"
  shows "write_copy (Suc n) buf cnt w s = Some (buf, cnt, w, s)"
  using assms room_zero [OF assms(1)] by auto

declare write_copy.simps(2) [simp del]

lemma ring_put_fields:
  assumes I: "pipe_inv s" and k: "length bs \<le> room s" "length bs + unat (head s) \<le> 4096"
  shows "pipe_inv (ring_put bs s)" "conts (ring_put bs s) = conts s @ bs" "only_ring s (ring_put bs s)"
    "room (ring_put bs s) = room s - length bs" "unat (head (ring_put bs s)) = (unat (head s) + length bs) mod 4096"
proof -
  have f: "put_fits bs s" using k unat_PIPE_SIZE(2) [OF I] by (simp add: put_fits_def room_def)
  show i: "pipe_inv (ring_put bs s)" and c: "conts (ring_put bs s) = conts s @ bs"
    using pq.put_law [OF I f] by auto
  show "only_ring s (ring_put bs s)"
    by (simp add: only_ring_def ring_put_def advance_head_def put_bytes_def Let_def)
  show "room (ring_put bs s) = room s - length bs"
    using length_conts [OF I] length_conts [OF i] c by (simp add: room_def)
  have "length bs < 4096" using k(1) by (simp add: room_def)
  then show "unat (head (ring_put bs s)) = (unat (head s) + length bs) mod 4096"
    using advance_eq [of "head s" "length bs"] I
    by (simp add: ring_put_def advance_head_def put_bytes_def Let_def pipe_inv_def)
qed

lemma write_copy_start:
  assumes I: "pipe_inv s" and c: "0 \<le> cnt" and t: "unat (head s) = 0"
  defines "r \<equiv> min (nat cnt) (room s)"
  shows "\<exists>s'. write_copy (Suc (Suc n)) buf cnt w s = Some (buf + of_nat r, cnt - int r, w + int r, s') \<and>
    pipe_inv s' \<and> conts s' = conts s @ memcpy_fromfs (umem (pkern s)) buf r \<and> only_ring s s'"
proof (cases "0 < cnt \<and> room s \<noteq> 0")
  case False
  then have "r = 0" using c by (auto simp: r_def)
  then show ?thesis using False write_copy_end [OF I, of cnt "Suc n" buf w] I by (auto simp: only_ring_def)
next
  case True
  then have k: "0 < cnt" "room s \<noteq> 0" by auto
  define k where "k = nat (chunk (head s) cnt (int (room s)))"
  note R = write_round [OF I k, folded k_def]
  have kr: "k = r" using R(4,6) t by (auto simp: r_def room_def)
  let ?bs = "memcpy_fromfs (umem (pkern s)) buf r"
  have P: "pipe_inv (ring_put ?bs s)" "conts (ring_put ?bs s) = conts s @ ?bs" "only_ring s (ring_put ?bs s)"
    "room (ring_put ?bs s) = room s - r"
    using ring_put_fields [OF I, of ?bs] R(4,5) kr by auto
  have "cnt - int r \<le> 0 \<or> room (ring_put ?bs s) = 0" using P(4) by (auto simp: r_def)
  then show ?thesis using R(1) [of "Suc n" buf w] kr write_copy_end [OF P(1)] P by auto
qed

lemma write_copy_spec:
  assumes I: "pipe_inv s" and c: "0 \<le> cnt"
  defines "r \<equiv> min (nat cnt) (room s)"
  shows "\<exists>s'. write_copy 3 buf cnt w s = Some (buf + of_nat r, cnt - int r, w + int r, s') \<and>
    pipe_inv s' \<and> conts s' = conts s @ memcpy_fromfs (umem (pkern s)) buf r \<and> only_ring s s'"
proof (cases "0 < cnt \<and> room s \<noteq> 0")
  case False
  then have "r = 0" using c by (auto simp: r_def)
  then show ?thesis using False write_copy_end [OF I, of cnt 2 buf w] I by (auto simp: only_ring_def numeral_3_eq_3)
next
  case True
  then have k: "0 < cnt" "room s \<noteq> 0" by auto
  define k where "k = nat (chunk (head s) cnt (int (room s)))"
  note R = write_round [OF I k, folded k_def]
  let ?bs = "memcpy_fromfs (umem (pkern s)) buf k" and ?s = "ring_put (memcpy_fromfs (umem (pkern s)) buf k) s"
  have P: "pipe_inv ?s" "conts ?s = conts s @ ?bs" "only_ring s ?s" "room ?s = room s - k"
    "unat (head ?s) = (unat (head s) + k) mod 4096"
    using ring_put_fields [OF I, of ?bs] R(4,5) by auto
  have e: "write_copy 3 buf cnt w s = write_copy 2 (buf + of_nat k) (cnt - int k) (w + int k) ?s"
    using R(1) [of 2] by (simp add: numeral_3_eq_3 numeral_2_eq_2)
  show ?thesis
  proof (cases "k = min (nat cnt) (room s)")
    case True
    then have kr: "k = r" by (simp add: r_def)
    have "cnt - int k \<le> 0 \<or> room ?s = 0" using P(4) kr by (auto simp: r_def)
    then show ?thesis using e kr write_copy_end [OF P(1), of _ 1] P by (auto simp: numeral_2_eq_2)
  next
    case False
    then have "unat (head s) + k = 4096" using R(6) by simp
    then have h: "unat (head ?s) = 0" using P(5) by simp
    have kl: "k \<le> r" using R(3,4) by (auto simp: r_def)
    have m: "min (nat (cnt - int k)) (room ?s) = r - k" using P(4) R(3,4) by (auto simp: r_def min_def)
    obtain s' where s': "write_copy 2 (buf + of_nat k) (cnt - int k) (w + int k) ?s =
        Some (buf + of_nat k + of_nat (r - k), cnt - int k - int (r - k), w + int k + int (r - k), s')"
      "pipe_inv s'" "conts s' = conts ?s @ memcpy_fromfs (umem (pkern ?s)) (buf + of_nat k) (r - k)" "only_ring ?s s'"
      using write_copy_start [OF P(1) _ h, of "cnt - int k" 0 "buf + of_nat k" "w + int k"] R(3) m
      by (auto simp: numeral_2_eq_2)
    have "memcpy_fromfs (umem (pkern s)) buf r = ?bs @ memcpy_fromfs (umem (pkern s)) (buf + of_nat k) (r - k)"
      using memcpy_fromfs_append [of "umem (pkern s)" buf k "r - k"] kl by simp
    moreover have "buf + of_nat k + of_nat (r - k) = buf + of_nat r" using kl by (simp add: of_nat_diff)
    ultimately show ?thesis using e s' P(2,3) kl only_ring_fields(1) [OF P(3)] only_ring_trans [OF P(3) s'(4)]
      by (intro exI [of _ s']) (simp add: of_nat_diff)
  qed
qed

section \<open>The calls\<close>

lemma wake_ring [simp]:
  "conts (wake_readers s) = conts s" "conts (wake_writers s) = conts s"
  "pipe_inv (wake_readers s) = pipe_inv s" "pipe_inv (wake_writers s) = pipe_inv s"
  "writers (wake_writers s) = writers s" "readers (wake_writers s) = readers s"
  "writers (wake_readers s) = writers s" "readers (wake_readers s) = readers s"
  "umem (pkern (wake_readers s)) = umem (pkern s)" "umem (pkern (wake_writers s)) = umem (pkern s)"
  "PIPE_SIZE (wake_readers s) = PIPE_SIZE s" "PIPE_SIZE (wake_writers s) = PIPE_SIZE s"
  by (simp_all add: wake_readers_def wake_writers_def conts_def pipe_inv_def PIPE_SIZE_def)

lemma took_spec:
  assumes "pipe_inv s" "r \<le> unat (PIPE_SIZE s)"
  shows "pipe_inv (took buf r s)" "conts (took buf r s) = drop r (conts s)"
    "umem (pkern (took buf r s)) = memcpy_tofs buf (take r (conts s)) (umem (pkern s))"
    "writers (took buf r s) = writers s" "readers (took buf r s) = readers s"
proof -
  show "umem (pkern (took buf r s)) = memcpy_tofs buf (take r (conts s)) (umem (pkern s))"
    "writers (took buf r s) = writers s" "readers (took buf r s) = readers s" by (simp_all add: took_def advance_tail_def)
  have b: "unat (PIPE_SIZE s) < 4096" "unat (tail s) < 4096" using unat_PIPE_SIZE(2) [OF assms(1)] assms(1) by (auto simp: pipe_inv_def)
  show "pipe_inv (took buf r s)" "conts (took buf r s) = drop r (conts s)"
  proof (atomize(full), cases "r + unat (tail s) \<le> 4096")
    case True
    then show "pipe_inv (took buf r s) \<and> conts (took buf r s) = drop r (conts s)" using took_ok [OF assms(1,2)] by simp
  next
    case False
    define i where "i = 4096 - unat (tail s)"
    have i: "i + (r - i) = r" "i + unat (tail s) \<le> 4096" "i \<le> unat (PIPE_SIZE s)" using False assms(2) b by (auto simp: i_def)
    have T: "pipe_inv (took buf i s)" "conts (took buf i s) = drop i (conts s)" using took_ok [OF assms(1) i(3,2)] by auto
    have z: "unat (PIPE_SIZE (took buf i s)) = unat (PIPE_SIZE s) - i" using PIPE_SIZE_took [OF assms(1) i(3,2)] .
    have "unat (tail (took buf i s)) = 0"
      using advance_eq [of "tail s" i] b i by (simp add: took_def advance_tail_def i_def)
    then have "r - i + unat (tail (took buf i s)) \<le> 4096" using assms(2) b(1) by simp
    moreover have "r - i \<le> unat (PIPE_SIZE (took buf i s))" using z assms(2) by simp
    ultimately have "pipe_inv (took (buf + of_nat i) (r - i) (took buf i s))"
      "conts (took (buf + of_nat i) (r - i) (took buf i s)) = drop (r - i) (conts (took buf i s))"
      using took_ok [OF T(1)] by auto
    then show "pipe_inv (took buf r s) \<and> conts (took buf r s) = drop r (conts s)"
      using took_took [OF assms(1) _ i(2), of "r - i" buf] i(1) assms(2) T(2) by (simp add: add.commute)
  qed
qed

lemma read_finish_spec:
  assumes I: "pipe_inv s" and c: "0 \<le> cnt"
  defines "r \<equiv> min (nat cnt) (length (conts s))"
  shows "read_finish buf cnt s =
    Some (if r \<noteq> 0 then int r else if writers s \<noteq> 0 then - EAGAIN else 0, wake_writers (took buf r s))"
  using read_copy_spec [OF I c, of buf 0] took_spec(4) [OF I, of r buf] length_conts [OF I]
  by (simp add: read_finish_def r_def Let_def)

lemma pipe_read_ready:
  assumes I: "pipe_inv s" and c: "0 < cnt" and n: "nonblock \<or> conts s \<noteq> []"
  defines "r \<equiv> min (nat cnt) (length (conts s))"
  shows "\<exists>s'. pipe_read (Suc n) env nonblock buf cnt s =
      Some (if conts s \<noteq> [] then int r else if writers s \<noteq> 0 then - EAGAIN else 0, s') \<and>
    pipe_inv s' \<and> conts s' = drop r (conts s) \<and> umem (pkern s') = memcpy_tofs buf (take r (conts s)) (umem (pkern s))"
proof -
  have z: "PIPE_SIZE s = 0 \<longleftrightarrow> conts s = []" using length_conts [OF I] by (metis length_0_conv unat_eq_0)
  have r0: "r = 0 \<longleftrightarrow> conts s = []" using c by (cases "conts s") (auto simp: r_def min_def)
  have rl: "r \<le> unat (PIPE_SIZE s)" using length_conts [OF I] by (simp add: r_def)
  have "pipe_read (Suc n) env nonblock buf cnt s = read_finish buf cnt s" using n z by (auto simp: pipe_read_def)
  then show ?thesis using read_finish_spec [OF I, of cnt buf, folded r_def] c took_spec [OF I rl, of buf] by (auto simp: r0)
qed

lemma pipe_read_eof:
  assumes "pipe_inv s" "conts s = []" "writers s = 0"
  shows "pipe_read (Suc n) env False buf cnt s = Some (0, wake_writers s)"
proof -
  have "PIPE_SIZE s = 0" using length_conts [OF assms(1)] assms(2) by (metis list.size(3) unat_eq_0)
  then show ?thesis using assms(3) by (simp add: pipe_read_def Let_def)
qed

text \<open>Reading from a pipe that holds something, or in non-blocking mode: the call returns at once, with as many of
  the oldest bytes as there are and were asked for, in order, at \<open>buf\<close>; they leave the pipe and the rest stays. From an
  empty pipe it returns EAGAIN while there are writers and 0 (end of file) when there are none; a blocking read
  also returns 0 then.\<close>

theorem pipe_read_returns:
  assumes I: "pipe_inv s" and c: "0 < cnt"
  shows "(nonblock \<or> conts s \<noteq> [] \<longrightarrow>
      (\<exists>s'. pipe_read (Suc n) env nonblock buf cnt s =
          Some (if conts s \<noteq> [] then int (min (nat cnt) (length (conts s)))
                else if writers s \<noteq> 0 then - EAGAIN else 0, s') \<and>
        pipe_inv s' \<and> conts s' = drop (nat cnt) (conts s) \<and>
        umem (pkern s') = memcpy_tofs buf (take (nat cnt) (conts s)) (umem (pkern s)))) \<and>
    (conts s = [] \<and> writers s = 0 \<longrightarrow> pipe_read (Suc n) env False buf cnt s = Some (0, wake_writers s))"
proof -
  have "drop (min (nat cnt) (length (conts s))) (conts s) = drop (nat cnt) (conts s)"
    "take (min (nat cnt) (length (conts s))) (conts s) = take (nat cnt) (conts s)" by (simp_all add: min_def)
  then show ?thesis using pipe_read_ready [OF I c, of nonblock n env buf] pipe_read_eof [OF I] by simp
qed

section \<open>Writing\<close>

lemma wait_loop_ready:
  assumes "uint (PIPE_SIZE s) < sz"
  shows "write_wait_loop (Suc m) env nonblock sz w s = Some (Inr s)"
  using assms by simp

lemma write_once:
  assumes I: "pipe_inv s" and c: "0 \<le> cnt"
  defines "r \<equiv> min (nat cnt) (room s)"
  assumes w: "write_wait_loop m env nonblock sz w0 s0 = Some (Inr s)" and c0: "0 < cnt"
  shows "\<exists>s'. write_loop (Suc n) m env nonblock buf cnt sz w0 s0 =
      write_loop n m env nonblock (buf + of_nat r) (cnt - int r) 4095 (w0 + int r) s' \<and>
    pipe_inv s' \<and> conts s' = conts s @ memcpy_fromfs (umem (pkern s)) buf r \<and>
    umem (pkern s') = umem (pkern s) \<and> readers s' = readers s \<and> writers s' = writers s"
proof -
  obtain s' where s': "write_copy 3 buf cnt w0 s = Some (buf + of_nat r, cnt - int r, w0 + int r, s')"
    "pipe_inv s'" "conts s' = conts s @ memcpy_fromfs (umem (pkern s)) buf r" "only_ring s s'"
    using write_copy_spec [OF I c, of buf w0] unfolding r_def by blast
  show ?thesis using s' w c0 only_ring_fields [OF s'(4)]
    by (intro exI [of _ "wake_readers s'"]) simp
qed

lemma sleep_write_inv:
  assumes "\<forall>t. pipe_inv t \<longrightarrow> pipe_inv (env t)" "pipe_inv s" "sleep_write env s = Some s'"
  shows "pipe_inv s'"
  using assms by (auto simp: sleep_write_def Let_def pipe_inv_def split: option.splits)

lemma write_wait_results:
  assumes "\<forall>t. pipe_inv t \<longrightarrow> pipe_inv (env t)" "pipe_inv s" "write_wait_loop m env nonblock sz w s = Some res"
  shows "(case res of Inr t \<Rightarrow> pipe_inv t \<and> uint (PIPE_SIZE t) < sz
    | Inl (r, t) \<Rightarrow> pipe_inv t \<and> r \<in> or_written w ` {- EPIPE, - ERESTARTSYS, - EAGAIN})"
  using assms
proof (induction m env nonblock sz w s rule: write_wait_loop.induct)
  case (2 n env nonblock sz w s)
  show ?case
  proof (cases "uint (PIPE_SIZE s) \<ge> sz")
    case False
    then show ?thesis using 2(3,4) by auto
  next
    case True
    then show ?thesis using 2 sleep_write_inv [OF 2(2,3)]
      by (auto simp: pipe_inv_def split: if_splits option.splits)
  qed
qed simp

text \<open>With room for all of a small request the loop copies it in one round and ends.\<close>

lemma write_loop_all:
  assumes I: "pipe_inv s" and c: "0 < cnt" "cnt < 4096" and z: "uint (PIPE_SIZE s) < 4096 - cnt"
    and w: "write_wait_loop m env nonblock sz 0 s0 = Some (Inr s)"
  shows "\<exists>s'. write_loop (Suc (Suc n)) m env nonblock buf cnt sz 0 s0 = Some (cnt, s') \<and>
    pipe_inv s' \<and> conts s' = conts s @ memcpy_fromfs (umem (pkern s)) buf (nat cnt)"
proof -
  have "int (unat (PIPE_SIZE s)) < 4096 - cnt" using z by simp
  then have "nat cnt \<le> room s" unfolding room_def using c by linarith
  then have m: "min (nat cnt) (room s) = nat cnt" by simp
  obtain s' where "write_loop (Suc (Suc n)) m env nonblock buf cnt sz 0 s0 =
      write_loop (Suc n) m env nonblock (buf + of_nat (nat cnt)) (cnt - int (nat cnt)) 4095 (0 + int (nat cnt)) s'"
    "pipe_inv s'" "conts s' = conts s @ memcpy_fromfs (umem (pkern s)) buf (nat cnt)"
    using write_once [OF I _ w c(1), of "Suc n" buf] c unfolding m by auto
  then show ?thesis using c by (intro exI [of _ s']) simp
qed

text \<open>C15. Writes of less than a page are atomic. Whatever the rest of the system does to the pipe while the writer
  sleeps, the request either waits until all of it fits and is then appended as one piece behind what the pipe
  holds at that time, with the full count as the result; or nothing is written and an error is returned (EPIPE,
  ERESTARTSYS, EAGAIN). When it fits at the start there is no wait.\<close>

theorem pipe_write_atomic:
  assumes env: "\<forall>t. pipe_inv t \<longrightarrow> pipe_inv (env t)"
    and I: "pipe_inv s" and rd: "readers s \<noteq> 0" and c: "0 < cnt" "cnt < 4096"
  shows "(case write_wait_loop (Suc m) env nonblock (4096 - cnt) 0 s of
      None \<Rightarrow> pipe_write (Suc (Suc n)) (Suc m) env nonblock buf cnt s = None
    | Some (Inl (r, s1)) \<Rightarrow> pipe_write (Suc (Suc n)) (Suc m) env nonblock buf cnt s = Some (r, s1) \<and>
        r \<in> {- EPIPE, - ERESTARTSYS, - EAGAIN}
    | Some (Inr s1) \<Rightarrow> (\<exists>s'. pipe_write (Suc (Suc n)) (Suc m) env nonblock buf cnt s = Some (cnt, s') \<and>
        pipe_inv s' \<and> conts s' = conts s1 @ memcpy_fromfs (umem (pkern s1)) buf (nat cnt))) \<and>
    (length (conts s) + nat cnt < 4096 \<longrightarrow> write_wait_loop (Suc m) env nonblock (4096 - cnt) 0 s = Some (Inr s))"
proof (rule conjI, goal_cases)
  case 1
  have e: "pipe_write (Suc (Suc n)) (Suc m) env nonblock buf cnt s =
      write_loop (Suc (Suc n)) (Suc m) env nonblock buf cnt (4096 - cnt) 0 s"
    using rd c by (simp only: pipe_write_def Let_def if_False if_True)
  note W = write_wait_results [OF env I, of "Suc m" nonblock "4096 - cnt" 0]
  show ?case
  proof (cases "write_wait_loop (Suc m) env nonblock (4096 - cnt) 0 s")
    case None
    then show ?thesis using e c by (simp del: write_wait_loop.simps)
  next
    case (Some res)
    show ?thesis
    proof (cases res)
      case (Inl x)
      then show ?thesis using W [OF Some] Some e c
        by (cases x) (simp add: or_written_def del: write_wait_loop.simps)
    next
      case (Inr s1)
      then have "pipe_inv s1" "uint (PIPE_SIZE s1) < 4096 - cnt" using W [OF Some] by auto
      then show ?thesis using write_loop_all [OF _ c _ Some [unfolded Inr], of n buf] e Some Inr
        by (simp del: write_wait_loop.simps write_loop.simps)
    qed
  qed
next
  case 2
  show ?case
  proof
    assume "length (conts s) + nat cnt < 4096"
    then have "int (unat (PIPE_SIZE s)) < 4096 - cnt" using length_conts [OF I] c by linarith
    then show "write_wait_loop (Suc m) env nonblock (4096 - cnt) 0 s = Some (Inr s)" by (intro wait_loop_ready) simp
  qed
qed

text \<open>A non-blocking write ends at once and has put the bytes it reports into the pipe.\<close>

lemma pipe_write_nonblock:
  assumes I: "pipe_inv s"
  shows "\<exists>r s'. pipe_write (Suc (Suc n)) (Suc m) env True buf cnt s = Some (r, s') \<and> pipe_inv s' \<and>
    conts s' = conts s @ memcpy_fromfs (umem (pkern s)) buf (nat r) \<and> (0 \<le> cnt \<longrightarrow> r \<le> cnt)"
proof (cases "readers s = 0 \<or> cnt \<le> 0")
  case True
  then show ?thesis using I
    by (auto simp: pipe_write_def conts_def pipe_inv_def PIPE_SIZE_def)
next
  case False
  define sz where "sz = (if cnt < 4096 then 4096 - cnt else 4095)"
  have e: "pipe_write (Suc (Suc n)) (Suc m) env True buf cnt s = write_loop (Suc (Suc n)) (Suc m) env True buf cnt sz 0 s"
    using False by (simp add: pipe_write_def Let_def sz_def del: write_loop.simps)
  show ?thesis
  proof (cases "uint (PIPE_SIZE s) \<ge> sz")
    case True
    then show ?thesis unfolding e using False I
      by (auto simp: or_written_def pipe_inv_def)
  next
    case f: False
    define r where "r = min (nat cnt) (room s)"
    have w: "write_wait_loop (Suc m) env True sz 0 s = Some (Inr s)" using f by (intro wait_loop_ready) simp
    obtain s' where s': "write_loop (Suc (Suc n)) (Suc m) env True buf cnt sz 0 s =
        write_loop (Suc n) (Suc m) env True (buf + of_nat r) (cnt - int r) 4095 (0 + int r) s'"
      "pipe_inv s'" "conts s' = conts s @ memcpy_fromfs (umem (pkern s)) buf r" "readers s' = readers s"
      using write_once [OF I _ w, of cnt "Suc n" buf] False unfolding r_def by auto
    have sz: "unat (PIPE_SIZE s) < 4095" 
    proof -
      have "int (unat (PIPE_SIZE s)) < 4095" using f False unfolding sz_def by (auto split: if_splits)
      then show ?thesis by linarith
    qed
    have "0 < r" using False sz by (simp add: r_def room_def)
    moreover have "uint (PIPE_SIZE s') \<ge> 4095" if "cnt - int r > 0"
    proof -
      have "r = room s" using that False by (auto simp: r_def)
      then have "length (conts s') = 4095" using s'(3) length_conts [OF I] sz by (simp add: room_def)
      then show ?thesis using length_conts [OF s'(2)] by (metis of_nat_numeral order_refl uint_nat)
    qed
    ultimately have "\<exists>k. write_loop (Suc n) (Suc m) env True (buf + of_nat r) (cnt - int r) 4095 (0 + int r) s' =
        Some (int r, s'\<lparr>pkern := k\<rparr>)"
      by (cases "readers s' = 0") (auto simp: or_written_def intro: exI [of _ "pkern s'"])
    then obtain k where k: "pipe_write (Suc (Suc n)) (Suc m) env True buf cnt s = Some (int r, s'\<lparr>pkern := k\<rparr>)"
      using e s'(1) by metis
    have "pipe_inv (s'\<lparr>pkern := k\<rparr>)" "conts (s'\<lparr>pkern := k\<rparr>) = conts s'"
      using s'(2) by (simp_all add: pipe_inv_def conts_def PIPE_SIZE_def)
    then show ?thesis using k s'(3) False by (auto simp: r_def)
  qed
qed

section \<open>Sequences of calls\<close>

text \<open>Any sequence of non-blocking reads and writes of any sizes and buffers: the bytes the reads delivered (as they
  are in the user's memory after the call) and the bytes the writes took (as they were there before it).\<close>

datatype call = Read u32 int | Write u32 int

fun run_calls :: "(pst \<Rightarrow> pst) \<Rightarrow> call list \<Rightarrow> pst \<Rightarrow> (u8 list \<times> u8 list \<times> pst) option" where
  "run_calls env [] s = Some ([], [], s)"
| "run_calls env (Read buf cnt # cs) s =
     (case pipe_read 1 env True buf cnt s of
        None \<Rightarrow> None
      | Some (r, s') \<Rightarrow>
          map_option (\<lambda>(got, put, t). (memcpy_fromfs (umem (pkern s')) buf (nat r) @ got, put, t)) (run_calls env cs s'))"
| "run_calls env (Write buf cnt # cs) s =
     (case pipe_write 2 1 env True buf cnt s of
        None \<Rightarrow> None
      | Some (r, s') \<Rightarrow>
          map_option (\<lambda>(got, put, t). (got, memcpy_fromfs (umem (pkern s)) buf (nat r) @ put, t)) (run_calls env cs s'))"

lemma read_neg: "pipe_inv s \<Longrightarrow> cnt \<le> 0 \<Longrightarrow>
  pipe_read 1 env True buf cnt s = Some (if writers s \<noteq> 0 then - EAGAIN else 0, wake_writers s)"
  using read_copy_end [of s cnt 2 buf 0] by (simp add: pipe_read_def read_finish_def numeral_3_eq_3 numeral_2_eq_2 Let_def)

lemma read_step:
  assumes I: "pipe_inv s"
  shows "\<exists>r s'. pipe_read 1 env True buf cnt s = Some (r, s') \<and> pipe_inv s' \<and> r \<le> max 0 cnt \<and>
    conts s = memcpy_fromfs (umem (pkern s')) buf (nat r) @ conts s'"
proof (cases "0 < cnt")
  case False
  then show ?thesis using read_neg [OF I, of cnt] I by auto
next
  case True
  define r where "r = min (nat cnt) (length (conts s))"
  obtain s' where s': "pipe_read 1 env True buf cnt s = Some (if conts s \<noteq> [] then int r else if writers s \<noteq> 0 then - EAGAIN else 0, s')"
    "pipe_inv s'" "conts s' = drop r (conts s)" "umem (pkern s') = memcpy_tofs buf (take r (conts s)) (umem (pkern s))"
    using pipe_read_ready [OF I True, of True 0 env buf] unfolding r_def by auto
  have l: "length (take r (conts s)) = r" "r < 2 ^ 32"
    using length_conts [OF I] unat_PIPE_SIZE(2) [OF I] by (auto simp: r_def)
  have "memcpy_fromfs (umem (pkern s')) buf r = take r (conts s)"
    using memcpy_fromto [of "take r (conts s)" buf] l s'(4) by simp
  then show ?thesis using s' True by (auto simp: r_def)
qed


section \<open>A pipe\<close>

definition demo_pipe :: pst where
  "demo_pipe = \<lparr>read_wait = [], write_wait = [], base = Some (replicate 4096 0), head = 4095, tail = 4095,
     rd_openers = 0, wr_openers = 0, readers = 1, writers = 1, pkern = demo_kernel\<lparr>umem := \<lambda>a. ucast a\<rparr>\<rparr>"

lemma demo_pipe_inv: "pipe_inv demo_pipe" "conts demo_pipe = []" "readers demo_pipe = 1" "writers demo_pipe = 1"
  by (simp_all add: demo_pipe_def pipe_inv_def conts_def PIPE_SIZE_def)


theorem pipe_read_returns_witness:
  "\<exists>s'. pipe_read 1 id True 100 2 demo_pipe = Some (- EAGAIN, s') \<and> conts s' = []"
  using pipe_read_returns [OF demo_pipe_inv(1), of 2 True 0 id 100] demo_pipe_inv by auto

theorem pipe_write_atomic_witness:
  "\<exists>s'. pipe_write 2 1 id False 7 3 demo_pipe = Some (3, s') \<and> conts s' = [7, 8, 9]"
proof -
  have k: "memcpy_fromfs (umem (pkern demo_pipe)) 7 3 = [7, 8, 9]" by (simp add: demo_pipe_def numeral_3_eq_3)
  have "write_wait_loop 1 id False (4096 - 3) 0 demo_pipe = Some (Inr demo_pipe)"
    by (simp add: demo_pipe_def PIPE_SIZE_def)
  then show ?thesis using pipe_write_atomic [of id demo_pipe 3 0 0 False 7] demo_pipe_inv k
    by (auto simp: numeral_2_eq_2 simp del: write_wait_loop.simps)
qed

section \<open>Creating a pipe: the descriptors\<close>

lemma grow_files_frame [simp]:
  "files (grow_files p s) = files s" "filp (grow_files p s) = filp s" "kernl (grow_files p s) = kernl s"
proof -
  have "files (fold insert_file_free fs s) = files s \<and> filp (fold insert_file_free fs s) = filp s \<and>
      kernl (fold insert_file_free fs s) = kernl s" for fs s
    by (induction fs arbitrary: s) (simp_all add: insert_file_free_def)
  then show "files (grow_files p s) = files s" "filp (grow_files p s) = filp s" "kernl (grow_files p s) = kernl s"
    by (simp_all add: grow_files_def split: option.split)
qed

lemma get_empty_filp_loop_frame:
  assumes "get_empty_filp_loop pages s = Some (Some f, s')"
  shows "f_count (files s f) = 0 \<and> files s' = (files s)(f := empty_file\<lparr>f_count := 1\<rparr>) \<and> filp s' = filp s \<and> kernl s' = kernl s"
  using assms
proof (induction pages s rule: get_empty_filp_loop.induct)
  case (1 pages s)
  show ?case
  proof (cases "find (\<lambda>f. f_count (files s f) = 0) (take (nr_files s) (first_file s))")
    case (Some g)
    then have "f_count (files s g) = 0" by (auto simp: find_Some_iff)
    then show ?thesis using 1(2) Some
      by (auto simp: upd_file_def remove_file_free_def put_last_free_def Let_def)
  next
    case None
    obtain p ps where p: "pages = p # ps" "nr_files s < 1024" "get_empty_filp_loop ps (grow_files p s) = Some (Some f, s')"
      using 1(2) None by (auto split: list.splits if_splits simp del: get_empty_filp_loop.simps simp: get_empty_filp_loop.simps [of pages])
    show ?thesis using 1(1) [OF None p(2,1,3)] by simp
  qed
qed

declare get_empty_filp_loop.simps [simp del]

lemma get_empty_filp_frame:
  assumes "get_empty_filp pages s = Some (Some f, s')"
  shows "f_count (files s f) = 0" "files s' = (files s)(f := empty_file\<lparr>f_count := 1\<rparr>)" "filp s' = filp s" "kernl s' = kernl s"
proof -
  have "\<exists>ps t. get_empty_filp_loop ps t = Some (Some f, s') \<and> files t = files s \<and> filp t = filp s \<and> kernl t = kernl s"
    using assms by (fastforce simp: get_empty_filp_def split: list.splits)
  then show "f_count (files s f) = 0" "files s' = (files s)(f := empty_file\<lparr>f_count := 1\<rparr>)" "filp s' = filp s" "kernl s' = kernl s"
    using get_empty_filp_loop_frame by fastforce+
qed

definition free_fds :: "nat option list \<Rightarrow> nat list" where
  "free_fds fds = filter (\<lambda>i. fds ! i = None) [0..<length fds]"

lemma pipe_fds_eq: "length got \<le> 2 \<Longrightarrow> pipe_fds i fds got = take 2 (got @ map ((+) i) (free_fds fds))"
proof (induction i fds got rule: pipe_fds.induct)
  case (1 i got)
  then show ?case by (simp add: free_fds_def)
next
  case (2 i x xs got)
  have "free_fds (x # xs) = (if x = None then [0] else []) @ map Suc (free_fds xs)"
    by (simp add: free_fds_def upt_rec [of 0 "Suc _"] map_Suc_upt [symmetric] filter_map o_def del: upt_Suc)
  moreover have "map ((+) i) (map Suc zs) = map ((+) (i + 1)) zs" for zs by simp
  moreover have "take 2 (got @ zs) = got" if "length got = 2" for zs using that by simp
  ultimately show ?case using 2 by (auto simp: not_less o_def)
qed

lemma pipe_fds_0: "pipe_fds 0 fds [] = take 2 (free_fds fds)"
  using pipe_fds_eq [of "[]" 0 fds] by (simp add: map_idI)

lemma free_fds_props: "i < length (free_fds fds) \<Longrightarrow> free_fds fds ! i < length fds \<and> fds ! (free_fds fds ! i) = None"
  "distinct (free_fds fds)" "sorted (free_fds fds)"
  using nth_mem [of i "free_fds fds"] by (auto simp: free_fds_def sorted_wrt_filter)

text \<open>Giving a structure back.\<close>

lemma drop_count_fresh:
  "f_count (files s f) = 1 \<Longrightarrow> f_count (files (drop_count f s) f) = 0"
  "g \<noteq> f \<Longrightarrow> files (drop_count f s) g = files s g" "filp (drop_count f s) = filp s"
  by (simp_all add: drop_count_def upd_file_def)

lemma set_fd_filp: "a < 256 \<Longrightarrow> filp (set_fd (of_nat a) x s) = (filp s)(current (kernl s) := (filp s (current (kernl s)))[a := x])"
  by (simp add: set_fd_def Let_def unat_of_nat)

lemma put_fs_long_apart:
  "get_fs_long (put_fs_long v (a + 4) (put_fs_long w a m)) a = w"
proof -
  have "get_fs_long (put_fs_long v (a + 4) m') a = get_fs_long m' a" for m'
    by (simp add: get_fs_long_def put_fs_long_def add.assoc)
  then show ?thesis by simp
qed

text \<open>\<open>gpi\<close> works on the inode table only.\<close>

definition gpi_ok :: "(fs \<Rightarrow> nat option \<times> fs) \<Rightarrow> bool" where
  "gpi_ok gpi \<longleftrightarrow> (\<forall>t. files (snd (gpi t)) = files t \<and> filp (snd (gpi t)) = filp t \<and> kernl (snd (gpi t)) = kernl t)"

lemma undo_fds:
  fixes xs :: "nat option list"
  assumes "xs ! a = None" "xs ! b = None"
  shows "xs[a := x, a := None] = xs" "xs[a := x, b := y, a := None, b := None] = xs"
proof -
  show "xs[a := x, a := None] = xs" using assms by (simp add: list_update_id [of xs a, unfolded assms(1)])
  show "xs[a := x, b := y, a := None, b := None] = xs"
  proof (rule nth_equalityI)
    fix i assume "i < length (xs[a := x, b := y, a := None, b := None])"
    then show "xs[a := x, b := y, a := None, b := None] ! i = xs ! i"
      using assms by (cases "i = b"; cases "i = a") (simp_all add: nth_list_update_neq)
  qed simp
qed

lemma set_fd_kernl [simp]: "kernl (set_fd fd x s) = kernl s" "files (set_fd fd x s) = files s"
  by (simp_all add: set_fd_def Let_def)

lemma drop_both:
  assumes "f_count (files s f0) = 1" "f_count (files s f1) = 1" "f0 \<noteq> f1"
  shows "f_count (files (drop_count f1 (drop_count f0 s)) f0) = 0" "f_count (files (drop_count f1 (drop_count f0 s)) f1) = 0"
    "filp (drop_count f1 (drop_count f0 s)) = filp s"
proof -
  show "f_count (files (drop_count f1 (drop_count f0 s)) f0) = 0" "f_count (files (drop_count f1 (drop_count f0 s)) f1) = 0"
    using assms drop_count_fresh by metis+
qed (simp add: drop_count_fresh)

text \<open>The descriptors there are decide which way it goes.\<close>

lemma pipe_install_fails:
  assumes l: "length (filp s (current (kernl s))) = 256"
    and f: "f_count (files s f0) = 1" "f_count (files s f1) = 1" "f0 \<noteq> f1" and g: "gpi_ok gpi"
    and r: "pipe_install gpi fildes f0 f1 s = (r, s')" "r \<noteq> 0"
  shows "r \<in> {- EMFILE, - ENFILE} \<and> filp s' = filp s \<and> f_count (files s' f0) = 0 \<and> f_count (files s' f1) = 0"
proof -
  let ?p = "current (kernl s)"
  define fr where "fr = free_fds (filp s ?p)"
  have fds: "pipe_fds 0 (filp s ?p) [] = take 2 fr" by (simp add: fr_def pipe_fds_0)
  have P: "fr ! i < 256 \<and> filp s ?p ! (fr ! i) = None" if "i < length fr" for i
    using free_fds_props(1) that l unfolding fr_def by fastforce
  note D = drop_both [OF _ _ f(3)]
  consider "fr = []" | a where "fr = [a]" | a b cs where "fr = a # b # cs" by (metis list.exhaust)
  then show ?thesis
  proof cases
    case 1
    then show ?thesis using r(1) fds f D [of s] by (simp add: pipe_install_def)
  next
    case (2 a)
    then have "a < 256" "filp s ?p ! a = None" using P [of 0] by simp_all
    then show ?thesis using 2 r(1) fds f D [of "set_fd (of_nat a) None (set_fd (of_nat a) (Some f0) s)"] undo_fds(1) [of "filp s ?p" a a]
      by (auto simp: pipe_install_def set_fd_filp)
  next
    case (3 a b cs)
    then have ab: "a < 256" "filp s ?p ! a = None" "b < 256" "filp s ?p ! b = None" using P [of 0] P [of 1] by simp_all
    let ?t = "set_fd (of_nat b) (Some f1) (set_fd (of_nat a) (Some f0) s)"
    obtain x t where t: "gpi ?t = (x, t)" by fastforce
    then have t': "files t = files s" "kernl t = kernl s" "filp t = filp ?t"
      using g unfolding gpi_ok_def by (metis snd_conv set_fd_kernl)+
    let ?u = "set_fd (of_nat b) None (set_fd (of_nat a) None t)"
    have x: "x = None" using r t fds 3 by (auto simp: pipe_install_def Let_def split: option.splits)
    then have "r = - ENFILE" "s' = drop_count f1 (drop_count f0 ?u)"
      using r t fds 3 by (simp_all add: pipe_install_def Let_def)
    moreover have "filp ?u = filp s" using ab t' undo_fds(2) [of "filp s ?p" a b] by (simp add: set_fd_filp)
    ultimately show ?thesis using f t' D [of ?u] by simp
  qed
qed

lemma pipe_install_works:
  assumes l: "length (filp s (current (kernl s))) = 256"
    and f: "f0 \<noteq> f1" and g: "gpi_ok gpi"
    and fr: "free_fds (filp s (current (kernl s))) = a # b # cs"
  defines "t \<equiv> set_fd (of_nat b) (Some f1) (set_fd (of_nat a) (Some f0) s)"
  assumes i: "fst (gpi t) = Some ino"
  shows "\<exists>s'. pipe_install gpi fildes f0 f1 s = (0, s') \<and>
    filp s' (current (kernl s)) = (filp s (current (kernl s)))[a := Some f0, b := Some f1] \<and>
    get_fs_long (umem (kernl s')) fildes = of_nat a \<and> get_fs_long (umem (kernl s')) (fildes + 4) = of_nat b \<and>
    files s' f0 = (files s f0)\<lparr>f_inode := Some ino, f_pos := 0, f_flags := 0, f_op := Some read_pipe_fops, f_mode := 1\<rparr> \<and>
    files s' f1 = (files s f1)\<lparr>f_inode := Some ino, f_pos := 0, f_flags := 1, f_op := Some write_pipe_fops, f_mode := 2\<rparr>"
proof -
  let ?p = "current (kernl s)"
  have fds: "pipe_fds 0 (filp s ?p) [] = [a, b]" using fr by (simp add: pipe_fds_0)
  have ab: "a < 256" "b < 256" using free_fds_props(1) [of 0 "filp s ?p"] free_fds_props(1) [of 1 "filp s ?p"] l fr by simp_all
  obtain u where u: "gpi t = (Some ino, u)" using i by (metis prod.collapse)
  then have u': "files u = files s" "kernl u = kernl s" "filp u = filp t"
    using g unfolding gpi_ok_def t_def by (metis snd_conv set_fd_kernl)+
  have "filp t = (filp s)(?p := (filp s ?p)[a := Some f0, b := Some f1])" using ab by (simp add: t_def set_fd_filp)
  then show ?thesis using fds u u' f
    by (simp add: pipe_install_def Let_def pipe_files_def upd_file_def put_umem_def put_fs_long_apart flip: t_def)
qed

text \<open>C37. \<open>sys_pipe\<close> from two file structures: when there are two free descriptors and a pipe inode, the call returns
  0, the two lowest free descriptors (they are what the user's array holds afterwards) refer to the two fresh
  structures, the first open for reading and the second for writing on the same inode, and no other descriptor
  changes. When the call fails it returns EMFILE or ENFILE, the descriptor table is as before and both structures
  are free again.\<close>

theorem sys_pipe_descriptors:
  assumes "length (filp s (current (kernl s))) = 256" "verify_area VERIFY_WRITE fildes 8 = 0" "gpi_ok gpi"
    and f0: "get_empty_filp pages0 s = Some (Some f0, s0)" and f1: "get_empty_filp pages1 s0 = Some (Some f1, s1)"
  shows "\<exists>r s'. sys_pipe pages0 pages1 gpi fildes s = Some (r, s') \<and>
    (r = 0 \<longrightarrow> (\<exists>a b cs ino. free_fds (filp s (current (kernl s))) = a # b # cs \<and>
        filp s' (current (kernl s)) = (filp s (current (kernl s)))[a := Some f0, b := Some f1] \<and>
        get_fs_long (umem (kernl s')) fildes = of_nat a \<and> get_fs_long (umem (kernl s')) (fildes + 4) = of_nat b \<and>
        f0 \<noteq> f1 \<and> f_count (files s' f0) = 1 \<and> f_count (files s' f1) = 1 \<and>
        f_inode (files s' f0) = Some ino \<and> f_inode (files s' f1) = Some ino \<and>
        f_op (files s' f0) = Some read_pipe_fops \<and> f_op (files s' f1) = Some write_pipe_fops)) \<and>
    (r \<noteq> 0 \<longrightarrow> r \<in> {- EMFILE, - ENFILE} \<and> filp s' = filp s \<and> f_count (files s' f0) = 0 \<and> f_count (files s' f1) = 0) \<and>
    (r = 0 \<longleftrightarrow> 2 \<le> length (free_fds (filp s (current (kernl s)))) \<and>
      fst (gpi (set_fd (of_nat (free_fds (filp s (current (kernl s))) ! 1)) (Some f1)
        (set_fd (of_nat (free_fds (filp s (current (kernl s))) ! 0)) (Some f0) s1))) \<noteq> None)"
proof -
  note A = get_empty_filp_frame [OF f0] and B = get_empty_filp_frame [OF f1]
  let ?p = "current (kernl s)"
  let ?fr = "free_fds (filp s ?p)"
  have ne: "f0 \<noteq> f1" using A(2) B(1) by auto
  have c: "f_count (files s1 f0) = 1" "f_count (files s1 f1) = 1" using A(2) B(2) ne by simp_all
  have e: "filp s1 = filp s" "kernl s1 = kernl s" using A B by simp_all
  obtain r s' where rs: "pipe_install gpi fildes f0 f1 s1 = (r, s')" by fastforce
  have S: "sys_pipe pages0 pages1 gpi fildes s = Some (r, s')" using assms rs by (simp add: sys_pipe_def)
  have fail: "r \<in> {- EMFILE, - ENFILE} \<and> filp s' = filp s \<and> f_count (files s' f0) = 0 \<and> f_count (files s' f1) = 0" if "r \<noteq> 0"
    using pipe_install_fails [OF _ c ne assms(3) rs that] assms(1) e by simp
  show ?thesis
  proof (cases "\<exists>a b cs ino. ?fr = a # b # cs \<and> fst (gpi (set_fd (of_nat b) (Some f1) (set_fd (of_nat a) (Some f0) s1))) = Some ino")
    case True
    then obtain a b cs ino where W: "?fr = a # b # cs" "fst (gpi (set_fd (of_nat b) (Some f1) (set_fd (of_nat a) (Some f0) s1))) = Some ino"
      by blast
    then show ?thesis using S rs c ne e pipe_install_works [OF _ ne assms(3), of s1 a b cs ino fildes] assms(1) by auto
  next
    case False
    have "pipe_fds 0 (filp s1 (current (kernl s1))) [] = take 2 ?fr" by (simp add: e pipe_fds_0)
    then have "r \<noteq> 0" using rs False
      by (cases ?fr rule: remdups_adj.cases) (auto simp: pipe_install_def Let_def split: option.splits prod.splits)
    moreover have "\<not> (2 \<le> length ?fr \<and> fst (gpi (set_fd (of_nat (?fr ! 1)) (Some f1) (set_fd (of_nat (?fr ! 0)) (Some f0) s1))) \<noteq> None)"
      using False by (cases ?fr rule: remdups_adj.cases) auto
    ultimately show ?thesis using S fail by blast
  qed
qed

definition demo_files :: fs where
  "demo_files = demo_fs\<lparr>first_file := [5, 6, 8], nr_files := 3, filp := \<lambda>_. Some 5 # replicate 255 None\<rparr>"

lemma demo_free_fds: "free_fds (Some x # replicate 255 None) = [1..<256]"
proof -
  have "[0..<256] = 0 # [1..<256]" by (simp add: upt_rec [of 0 256])
  moreover have "filter (\<lambda>i. (Some x # replicate 255 None) ! i = None) [1..<256] = [1..<256]"
    by (auto intro!: filter_True simp: nth_Cons')
  ultimately show ?thesis by (simp add: free_fds_def)
qed

theorem sys_pipe_descriptors_witness:
  "\<exists>s'. sys_pipe [] [] (\<lambda>t. (Some 7, t)) 0x1000 demo_files = Some (0, s') \<and>
     filp s' 2 = (Some 5 # replicate 255 None)[1 := Some 6, 2 := Some 8]"
proof -
  obtain s0 s1 where g: "get_empty_filp [] demo_files = Some (Some 6, s0)" "get_empty_filp [] s0 = Some (Some 8, s1)"
    by (simp add: get_empty_filp_def get_empty_filp_loop.simps demo_files_def demo_fs_def upd_file_def remove_file_free_def put_last_free_def Let_def empty_file_def)
  have c: "current (kernl demo_files) = 2" "filp demo_files 2 = Some 5 # replicate 255 None"
    by (simp_all add: demo_files_def demo_fs_def demo_kernel_def)
  have u: "[1..<256] = 1 # 2 # [3..<256]" 
    by (subst upt_conv_Cons, simp, subst upt_conv_Cons) (simp_all add: numeral_2_eq_2 numeral_3_eq_3)
  have "length (filp demo_files 2) = 256" "verify_area VERIFY_WRITE 0x1000 8 = 0" "gpi_ok (\<lambda>t. (Some 7, t))"
    by (simp_all add: c verify_area_def gpi_ok_def)
  then show ?thesis using sys_pipe_descriptors [where fildes = "0x1000" and gpi = "\<lambda>t. (Some 7, t)", OF _ _ _ g] c u
    by (auto simp: demo_free_fds)
qed

section \<open>Opening a FIFO: the results\<close>

definition openers :: "pst \<Rightarrow> u32 \<times> u32 \<times> u32 \<times> u32" where
  "openers s = (readers s, writers s, rd_openers s, wr_openers s)"

lemma openers_wake [simp]: "openers (wake_readers s) = openers s" "openers (wake_writers s) = openers s"
  by (simp_all add: openers_def wake_readers_def wake_writers_def)

lemma wake_fields [simp]:
  "rd_openers (wake_readers s) = rd_openers s" "rd_openers (wake_writers s) = rd_openers s"
  "wr_openers (wake_readers s) = wr_openers s" "wr_openers (wake_writers s) = wr_openers s"
  "base (wake_readers s) = base s" "base (wake_writers s) = base s"
  by (simp_all add: wake_readers_def wake_writers_def)

lemma inc_fields [simp]:
  "readers (inc_readers s) = readers s + 1" "writers (inc_readers s) = writers s" "rd_openers (inc_readers s) = rd_openers s"
  "wr_openers (inc_readers s) = wr_openers s" "base (inc_readers s) = base s"
  "writers (inc_writers s) = writers s + 1" "readers (inc_writers s) = readers s" "rd_openers (inc_writers s) = rd_openers s"
  "wr_openers (inc_writers s) = wr_openers s" "base (inc_writers s) = base s"
  by (simp_all add: inc_readers_def inc_writers_def Let_def)

lemma signal_pending_fold: "signal_pending (fold (wake_one True) q k) = signal_pending k"
proof (induction q arbitrary: k)
  case (Cons p q)
  have "signal_pending (wake_one True p k) = signal_pending k"
    by (simp add: wake_one_def signal_pending_def upd_task_def Let_def)
  then show ?case using Cons by simp
qed simp

lemma pending_wake [simp]:
  "signal_pending (pkern (wake_readers s)) = signal_pending (pkern s)" "signal_pending (pkern (wake_writers s)) = signal_pending (pkern s)"
  by (simp_all add: wake_readers_def wake_writers_def wake_up_def signal_pending_fold)

lemma pending_inc [simp]:
  "signal_pending (pkern (inc_readers s)) = signal_pending (pkern s)" "signal_pending (pkern (inc_writers s)) = signal_pending (pkern s)"
  by (simp_all add: inc_readers_def inc_writers_def Let_def)

text \<open>Opening a FIFO while nobody else is opening it. In non-blocking mode the call never sleeps: for reading it
  succeeds with or without a writer, as one more reader, on the read operations exactly when there is a writer; for
  writing it fails with ENXIO and changes nothing exactly when there is no reader. A blocking open without a peer
  that a signal interrupts returns ERESTARTSYS and leaves the counts of readers, writers and openers as they were.\<close>

theorem fifo_open_posix:
  assumes "rd_openers s = 0" "wr_openers s = 0" "base s \<noteq> None"
  shows "(\<exists>s'. fifo_open (Suc n) env get_page 1 True s =
      Some (0, Some (if writers s \<noteq> 0 then read_pipe_fops else connecting_pipe_fops), s') \<and>
      openers s' = (readers s + 1, writers s, 0, 0)) \<and>
    (readers s = 0 \<longrightarrow> fifo_open (Suc n) env get_page 2 True s = Some (- ENXIO, None, s)) \<and>
    (readers s \<noteq> 0 \<longrightarrow> (\<exists>s'. fifo_open (Suc n) env get_page 2 True s = Some (0, Some write_pipe_fops, s') \<and>
      openers s' = (readers s, writers s + 1, 0, 0))) \<and>
    (signal_pending (pkern s) \<and> writers s = 0 \<longrightarrow> (\<exists>fop s'. fifo_open (Suc n) env get_page 1 False s = Some (- ERESTARTSYS, fop, s') \<and>
      openers s' = openers s)) \<and>
    (signal_pending (pkern s) \<and> readers s = 0 \<longrightarrow> (\<exists>fop s'. fifo_open (Suc n) env get_page 2 False s = Some (- ERESTARTSYS, fop, s') \<and>
      openers s' = openers s))"
  using assms
  by (auto simp: fifo_open_def fifo_page_def fifo_open_rd_def fifo_open_wr_def meet_writer_def meet_reader_def openers_def
      dec_readers_def dec_writers_def Let_def)

theorem fifo_open_posix_witness:
  "fifo_open 1 id (\<lambda>s. (None, s)) 2 True (demo_pipe\<lparr>readers := 0\<rparr>) = Some (- ENXIO, None, demo_pipe\<lparr>readers := 0\<rparr>)"
  using fifo_open_posix [of "demo_pipe\<lparr>readers := 0\<rparr>" 0 id "\<lambda>s. (None, s)"] by (simp add: demo_pipe_def)

end
