(* ===== verification/Ipc.thy ===== *)
theory Ipc
  imports Sys
begin

text \<open>
  What the System V objects share (\<^verbatim>\<open>include/linux/ipc.h\<close>, \<^verbatim>\<open>ipc/util.c\<close>): the permission structure, the check of it,
  the entries of the tables of identifiers, and the dispatch of the one system call. \<open>None\<close> as the result of a check
  is a read behind the end of an array of the task.
\<close>

abbreviation (input) IPC_CREAT :: u32 where "IPC_CREAT \<equiv> 0x200"
abbreviation (input) IPC_EXCL :: u32 where "IPC_EXCL \<equiv> 0x400"
abbreviation (input) IPC_NOWAIT :: u32 where "IPC_NOWAIT \<equiv> 0x800"
abbreviation (input) IPC_RMID :: int where "IPC_RMID \<equiv> 0"
abbreviation (input) IPC_SET :: int where "IPC_SET \<equiv> 1"
abbreviation (input) IPC_STAT :: int where "IPC_STAT \<equiv> 2"
abbreviation (input) IPC_INFO :: int where "IPC_INFO \<equiv> 3"
abbreviation (input) S_IRWXU :: u16 where "S_IRWXU \<equiv> 0x1c0"
abbreviation (input) S_IRWXG :: u16 where "S_IRWXG \<equiv> 0x38"
abbreviation (input) S_IRWXO :: u16 where "S_IRWXO \<equiv> 7"
abbreviation (input) S_IRWXUGO :: u16 where "S_IRWXUGO \<equiv> 0x1ff"
abbreviation (input) S_IRUGO :: u16 where "S_IRUGO \<equiv> 0x124"
abbreviation (input) S_IWUGO :: u16 where "S_IWUGO \<equiv> 0x92"

record ipc_perm =
  ipc_key :: int
  ipc_uid :: u16
  ipc_gid :: u16
  cuid :: u16
  cgid :: u16
  ipc_mode :: u16
  ipc_seq :: int

datatype slot = IPC_UNUSED | IPC_NOID | Ptr nat

section \<open>Permissions\<close>

text \<open>The loop over the supplementary groups, up to the first NOGROUP.\<close>

fun ipc_groups :: "int list \<Rightarrow> int \<Rightarrow> int \<Rightarrow> bool option" where
  "ipc_groups [] cg g = None"
| "ipc_groups (eg # gs) cg g =
     (if eg = NOGROUP then Some False else if eg = cg \<or> eg = g then Some True else ipc_groups gs cg g)"

definition ipcperms :: "ipc_perm \<Rightarrow> u16 \<Rightarrow> kernel \<Rightarrow> int option" where
  "ipcperms ipcp flag k =
     (if suser k then Some 0
      else
        let eu = euid (cur k);
            perm = (if eu = cuid ipcp \<or> eu = ipc_uid ipcp then Some S_IRWXU
                    else map_option (\<lambda>b. if b then S_IRWXG else S_IRWXO)
                           (ipc_groups (groups (cur k)) (uint (cgid ipcp)) (uint (ipc_gid ipcp))))
        in map_option (\<lambda>perm. if flag AND perm = 0 \<or> flag AND perm AND NOT (ipc_mode ipcp) \<noteq> 0 then - 1 else 0) perm)"

text \<open>The owner test of the control operations.\<close>

definition ipc_owner :: "ipc_perm \<Rightarrow> kernel \<Rightarrow> bool" where
  "ipc_owner ipcp k \<longleftrightarrow> suser k \<or> euid (cur k) = cuid ipcp \<or> euid (cur k) = ipc_uid ipcp"

text \<open>The permissions of a new object.\<close>

definition new_perm :: "int \<Rightarrow> u32 \<Rightarrow> int \<Rightarrow> kernel \<Rightarrow> ipc_perm" where
  "new_perm key flg seq k =
     \<lparr>ipc_key = key, ipc_uid = euid (cur k), ipc_gid = egid (cur k), cuid = euid (cur k), cgid = egid (cur k),
      ipc_mode = ucast flg AND S_IRWXUGO, ipc_seq = us16 seq\<rparr>"

text \<open>The next sequence number of a table with \<open>n\<close> entries.\<close>

definition next_seq :: "int \<Rightarrow> int \<Rightarrow> int" where
  "next_seq n sq = (if s32 ((sq + 1 + 1) * n) < 0 then 0 else sq + 1)"

text \<open>\<open>while (max && (tab[--max] == IPC_UNUSED))\<close>\<close>

fun lower_max :: "slot list \<Rightarrow> nat \<Rightarrow> nat" where
  "lower_max tab 0 = 0"
| "lower_max tab (Suc m) = (if tab ! m = IPC_UNUSED then lower_max tab m else m)"

text \<open>The search for a free entry.\<close>

fun first_unused :: "slot list \<Rightarrow> nat \<Rightarrow> nat option" where
  "first_unused [] i = None"
| "first_unused (x # xs) i = (if x = IPC_UNUSED then Some i else first_unused xs (Suc i))"

section \<open>The system call\<close>

datatype ipc_call =
  Semop int u32 int | Semget int int int | Semctl int int int u32
| Msgsnd int u32 int int | Msgrcv int u32 int int int | Msgget int int | Msgctl int int u32
| Shmat int u32 int u32 | Shmdt u32 | Shmget int int int | Shmctl int int u32

text \<open>Which operation \<open>sys_ipc\<close> calls and with what; \<open>Inl\<close> is the error it returns itself.\<close>

definition sys_ipc :: "u32 \<Rightarrow> int \<Rightarrow> int \<Rightarrow> int \<Rightarrow> u32 \<Rightarrow> umem \<Rightarrow> int + ipc_call" where
  "sys_ipc call first second third ptr m =
     (if call = 1 then Inr (Semop first ptr second)
      else if call = 2 then Inr (Semget first second third)
      else if call = 3 then Inr (Semctl first second third ptr)
      else if call = 11 then Inr (Msgsnd first ptr second third)
      else if call = 12 then
        (if ptr = 0 then Inl (- EINVAL)
         else Inr (Msgrcv first (get_fs_long m ptr) second (sint (get_fs_long m (ptr + 4))) third))
      else if call = 13 then Inr (Msgget first second)
      else if call = 14 then Inr (Msgctl first second ptr)
      else if call = 21 then Inr (Shmat first ptr second (to_u32 third))
      else if call = 22 then Inr (Shmdt ptr)
      else if call = 23 then Inr (Shmget first second third)
      else if call = 24 then Inr (Shmctl first second ptr)
      else Inl (- EINVAL))"

end
