(* ===== verification/Msg.thy ===== *)
theory Msg
  imports Ipc
begin

text \<open>
  Message queues (\<^verbatim>\<open>ipc/msg.c\<close>). A queue is a record at an address; its messages are the list from \<^verbatim>\<open>msg_first\<close> to
  \<^verbatim>\<open>msg_last\<close>. \<open>env\<close> is the rest of the system while a task sleeps; an allocation may sleep too, so \<open>kmalloc\<close> is an argument
  that gives its answer and the state after it. The image of a queue structure in the user's memory has addresses of
  the kernel in it, so it is an argument (\<open>img\<close>) of the calls that copy it.
\<close>

abbreviation (input) MSGMNI :: int where "MSGMNI \<equiv> 128"
abbreviation (input) MSGMAX :: int where "MSGMAX \<equiv> 4080"
abbreviation (input) MSGMNB :: int where "MSGMNB \<equiv> 16384"
abbreviation (input) MSG_NOERROR :: u32 where "MSG_NOERROR \<equiv> 0x1000"
abbreviation (input) MSG_EXCEPT :: u32 where "MSG_EXCEPT \<equiv> 0x2000"

section \<open>State\<close>

record msg =
  msg_type :: int
  msg_spot :: "u8 list"
  msg_ts :: int

record msqid_ds =
  msg_perm :: ipc_perm
  msgs :: "msg list"
  msg_stime :: u32
  msg_rtime :: u32
  msg_ctime :: u32
  wwait :: "tptr list"
  rwait :: "tptr list"
  msg_cbytes :: int
  msg_qnum :: int
  msg_qbytes :: int
  msg_lspid :: int
  msg_lrpid :: int

record msgst =
  mkern :: kernel
  msgque :: "slot list"
  msqs :: "nat \<Rightarrow> msqid_ds"
  msgbytes :: int
  msghdrs :: int
  msg_seq :: int
  used_queues :: int
  max_msqid :: nat
  msg_lock :: "tptr list"

definition upd_msq :: "nat \<Rightarrow> (msqid_ds \<Rightarrow> msqid_ds) \<Rightarrow> msgst \<Rightarrow> msgst" where
  "upd_msq a f s = s\<lparr>msqs := (msqs s)(a := f (msqs s a))\<rparr>"

definition msg_init :: "msgst \<Rightarrow> msgst" where
  "msg_init s =
     s\<lparr>msgque := replicate 128 IPC_UNUSED, msgbytes := 0, msghdrs := 0, msg_seq := 0, used_queues := 0, max_msqid := 0,
       msg_lock := []\<rparr>"

definition wake_msg_lock :: "msgst \<Rightarrow> msgst" where
  "wake_msg_lock s = s\<lparr>mkern := wake_up (msg_lock s) (mkern s)\<rparr>"

definition sleep_w :: "(msgst \<Rightarrow> msgst) \<Rightarrow> nat \<Rightarrow> msgst \<Rightarrow> msgst option" where
  "sleep_w env a s =
     (case sleep_on_enter TASK_INTERRUPTIBLE (wwait (msqs s a)) (mkern s) of
        None \<Rightarrow> None
      | Some (q, k) \<Rightarrow>
          let s = env (upd_msq a (\<lambda>m. m\<lparr>wwait := q\<rparr>) (s\<lparr>mkern := k\<rparr>))
          in Some (upd_msq a (\<lambda>m. m\<lparr>wwait := sleep_on_leave (wwait m) (mkern s)\<rparr>) s))"

definition sleep_r :: "(msgst \<Rightarrow> msgst) \<Rightarrow> nat \<Rightarrow> msgst \<Rightarrow> msgst option" where
  "sleep_r env a s =
     (case sleep_on_enter TASK_INTERRUPTIBLE (rwait (msqs s a)) (mkern s) of
        None \<Rightarrow> None
      | Some (q, k) \<Rightarrow>
          let s = env (upd_msq a (\<lambda>m. m\<lparr>rwait := q\<rparr>) (s\<lparr>mkern := k\<rparr>))
          in Some (upd_msq a (\<lambda>m. m\<lparr>rwait := sleep_on_leave (rwait m) (mkern s)\<rparr>) s))"

definition sleep_lock :: "(msgst \<Rightarrow> msgst) \<Rightarrow> msgst \<Rightarrow> msgst option" where
  "sleep_lock env s =
     (case sleep_on_enter TASK_INTERRUPTIBLE (msg_lock s) (mkern s) of
        None \<Rightarrow> None
      | Some (q, k) \<Rightarrow>
          let s = env (s\<lparr>msg_lock := q, mkern := k\<rparr>)
          in Some (s\<lparr>msg_lock := sleep_on_leave (msg_lock s) (mkern s)\<rparr>))"

section \<open>Sending\<close>

text \<open>From \<open>slept\<close> to the end of the wait for space: \<open>Inl\<close> is a return.\<close>

fun msgsnd_wait :: "nat \<Rightarrow> (msgst \<Rightarrow> msgst) \<Rightarrow> int \<Rightarrow> nat \<Rightarrow> int \<Rightarrow> u32 \<Rightarrow> msgst \<Rightarrow> ((int \<times> msgst) + msgst) option" where
  "msgsnd_wait 0 env msqid a msgsz msgflg s = None"
| "msgsnd_wait (Suc n) env msqid a msgsz msgflg s =
     (let msq = msqs s a
      in if ipc_seq (msg_perm msq) \<noteq> msqid div MSGMNI then Some (Inl (- EIDRM, s))
         else
           (case ipcperms (msg_perm msq) S_IWUGO (mkern s) of
              None \<Rightarrow> None
            | Some e \<Rightarrow>
                if e \<noteq> 0 then Some (Inl (- EACCES, s))
                else if msgsz + msg_cbytes msq > msg_qbytes msq then
                  if msgflg AND IPC_NOWAIT \<noteq> 0 then Some (Inl (- EAGAIN, s))
                  else if signal_pending (mkern s) then Some (Inl (- EINTR, s))
                  else (case sleep_w env a s of None \<Rightarrow> None | Some s \<Rightarrow> msgsnd_wait n env msqid a msgsz msgflg s)
                else Some (Inr s)))"

definition enqueue :: "nat \<Rightarrow> msg \<Rightarrow> msgst \<Rightarrow> msgst" where
  "enqueue a m s =
     (let s = upd_msq a (\<lambda>q. q\<lparr>msgs := msgs q @ [m], msg_cbytes := us16 (msg_cbytes q + msg_ts m),
                msg_qnum := us16 (msg_qnum q + 1), msg_lspid := us16 (pid (cur (mkern s))),
                msg_stime := current_time (mkern s)\<rparr>)
              (s\<lparr>msgbytes := s32 (msgbytes s + msg_ts m), msghdrs := s32 (msghdrs s + 1)\<rparr>)
      in s\<lparr>mkern := wake_up (rwait (msqs s a)) (mkern s)\<rparr>)"

definition msgsnd_put :: "(msgst \<Rightarrow> bool \<times> msgst) \<Rightarrow> int \<Rightarrow> nat \<Rightarrow> u32 \<Rightarrow> int \<Rightarrow> int \<Rightarrow> msgst \<Rightarrow> int \<times> msgst" where
  "msgsnd_put kmalloc msqid a msgp msgsz mtype s =
     (let (ok, s) = kmalloc s
      in if \<not> ok then (- ENOMEM, s)
         else
           let text = memcpy_fromfs (umem (mkern s)) (msgp + 4) (nat msgsz);
               slot = msgque s ! nat (msqid mod MSGMNI)
           in if slot = IPC_UNUSED \<or> slot = IPC_NOID \<or> ipc_seq (msg_perm (msqs s a)) \<noteq> msqid div MSGMNI
              then (- EIDRM, s)
              else (msgsz, enqueue a \<lparr>msg_type = mtype, msg_spot = text, msg_ts = s16 msgsz\<rparr> s))"

definition sys_msgsnd ::
  "nat \<Rightarrow> (msgst \<Rightarrow> msgst) \<Rightarrow> (msgst \<Rightarrow> bool \<times> msgst) \<Rightarrow> int \<Rightarrow> u32 \<Rightarrow> int \<Rightarrow> u32 \<Rightarrow> msgst \<Rightarrow> (int \<times> msgst) option" where
  "sys_msgsnd fuel env kmalloc msqid msgp msgsz msgflg s =
     (if msgsz > MSGMAX \<or> msgsz < 0 \<or> msqid < 0 then Some (- EINVAL, s)
      else if msgp = 0 then Some (- EFAULT, s)
      else
        let err = verify_area VERIFY_READ (msgp + 4) (to_u32 msgsz);
            mtype = sint (get_fs_long (umem (mkern s)) msgp)
        in if err \<noteq> 0 then Some (err, s)
           else if mtype < 1 then Some (- EINVAL, s)
           else
             (case msgque s ! nat (msqid mod MSGMNI) of
                IPC_UNUSED \<Rightarrow> Some (- EINVAL, s)
              | IPC_NOID \<Rightarrow> Some (- EINVAL, s)
              | Ptr a \<Rightarrow>
                  (case msgsnd_wait fuel env msqid a msgsz msgflg s of
                     None \<Rightarrow> None
                   | Some (Inl r) \<Rightarrow> Some r
                   | Some (Inr s) \<Rightarrow> Some (msgsnd_put kmalloc msqid a msgp msgsz mtype s))))"

section \<open>Receiving\<close>

text \<open>The loop for the least type; the result is the position of the first message of it.\<close>

fun least_msg :: "msg list \<Rightarrow> nat \<Rightarrow> nat \<Rightarrow> int \<Rightarrow> nat" where
  "least_msg [] i best ty = best"
| "least_msg (m # ms) i best ty =
     (if msg_type m < ty then least_msg ms (Suc i) i (msg_type m) else least_msg ms (Suc i) best ty)"

fun first_msg :: "(msg \<Rightarrow> bool) \<Rightarrow> msg list \<Rightarrow> nat \<Rightarrow> nat option" where
  "first_msg P [] i = None"
| "first_msg P (m # ms) i = (if P m then Some i else first_msg P ms (Suc i))"

definition find_msg :: "int \<Rightarrow> u32 \<Rightarrow> msg list \<Rightarrow> nat option" where
  "find_msg msgtyp msgflg ms =
     (if msgtyp = 0 then (case ms of [] \<Rightarrow> None | _ \<Rightarrow> Some 0)
      else if msgtyp > 0 then
        if msgflg AND MSG_EXCEPT \<noteq> 0 then first_msg (\<lambda>m. msg_type m \<noteq> msgtyp) ms 0
        else first_msg (\<lambda>m. msg_type m = msgtyp) ms 0
      else
        (case ms of
           [] \<Rightarrow> None
         | m # _ \<Rightarrow>
             let i = least_msg ms 0 0 (msg_type m)
             in if msg_type (ms ! i) \<le> s32 (- msgtyp) then Some i else None))"

definition unlink_msg :: "nat \<Rightarrow> msqid_ds \<Rightarrow> msqid_ds" where
  "unlink_msg i q =
     (let rest = take i (msgs q) @ drop (Suc i) (msgs q);
          num = us16 (msg_qnum q - 1)
      in q\<lparr>msgs := (if num = 0 then [] else rest), msg_qnum := num\<rparr>)"

definition take_msg :: "nat \<Rightarrow> nat \<Rightarrow> u32 \<Rightarrow> int \<Rightarrow> msgst \<Rightarrow> int \<times> msgst" where
  "take_msg a i msgp msgsz s =
     (let nmsg = msgs (msqs s a) ! i;
          msgsz = (if msgsz > msg_ts nmsg then msg_ts nmsg else msgsz);
          s = upd_msq a (\<lambda>q. (unlink_msg i q)\<lparr>msg_rtime := current_time (mkern s), msg_lrpid := us16 (pid (cur (mkern s))),
                msg_cbytes := us16 (msg_cbytes q - msg_ts nmsg)\<rparr>)
              (s\<lparr>msgbytes := s32 (msgbytes s - msg_ts nmsg), msghdrs := s32 (msghdrs s - 1)\<rparr>);
          k = wake_up (wwait (msqs s a)) (mkern s);
          m = put_fs_long (to_u32 (msg_type nmsg)) msgp (umem k);
          m = memcpy_tofs (msgp + 4) (take (nat msgsz) (msg_spot nmsg)) m
      in (msgsz, s\<lparr>mkern := k\<lparr>umem := m\<rparr>\<rparr>))"

fun msgrcv_loop :: "nat \<Rightarrow> (msgst \<Rightarrow> msgst) \<Rightarrow> int \<Rightarrow> nat \<Rightarrow> u32 \<Rightarrow> int \<Rightarrow> int \<Rightarrow> u32 \<Rightarrow> msgst \<Rightarrow> (int \<times> msgst) option" where
  "msgrcv_loop 0 env msqid a msgp msgsz msgtyp msgflg s = None"
| "msgrcv_loop (Suc n) env msqid a msgp msgsz msgtyp msgflg s =
     (let msq = msqs s a
      in if ipc_seq (msg_perm msq) \<noteq> msqid div MSGMNI then Some (- EIDRM, s)
         else
           (case ipcperms (msg_perm msq) S_IRUGO (mkern s) of
              None \<Rightarrow> None
            | Some e \<Rightarrow>
                if e \<noteq> 0 then Some (- EACCES, s)
                else
                  (case find_msg msgtyp msgflg (msgs msq) of
                     Some i \<Rightarrow>
                       if msgsz < msg_ts (msgs msq ! i) \<and> msgflg AND MSG_NOERROR = 0 then Some (- E2BIG, s)
                       else Some (take_msg a i msgp msgsz s)
                   | None \<Rightarrow>
                       if msgflg AND IPC_NOWAIT \<noteq> 0 then Some (- ENOMSG, s)
                       else if signal_pending (mkern s) then Some (- EINTR, s)
                       else
                         (case sleep_r env a s of
                            None \<Rightarrow> None
                          | Some s \<Rightarrow> msgrcv_loop n env msqid a msgp msgsz msgtyp msgflg s))))"

definition sys_msgrcv ::
  "nat \<Rightarrow> (msgst \<Rightarrow> msgst) \<Rightarrow> int \<Rightarrow> u32 \<Rightarrow> int \<Rightarrow> int \<Rightarrow> u32 \<Rightarrow> msgst \<Rightarrow> (int \<times> msgst) option" where
  "sys_msgrcv fuel env msqid msgp msgsz msgtyp msgflg s =
     (if msqid < 0 \<or> msgsz < 0 then Some (- EINVAL, s)
      else if msgp = 0 then Some (- EFAULT, s)
      else
        let err = verify_area VERIFY_WRITE (msgp + 4) (to_u32 msgsz)
        in if err \<noteq> 0 then Some (err, s)
           else
             (case msgque s ! nat (msqid mod MSGMNI) of
                IPC_UNUSED \<Rightarrow> Some (- EINVAL, s)
              | IPC_NOID \<Rightarrow> Some (- EINVAL, s)
              | Ptr a \<Rightarrow> msgrcv_loop fuel env msqid a msgp msgsz msgtyp msgflg s))"

section \<open>Creating and finding queues\<close>

text \<open>\<open>while ((msq = msgque[ix]) == IPC_NOID) sleep\<close>, for every \<open>id\<close> up to \<open>max_msqid\<close>, which is read in each round.\<close>

fun findkey :: "nat \<Rightarrow> (msgst \<Rightarrow> msgst) \<Rightarrow> int \<Rightarrow> nat \<Rightarrow> msgst \<Rightarrow> (nat option \<times> msgst) option" where
  "findkey 0 env key ix s = None"
| "findkey (Suc n) env key ix s =
     (if ix \<le> max_msqid s then
        (case msgque s ! ix of
           IPC_NOID \<Rightarrow> (case sleep_lock env s of None \<Rightarrow> None | Some s \<Rightarrow> findkey n env key ix s)
         | IPC_UNUSED \<Rightarrow> findkey n env key (ix + 1) s
         | Ptr a \<Rightarrow> if key = ipc_key (msg_perm (msqs s a)) then Some (Some ix, s) else findkey n env key (ix + 1) s)
      else Some (None, s))"

definition newque :: "(msgst \<Rightarrow> nat option \<times> msgst) \<Rightarrow> int \<Rightarrow> u32 \<Rightarrow> msgst \<Rightarrow> int \<times> msgst" where
  "newque kmalloc key msgflg s =
     (case first_unused (msgque s) 0 of
        None \<Rightarrow> (- ENOSPC, s)
      | Some ix \<Rightarrow>
          let (r, s) = kmalloc (s\<lparr>msgque := (msgque s)[ix := IPC_NOID]\<rparr>)
          in (case r of
                None \<Rightarrow> (- ENOMEM, wake_msg_lock (s\<lparr>msgque := (msgque s)[ix := IPC_UNUSED]\<rparr>))
              | Some a \<Rightarrow>
                  let q = \<lparr>msg_perm = new_perm key msgflg (msg_seq s) (mkern s), msgs = [], msg_stime = 0, msg_rtime = 0,
                           msg_ctime = current_time (mkern s), wwait = [], rwait = [], msg_cbytes = 0, msg_qnum = 0,
                           msg_qbytes = MSGMNB, msg_lspid = 0, msg_lrpid = 0\<rparr>;
                      s = s\<lparr>msqs := (msqs s)(a := q), max_msqid := max ix (max_msqid s),
                            msgque := (msgque s)[ix := Ptr a], used_queues := s32 (used_queues s + 1)\<rparr>
                  in (s32 (msg_seq s * MSGMNI + int ix), wake_msg_lock s)))"

definition sys_msgget ::
  "nat \<Rightarrow> (msgst \<Rightarrow> msgst) \<Rightarrow> (msgst \<Rightarrow> nat option \<times> msgst) \<Rightarrow> int \<Rightarrow> u32 \<Rightarrow> msgst \<Rightarrow> (int \<times> msgst) option" where
  "sys_msgget fuel env kmalloc key msgflg s =
     (if key = 0 then Some (newque kmalloc key msgflg s)
      else
        (case findkey fuel env key 0 s of
           None \<Rightarrow> None
         | Some (None, s) \<Rightarrow>
             if msgflg AND IPC_CREAT = 0 then Some (- ENOENT, s) else Some (newque kmalloc key msgflg s)
         | Some (Some ix, s) \<Rightarrow>
             if msgflg AND IPC_CREAT \<noteq> 0 \<and> msgflg AND IPC_EXCL \<noteq> 0 then Some (- EEXIST, s)
             else
               (case msgque s ! ix of
                  IPC_UNUSED \<Rightarrow> Some (- EIDRM, s)
                | IPC_NOID \<Rightarrow> Some (- EIDRM, s)
                | Ptr a \<Rightarrow>
                    (case ipcperms (msg_perm (msqs s a)) (ucast msgflg) (mkern s) of
                       None \<Rightarrow> None
                     | Some e \<Rightarrow>
                         if e \<noteq> 0 then Some (- EACCES, s)
                         else Some (ipc_seq (msg_perm (msqs s a)) * MSGMNI + int ix, s)))))"

section \<open>Removing and control\<close>

fun drain_waiters :: "nat \<Rightarrow> (msgst \<Rightarrow> msgst) \<Rightarrow> nat \<Rightarrow> msgst \<Rightarrow> msgst option" where
  "drain_waiters 0 env a s = None"
| "drain_waiters (Suc n) env a s =
     (if rwait (msqs s a) \<noteq> [] \<or> wwait (msqs s a) \<noteq> [] then
        let k = wake_up (wwait (msqs s a)) (wake_up (rwait (msqs s a)) (mkern s))
        in drain_waiters n env a (env (s\<lparr>mkern := schedule k\<rparr>))
      else Some s)"

definition freeque :: "nat \<Rightarrow> (msgst \<Rightarrow> msgst) \<Rightarrow> nat \<Rightarrow> nat \<Rightarrow> msgst \<Rightarrow> msgst option" where
  "freeque fuel env ix a s =
     (let s = upd_msq a (\<lambda>q. q\<lparr>msg_perm := (msg_perm q)\<lparr>ipc_seq := us16 (ipc_seq (msg_perm q) + 1)\<rparr>\<rparr>) s;
          s = s\<lparr>msg_seq := next_seq MSGMNI (msg_seq s), msgbytes := s32 (msgbytes s - msg_cbytes (msqs s a))\<rparr>;
          s = (if ix = max_msqid s then s\<lparr>max_msqid := lower_max (msgque s) ix\<rparr> else s);
          s = s\<lparr>msgque := (msgque s)[ix := IPC_UNUSED], used_queues := s32 (used_queues s - 1)\<rparr>
      in map_option (\<lambda>s. s\<lparr>msghdrs := s32 (msghdrs s - int (length (msgs (msqs s a))))\<rparr>) (drain_waiters fuel env a s))"

text \<open>\<open>struct msginfo\<close>: seven ints and a short; \<open>pad\<close> are the two bytes behind it.\<close>

definition put_msginfo :: "int list \<Rightarrow> u16 \<Rightarrow> u32 \<Rightarrow> umem \<Rightarrow> umem" where
  "put_msginfo ws pad buf m =
     put_fs_word pad (buf + 30) (put_fs_word (ucast (0x20000 :: u32)) (buf + 28)
       (fold (\<lambda>(i, w) m. put_fs_long (to_u32 w) (buf + 4 * of_nat i) m) (enumerate 0 ws) m))"

definition msgctl_info :: "u16 \<Rightarrow> int \<Rightarrow> u32 \<Rightarrow> msgst \<Rightarrow> int \<times> msgst" where
  "msgctl_info pad cmd buf s =
     (if buf = 0 then (- EFAULT, s)
      else
        let ws = (if cmd = 12 then [used_queues s, msghdrs s, MSGMAX, MSGMNB, MSGMNI, 16, msgbytes s]
                  else [2048, MSGMNB, MSGMAX, MSGMNB, MSGMNI, 16, MSGMNB]);
            err = verify_area VERIFY_WRITE buf 32
        in if err \<noteq> 0 then (err, s)
           else (int (max_msqid s), s\<lparr>mkern := (mkern s)\<lparr>umem := put_msginfo ws pad buf (umem (mkern s))\<rparr>\<rparr>))"

definition put_image :: "(msqid_ds \<Rightarrow> u8 list) \<Rightarrow> u32 \<Rightarrow> nat \<Rightarrow> msgst \<Rightarrow> msgst" where
  "put_image img buf a s = s\<lparr>mkern := (mkern s)\<lparr>umem := memcpy_tofs buf (img (msqs s a)) (umem (mkern s))\<rparr>\<rparr>"

definition msgctl_stat :: "(msqid_ds \<Rightarrow> u8 list) \<Rightarrow> int \<Rightarrow> u32 \<Rightarrow> msgst \<Rightarrow> (int \<times> msgst) option" where
  "msgctl_stat img msqid buf s =
     (if buf = 0 then Some (- EFAULT, s)
      else
        let err = verify_area VERIFY_WRITE buf 56
        in if err \<noteq> 0 then Some (err, s)
           else if msqid > int (max_msqid s) then Some (- EINVAL, s)
           else
             (case msgque s ! nat msqid of
                IPC_UNUSED \<Rightarrow> Some (- EINVAL, s)
              | IPC_NOID \<Rightarrow> Some (- EINVAL, s)
              | Ptr a \<Rightarrow>
                  (case ipcperms (msg_perm (msqs s a)) S_IRUGO (mkern s) of
                     None \<Rightarrow> None
                   | Some e \<Rightarrow>
                       if e \<noteq> 0 then Some (- EACCES, s)
                       else Some (msqid + ipc_seq (msg_perm (msqs s a)) * MSGMNI, put_image img buf a s))))"

text \<open>The fields of the user's structure that \<open>IPC_SET\<close> uses.\<close>

definition msgctl_set :: "u32 \<Rightarrow> nat \<Rightarrow> msgst \<Rightarrow> int \<times> msgst" where
  "msgctl_set buf a s =
     (let m = umem (mkern s);
          qbytes = uint (get_fs_word m (buf + 48))
      in if qbytes > MSGMNB \<and> \<not> suser (mkern s) then (- EPERM, s)
         else
           (0, upd_msq a (\<lambda>q. q\<lparr>msg_qbytes := qbytes,
                 msg_perm := (msg_perm q)\<lparr>ipc_uid := get_fs_word m (buf + 4), ipc_gid := get_fs_word m (buf + 6),
                   ipc_mode := (ipc_mode (msg_perm q) AND NOT S_IRWXUGO) OR (S_IRWXUGO AND get_fs_word m (buf + 12))\<rparr>,
                 msg_ctime := current_time (mkern s)\<rparr>) s))"

definition msgctl_cmd ::
  "nat \<Rightarrow> (msgst \<Rightarrow> msgst) \<Rightarrow> (msqid_ds \<Rightarrow> u8 list) \<Rightarrow> int \<Rightarrow> int \<Rightarrow> u32 \<Rightarrow> nat \<Rightarrow> nat \<Rightarrow> msgst \<Rightarrow> (int \<times> msgst) option" where
  "msgctl_cmd fuel env img msqid cmd buf ix a s =
     (let ipcp = msg_perm (msqs s a)
      in if ipc_seq ipcp \<noteq> msqid div MSGMNI then Some (- EIDRM, s)
         else if cmd = IPC_STAT then
           (case ipcperms ipcp S_IRUGO (mkern s) of
              None \<Rightarrow> None
            | Some e \<Rightarrow> if e \<noteq> 0 then Some (- EACCES, s) else Some (0, put_image img buf a s))
         else if cmd = IPC_RMID \<or> cmd = IPC_SET then
           if \<not> ipc_owner ipcp (mkern s) then Some (- EPERM, s)
           else if cmd = IPC_RMID then map_option (\<lambda>s. (0, s)) (freeque fuel env ix a s)
           else Some (msgctl_set buf a s)
         else Some (- EINVAL, s))"

definition sys_msgctl ::
  "nat \<Rightarrow> (msgst \<Rightarrow> msgst) \<Rightarrow> (msqid_ds \<Rightarrow> u8 list) \<Rightarrow> u16 \<Rightarrow> int \<Rightarrow> int \<Rightarrow> u32 \<Rightarrow> msgst \<Rightarrow> (int \<times> msgst) option" where
  "sys_msgctl fuel env img pad msqid cmd buf s =
     (if msqid < 0 \<or> cmd < 0 then Some (- EINVAL, s)
      else if cmd = IPC_INFO \<or> cmd = 12 then Some (msgctl_info pad cmd buf s)
      else if cmd = 11 then msgctl_stat img msqid buf s
      else if (cmd = IPC_SET \<or> cmd = IPC_STAT) \<and> buf = 0 then Some (- EFAULT, s)
      else if cmd = IPC_STAT \<and> verify_area VERIFY_WRITE buf 56 \<noteq> 0 then Some (verify_area VERIFY_WRITE buf 56, s)
      else
        let ix = nat (msqid mod MSGMNI)
        in (case msgque s ! ix of
              IPC_UNUSED \<Rightarrow> Some (- EINVAL, s)
            | IPC_NOID \<Rightarrow> Some (- EINVAL, s)
            | Ptr a \<Rightarrow> msgctl_cmd fuel env img msqid cmd buf ix a s))"

section \<open>Which message is received\<close>

text \<open>What the comment in \<open>sys_msgrcv\<close> asks for: position \<open>i\<close> is the first message, the first one of the type (or
  of another type), or the first one of the least type there is, if that is at most \<open>- msgtyp\<close>.\<close>

definition wanted :: "int \<Rightarrow> u32 \<Rightarrow> msg list \<Rightarrow> nat \<Rightarrow> bool" where
  "wanted msgtyp msgflg ms i \<longleftrightarrow>
     (if msgtyp = 0 then True
      else if msgtyp > 0 then (msg_type (ms ! i) = msgtyp) \<noteq> (msgflg AND MSG_EXCEPT \<noteq> 0)
      else msg_type (ms ! i) \<le> - msgtyp \<and> (\<forall>j<length ms. msg_type (ms ! i) \<le> msg_type (ms ! j)))"

lemma first_msg_Some: "first_msg P ms k = Some i \<Longrightarrow>
    k \<le> i \<and> i - k < length ms \<and> P (ms ! (i - k)) \<and> (\<forall>j<i - k. \<not> P (ms ! j))"
proof (induction P ms k rule: first_msg.induct)
  case (2 P m ms k)
  show ?case
  proof (cases "P m")
    case False
    then have IH: "Suc k \<le> i \<and> i - Suc k < length ms \<and> P (ms ! (i - Suc k)) \<and> (\<forall>j<i - Suc k. \<not> P (ms ! j))"
      using 2 by simp
    then have e: "i - k = Suc (i - Suc k)" by linarith
    have "\<not> P ((m # ms) ! j)" if "j < i - k" for j using that False IH e by (cases j) auto
    then show ?thesis using IH e by simp
  qed (use 2 in auto)
qed simp

lemma first_msg_None: "first_msg P ms k = None \<longleftrightarrow> (\<forall>m\<in>set ms. \<not> P m)"
  by (induction P ms k rule: first_msg.induct) auto

lemma least_msg_inv:
  assumes "best < i" "ty = msg_type (ms ! best)" "i \<le> length ms"
    "\<forall>j<i. ty \<le> msg_type (ms ! j)" "\<forall>j<best. ty < msg_type (ms ! j)"
  shows "least_msg (drop i ms) i best ty < length ms \<and>
    (\<forall>j<length ms. msg_type (ms ! least_msg (drop i ms) i best ty) \<le> msg_type (ms ! j)) \<and>
    (\<forall>j<least_msg (drop i ms) i best ty. msg_type (ms ! least_msg (drop i ms) i best ty) < msg_type (ms ! j))"
  using assms
proof (induction "length ms - i" arbitrary: i best ty)
  case 0
  then show ?case by simp
next
  case (Suc n)
  then have il: "i < length ms" "n = length ms - Suc i" by simp_all
  then have d: "drop i ms = ms ! i # drop (Suc i) ms" by (simp add: Cons_nth_drop_Suc)
  show ?case
  proof (cases "msg_type (ms ! i) < ty")
    case True
    then show ?thesis using Suc(1) [OF il(2), of i "msg_type (ms ! i)"] Suc(3-) il d by (force simp: less_Suc_eq)
  next
    case False
    then show ?thesis using Suc(1) [OF il(2), of best ty] Suc(3-) il d by (force simp: less_Suc_eq)
  qed
qed

lemma find_msg_least:
  assumes "ms \<noteq> []"
  defines "i \<equiv> least_msg ms 0 0 (msg_type (ms ! 0))"
  shows "i < length ms" "\<forall>j<length ms. msg_type (ms ! i) \<le> msg_type (ms ! j)" "\<forall>j<i. msg_type (ms ! i) < msg_type (ms ! j)"
proof -
  have "i = least_msg (drop 1 ms) 1 0 (msg_type (ms ! 0))" using assms(1) unfolding i_def by (cases ms) simp_all
  then show "i < length ms" "\<forall>j<length ms. msg_type (ms ! i) \<le> msg_type (ms ! j)" "\<forall>j<i. msg_type (ms ! i) < msg_type (ms ! j)"
    using least_msg_inv [of 0 1 "msg_type (ms ! 0)" ms] assms(1) by (simp_all add: Suc_le_eq)
qed

lemma find_msg_neg:
  assumes "msgtyp < 0" "- 2147483648 < msgtyp"
  shows "find_msg msgtyp msgflg ms =
    (if ms \<noteq> [] \<and> msg_type (ms ! least_msg ms 0 0 (msg_type (ms ! 0))) \<le> - msgtyp
     then Some (least_msg ms 0 0 (msg_type (ms ! 0))) else None)"
  using assms by (cases ms) (simp_all add: find_msg_def s32_id Let_def)

lemma find_msg_wanted:
  assumes "- 2147483648 < msgtyp"
  shows "(case find_msg msgtyp msgflg ms of
      Some i \<Rightarrow> i < length ms \<and> wanted msgtyp msgflg ms i \<and> (\<forall>j<i. \<not> wanted msgtyp msgflg ms j)
    | None \<Rightarrow> (\<forall>i<length ms. \<not> wanted msgtyp msgflg ms i))"
proof -
  consider "msgtyp = 0" | "0 < msgtyp" | "msgtyp < 0" by linarith
  then show ?thesis
  proof cases
    case 1
    then show ?thesis by (cases ms) (simp_all add: find_msg_def wanted_def)
  next
    case 2
    define P :: "msg \<Rightarrow> bool" where "P m \<longleftrightarrow> (msg_type m = msgtyp) \<noteq> (msgflg AND MSG_EXCEPT \<noteq> 0)" for m
    have "find_msg msgtyp msgflg ms = first_msg P ms 0" using 2 unfolding P_def find_msg_def by (cases "msgflg AND MSG_EXCEPT = 0") simp_all
    moreover have "wanted msgtyp msgflg ms i \<longleftrightarrow> P (ms ! i)" for i using 2 by (simp add: wanted_def P_def)
    ultimately show ?thesis using first_msg_Some [of P ms 0] first_msg_None [of P ms 0]
      by (cases "first_msg P ms 0") auto
  next
    case 3
    define i where "i = least_msg ms 0 0 (msg_type (ms ! 0))"
    have w: "wanted msgtyp msgflg ms j \<longleftrightarrow> msg_type (ms ! j) \<le> - msgtyp \<and> (\<forall>k<length ms. msg_type (ms ! j) \<le> msg_type (ms ! k))" for j
      using 3 by (simp add: wanted_def)
    show ?thesis
    proof (cases "ms = []")
      case False
      note L = find_msg_least [OF False, folded i_def]
      have "\<not> wanted msgtyp msgflg ms j" if "j < i" for j
        unfolding w using L(1,3) that by (meson not_less)
      moreover have "\<not> wanted msgtyp msgflg ms j" if "j < length ms" "\<not> msg_type (ms ! i) \<le> - msgtyp" for j
        unfolding w using L(2) that by (meson order_trans)
      ultimately show ?thesis using find_msg_neg [OF 3 assms, of msgflg ms, folded i_def] False L by (auto simp: w)
    qed (use find_msg_neg [OF 3 assms] in simp)
  qed
qed

section \<open>One call\<close>

text \<open>The books of a queue agree with the messages in it.\<close>

definition queue_ok :: "msqid_ds \<Rightarrow> bool" where
  "queue_ok q \<longleftrightarrow>
     msg_cbytes q = (\<Sum>m\<leftarrow>msgs q. msg_ts m) \<and> msg_cbytes q < 65536 \<and> msg_qnum q = int (length (msgs q)) \<and>
     length (msgs q) < 65536 \<and> msg_qbytes q < 65536 \<and>
     (\<forall>m\<in>set (msgs q). msg_ts m = int (length (msg_spot m)) \<and> msg_ts m \<le> MSGMAX \<and> 1 \<le> msg_type m \<and> in_s32 (msg_type m))"

text \<open>The queue at address \<open>a\<close> has the identifier \<open>msqid\<close> and the running task may write to it and read from it.\<close>

definition usable :: "int \<Rightarrow> nat \<Rightarrow> msgst \<Rightarrow> bool" where
  "usable msqid a s \<longleftrightarrow>
     0 \<le> msqid \<and> msgque s ! nat (msqid mod MSGMNI) = Ptr a \<and> ipc_seq (msg_perm (msqs s a)) = msqid div MSGMNI \<and>
     ipcperms (msg_perm (msqs s a)) S_IWUGO (mkern s) = Some 0 \<and> ipcperms (msg_perm (msqs s a)) S_IRUGO (mkern s) = Some 0"

lemma ipcperms_cong:
  assumes "euid (cur k') = euid (cur k)" "groups (cur k') = groups (cur k)"
  shows "ipcperms p f k' = ipcperms p f k"
  using assms by (simp add: ipcperms_def suser_def Let_def)

lemma wake_cur: "euid (cur (wake_up q k)) = euid (cur k)" "groups (cur (wake_up q k)) = groups (cur k)"
  by (simp_all add: wake_up_tasks)

lemmas wake_perms [simp] = ipcperms_cong [OF wake_cur]

lemma ipcperms_umem [simp]: "ipcperms p f (k\<lparr>umem := m\<rparr>) = ipcperms p f k"
  by (rule ipcperms_cong) simp_all

text \<open>Sending without waiting.\<close>

definition mk_msg :: "int \<Rightarrow> u8 list \<Rightarrow> msg" where
  "mk_msg ty bs = \<lparr>msg_type = ty, msg_spot = bs, msg_ts = int (length bs)\<rparr>"

lemma enqueue_eq:
  "msgs (msqs (enqueue a m s) a) = msgs (msqs s a) @ [m]" "msgque (enqueue a m s) = msgque s"
  "msg_perm (msqs (enqueue a m s) a) = msg_perm (msqs s a)" "umem (mkern (enqueue a m s)) = umem (mkern s)"
  "msg_cbytes (msqs (enqueue a m s) a) = us16 (msg_cbytes (msqs s a) + msg_ts m)"
  "msg_qnum (msqs (enqueue a m s) a) = us16 (msg_qnum (msqs s a) + 1)"
  "msg_qbytes (msqs (enqueue a m s) a) = msg_qbytes (msqs s a)"
  "ipcperms p f (mkern (enqueue a m s)) = ipcperms p f (mkern s)"
  by (simp_all add: enqueue_def upd_msq_def Let_def)

lemma enqueue_ok:
  assumes q: "queue_ok (msqs s a)" and l: "Suc (length (msgs (msqs s a))) < 65536"
    and m: "msg_ts m = int (length (msg_spot m))" "msg_ts m \<le> 4080" "1 \<le> msg_type m" "in_s32 (msg_type m)"
    and room: "msg_ts m + msg_cbytes (msqs s a) \<le> msg_qbytes (msqs s a)"
  shows "queue_ok (msqs (enqueue a m s) a)"
proof -
  have "0 \<le> (\<Sum>m\<leftarrow>msgs (msqs s a). msg_ts m)" by (rule sum_list_nonneg) (use q in \<open>auto simp: queue_ok_def\<close>)
  then have c: "us16 (msg_cbytes (msqs s a) + msg_ts m) = msg_cbytes (msqs s a) + msg_ts m"
    using q room m(1) by (intro us16_id) (auto simp: queue_ok_def)
  moreover have "us16 (msg_qnum (msqs s a) + 1) = msg_qnum (msqs s a) + 1"
    using q l by (intro us16_id) (auto simp: queue_ok_def)
  ultimately show ?thesis using q l m room by (auto simp: queue_ok_def enqueue_eq)
qed

lemma usable_enqueue: "usable msqid a (enqueue a m s) = usable msqid a s"
  by (simp add: usable_def enqueue_eq)

definition idle :: "(msgst \<Rightarrow> bool \<times> msgst) \<Rightarrow> bool" where
  "idle kmalloc \<longleftrightarrow> (\<forall>s. snd (kmalloc s) = s)"

lemma msgsnd_cases:
  fixes msgp :: u32
  assumes u: "usable msqid a s" and q: "queue_ok (msqs s a)" and fl: "msgflg AND IPC_NOWAIT \<noteq> 0" and km: "idle kmalloc"
    and l: "Suc (length (msgs (msqs s a))) < 65536"
  defines "ty \<equiv> sint (get_fs_long (umem (mkern s)) msgp)"
  shows "(\<exists>r. sys_msgsnd (Suc n) env kmalloc msqid msgp msgsz msgflg s = Some (r, s) \<and> r < 0) \<or>
    (\<exists>s'. sys_msgsnd (Suc n) env kmalloc msqid msgp msgsz msgflg s = Some (msgsz, s') \<and> 0 \<le> msgsz \<and> 1 \<le> ty \<and>
      msgs (msqs s' a) = msgs (msqs s a) @ [mk_msg ty (memcpy_fromfs (umem (mkern s)) (msgp + 4) (nat msgsz))] \<and>
      usable msqid a s' \<and> queue_ok (msqs s' a))"
proof (cases "msgsz > MSGMAX \<or> msgsz < 0 \<or> msgp = 0 \<or> verify_area VERIFY_READ (msgp + 4) (to_u32 msgsz) \<noteq> 0 \<or> ty < 1")
  case True
  then show ?thesis using verify_area_values [of VERIFY_READ "msgp + 4" "to_u32 msgsz"] u
    by (auto simp: sys_msgsnd_def Let_def ty_def usable_def)
next
  case False
  then have f: "\<not> msgsz > MSGMAX" "0 \<le> msgsz" "msgp \<noteq> 0" "verify_area VERIFY_READ (msgp + 4) (to_u32 msgsz) = 0" "1 \<le> ty"
    by auto
  have U: "0 \<le> msqid" "msgque s ! nat (msqid mod 128) = Ptr a" "ipc_seq (msg_perm (msqs s a)) = msqid div 128"
    "ipcperms (msg_perm (msqs s a)) S_IWUGO (mkern s) = Some 0" using u by (simp_all add: usable_def)
  have e: "sys_msgsnd (Suc n) env kmalloc msqid msgp msgsz msgflg s =
      (case msgsnd_wait (Suc n) env msqid a msgsz msgflg s of
         None \<Rightarrow> None | Some (Inl r) \<Rightarrow> Some r | Some (Inr s) \<Rightarrow> Some (msgsnd_put kmalloc msqid a msgp msgsz ty s))"
    using f U unfolding ty_def by (simp add: sys_msgsnd_def del: msgsnd_wait.simps)
  obtain ok where k: "kmalloc s = (ok, s)" using km unfolding idle_def by (metis prod.collapse)
  show ?thesis
  proof (cases "msgsz + msg_cbytes (msqs s a) > msg_qbytes (msqs s a) \<or> \<not> ok")
    case True
    then show ?thesis unfolding e using U fl k by (auto simp: msgsnd_put_def Let_def)
  next
    case False
    let ?m = "mk_msg ty (memcpy_fromfs (umem (mkern s)) (msgp + 4) (nat msgsz))"
    have s16: "s16 msgsz = msgsz" using f by (intro s16_id) auto
    have "sys_msgsnd (Suc n) env kmalloc msqid msgp msgsz msgflg s = Some (msgsz, enqueue a ?m s)"
      unfolding e using False U k f s16 by (simp add: msgsnd_put_def Let_def mk_msg_def)
    moreover have "queue_ok (msqs (enqueue a ?m s) a)"
      using False f l q by (intro enqueue_ok) (auto simp: mk_msg_def in_s32_sint ty_def)
    ultimately show ?thesis using f u by (auto simp: enqueue_eq usable_enqueue)
  qed
qed

text \<open>Receiving without waiting.\<close>

lemma in_msgs_split: "i < length ms \<Longrightarrow> ms = take i ms @ ms ! i # drop (Suc i) ms"
  by (simp add: id_take_nth_drop)

lemma queue_ok_msg:
  "queue_ok q \<Longrightarrow> m \<in> set (msgs q) \<Longrightarrow> msg_ts m = int (length (msg_spot m)) \<and> msg_ts m \<le> MSGMAX \<and> in_s32 (msg_type m)"
  unfolding queue_ok_def by blast

lemma take_msg_ok:
  fixes msgp :: u32 and msgsz :: int
  assumes q: "queue_ok (msqs s a)" and i: "i < length (msgs (msqs s a))"
  defines "m \<equiv> msgs (msqs s a) ! i" and "s' \<equiv> snd (take_msg a i msgp msgsz s)"
  shows "msgs (msqs s' a) = take i (msgs (msqs s a)) @ drop (Suc i) (msgs (msqs s a))" "queue_ok (msqs s' a)"
    "fst (take_msg a i msgp msgsz s) = min msgsz (msg_ts m)"
    "umem (mkern s') = memcpy_tofs (msgp + 4) (take (nat msgsz) (msg_spot m)) (put_fs_long (to_u32 (msg_type m)) msgp (umem (mkern s)))"
    "usable msqid a s' = usable msqid a s"
proof -
  let ?q = "msqs s a" and ?rest = "take i (msgs (msqs s a)) @ drop (Suc i) (msgs (msqs s a))"
  have Q: "msg_cbytes ?q = (\<Sum>m\<leftarrow>msgs ?q. msg_ts m)" "msg_cbytes ?q < 65536" "msg_qnum ?q = int (length (msgs ?q))"
    "length (msgs ?q) < 65536" "msg_qbytes ?q < 65536"
    "\<forall>m\<in>set (msgs ?q). msg_ts m = int (length (msg_spot m)) \<and> msg_ts m \<le> MSGMAX \<and> 1 \<le> msg_type m \<and> in_s32 (msg_type m)"
    using q unfolding queue_ok_def by blast+
  have m: "msg_ts m = int (length (msg_spot m))" using Q(6) i by (simp add: m_def)
  have n: "us16 (msg_qnum ?q - 1) = int (length (msgs ?q) - 1)" using Q(3,4) i by (subst us16_id) auto
  have rl: "length ?rest = length (msgs ?q) - 1" using i by simp
  have u: "unlink_msg i ?q = ?q\<lparr>msgs := ?rest, msg_qnum := int (length ?rest)\<rparr>"
  proof -
    have "?rest = []" if "int (length (msgs ?q) - 1) = 0" using that rl by (metis length_0_conv of_nat_eq_0_iff)
    then show ?thesis unfolding unlink_msg_def n rl by (simp add: Let_def)
  qed
  have spl: "(\<Sum>m\<leftarrow>msgs ?q. msg_ts m) = (\<Sum>m\<leftarrow>?rest. msg_ts m) + msg_ts m"
    by (subst in_msgs_split [OF i]) (simp add: m_def)
  have nn: "0 \<le> (\<Sum>m\<leftarrow>?rest. msg_ts m)" by (rule sum_list_nonneg) (use Q(6) in \<open>auto dest: in_set_takeD in_set_dropD\<close>)
  have c: "us16 (msg_cbytes ?q - msg_ts m) = (\<Sum>m\<leftarrow>?rest. msg_ts m)"
    using Q(1,2) spl nn m by (subst us16_id) auto
  have e: "msqs s' a = ?q\<lparr>msgs := ?rest, msg_qnum := int (length ?rest), msg_rtime := current_time (mkern s),
      msg_lrpid := us16 (pid (cur (mkern s))), msg_cbytes := \<Sum>m\<leftarrow>?rest. msg_ts m\<rparr>"
    unfolding s'_def using u c by (simp add: take_msg_def upd_msq_def Let_def m_def)
  show "msgs (msqs s' a) = ?rest" by (simp add: e)
  have "set ?rest \<subseteq> set (msgs ?q)" by (auto dest: in_set_takeD in_set_dropD)
  then show "queue_ok (msqs s' a)" unfolding queue_ok_def e using Q nn spl m rl by auto
  show "fst (take_msg a i msgp msgsz s) = min msgsz (msg_ts m)" by (simp add: take_msg_def Let_def m_def)
  have "take (nat (min msgsz (int (length bs)))) bs = take (nat msgsz) bs" for bs :: "u8 list" by (simp add: min_def)
  then show "umem (mkern s') = memcpy_tofs (msgp + 4) (take (nat msgsz) (msg_spot m)) (put_fs_long (to_u32 (msg_type m)) msgp (umem (mkern s)))"
    using m by (simp add: s'_def take_msg_def upd_msq_def Let_def m_def)
  have "msg_perm (msqs s' a) = msg_perm ?q" by (simp add: e)
  moreover have "msgque s' = msgque s" "ipcperms p f (mkern s') = ipcperms p f (mkern s)" for p f
    by (simp_all add: s'_def take_msg_def upd_msq_def Let_def)
  ultimately show "usable msqid a s' = usable msqid a s" by (simp add: usable_def)
qed


text \<open>What a receiver finds in its buffer is the message.\<close>

lemma read_back:
  assumes "length bs \<le> 4080"
  shows "get_fs_long (memcpy_tofs (p + 4) bs (put_fs_long v p m)) p = v"
    "memcpy_fromfs (memcpy_tofs (p + 4) bs m') (p + 4) (length bs) = bs"
proof -
  have "p + 4 + of_nat i \<noteq> p + c" if "i < length bs" "c \<in> {0, 1, 2, 3}" for i c
  proof
    assume "p + 4 + of_nat i = p + c"
    then have "of_nat (i + 4) = c" by (simp add: add.commute add.left_commute)
    moreover have "unat (of_nat (i + 4) :: u32) = i + 4" using that(1) assms by (simp add: unat_of_nat del: of_nat_add)
    ultimately have "unat c = i + 4" by simp
    then show False using that(2) by auto
  qed
  then have "memcpy_tofs (p + 4) bs m' (p + c) = m' (p + c)" if "c \<in> {0, 1, 2, 3}" for c m'
    using that by (intro memcpy_tofs_other) blast
  from this [of 0] this [of 1] this [of 2] this [of 3]
  have "get_fs_long (memcpy_tofs (p + 4) bs m') p = get_fs_long m' p" for m' by (simp add: get_fs_long_def)
  then show "get_fs_long (memcpy_tofs (p + 4) bs (put_fs_long v p m)) p = v" by simp
  show "memcpy_fromfs (memcpy_tofs (p + 4) bs m') (p + 4) (length bs) = bs" using assms by (intro memcpy_fromto) simp
qed

lemma msgrcv_cases:
  fixes msgp :: u32
  assumes u: "usable msqid a s" and q: "queue_ok (msqs s a)"
    and fl: "msgflg AND IPC_NOWAIT \<noteq> 0" "msgflg AND MSG_NOERROR = 0"
  defines "ms \<equiv> msgs (msqs s a)"
  shows "(\<exists>r. sys_msgrcv (Suc n) env msqid msgp msgsz msgtyp msgflg s = Some (r, s) \<and> r < 0) \<or>
    (\<exists>i s'. find_msg msgtyp msgflg ms = Some i \<and>
      sys_msgrcv (Suc n) env msqid msgp msgsz msgtyp msgflg s = Some (msg_ts (ms ! i), s') \<and>
      (i < length ms \<longrightarrow> msgs (msqs s' a) = take i ms @ drop (Suc i) ms \<and> queue_ok (msqs s' a) \<and> usable msqid a s' \<and>
        sint (get_fs_long (umem (mkern s')) msgp) = msg_type (ms ! i) \<and> 0 \<le> msg_ts (ms ! i) \<and>
        memcpy_fromfs (umem (mkern s')) (msgp + 4) (nat (msg_ts (ms ! i))) = msg_spot (ms ! i)))"
proof (cases "msgsz < 0 \<or> msgp = 0 \<or> verify_area VERIFY_WRITE (msgp + 4) (to_u32 msgsz) \<noteq> 0")
  case True
  then show ?thesis using verify_area_values [of VERIFY_WRITE "msgp + 4" "to_u32 msgsz"] u
    by (auto simp: sys_msgrcv_def Let_def usable_def)
next
  case False
  have U: "0 \<le> msqid" "msgque s ! nat (msqid mod 128) = Ptr a" "ipc_seq (msg_perm (msqs s a)) = msqid div 128"
    "ipcperms (msg_perm (msqs s a)) S_IRUGO (mkern s) = Some 0" using u by (simp_all add: usable_def)
  have e: "sys_msgrcv (Suc n) env msqid msgp msgsz msgtyp msgflg s =
      (case find_msg msgtyp msgflg ms of
         Some i \<Rightarrow> if msgsz < msg_ts (ms ! i) then Some (- E2BIG, s) else Some (take_msg a i msgp msgsz s)
       | None \<Rightarrow> Some (- ENOMSG, s))"
    using False U fl by (simp add: sys_msgrcv_def ms_def split: option.split)
  show ?thesis
  proof (cases "find_msg msgtyp msgflg ms")
    case None
    then show ?thesis using e by simp
  next
    case (Some i)
    show ?thesis
    proof (cases "msgsz < msg_ts (ms ! i)")
      case True
      then show ?thesis using e Some by simp
    next
      case f: False
      have r: "fst (take_msg a i msgp msgsz s) = msg_ts (ms ! i)" using f by (simp add: take_msg_def Let_def ms_def)
      show ?thesis
      proof (rule disjI2, intro exI conjI impI)
        show "find_msg msgtyp msgflg ms = Some i" by fact
        show "sys_msgrcv (Suc n) env msqid msgp msgsz msgtyp msgflg s = Some (msg_ts (ms ! i), snd (take_msg a i msgp msgsz s))"
          using e Some f by (simp add: prod_eq_iff r)
        assume i: "i < length ms"
        note T = take_msg_ok [OF q i [unfolded ms_def], where msgp = msgp and msgsz = msgsz, folded ms_def]
        have m: "msg_ts (ms ! i) = int (length (msg_spot (ms ! i)))" "msg_ts (ms ! i) \<le> 4080" "in_s32 (msg_type (ms ! i))"
          using queue_ok_msg [OF q nth_mem [OF i [unfolded ms_def]]] unfolding ms_def by blast+
        then have tk: "take (nat msgsz) (msg_spot (ms ! i)) = msg_spot (ms ! i)" using f by simp
        have lb: "length (msg_spot (ms ! i)) \<le> 4080" using m by simp
        show "msgs (msqs (snd (take_msg a i msgp msgsz s)) a) = take i ms @ drop (Suc i) ms"
          "queue_ok (msqs (snd (take_msg a i msgp msgsz s)) a)" "usable msqid a (snd (take_msg a i msgp msgsz s))"
          "0 \<le> msg_ts (ms ! i)" using T(1,2,5) u m by simp_all
        show "sint (get_fs_long (umem (mkern (snd (take_msg a i msgp msgsz s)))) msgp) = msg_type (ms ! i)"
          using m(3) unfolding T(4) tk read_back(1) [OF lb] by (simp add: sint_sbintrunc' s32_in_s32 flip: s32_def)
        show "memcpy_fromfs (umem (mkern (snd (take_msg a i msgp msgsz s)))) (msgp + 4) (nat (msg_ts (ms ! i))) = msg_spot (ms ! i)"
          unfolding T(4) tk using read_back(2) [OF lb] m(1) by simp
      qed
    qed
  qed
qed

section \<open>Sequences of calls\<close>

datatype mcall = Snd u32 int | Rcv u32 int int bool

text \<open>Non-blocking calls of one task on one queue: the messages the receives delivered (type and text as they are in
  the buffer after the call), and the messages the sends took. The flag of a receive is \<open>MSG_EXCEPT\<close>.\<close>

definition msg_at :: "umem \<Rightarrow> u32 \<Rightarrow> int \<Rightarrow> (int \<times> u8 list) list" where
  "msg_at m p r = (if r < 0 then [] else [(sint (get_fs_long m p), memcpy_fromfs m (p + 4) (nat r))])"

fun run_msgs :: "(msgst \<Rightarrow> msgst) \<Rightarrow> (msgst \<Rightarrow> bool \<times> msgst) \<Rightarrow> int \<Rightarrow> mcall list \<Rightarrow> msgst \<Rightarrow>
    ((int \<times> u8 list) list \<times> (int \<times> u8 list) list \<times> msgst) option" where
  "run_msgs env kmalloc msqid [] s = Some ([], [], s)"
| "run_msgs env kmalloc msqid (Snd msgp msgsz # cs) s =
     (case sys_msgsnd 1 env kmalloc msqid msgp msgsz 0x800 s of
        None \<Rightarrow> None
      | Some (r, s') \<Rightarrow>
          map_option (\<lambda>(got, put, t). (got, msg_at (umem (mkern s)) msgp r @ put, t)) (run_msgs env kmalloc msqid cs s'))"
| "run_msgs env kmalloc msqid (Rcv msgp msgsz msgtyp ex # cs) s =
     (case sys_msgrcv 1 env msqid msgp msgsz msgtyp (if ex then 0x2800 else 0x800) s of
        None \<Rightarrow> None
      | Some (r, s') \<Rightarrow>
          map_option (\<lambda>(got, put, t). (msg_at (umem (mkern s')) msgp r @ got, put, t)) (run_msgs env kmalloc msqid cs s'))"

definition waiting :: "nat \<Rightarrow> msgst \<Rightarrow> (int \<times> u8 list) list" where
  "waiting a s = map (\<lambda>m. (msg_type m, msg_spot m)) (msgs (msqs s a))"

definition of_type :: "int \<Rightarrow> (int \<times> u8 list) list \<Rightarrow> (int \<times> u8 list) list" where
  "of_type ty xs = filter (\<lambda>x. fst x = ty) xs"

lemma of_type_append [simp]: "of_type ty (xs @ ys) = of_type ty xs @ of_type ty ys" "of_type ty [] = []"
  "of_type ty (x # xs) = (if fst x = ty then [x] else []) @ of_type ty xs"
  by (simp_all add: of_type_def)

text \<open>The message taken is the oldest of its own type, whatever the request.\<close>

lemma find_msg_oldest:
  assumes "find_msg msgtyp msgflg ms = Some i" "- 2147483648 < msgtyp"
  shows "i < length ms" "\<forall>j<i. msg_type (ms ! j) \<noteq> msg_type (ms ! i)"
proof -
  have W: "i < length ms" "wanted msgtyp msgflg ms i" "\<forall>j<i. \<not> wanted msgtyp msgflg ms j"
    using find_msg_wanted [OF assms(2), where msgflg = msgflg and ms = ms] assms(1) by auto
  show "i < length ms" by (rule W(1))
  show "\<forall>j<i. msg_type (ms ! j) \<noteq> msg_type (ms ! i)"
  proof (intro allI impI notI)
    fix j assume j: "j < i" "msg_type (ms ! j) = msg_type (ms ! i)"
    then have "wanted msgtyp msgflg ms j" using W(2) by (simp add: wanted_def)
    then show False using W(3) j(1) by blast
  qed
qed

lemma of_type_remove:
  assumes "i < length ms" "\<forall>j<i. msg_type (ms ! j) \<noteq> msg_type (ms ! i)" and that: "f = (\<lambda>m. (msg_type m, msg_spot m))"
  shows "of_type ty (map f ms) = of_type ty [f (ms ! i)] @ of_type ty (map f (take i ms @ drop (Suc i) ms))"
proof -
  have "of_type (msg_type (ms ! i)) (map f (take i ms)) = []"
    using assms that by (auto simp: of_type_def filter_empty_conv in_set_conv_nth)
  moreover have "of_type ty (map f ms) = of_type ty (map f (take i ms)) @ of_type ty [f (ms ! i)] @ of_type ty (map f (drop (Suc i) ms))"
    by (subst in_msgs_split [OF assms(1)]) (simp add: of_type_def)
  ultimately show ?thesis using that by (auto simp: of_type_def)
qed

fun call_ok :: "mcall \<Rightarrow> bool" where
  "call_ok (Rcv msgp msgsz msgtyp ex) \<longleftrightarrow> - 2147483648 < msgtyp"
| "call_ok (Snd msgp msgsz) \<longleftrightarrow> True"


section \<open>A queue\<close>

definition demo_msq :: msqid_ds where
  "demo_msq = \<lparr>msg_perm = \<lparr>ipc_key = 5, ipc_uid = 1000, ipc_gid = 1000, cuid = 1000, cgid = 1000, ipc_mode = 0x1ff, ipc_seq = 3\<rparr>,
     msgs = [], msg_stime = 0, msg_rtime = 0, msg_ctime = 0, wwait = [], rwait = [], msg_cbytes = 0, msg_qnum = 0,
     msg_qbytes = 16384, msg_lspid = 0, msg_lrpid = 0\<rparr>"

definition demo_msgst :: msgst where
  "demo_msgst = \<lparr>mkern = demo_kernel\<lparr>umem := (\<lambda>a. if a = 0x1000 then 7 else if a = 0x1004 then 65 else 0)\<rparr>,
     msgque = Ptr 9 # replicate 127 IPC_UNUSED, msqs = (\<lambda>_. demo_msq), msgbytes = 0, msghdrs = 0, msg_seq = 3,
     used_queues = 1, max_msqid = 0, msg_lock = []\<rparr>"

lemma demo_msgst_ok:
  "usable 384 9 demo_msgst" "queue_ok (msqs demo_msgst 9)" "waiting 9 demo_msgst = []" "length (msgs (msqs demo_msgst 9)) = 0"
  by (simp_all add: usable_def queue_ok_def waiting_def demo_msgst_def demo_msq_def ipcperms_def suser_def demo_kernel_def
      demo_heap_def demo_task_def Let_def)


section \<open>Identifiers\<close>

text \<open>The identifier of a new queue works only while fewer than 65536 queues have ever been removed. The sequence
  number is kept in 16 bits in the queue and in 24 in the identifier: for a creator with read and write permission the
  identifier that \<open>newque\<close> returns is usable exactly when \<open>msg_seq\<close> is below 65536, and above it every send to the new
  queue fails with EIDRM.\<close>

theorem newque_usable_iff:
  assumes len: "length (msgque s) = 128" and free: "first_unused (msgque s) 0 = Some ix"
    and km: "\<forall>t. kmalloc t = (Some a, t)" and sq: "0 \<le> msg_seq s" "msg_seq s < 16777215"
    and fl: "ucast flg AND (0x180 :: u16) = 0x180" and r: "newque kmalloc key flg s = (r, s')"
  shows "r = msg_seq s * 128 + int ix \<and> (usable r a s' \<longleftrightarrow> msg_seq s < 65536) \<and>
    (msg_seq s \<ge> 65536 \<and> 0 \<le> msgsz \<and> msgsz \<le> MSGMAX \<and> msgp \<noteq> 0 \<and> verify_area VERIFY_READ (msgp + 4) (to_u32 msgsz) = 0 \<and>
      1 \<le> sint (get_fs_long (umem (mkern s')) msgp) \<longrightarrow>
      sys_msgsnd (Suc n) env km' r msgp msgsz msgflg s' = Some (- EIDRM, s'))"
proof -
  have fu: "first_unused xs i = Some j \<Longrightarrow> i \<le> j \<and> j < i + length xs" for xs i j
    by (induction xs i rule: first_unused.induct) (auto split: if_splits)
  have ix: "ix < 128" using fu [OF free] len by simp
  let ?q = "\<lparr>msg_perm = new_perm key flg (msg_seq s) (mkern s), msgs = [], msg_stime = 0, msg_rtime = 0,
     msg_ctime = current_time (mkern s), wwait = [], rwait = [], msg_cbytes = 0, msg_qnum = 0,
     msg_qbytes = MSGMNB, msg_lspid = 0, msg_lrpid = 0\<rparr>"
  have k: "kmalloc (s\<lparr>msgque := (msgque s)[ix := IPC_NOID]\<rparr>) = (Some a, s\<lparr>msgque := (msgque s)[ix := IPC_NOID]\<rparr>)" using km by simp
  have e: "r = s32 (msg_seq s * 128 + int ix)" "msqs s' a = ?q" "msgque s' = (msgque s)[ix := Ptr a]"
    "ipcperms p f (mkern s') = ipcperms p f (mkern s)" for p f
    using r by (auto simp: newque_def free k Let_def wake_msg_lock_def)
  have r': "r = msg_seq s * 128 + int ix" using e(1) sq ix by (simp add: s32_id)
  then have d: "r div 128 = msg_seq s" "nat (r mod 128) = ix" "0 \<le> r" using ix sq by simp_all
  have slot: "msgque s' ! nat (r mod 128) = Ptr a" using d(2) e(3) ix len by simp
  have seq: "ipc_seq (msg_perm (msqs s' a)) = r div 128 \<longleftrightarrow> msg_seq s < 65536"
  proof -
    have "msg_seq s mod 65536 = msg_seq s \<longleftrightarrow> msg_seq s < 65536" using sq by (metis mod_pos_pos_trivial pos_mod_bound zero_less_numeral)
    then show ?thesis using e(2) d(1) by (simp add: new_perm_def us16_def)
  qed
  define m where "m = (ucast flg :: u16)"
  have and_not: "x AND y AND NOT (x AND z) = x AND (y AND NOT z)" for x y z :: u16
    by (rule bit_word_eqI) (auto simp: bit_simps)
  have m: "m AND 0x80 = 0x80" "m AND 0x100 = 0x100"
  proof -
    have "(m AND 0x180) AND 0x80 = 0x80" "(m AND 0x180) AND 0x100 = 0x100" using fl by (simp_all add: m_def)
    then show "m AND 0x80 = 0x80" "m AND 0x100 = 0x100" by (simp_all add: and.assoc)
  qed
  have c0: "c AND NOT (m AND 0x1ff) = 0" if "c \<in> {0x80, 0x100}" for c :: u16
  proof -
    have "c AND NOT (m AND 0x1ff) = m AND (c AND NOT (m AND 0x1ff))" using that m by (metis and.assoc insertE singletonD)
    also have "\<dots> = m AND (c AND NOT 0x1ff)" by (rule and_not)
    finally show ?thesis using that by auto
  qed
  have "f AND S_IRWXU AND NOT (m AND S_IRWXUGO) = 0" if "f \<in> {S_IWUGO, S_IRUGO}" for f :: u16
  proof -
    have "f AND S_IRWXU \<in> {0x80, 0x100}" using that by auto
    then show ?thesis using c0 by (simp only: and.assoc [symmetric])
  qed
  then have perm: "ipcperms (new_perm key flg (msg_seq s) (mkern s)) f (mkern s) = Some 0" if "f \<in> {S_IWUGO, S_IRUGO}" for f
    using that by (auto simp: ipcperms_def new_perm_def Let_def m_def)
  have "usable r a s' \<longleftrightarrow> msg_seq s < 65536" using slot seq d(3) perm e(2,4) by (simp add: usable_def)
  moreover have "sys_msgsnd (Suc n) env km' r msgp msgsz msgflg s' = Some (- EIDRM, s')"
    if "msg_seq s \<ge> 65536" "0 \<le> msgsz" "msgsz \<le> MSGMAX" "msgp \<noteq> 0" "verify_area VERIFY_READ (msgp + 4) (to_u32 msgsz) = 0"
      "1 \<le> sint (get_fs_long (umem (mkern s')) msgp)"
    using that slot seq d(3) by (simp add: sys_msgsnd_def)
  ultimately show ?thesis using r' by auto
qed


theorem newque_usable_iff_witness:
  "\<exists>r s'. newque (\<lambda>s. (Some 11, s)) 0 0x1b6 (demo_msgst\<lparr>msg_seq := 65536\<rparr>) = (r, s') \<and> r = 8388609 \<and> \<not> usable r 11 s'"
proof -
  let ?s = "demo_msgst\<lparr>msg_seq := 65536\<rparr>"
  obtain r s' where r: "newque (\<lambda>s. (Some 11, s)) 0 0x1b6 ?s = (r, s')" by fastforce
  have "first_unused (msgque ?s) 0 = Some 1" "length (msgque ?s) = 128" by (simp_all add: demo_msgst_def numeral_eq_Suc)
  note N = newque_usable_iff [OF this(2,1) _ _ _ _ r, of 11]
  have "r = 65536 * 128 + 1" using N [THEN conjunct1] by (simp add: demo_msgst_def)
  moreover have "\<not> usable r 11 s'" using N [THEN conjunct2, THEN conjunct1] by (simp add: demo_msgst_def)
  ultimately show ?thesis using r by auto
qed

end
