(* ===== verification/Sem.thy ===== *)
theory Sem
  imports Ipc
begin

text \<open>
  Semaphores (\<^verbatim>\<open>ipc/sem.c\<close>). A set of semaphores is a record at an address; it stays there while a removal waits for the
  sleepers to leave. The undo structures are records at addresses too: each is on the list of its task (\<^verbatim>\<open>proc_next\<close>) and
  on the list of its set (\<^verbatim>\<open>id_next\<close>), which are lists of addresses here. \<open>env\<close> is the rest of the system while a task sleeps.
  \<open>None\<close> as the result is fuel that ran out or an access behind the end of an array.
\<close>

abbreviation (input) SEMMNI :: int where "SEMMNI \<equiv> 128"
abbreviation (input) SEMMSL :: int where "SEMMSL \<equiv> 32"
abbreviation (input) SEMMNS :: int where "SEMMNS \<equiv> 4096"
abbreviation (input) SEMOPM :: u32 where "SEMOPM \<equiv> 32"
abbreviation (input) SEMVMX :: int where "SEMVMX \<equiv> 32767"
abbreviation (input) SEM_UNDO :: u16 where "SEM_UNDO \<equiv> 0x1000"
abbreviation (input) NOWAIT :: u16 where "NOWAIT \<equiv> 0x800"

section \<open>State\<close>

record sem =
  sempid :: int
  semval :: int
  semncnt :: int
  semzcnt :: int

record semid_ds =
  sem_perm :: ipc_perm
  sem_otime :: u32
  sem_ctime :: u32
  sem_base :: "sem list"
  eventn :: "tptr list"
  eventz :: "tptr list"
  undo :: "nat list"
  sem_nsems :: int

record sem_undo =
  un_semid :: int
  semadj :: int
  un_num :: int

record sembuf =
  sem_num :: int
  sem_op :: int
  sem_flg :: u16

record semst =
  skern :: kernel
  semary :: "slot list"
  smas :: "nat \<Rightarrow> semid_ds"
  undos :: "nat \<Rightarrow> sem_undo"
  semun :: "tptr \<Rightarrow> nat list"
  used_sems :: int
  used_semids :: int
  sem_seq :: int
  max_semid :: nat
  sem_lock :: "tptr list"

definition upd_sma :: "nat \<Rightarrow> (semid_ds \<Rightarrow> semid_ds) \<Rightarrow> semst \<Rightarrow> semst" where
  "upd_sma a f s = s\<lparr>smas := (smas s)(a := f (smas s a))\<rparr>"

definition upd_sem :: "nat \<Rightarrow> nat \<Rightarrow> (sem \<Rightarrow> sem) \<Rightarrow> semst \<Rightarrow> semst" where
  "upd_sem a i f s = upd_sma a (\<lambda>q. q\<lparr>sem_base := (sem_base q)[i := f (sem_base q ! i)]\<rparr>) s"

definition upd_undo :: "nat \<Rightarrow> (sem_undo \<Rightarrow> sem_undo) \<Rightarrow> semst \<Rightarrow> semst" where
  "upd_undo u f s = s\<lparr>undos := (undos s)(u := f (undos s u))\<rparr>"

definition sem_init :: "semst \<Rightarrow> semst" where
  "sem_init s =
     s\<lparr>sem_lock := [], used_sems := 0, used_semids := 0, max_semid := 0, sem_seq := 0, semary := replicate 128 IPC_UNUSED\<rparr>"

definition wake_n :: "nat \<Rightarrow> semst \<Rightarrow> semst" where
  "wake_n a s = s\<lparr>skern := wake_up (eventn (smas s a)) (skern s)\<rparr>"

definition wake_z :: "nat \<Rightarrow> semst \<Rightarrow> semst" where
  "wake_z a s = s\<lparr>skern := wake_up (eventz (smas s a)) (skern s)\<rparr>"

definition wake_sem_lock :: "semst \<Rightarrow> semst" where
  "wake_sem_lock s = s\<lparr>skern := wake_up (sem_lock s) (skern s)\<rparr>"

definition sleep_n :: "(semst \<Rightarrow> semst) \<Rightarrow> nat \<Rightarrow> semst \<Rightarrow> semst option" where
  "sleep_n env a s =
     (case sleep_on_enter TASK_INTERRUPTIBLE (eventn (smas s a)) (skern s) of
        None \<Rightarrow> None
      | Some (q, k) \<Rightarrow>
          let s = env (upd_sma a (\<lambda>m. m\<lparr>eventn := q\<rparr>) (s\<lparr>skern := k\<rparr>))
          in Some (upd_sma a (\<lambda>m. m\<lparr>eventn := sleep_on_leave (eventn m) (skern s)\<rparr>) s))"

definition sleep_z :: "(semst \<Rightarrow> semst) \<Rightarrow> nat \<Rightarrow> semst \<Rightarrow> semst option" where
  "sleep_z env a s =
     (case sleep_on_enter TASK_INTERRUPTIBLE (eventz (smas s a)) (skern s) of
        None \<Rightarrow> None
      | Some (q, k) \<Rightarrow>
          let s = env (upd_sma a (\<lambda>m. m\<lparr>eventz := q\<rparr>) (s\<lparr>skern := k\<rparr>))
          in Some (upd_sma a (\<lambda>m. m\<lparr>eventz := sleep_on_leave (eventz m) (skern s)\<rparr>) s))"

definition sleep_sem_lock :: "(semst \<Rightarrow> semst) \<Rightarrow> semst \<Rightarrow> semst option" where
  "sleep_sem_lock env s =
     (case sleep_on_enter TASK_INTERRUPTIBLE (sem_lock s) (skern s) of
        None \<Rightarrow> None
      | Some (q, k) \<Rightarrow>
          let s = env (s\<lparr>sem_lock := q, skern := k\<rparr>)
          in Some (s\<lparr>sem_lock := sleep_on_leave (sem_lock s) (skern s)\<rparr>))"

section \<open>Creating and finding sets\<close>

fun sem_findkey :: "nat \<Rightarrow> (semst \<Rightarrow> semst) \<Rightarrow> int \<Rightarrow> nat \<Rightarrow> semst \<Rightarrow> (nat option \<times> semst) option" where
  "sem_findkey 0 env key ix s = None"
| "sem_findkey (Suc n) env key ix s =
     (if ix \<le> max_semid s then
        (case semary s ! ix of
           IPC_NOID \<Rightarrow> (case sleep_sem_lock env s of None \<Rightarrow> None | Some s \<Rightarrow> sem_findkey n env key ix s)
         | IPC_UNUSED \<Rightarrow> sem_findkey n env key (ix + 1) s
         | Ptr a \<Rightarrow> if key = ipc_key (sem_perm (smas s a)) then Some (Some ix, s) else sem_findkey n env key (ix + 1) s)
      else Some (None, s))"

definition zero_sem :: sem where
  "zero_sem = \<lparr>sempid = 0, semval = 0, semncnt = 0, semzcnt = 0\<rparr>"

definition newary :: "(semst \<Rightarrow> nat option \<times> semst) \<Rightarrow> int \<Rightarrow> int \<Rightarrow> u32 \<Rightarrow> semst \<Rightarrow> int \<times> semst" where
  "newary kmalloc key nsems semflg s =
     (if nsems = 0 then (- EINVAL, s)
      else if used_sems s + nsems > SEMMNS then (- ENOSPC, s)
      else
        (case first_unused (semary s) 0 of
           None \<Rightarrow> (- ENOSPC, s)
         | Some ix \<Rightarrow>
             let (r, s) = kmalloc (s\<lparr>semary := (semary s)[ix := IPC_NOID], used_sems := used_sems s + nsems\<rparr>)
             in (case r of
                   None \<Rightarrow>
                     (- ENOMEM, wake_sem_lock (s\<lparr>semary := (semary s)[ix := IPC_UNUSED], used_sems := used_sems s - nsems\<rparr>))
                 | Some a \<Rightarrow>
                     let q = \<lparr>sem_perm = new_perm key semflg (sem_seq s) (skern s), sem_otime = 0,
                              sem_ctime = current_time (skern s), sem_base = replicate (nat nsems) zero_sem,
                              eventn = [], eventz = [], undo = [], sem_nsems = us16 nsems\<rparr>;
                         s = s\<lparr>smas := (smas s)(a := q), max_semid := max ix (max_semid s),
                               used_semids := s32 (used_semids s + 1), semary := (semary s)[ix := Ptr a]\<rparr>
                     in (s32 (sem_seq s * SEMMNI + int ix), wake_sem_lock s))))"

definition sys_semget ::
  "nat \<Rightarrow> (semst \<Rightarrow> semst) \<Rightarrow> (semst \<Rightarrow> nat option \<times> semst) \<Rightarrow> int \<Rightarrow> int \<Rightarrow> u32 \<Rightarrow> semst \<Rightarrow> (int \<times> semst) option" where
  "sys_semget fuel env kmalloc key nsems semflg s =
     (if nsems < 0 \<or> nsems > SEMMSL then Some (- EINVAL, s)
      else if key = 0 then Some (newary kmalloc key nsems semflg s)
      else
        (case sem_findkey fuel env key 0 s of
           None \<Rightarrow> None
         | Some (None, s) \<Rightarrow>
             if semflg AND IPC_CREAT = 0 then Some (- ENOENT, s) else Some (newary kmalloc key nsems semflg s)
         | Some (Some ix, s) \<Rightarrow>
             if semflg AND IPC_CREAT \<noteq> 0 \<and> semflg AND IPC_EXCL \<noteq> 0 then Some (- EEXIST, s)
             else
               (case semary s ! ix of
                  Ptr a \<Rightarrow>
                    if nsems > sem_nsems (smas s a) then Some (- EINVAL, s)
                    else
                      (case ipcperms (sem_perm (smas s a)) (ucast semflg) (skern s) of
                         None \<Rightarrow> None
                       | Some e \<Rightarrow>
                           if e \<noteq> 0 then Some (- EACCES, s)
                           else Some (ipc_seq (sem_perm (smas s a)) * SEMMNI + int ix, s))
                | _ \<Rightarrow> None)))"

section \<open>Removing\<close>

fun drain_sleepers :: "nat \<Rightarrow> (semst \<Rightarrow> semst) \<Rightarrow> nat \<Rightarrow> semst \<Rightarrow> semst option" where
  "drain_sleepers 0 env a s = None"
| "drain_sleepers (Suc n) env a s =
     (if eventz (smas s a) \<noteq> [] \<or> eventn (smas s a) \<noteq> [] then
        let s = wake_n a (wake_z a s)
        in drain_sleepers n env a (env (s\<lparr>skern := schedule (skern s)\<rparr>))
      else Some s)"

definition clear_undos :: "(sem_undo \<Rightarrow> bool) \<Rightarrow> nat list \<Rightarrow> semst \<Rightarrow> semst" where
  "clear_undos P us s = fold (\<lambda>u s. if P (undos s u) then upd_undo u (\<lambda>x. x\<lparr>semadj := 0\<rparr>) s else s) us s"

definition freeary :: "nat \<Rightarrow> (semst \<Rightarrow> semst) \<Rightarrow> nat \<Rightarrow> nat \<Rightarrow> semst \<Rightarrow> semst option" where
  "freeary fuel env ix a s =
     (let s = upd_sma a (\<lambda>q. q\<lparr>sem_perm := (sem_perm q)\<lparr>ipc_seq := us16 (ipc_seq (sem_perm q) + 1)\<rparr>\<rparr>) s;
          s = s\<lparr>sem_seq := next_seq SEMMNI (sem_seq s), used_sems := used_sems s - sem_nsems (smas s a)\<rparr>;
          s = (if ix = max_semid s then s\<lparr>max_semid := lower_max (semary s) ix\<rparr> else s);
          s = s\<lparr>semary := (semary s)[ix := IPC_UNUSED], used_semids := s32 (used_semids s - 1)\<rparr>;
          s = clear_undos (\<lambda>_. True) (undo (smas s a)) s
      in drain_sleepers fuel env a s)"

section \<open>Operations\<close>

text \<open>The array of operations in the user's memory: three shorts each.\<close>

definition read_sembuf :: "umem \<Rightarrow> u32 \<Rightarrow> sembuf" where
  "read_sembuf m p =
     \<lparr>sem_num = uint (get_fs_word m p), sem_op = sint (get_fs_word m (p + 2)), sem_flg = get_fs_word m (p + 4)\<rparr>"

definition read_sops :: "umem \<Rightarrow> u32 \<Rightarrow> nat \<Rightarrow> sembuf list" where
  "read_sops m p n = map (\<lambda>i. read_sembuf m (p + 6 * of_nat i)) [0..<n]"

text \<open>\<open>for (un = current->semun; un; un = un->proc_next) if (...) break;\<close>\<close>

definition find_undo :: "int \<Rightarrow> int \<Rightarrow> semst \<Rightarrow> nat option" where
  "find_undo semid num s =
     find (\<lambda>u. un_semid (undos s u) = semid \<and> un_num (undos s u) = num) (semun s (current (skern s)))"

text \<open>Every operation with undo gets an undo structure. \<open>mem\<close> are the answers of the allocator, in order; it does not
  sleep (\<open>GFP_ATOMIC\<close>).\<close>

definition new_undo :: "int \<Rightarrow> nat \<Rightarrow> int \<Rightarrow> nat \<Rightarrow> semst \<Rightarrow> semst" where
  "new_undo semid a num u s =
     (let p = current (skern s);
          s = s\<lparr>undos := (undos s)(u := \<lparr>un_semid = semid, semadj = 0, un_num = num\<rparr>), semun := (semun s)(p := u # semun s p)\<rparr>
      in upd_sma a (\<lambda>q. q\<lparr>undo := u # undo q\<rparr>) s)"

fun alloc_undos :: "int \<Rightarrow> nat \<Rightarrow> sembuf list \<Rightarrow> nat option list \<Rightarrow> semst \<Rightarrow> bool \<times> semst" where
  "alloc_undos semid a [] mem s = (True, s)"
| "alloc_undos semid a (sop # sops) mem s =
     (if sem_flg sop AND SEM_UNDO = 0 then alloc_undos semid a sops mem s
      else
        (case find_undo semid (sem_num sop) s of
           Some u \<Rightarrow> alloc_undos semid a sops mem s
         | None \<Rightarrow>
             (case mem of
                Some u # mem \<Rightarrow> alloc_undos semid a sops mem (new_undo semid a (sem_num sop) u s)
              | _ \<Rightarrow> (False, s))))"

text \<open>The pass over the operations at \<open>slept\<close>.\<close>

datatype sem_check = Ready | Fail int | Wait_z nat | Wait_n nat | Bad_index

fun check_sops :: "bool \<Rightarrow> sembuf list \<Rightarrow> sem list \<Rightarrow> sem_check" where
  "check_sops pending [] sems = Ready"
| "check_sops pending (sop # sops) sems =
     (let i = nat (sem_num sop)
      in if length sems \<le> i then Bad_index
         else
           let v = semval (sems ! i)
           in if sem_op sop + v > SEMVMX then Fail (- ERANGE)
              else if sem_op sop = 0 \<and> v \<noteq> 0 then
                if sem_flg sop AND NOWAIT \<noteq> 0 then Fail (- EAGAIN)
                else if pending then Fail (- EINTR)
                else Wait_z i
              else if sem_op sop + v < 0 then
                if sem_flg sop AND NOWAIT \<noteq> 0 then Fail (- EAGAIN)
                else if pending then Fail (- EINTR)
                else Wait_n i
              else check_sops pending sops sems)"

fun semop_wait :: "nat \<Rightarrow> (semst \<Rightarrow> semst) \<Rightarrow> int \<Rightarrow> nat \<Rightarrow> sembuf list \<Rightarrow> semst \<Rightarrow> ((int \<times> semst) + semst) option" where
  "semop_wait 0 env semid a sops s = None"
| "semop_wait (Suc n) env semid a sops s =
     (if ipc_seq (sem_perm (smas s a)) \<noteq> semid div SEMMNI then Some (Inl (- EIDRM, s))
      else
        (case check_sops (signal_pending (skern s)) sops (sem_base (smas s a)) of
           Ready \<Rightarrow> Some (Inr s)
         | Fail e \<Rightarrow> Some (Inl (e, s))
         | Wait_z i \<Rightarrow>
             (case sleep_z env a (upd_sem a i (\<lambda>m. m\<lparr>semzcnt := us16 (semzcnt m + 1)\<rparr>) s) of
                None \<Rightarrow> None
              | Some s \<Rightarrow> semop_wait n env semid a sops (upd_sem a i (\<lambda>m. m\<lparr>semzcnt := us16 (semzcnt m - 1)\<rparr>) s))
         | Wait_n i \<Rightarrow>
             (case sleep_n env a (upd_sem a i (\<lambda>m. m\<lparr>semncnt := us16 (semncnt m + 1)\<rparr>) s) of
                None \<Rightarrow> None
              | Some s \<Rightarrow> semop_wait n env semid a sops (upd_sem a i (\<lambda>m. m\<lparr>semncnt := us16 (semncnt m - 1)\<rparr>) s))
         | Bad_index \<Rightarrow> None))"

text \<open>The second pass carries the operations out.\<close>

definition do_sop :: "int \<Rightarrow> nat \<Rightarrow> sembuf \<Rightarrow> semst \<Rightarrow> semst" where
  "do_sop semid a sop s =
     (let s = upd_sem a (nat (sem_num sop))
                (\<lambda>m. m\<lparr>sempid := s16 (pid (cur (skern s))), semval := us16 (semval m + sem_op sop)\<rparr>) s
      in if sem_flg sop AND SEM_UNDO = 0 then s
         else
           (case find_undo semid (sem_num sop) s of
              None \<Rightarrow> s
            | Some u \<Rightarrow> upd_undo u (\<lambda>x. x\<lparr>semadj := s16 (semadj x - sem_op sop)\<rparr>) s))"

fun do_sops :: "int \<Rightarrow> nat \<Rightarrow> sembuf list \<Rightarrow> nat \<Rightarrow> semst \<Rightarrow> nat \<times> semst" where
  "do_sops semid a [] zs s = (zs, s)"
| "do_sops semid a (sop # sops) zs s =
     (let s = do_sop semid a sop s
      in do_sops semid a sops (if semval (sem_base (smas s a) ! nat (sem_num sop)) = 0 then zs + 1 else zs) s)"

definition semop_finish :: "int \<Rightarrow> nat \<Rightarrow> sembuf list \<Rightarrow> semst \<Rightarrow> int \<times> semst" where
  "semop_finish semid a sops s =
     (let (zs, s) = do_sops semid a sops 0 s;
          s = upd_sma a (\<lambda>q. q\<lparr>sem_otime := current_time (skern s)\<rparr>) s;
          s = (if list_ex (\<lambda>sop. sem_op sop > 0) sops then wake_n a s else s);
          s = (if zs \<noteq> 0 then wake_z a s else s)
      in (semval (sem_base (smas s a) ! nat (sem_num (last sops))), s))"

definition semop_run ::
  "nat \<Rightarrow> (semst \<Rightarrow> semst) \<Rightarrow> nat option list \<Rightarrow> int \<Rightarrow> nat \<Rightarrow> sembuf list \<Rightarrow> semst \<Rightarrow> (int \<times> semst) option" where
  "semop_run fuel env mem semid a sops s =
     (let (ok, s) = alloc_undos semid a sops mem s
      in if \<not> ok then Some (- ENOMEM, s)
         else
           (case semop_wait fuel env semid a sops s of
              None \<Rightarrow> None
            | Some (Inl r) \<Rightarrow> Some r
            | Some (Inr s) \<Rightarrow> Some (semop_finish semid a sops s)))"

definition sys_semop ::
  "nat \<Rightarrow> (semst \<Rightarrow> semst) \<Rightarrow> nat option list \<Rightarrow> int \<Rightarrow> u32 \<Rightarrow> u32 \<Rightarrow> semst \<Rightarrow> (int \<times> semst) option" where
  "sys_semop fuel env mem semid tsops nsops s =
     (if nsops < 1 \<or> semid < 0 then Some (- EINVAL, s)
      else if nsops > SEMOPM then Some (- E2BIG, s)
      else if tsops = 0 then Some (- EFAULT, s)
      else
        let sops = read_sops (umem (skern s)) tsops (unat nsops)
        in (case semary s ! nat (semid mod SEMMNI) of
              IPC_UNUSED \<Rightarrow> Some (- EINVAL, s)
            | IPC_NOID \<Rightarrow> Some (- EINVAL, s)
            | Ptr a \<Rightarrow>
                if list_ex (\<lambda>sop. sem_num sop > sem_nsems (smas s a)) sops then Some (- EFBIG, s)
                else
                  (case ipcperms (sem_perm (smas s a))
                          (if list_ex (\<lambda>sop. sem_op sop \<noteq> 0) sops then S_IWUGO else S_IRUGO) (skern s) of
                     None \<Rightarrow> None
                   | Some e \<Rightarrow>
                       if e \<noteq> 0 then Some (- EACCES, s)
                       else semop_run fuel env mem semid a sops s)))"

section \<open>Exit\<close>

text \<open>One undo structure: the loop that waits until the adjustment is possible.\<close>

fun undo_loop :: "nat \<Rightarrow> (semst \<Rightarrow> semst) \<Rightarrow> nat \<Rightarrow> nat \<Rightarrow> semst \<Rightarrow> semst option" where
  "undo_loop 0 env a u s = None"
| "undo_loop (Suc n) env a u s =
     (let un = undos s u; i = nat (un_num un)
      in if ipc_seq (sem_perm (smas s a)) \<noteq> un_semid un div SEMMNI then Some s
         else if length (sem_base (smas s a)) \<le> i then None
         else if semval (sem_base (smas s a) ! i) + semadj un \<ge> 0 then
           let s = upd_sem a i (\<lambda>m. m\<lparr>semval := us16 (semval m + semadj un), sempid := s16 (pid (cur (skern s)))\<rparr>) s;
               s = upd_sma a (\<lambda>q. q\<lparr>sem_otime := current_time (skern s)\<rparr>) s;
               s = (if semadj un > 0 then wake_n a s else s)
           in Some (if semval (sem_base (smas s a) ! i) = 0 then wake_z a s else s)
         else if signal_pending (skern s) then Some s
         else
           (case sleep_n env a (upd_sem a i (\<lambda>m. m\<lparr>semncnt := us16 (semncnt m + 1)\<rparr>) s) of
              None \<Rightarrow> None
            | Some s \<Rightarrow> undo_loop n env a u (upd_sem a i (\<lambda>m. m\<lparr>semncnt := us16 (semncnt m - 1)\<rparr>) s)))"

text \<open>The loop over the list of the task; each round takes the first structure off it.\<close>

fun exit_loop :: "nat \<Rightarrow> nat \<Rightarrow> (semst \<Rightarrow> semst) \<Rightarrow> semst \<Rightarrow> semst option" where
  "exit_loop 0 m env s = None"
| "exit_loop (Suc n) m env s =
     (case semun s (current (skern s)) of
        [] \<Rightarrow> Some s
      | u # _ \<Rightarrow>
          let pop = (\<lambda>s. s\<lparr>semun := (semun s)(current (skern s) := tl (semun s (current (skern s))))\<rparr>)
          in (case semary s ! nat (un_semid (undos s u) mod SEMMNI) of
                IPC_UNUSED \<Rightarrow> exit_loop n m env (pop s)
              | IPC_NOID \<Rightarrow> exit_loop n m env (pop s)
              | Ptr a \<Rightarrow>
                  if ipc_seq (sem_perm (smas s a)) \<noteq> un_semid (undos s u) div SEMMNI then exit_loop n m env (pop s)
                  else if u \<notin> set (undo (smas s a)) then Some s
                  else
                    let s = upd_sma a (\<lambda>q. q\<lparr>undo := remove1 u (undo q)\<rparr>) s
                    in if semadj (undos s u) = 0 then exit_loop n m env (pop s)
                       else
                         (case undo_loop m env a u s of
                            None \<Rightarrow> None
                          | Some s \<Rightarrow> exit_loop n m env (pop s))))"

definition sem_exit :: "nat \<Rightarrow> nat \<Rightarrow> (semst \<Rightarrow> semst) \<Rightarrow> semst \<Rightarrow> semst option" where
  "sem_exit n m env s =
     map_option (\<lambda>s. s\<lparr>semun := (semun s)(current (skern s) := [])\<rparr>) (exit_loop n m env s)"

section \<open>Control\<close>

definition set_umem :: "(umem \<Rightarrow> umem) \<Rightarrow> semst \<Rightarrow> semst" where
  "set_umem f s = s\<lparr>skern := (skern s)\<lparr>umem := f (umem (skern s))\<rparr>\<rparr>"

text \<open>\<open>struct seminfo\<close>: ten ints.\<close>

definition put_seminfo :: "int list \<Rightarrow> u32 \<Rightarrow> umem \<Rightarrow> umem" where
  "put_seminfo ws buf m = fold (\<lambda>(i, w) m. put_fs_long (to_u32 w) (buf + 4 * of_nat i) m) (enumerate 0 ws) m"

definition semctl_info :: "int \<Rightarrow> u32 \<Rightarrow> semst \<Rightarrow> int \<times> semst" where
  "semctl_info cmd arg s =
     (let tmp = get_fs_long (umem (skern s)) arg
      in if arg = 0 \<or> tmp = 0 then (- EFAULT, s)
         else
           let ws = [SEMMNS, SEMMNI, SEMMNS, SEMMNS, SEMMSL, 32, 32, if cmd = 19 then used_semids s else 20, SEMVMX,
                     if cmd = 19 then used_sems s else 16383];
               i = verify_area VERIFY_WRITE tmp 40
           in if i \<noteq> 0 then (i, s) else (int (max_semid s), set_umem (put_seminfo ws tmp) s))"

text \<open>The image of the structure has addresses of the kernel in it; it is an argument (\<open>img\<close>).\<close>

definition semctl_stat :: "(semid_ds \<Rightarrow> u8 list) \<Rightarrow> int \<Rightarrow> u32 \<Rightarrow> semst \<Rightarrow> (int \<times> semst) option" where
  "semctl_stat img semid arg s =
     (let buf = get_fs_long (umem (skern s)) arg; i = verify_area VERIFY_WRITE buf 44
      in if arg = 0 \<or> buf = 0 then Some (- EFAULT, s)
         else if i \<noteq> 0 then Some (i, s)
         else if semid > int (max_semid s) then Some (- EINVAL, s)
         else
           (case semary s ! nat semid of
              IPC_UNUSED \<Rightarrow> Some (- EINVAL, s)
            | IPC_NOID \<Rightarrow> Some (- EINVAL, s)
            | Ptr a \<Rightarrow>
                (case ipcperms (sem_perm (smas s a)) S_IRUGO (skern s) of
                   None \<Rightarrow> None
                 | Some e \<Rightarrow>
                     if e \<noteq> 0 then Some (- EACCES, s)
                     else Some (semid + ipc_seq (sem_perm (smas s a)) * SEMMNI,
                                set_umem (memcpy_tofs buf (img (smas s a))) s))))"

definition perm_call :: "nat \<Rightarrow> u16 \<Rightarrow> semst \<Rightarrow> int \<times> semst \<Rightarrow> (int \<times> semst) option" where
  "perm_call a flag s r =
     (case ipcperms (sem_perm (smas s a)) flag (skern s) of
        None \<Rightarrow> None
      | Some e \<Rightarrow> Some (if e \<noteq> 0 then (- EACCES, s) else r))"

definition read_shorts :: "umem \<Rightarrow> u32 \<Rightarrow> nat \<Rightarrow> int list" where
  "read_shorts m p n = map (\<lambda>i. uint (get_fs_word m (p + 2 * of_nat i))) [0..<n]"

definition write_shorts :: "int list \<Rightarrow> u32 \<Rightarrow> umem \<Rightarrow> umem" where
  "write_shorts vs p m = fold (\<lambda>(i, v) m. put_fs_word (word_of_int v) (p + 2 * of_nat i) m) (enumerate 0 vs) m"

text \<open>Storing values: the adjustments of the semaphores they replace are dropped and every sleeper looks again.\<close>

definition set_vals :: "nat \<Rightarrow> (sem list \<Rightarrow> sem list) \<Rightarrow> (sem_undo \<Rightarrow> bool) \<Rightarrow> semst \<Rightarrow> semst" where
  "set_vals a f P s =
     (let s = clear_undos P (undo (smas s a)) s;
          s = upd_sma a (\<lambda>q. q\<lparr>sem_ctime := current_time (skern s), sem_base := f (sem_base q)\<rparr>) s
      in wake_z a (wake_n a s))"

definition semctl_get :: "int \<Rightarrow> int \<Rightarrow> u32 \<Rightarrow> nat \<Rightarrow> semst \<Rightarrow> (int \<times> semst) option" where
  "semctl_get semnum cmd arg a s =
     (let curr = sem_base (smas s a) ! nat semnum;
          array = get_fs_long (umem (skern s)) arg;
          nsems = sem_nsems (smas s a);
          i = verify_area VERIFY_WRITE array (to_u32 (nsems * 2))
      in perm_call a S_IRUGO s
           (if cmd = 12 then (semval curr, s)
            else if cmd = 11 then (sempid curr, s)
            else if cmd = 14 then (semncnt curr, s)
            else if cmd = 15 then (semzcnt curr, s)
            else if arg = 0 \<or> array = 0 then (- EFAULT, s)
            else if i \<noteq> 0 then (i, s)
            else (0, set_umem (write_shorts (map semval (sem_base (smas s a))) array) s)))"

definition semctl_setval :: "int \<Rightarrow> u32 \<Rightarrow> nat \<Rightarrow> semst \<Rightarrow> (int \<times> semst) option" where
  "semctl_setval semnum arg a s =
     (let val = sint (get_fs_long (umem (skern s)) arg)
      in if arg = 0 then Some (- EFAULT, s)
         else if val > SEMVMX \<or> val < 0 then Some (- ERANGE, s)
         else
           perm_call a S_IWUGO s
             (0, set_vals a (\<lambda>sems. sems[nat semnum := (sems ! nat semnum)\<lparr>semval := val\<rparr>]) (\<lambda>un. un_num un = semnum) s))"

definition semctl_setall :: "u32 \<Rightarrow> nat \<Rightarrow> semst \<Rightarrow> (int \<times> semst) option" where
  "semctl_setall arg a s =
     (let array = get_fs_long (umem (skern s)) arg;
          i = verify_area VERIFY_READ array 44;
          sem_io = read_shorts (umem (skern s)) array (nat (sem_nsems (smas s a)))
      in if arg = 0 \<or> array = 0 then Some (- EFAULT, s)
         else if i \<noteq> 0 then Some (i, s)
         else if list_ex (\<lambda>v. v > SEMVMX) sem_io then Some (- ERANGE, s)
         else
           perm_call a S_IWUGO s
             (0, set_vals a (\<lambda>sems. map (\<lambda>(m, v). m\<lparr>semval := v\<rparr>) (zip sems sem_io)) (\<lambda>_. True) s))"

definition semctl_ipcset :: "u32 \<Rightarrow> nat \<Rightarrow> semst \<Rightarrow> int \<times> semst" where
  "semctl_ipcset arg a s =
     (let m = umem (skern s); buf = get_fs_long m arg; i = verify_area VERIFY_READ buf 44
      in if arg = 0 \<or> buf = 0 then (- EFAULT, s)
         else if i \<noteq> 0 then (i, s)
         else if ipc_owner (sem_perm (smas s a)) (skern s) then
           (0, upd_sma a (\<lambda>q. q\<lparr>sem_perm := (sem_perm q)\<lparr>ipc_uid := get_fs_word m (buf + 4), ipc_gid := get_fs_word m (buf + 6),
                   ipc_mode := (ipc_mode (sem_perm q) AND NOT S_IRWXUGO) OR (get_fs_word m (buf + 12) AND S_IRWXUGO)\<rparr>,
                 sem_ctime := current_time (skern s)\<rparr>) s)
         else (- EPERM, s))"

definition semctl_ipcstat :: "(semid_ds \<Rightarrow> u8 list) \<Rightarrow> u32 \<Rightarrow> nat \<Rightarrow> semst \<Rightarrow> (int \<times> semst) option" where
  "semctl_ipcstat img arg a s =
     (let buf = get_fs_long (umem (skern s)) arg; i = verify_area VERIFY_WRITE arg 44
      in if arg = 0 \<or> buf = 0 then Some (- EFAULT, s)
         else if i \<noteq> 0 then Some (i, s)
         else perm_call a S_IRUGO s (0, set_umem (memcpy_tofs buf (img (smas s a))) s))"

text \<open>The commands on one set. Between the two \<open>switch\<close> statements of the source nothing sleeps, so the second test
  of the identifier cannot fail and the two parts of a command stand together.\<close>

definition semctl_cmd ::
  "nat \<Rightarrow> (semst \<Rightarrow> semst) \<Rightarrow> (semid_ds \<Rightarrow> u8 list) \<Rightarrow> int \<Rightarrow> int \<Rightarrow> int \<Rightarrow> u32 \<Rightarrow> nat \<Rightarrow> semst \<Rightarrow> (int \<times> semst) option" where
  "semctl_cmd fuel env img semid semnum cmd arg a s =
     (let ipcp = sem_perm (smas s a)
      in if ipc_seq ipcp \<noteq> semid div SEMMNI then Some (- EIDRM, s)
         else if semnum \<ge> sem_nsems (smas s a) then Some (- EINVAL, s)
         else if cmd \<in> {11, 12, 13, 14, 15} then semctl_get semnum cmd arg a s
         else if cmd = 16 then semctl_setval semnum arg a s
         else if cmd = IPC_RMID then
           (if ipc_owner ipcp (skern s) then map_option (\<lambda>s. (0, s)) (freeary fuel env (nat (semid mod SEMMNI)) a s)
            else Some (- EPERM, s))
         else if cmd = 17 then semctl_setall arg a s
         else if cmd = IPC_STAT then semctl_ipcstat img arg a s
         else if cmd = IPC_SET then Some (semctl_ipcset arg a s)
         else Some (- EINVAL, s))"

definition sys_semctl ::
  "nat \<Rightarrow> (semst \<Rightarrow> semst) \<Rightarrow> (semid_ds \<Rightarrow> u8 list) \<Rightarrow> int \<Rightarrow> int \<Rightarrow> int \<Rightarrow> u32 \<Rightarrow> semst \<Rightarrow> (int \<times> semst) option" where
  "sys_semctl fuel env img semid semnum cmd arg s =
     (if semid < 0 \<or> semnum < 0 \<or> cmd < 0 then Some (- EINVAL, s)
      else if cmd = IPC_INFO \<or> cmd = 19 then Some (semctl_info cmd arg s)
      else if cmd = 18 then semctl_stat img semid arg s
      else
        (case semary s ! nat (semid mod SEMMNI) of
           IPC_UNUSED \<Rightarrow> Some (- EINVAL, s)
         | IPC_NOID \<Rightarrow> Some (- EINVAL, s)
         | Ptr a \<Rightarrow> semctl_cmd fuel env img semid semnum cmd arg a s))"

section \<open>Values\<close>

definition val :: "nat \<Rightarrow> nat \<Rightarrow> semst \<Rightarrow> int" where
  "val a i s = semval (sem_base (smas s a) ! i)"

definition nvals :: "nat \<Rightarrow> semst \<Rightarrow> nat" where
  "nvals a s = length (sem_base (smas s a))"

definition delta :: "sembuf list \<Rightarrow> nat \<Rightarrow> int" where
  "delta sops i = (\<Sum>sop\<leftarrow>sops. if nat (sem_num sop) = i then sem_op sop else 0)"

lemma delta_simps [simp]:
  "delta [] i = 0" "delta (sop # sops) i = (if nat (sem_num sop) = i then sem_op sop else 0) + delta sops i"
  by (simp_all add: delta_def)

lemma delta_absent: "i \<notin> (nat \<circ> sem_num) ` set sops \<Longrightarrow> delta sops i = 0"
  by (induction sops) auto

lemma val_frame [simp]:
  "val a i (upd_undo u f s) = val a i s" "nvals a (upd_undo u f s) = nvals a s"
  "val a i (wake_n b s) = val a i s" "val a i (wake_z b s) = val a i s"
  "nvals a (wake_n b s) = nvals a s" "nvals a (wake_z b s) = nvals a s"
  by (simp_all add: val_def nvals_def upd_undo_def wake_n_def wake_z_def)

lemma nvals_upd_sem [simp]: "nvals a (upd_sem b j f s) = nvals a s"
  by (simp add: nvals_def upd_sem_def upd_sma_def)

lemma val_upd_sem:
  "j < nvals a s \<Longrightarrow> val a i (upd_sem a j f s) = (if i = j then semval (f (sem_base (smas s a) ! j)) else val a i s)"
  by (simp add: val_def nvals_def upd_sem_def upd_sma_def)

text \<open>The first pass lets the operations through exactly when each of them is possible on its own.\<close>

lemma check_ready:
  "check_sops pending sops sems = Ready \<longleftrightarrow>
     (\<forall>sop\<in>set sops. nat (sem_num sop) < length sems \<and>
        0 \<le> sem_op sop + semval (sems ! nat (sem_num sop)) \<and> sem_op sop + semval (sems ! nat (sem_num sop)) \<le> SEMVMX \<and>
        (sem_op sop = 0 \<longrightarrow> semval (sems ! nat (sem_num sop)) = 0))"
  by (induction pending sops sems rule: check_sops.induct) (auto simp: Let_def not_le not_less)

lemma do_sop_val:
  assumes "nat (sem_num sop) < nvals a s"
  shows "val a i (do_sop semid a sop s) =
      (if i = nat (sem_num sop) then us16 (val a i s + sem_op sop) else val a i s)" "nvals a (do_sop semid a sop s) = nvals a s"
  using assms by (auto simp: do_sop_def Let_def val_upd_sem split: option.split) (simp_all add: val_def)

lemma do_sops_val:
  assumes "distinct (map (nat \<circ> sem_num) sops)"
    "\<forall>sop\<in>set sops. nat (sem_num sop) < nvals a s \<and> 0 \<le> sem_op sop + val a (nat (sem_num sop)) s \<and>
       sem_op sop + val a (nat (sem_num sop)) s \<le> SEMVMX"
  shows "val a i (snd (do_sops semid a sops zs s)) = val a i s + delta sops i \<and> nvals a (snd (do_sops semid a sops zs s)) = nvals a s"
  using assms
proof (induction semid a sops zs s rule: do_sops.induct)
  case (2 semid a sop sops zs s)
  let ?s = "do_sop semid a sop s" and ?n = "nat (sem_num sop)"
  have n: "?n < nvals a s" "0 \<le> sem_op sop + val a ?n s" "sem_op sop + val a ?n s \<le> SEMVMX" using 2(3) by auto
  have u: "us16 (val a ?n s + sem_op sop) = val a ?n s + sem_op sop" using n by (intro us16_id) auto
  have v: "val a j ?s = (if j = ?n then val a j s + sem_op sop else val a j s)" "nvals a ?s = nvals a s" for j
    using do_sop_val [OF n(1)] u by auto
  have "\<forall>x\<in>set sops. nat (sem_num x) \<noteq> ?n" using 2(2) by (auto simp: image_iff)
  then have "\<forall>x\<in>set sops. nat (sem_num x) < nvals a ?s \<and> 0 \<le> sem_op x + val a (nat (sem_num x)) ?s \<and>
      sem_op x + val a (nat (sem_num x)) ?s \<le> SEMVMX" using 2(3) v by auto
  then show ?case using 2(1) [OF refl] 2(2) v delta_absent [of ?n sops] by (auto simp: Let_def)
qed simp

lemma semop_finish_val:
  "val a i (snd (semop_finish semid a sops s)) = val a i (snd (do_sops semid a sops 0 s))"
  "nvals a (snd (semop_finish semid a sops s)) = nvals a (snd (do_sops semid a sops 0 s))"
  by (simp_all add: semop_finish_def Let_def split: prod.split) (simp_all add: val_def nvals_def upd_sma_def wake_n_def wake_z_def)

lemma semop_fails: "semop_wait n env semid a sops s = Some (Inl (r, t)) \<Longrightarrow> r < 0"
proof (induction n env semid a sops s rule: semop_wait.induct)
  case (2 n env semid a sops s)
  have f: "check_sops p ss sems = Fail e \<Longrightarrow> e < 0" for p ss sems e
    by (induction p ss sems rule: check_sops.induct) (auto simp: Let_def split: if_splits)
  show ?case using 2 f by (auto split: if_splits sem_check.splits option.splits)
qed simp

lemma semop_ready: "semop_wait n env semid a sops s = Some (Inr t) \<Longrightarrow> \<exists>p. check_sops p sops (sem_base (smas t a)) = Ready"
proof (induction n env semid a sops s rule: semop_wait.induct)
  case (2 n env semid a sops s)
  then show ?case by (auto split: if_splits sem_check.splits option.splits)
qed simp

lemma semop_nowait:
  assumes "\<forall>sop\<in>set sops. sem_flg sop AND NOWAIT \<noteq> 0 \<and> nat (sem_num sop) < length (sem_base (smas s a))"
  shows "(\<exists>r. semop_wait (Suc n) env semid a sops s = Some (Inl (r, s))) \<or> semop_wait (Suc n) env semid a sops s = Some (Inr s)"
proof -
  have "check_sops p ss sems = Ready \<or> (\<exists>e. check_sops p ss sems = Fail e)"
    if "\<forall>sop\<in>set ss. sem_flg sop AND NOWAIT \<noteq> 0 \<and> nat (sem_num sop) < length sems" for p ss sems
    using that by (induction p ss sems rule: check_sops.induct) (auto simp: Let_def)
  from this [OF assms, of "signal_pending (skern s)"] show ?thesis by (elim disjE exE) auto
qed


section \<open>Atomicity\<close>

lemma alloc_undos_frame:
  defines "t semid a sops mem s \<equiv> snd (alloc_undos semid a sops mem s)"
  shows "sem_base (smas (t semid a sops mem s) b) = sem_base (smas s b) \<and> sem_perm (smas (t semid a sops mem s) b) = sem_perm (smas s b) \<and>
    skern (t semid a sops mem s) = skern s \<and> semary (t semid a sops mem s) = semary s"
  unfolding t_def
proof (induction semid a sops mem s rule: alloc_undos.induct)
  case (2 semid a sop sops mem s)
  have n: "sem_base (smas (new_undo semid a k u s) b) = sem_base (smas s b)" "sem_perm (smas (new_undo semid a k u s) b) = sem_perm (smas s b)"
    "skern (new_undo semid a k u s) = skern s" "semary (new_undo semid a k u s) = semary s" for k u
    by (simp_all add: new_undo_def upd_sma_def Let_def)
  show ?case using 2 n by (auto split: option.splits list.splits)
qed simp

text \<open>A request that reaches the operations: a set the caller may alter, and semaphores of the set.\<close>

definition sem_request :: "int \<Rightarrow> u32 \<Rightarrow> u32 \<Rightarrow> nat \<Rightarrow> semst \<Rightarrow> bool" where
  "sem_request semid tsops nsops a s \<longleftrightarrow>
     0 \<le> semid \<and> 1 \<le> nsops \<and> nsops \<le> SEMOPM \<and> tsops \<noteq> 0 \<and> semary s ! nat (semid mod SEMMNI) = Ptr a \<and>
     sem_nsems (smas s a) = int (nvals a s) \<and>
     (\<forall>sop\<in>set (read_sops (umem (skern s)) tsops (unat nsops)). sem_num sop < int (nvals a s)) \<and>
     ipcperms (sem_perm (smas s a)) S_IWUGO (skern s) = Some 0 \<and> ipcperms (sem_perm (smas s a)) S_IRUGO (skern s) = Some 0"

lemma sem_num_nonneg: "sop \<in> set (read_sops m p n) \<Longrightarrow> 0 \<le> sem_num sop"
  by (auto simp: read_sops_def read_sembuf_def)

lemma sys_semop_run:
  assumes "sem_request semid tsops nsops a s"
  shows "sys_semop fuel env mem semid tsops nsops s = semop_run fuel env mem semid a (read_sops (umem (skern s)) tsops (unat nsops)) s"
proof -
  let ?sops = "read_sops (umem (skern s)) tsops (unat nsops)"
  have "\<not> list_ex (\<lambda>sop. sem_num sop > sem_nsems (smas s a)) ?sops"
    using assms by (auto simp: sem_request_def list_ex_iff)
  moreover have "\<not> nsops < 1" "\<not> nsops > SEMOPM" "\<not> semid < 0" using assms by (auto simp: sem_request_def not_less)
  ultimately show ?thesis using assms by (simp add: sys_semop_def sem_request_def Let_def del: word_less_1 word_less_iff_unsigned)
qed

lemma delta_distinct: "sop \<in> set sops \<Longrightarrow> distinct (map (nat \<circ> sem_num) sops) \<Longrightarrow> delta sops (nat (sem_num sop)) = sem_op sop"
proof (induction sops)
  case (Cons x xs)
  have ab: "delta xs (nat (sem_num x)) = 0" using Cons.prems(2) by (intro delta_absent) auto
  show ?case
  proof (cases "sop = x")
    case False
    then have "sop \<in> set xs" using Cons.prems(1) by simp
    moreover from this have "nat (sem_num x) \<noteq> nat (sem_num sop)" using Cons.prems(2) by (auto simp: image_iff)
    ultimately show ?thesis using Cons by simp
  qed (use ab in simp)
qed simp

text \<open>Once the wait is over the operations are carried out as a whole.\<close>

lemma semop_finish_spec:
  assumes w: "semop_wait n env semid a sops s0 = Some (Inr s1)" and d: "distinct (map (nat \<circ> sem_num) sops)"
  defines "s' \<equiv> snd (semop_finish semid a sops s1)"
  shows "(\<forall>sop\<in>set sops. 0 \<le> val a (nat (sem_num sop)) s' \<and> val a (nat (sem_num sop)) s' \<le> SEMVMX) \<and>
    (\<forall>i. val a i s' = val a i s1 + delta sops i)"
proof -
  obtain p where "check_sops p sops (sem_base (smas s1 a)) = Ready" using semop_ready [OF w] by blast
  then have C: "\<forall>sop\<in>set sops. nat (sem_num sop) < nvals a s1 \<and> 0 \<le> sem_op sop + val a (nat (sem_num sop)) s1 \<and>
     sem_op sop + val a (nat (sem_num sop)) s1 \<le> SEMVMX" by (simp add: check_ready nvals_def val_def)
  have V: "val a i s' = val a i s1 + delta sops i" for i
    unfolding s'_def using do_sops_val [OF d C] semop_finish_val(1) by simp
  then show ?thesis using C delta_distinct [OF _ d] by (simp add: add.commute)
qed


section \<open>Undo\<close>

text \<open>The undo structures of the running task, all for the set at \<open>a\<close>: one for each semaphore at most, and on the list of the set.\<close>

abbreviation my_undos :: "semst \<Rightarrow> nat list" where
  "my_undos s \<equiv> semun s (current (skern s))"

definition undo_ok :: "int \<Rightarrow> nat \<Rightarrow> semst \<Rightarrow> bool" where
  "undo_ok semid a s \<longleftrightarrow>
     distinct (my_undos s) \<and> set (my_undos s) \<subseteq> set (undo (smas s a)) \<and> distinct (undo (smas s a)) \<and>
     (\<forall>u\<in>set (my_undos s). un_semid (undos s u) = semid \<and> 0 \<le> un_num (undos s u) \<and> un_num (undos s u) < int (nvals a s)) \<and>
     distinct (map (\<lambda>u. un_num (undos s u)) (my_undos s)) \<and>
     semary s ! nat (semid mod SEMMNI) = Ptr a \<and> ipc_seq (sem_perm (smas s a)) = semid div SEMMNI"

definition adj :: "nat list \<Rightarrow> nat \<Rightarrow> semst \<Rightarrow> int" where
  "adj us i s = (\<Sum>u\<leftarrow>us. if nat (un_num (undos s u)) = i then semadj (undos s u) else 0)"

lemma adj_simps [simp]:
  "adj [] i s = 0" "adj (u # us) i s = (if nat (un_num (undos s u)) = i then semadj (undos s u) else 0) + adj us i s"
  by (simp_all add: adj_def)

lemma adj_cong: "\<forall>u\<in>set us. undos s' u = undos s u \<Longrightarrow> adj us i s' = adj us i s"
  by (induction us) auto

lemma adj_absent: "\<forall>u\<in>set us. nat (un_num (undos s u)) \<noteq> i \<Longrightarrow> adj us i s = 0"
  by (induction us) auto

text \<open>Exit: the structures come off the list one by one, and each adds what it holds.\<close>

lemma exit_step:
  assumes I: "undo_ok semid a s" and us: "my_undos s = u # us"
    and v: "0 \<le> val a (nat (un_num (undos s u))) s + semadj (undos s u)" "val a (nat (un_num (undos s u))) s + semadj (undos s u) \<le> SEMVMX"
  shows "\<exists>s'. exit_loop (Suc n) (Suc m) env s = exit_loop n (Suc m) env s' \<and> undo_ok semid a s' \<and> my_undos s' = us \<and>
    undos s' = undos s \<and> nvals a s' = nvals a s \<and>
    (\<forall>i. val a i s' = val a i s + (if nat (un_num (undos s u)) = i then semadj (undos s u) else 0))"
proof -
  let ?un = "undos s u" and ?i = "nat (un_num (undos s u))" and ?p = "current (skern s)"
  have U: "un_semid ?un = semid" "0 \<le> un_num ?un" "?i < nvals a s" "u \<in> set (undo (smas s a))" "u \<notin> set us"
    "semary s ! nat (semid mod 128) = Ptr a" "ipc_seq (sem_perm (smas s a)) = semid div 128"
    using I us by (auto simp: undo_ok_def)
  define s1 where "s1 = upd_sma a (\<lambda>q. q\<lparr>undo := remove1 u (undo q)\<rparr>) s"
  define s2 where "s2 = (if semadj ?un = 0 then s1 else the (undo_loop (Suc m) env a u s1))"
  define s' where "s' = s2\<lparr>semun := (semun s2)(current (skern s2) := tl (semun s2 (current (skern s2))))\<rparr>"
  have u16: "us16 (val a ?i s + semadj ?un) = val a ?i s + semadj ?un" using v by (intro us16_id) auto
  have e1: "undos s1 = undos s" "semun s1 = semun s" "skern s1 = skern s" "semary s1 = semary s"
    "sem_perm (smas s1 a) = sem_perm (smas s a)" "sem_base (smas s1 a) = sem_base (smas s a)" "undo (smas s1 a) = remove1 u (undo (smas s a))"
    by (simp_all add: s1_def upd_sma_def)
  have lp: "undo_loop (Suc m) env a u s1 = Some s2 \<or> semadj ?un = 0"
    using U v e1 by (auto simp: s2_def nvals_def val_def Let_def)
  have e2: "undos s2 = undos s" "semun s2 = semun s" "current (skern s2) = ?p" "semary s2 = semary s"
    "sem_perm (smas s2 a) = sem_perm (smas s a)" "undo (smas s2 a) = remove1 u (undo (smas s a))"
    "nvals a s2 = nvals a s" "val a i s2 = val a i s + (if ?i = i then semadj ?un else 0)" for i
    using U v u16 e1
    by (auto simp: s2_def nvals_def val_def Let_def upd_sem_def upd_sma_def wake_n_def wake_z_def)
  have "exit_loop (Suc n) (Suc m) env s = exit_loop n (Suc m) env s'"
  proof (cases "semadj ?un = 0")
    case True
    then show ?thesis using us U by (simp add: s'_def s2_def e1 flip: s1_def del: undo_loop.simps)
  next
    case False
    then show ?thesis using us U lp by (simp add: s'_def e1 flip: s1_def del: undo_loop.simps)
  qed
  moreover have "undo_ok semid a s'" using I us U(5) e2 by (auto simp: undo_ok_def s'_def nvals_def)
  ultimately show ?thesis using e2 us by (intro exI [of _ s']) (simp add: s'_def val_def nvals_def)
qed


lemma exit_loop_spec:
  assumes "undo_ok semid a s" "length (my_undos s) < n"
    "\<forall>i<nvals a s. 0 \<le> val a i s + adj (my_undos s) i s \<and> val a i s + adj (my_undos s) i s \<le> SEMVMX"
  shows "\<exists>s'. exit_loop n (Suc m) env s = Some s' \<and> (\<forall>i. val a i s' = val a i s + adj (my_undos s) i s)"
  using assms
proof (induction "my_undos s" arbitrary: s n)
  case Nil
  then obtain k where "n = Suc k" by (cases n) auto
  moreover have e: "my_undos s = []" using Nil(1) by simp
  ultimately show ?case by (intro exI [of _ s]) simp
next
  case (Cons u us)
  obtain k where n: "n = Suc k" using Cons.prems(2) by (cases n) auto
  let ?i = "nat (un_num (undos s u))"
  have us: "my_undos s = u # us" using Cons(2) by simp
  have iu: "?i < nvals a s" using Cons.prems(1) us by (auto simp: undo_ok_def)
  have O: "0 \<le> un_num (undos s w)" if "w \<in> set (u # us)" for w using Cons.prems(1) that us by (auto simp: undo_ok_def)
  have D: "distinct (map (\<lambda>u. un_num (undos s u)) (u # us))" using Cons.prems(1) us by (simp add: undo_ok_def)
  have "\<forall>w\<in>set us. nat (un_num (undos s w)) \<noteq> ?i"
  proof
    fix w assume w: "w \<in> set us"
    then have "un_num (undos s w) \<noteq> un_num (undos s u)" using D by (metis (no_types, lifting) distinct.simps(2) image_eqI list.set_map list.simps(9))
    then show "nat (un_num (undos s w)) \<noteq> ?i" using O [of w] O [of u] w by (simp add: eq_nat_nat_iff)
  qed
  then have "adj (my_undos s) ?i s = semadj (undos s u)" unfolding us using adj_absent [of us s ?i] by simp
  then have v: "0 \<le> val a ?i s + semadj (undos s u)" "val a ?i s + semadj (undos s u) \<le> SEMVMX"
    using Cons.prems(3) [rule_format, of ?i] iu by simp_all
  obtain s' where s': "exit_loop (Suc k) (Suc m) env s = exit_loop k (Suc m) env s'" "undo_ok semid a s'" "my_undos s' = us"
    "undos s' = undos s" "nvals a s' = nvals a s" "\<forall>i. val a i s' = val a i s + (if ?i = i then semadj (undos s u) else 0)"
    using exit_step [OF Cons.prems(1) us v] by blast
  have A: "adj (my_undos s') i s' = adj us i s" for i unfolding s'(3) by (rule adj_cong) (simp add: s'(4))
  have B: "val a i s' + adj (my_undos s') i s' = val a i s + adj (my_undos s) i s" for i
    unfolding A us using s'(6) by simp
  have "\<exists>s2. exit_loop k (Suc m) env s' = Some s2 \<and> (\<forall>i. val a i s2 = val a i s' + adj (my_undos s') i s')"
  proof (rule Cons.hyps(1))
    show "us = my_undos s'" using s'(3) by simp
    show "length (my_undos s') < k" using Cons.prems(2) n us s'(3) by simp
    show "\<forall>i<nvals a s'. 0 \<le> val a i s' + adj (my_undos s') i s' \<and> val a i s' + adj (my_undos s') i s' \<le> SEMVMX"
      unfolding B s'(5) using Cons.prems(3) .
  qed (rule s'(2))
  then show ?case using s'(1) n B by simp
qed

text \<open>Getting the structures.\<close>

lemma find_undo_Some:
  "find_undo semid k s = Some u \<Longrightarrow> u \<in> set (my_undos s) \<and> un_semid (undos s u) = semid \<and> un_num (undos s u) = k"
  by (auto simp: find_undo_def find_Some_iff)

lemma find_undo_None:
  "find_undo semid k s = None \<longleftrightarrow> (\<forall>u\<in>set (my_undos s). \<not> (un_semid (undos s u) = semid \<and> un_num (undos s u) = k))"
  by (auto simp: find_undo_def find_None_iff)

lemma new_undo_ok:
  assumes I: "undo_ok semid a s" and u: "u \<notin> set (undo (smas s a))" and f: "find_undo semid k s = None" and k: "0 \<le> k" "k < int (nvals a s)"
  defines "s' \<equiv> new_undo semid a k u s"
  shows "undo_ok semid a s'" "adj (my_undos s') i s' = adj (my_undos s) i s" "find_undo semid k s' = Some u"
    "undo (smas s' a) = u # undo (smas s a)" "nvals a s' = nvals a s"
    "find_undo semid j s \<noteq> None \<Longrightarrow> find_undo semid j s' \<noteq> None"
proof -
  have F: "my_undos s' = u # my_undos s" "undos s' = (undos s)(u := \<lparr>un_semid = semid, semadj = 0, un_num = k\<rparr>)"
    "undo (smas s' a) = u # undo (smas s a)" "sem_base (smas s' a) = sem_base (smas s a)" "sem_perm (smas s' a) = sem_perm (smas s a)"
    "semary s' = semary s" "skern s' = skern s"
    by (simp_all add: s'_def new_undo_def upd_sma_def Let_def)
  have um: "u \<notin> set (my_undos s)" using I u by (auto simp: undo_ok_def)
  have nk: "\<forall>w\<in>set (my_undos s). un_num (undos s w) \<noteq> k" using I f by (auto simp: undo_ok_def find_undo_None)
  have mp: "map (\<lambda>w. un_num (undos s' w)) (my_undos s) = map (\<lambda>w. un_num (undos s w)) (my_undos s)" using um by (auto simp: F(2))
  have D: "distinct (map (\<lambda>w. un_num (undos s' w)) (u # my_undos s))"
    using I nk unfolding undo_ok_def list.map mp distinct.simps by (auto simp: F(2))
  have "nvals a s' = nvals a s" by (simp add: nvals_def F)
  moreover have "un_semid (undos s' w) = semid \<and> 0 \<le> un_num (undos s' w) \<and> un_num (undos s' w) < int (nvals a s)"
    if "w \<in> set (u # my_undos s)" for w using that I k um unfolding undo_ok_def by (auto simp: F(2))
  ultimately show "undo_ok semid a s'" using I u um D unfolding undo_ok_def F(1,3,5,6) by (simp add: subset_insertI2)
  show "adj (my_undos s') i s' = adj (my_undos s) i s"
    unfolding F(1) using um adj_cong [of "my_undos s" s' s i] by (auto simp: F(2))
  show "find_undo semid k s' = Some u" unfolding find_undo_def F(1) by (simp add: F(2))
  show "undo (smas s' a) = u # undo (smas s a)" "nvals a s' = nvals a s" by (simp_all add: F nvals_def)
  show "find_undo semid j s' \<noteq> None" if "find_undo semid j s \<noteq> None"
    using that um unfolding find_undo_None F(1) by (auto simp: F(2))
qed

lemma alloc_undos_ok:
  assumes "undo_ok semid a s" "distinct us" "set us \<inter> set (undo (smas s a)) = {}" "length sops \<le> length us"
    "\<forall>sop\<in>set sops. 0 \<le> sem_num sop \<and> sem_num sop < int (nvals a s)" "\<forall>u\<in>set (my_undos s). semadj (undos s u) = 0"
  shows "\<exists>s0. alloc_undos semid a sops (map Some us) s = (True, s0) \<and> undo_ok semid a s0 \<and>
    (\<forall>u\<in>set (my_undos s0). semadj (undos s0 u) = 0) \<and>
    (\<forall>sop\<in>set sops. sem_flg sop AND SEM_UNDO \<noteq> 0 \<longrightarrow> find_undo semid (sem_num sop) s0 \<noteq> None) \<and>
    (\<forall>j. find_undo semid j s \<noteq> None \<longrightarrow> find_undo semid j s0 \<noteq> None)"
  using assms
proof (induction sops arbitrary: us s)
  case (Cons sop sops)
  show ?case
  proof (cases "sem_flg sop AND SEM_UNDO = 0 \<or> find_undo semid (sem_num sop) s \<noteq> None")
    case True
    have "\<exists>s0. alloc_undos semid a sops (map Some us) s = (True, s0) \<and> undo_ok semid a s0 \<and>
      (\<forall>u\<in>set (my_undos s0). semadj (undos s0 u) = 0) \<and>
      (\<forall>sop\<in>set sops. sem_flg sop AND SEM_UNDO \<noteq> 0 \<longrightarrow> find_undo semid (sem_num sop) s0 \<noteq> None) \<and>
      (\<forall>j. find_undo semid j s \<noteq> None \<longrightarrow> find_undo semid j s0 \<noteq> None)"
      using Cons.prems by (intro Cons.IH) auto
    moreover have "alloc_undos semid a (sop # sops) (map Some us) s = alloc_undos semid a sops (map Some us) s"
      using True by auto
    ultimately show ?thesis using True by auto
  next
    case False
    then have f: "sem_flg sop AND SEM_UNDO \<noteq> 0" "find_undo semid (sem_num sop) s = None" by auto
    obtain u ws where us: "us = u # ws" using Cons.prems(4) by (cases us) auto
    let ?s = "new_undo semid a (sem_num sop) u s"
    have uf: "u \<notin> set (undo (smas s a))" using Cons.prems(3) us by auto
    have k: "0 \<le> sem_num sop" "sem_num sop < int (nvals a s)" using Cons.prems(5) by auto
    note N = new_undo_ok [OF Cons.prems(1) uf f(2) k]
    have z: "\<forall>w\<in>set (my_undos ?s). semadj (undos ?s w) = 0" using Cons.prems(6) by (simp add: new_undo_def upd_sma_def Let_def)
    have "\<exists>s0. alloc_undos semid a sops (map Some ws) ?s = (True, s0) \<and> undo_ok semid a s0 \<and>
      (\<forall>u\<in>set (my_undos s0). semadj (undos s0 u) = 0) \<and>
      (\<forall>sop\<in>set sops. sem_flg sop AND SEM_UNDO \<noteq> 0 \<longrightarrow> find_undo semid (sem_num sop) s0 \<noteq> None) \<and>
      (\<forall>j. find_undo semid j ?s \<noteq> None \<longrightarrow> find_undo semid j s0 \<noteq> None)"
      using Cons.prems us N(1,4,5) z by (intro Cons.IH) auto
    moreover have "alloc_undos semid a (sop # sops) (map Some us) s = alloc_undos semid a sops (map Some ws) ?s"
      using f us by simp
    moreover have "find_undo semid (sem_num sop) ?s \<noteq> None" using N(3) by simp
    ultimately show ?thesis using N(6) by auto
  qed
qed (auto intro!: exI)

text \<open>Carrying an operation out and noting it in its structure: the value and the adjustment together stay the same.\<close>

lemma adj_update:
  assumes "distinct us" "u \<in> set us" "undos s' = (undos s)(u := (undos s u)\<lparr>semadj := x\<rparr>)"
  shows "adj us i s' = adj us i s + (if nat (un_num (undos s u)) = i then x - semadj (undos s u) else 0)"
  using assms(1,2)
proof (induction us)
  case (Cons w us)
  show ?case
  proof (cases "w = u")
    case True
    then have "adj us i s' = adj us i s" using Cons.prems by (intro adj_cong) (auto simp: assms(3))
    then show ?thesis using True by (simp add: assms(3))
  next
    case False
    then show ?thesis using Cons by (simp add: assms(3))
  qed
qed simp

lemma do_sop_undo:
  assumes I: "undo_ok semid a s" and f: "sem_flg sop AND SEM_UNDO \<noteq> 0" "find_undo semid (sem_num sop) s = Some u"
    and z: "semadj (undos s u) = 0" and n: "0 \<le> sem_num sop" "nat (sem_num sop) < nvals a s"
    and b: "0 \<le> val a (nat (sem_num sop)) s + sem_op sop" "val a (nat (sem_num sop)) s + sem_op sop \<le> SEMVMX"
      "0 \<le> val a (nat (sem_num sop)) s" "val a (nat (sem_num sop)) s \<le> SEMVMX"
  defines "s' \<equiv> do_sop semid a sop s"
  shows "undo_ok semid a s'" "my_undos s' = my_undos s" "val a i s' + adj (my_undos s) i s' = val a i s + adj (my_undos s) i s"
    "find_undo semid j s' = find_undo semid j s" "j \<noteq> sem_num sop \<Longrightarrow> find_undo semid j s = Some w \<Longrightarrow> undos s' w = undos s w"
    "val a i s' = (if i = nat (sem_num sop) then val a i s + sem_op sop else val a i s)" "nvals a s' = nvals a s"
    "current (skern s') = current (skern s)"
proof -
  let ?t = "upd_sem a (nat (sem_num sop)) (\<lambda>m. m\<lparr>sempid := s16 (pid (cur (skern s))), semval := us16 (semval m + sem_op sop)\<rparr>) s"
  have t: "undos ?t = undos s" "semun ?t = semun s" "skern ?t = skern s" "semary ?t = semary s" "undo (smas ?t a) = undo (smas s a)"
    "sem_perm (smas ?t a) = sem_perm (smas s a)" by (simp_all add: upd_sem_def upd_sma_def)
  have ft: "find_undo semid k ?t = find_undo semid k s" for k by (simp add: find_undo_def t)
  have e: "s' = upd_undo u (\<lambda>x. x\<lparr>semadj := s16 (semadj x - sem_op sop)\<rparr>) ?t"
    using f by (simp add: s'_def do_sop_def Let_def ft)
  have sx: "s16 (- sem_op sop) = - sem_op sop" using b by (intro s16_id) auto
  have E: "undos s' = (undos s)(u := (undos s u)\<lparr>semadj := - sem_op sop\<rparr>)" "semun s' = semun s" "skern s' = skern s"
    "semary s' = semary s" "undo (smas s' a) = undo (smas s a)" "sem_perm (smas s' a) = sem_perm (smas s a)"
    using z sx by (simp_all add: e upd_undo_def t)
  have fields: "un_semid (undos s' w) = un_semid (undos s w)" "un_num (undos s' w) = un_num (undos s w)" for w
    using E(1) by simp_all
  show nv: "nvals a s' = nvals a s" by (simp add: e)
  show "my_undos s' = my_undos s" "current (skern s') = current (skern s)" by (simp_all add: E)
  show "undo_ok semid a s'" using I unfolding undo_ok_def nv fields E(2-6) .
  show "find_undo semid j s' = find_undo semid j s" unfolding find_undo_def fields E(2,3) ..
  have U: "u \<in> set (my_undos s)" "un_num (undos s u) = sem_num sop" using find_undo_Some [OF f(2)] by auto
  have "us16 (val a (nat (sem_num sop)) s + sem_op sop) = val a (nat (sem_num sop)) s + sem_op sop" using b by (intro us16_id) auto
  then show V: "val a i s' = (if i = nat (sem_num sop) then val a i s + sem_op sop else val a i s)" for i
    using do_sop_val(1) [OF n(2), of i semid] by (auto simp: s'_def)
  have "distinct (my_undos s)" using I by (simp add: undo_ok_def)
  from adj_update [OF this U(1) E(1)] show "val a i s' + adj (my_undos s) i s' = val a i s + adj (my_undos s) i s"
    using V z U(2) by simp
  show "undos s' w = undos s w" if "j \<noteq> sem_num sop" "find_undo semid j s = Some w"
    using find_undo_Some [OF that(2)] U(2) that(1) E(1) by auto
qed

lemma adj_zero: "\<forall>u\<in>set us. semadj (undos s u) = 0 \<Longrightarrow> adj us i s = 0"
  by (induction us) auto

lemma do_sops_undo:
  assumes "undo_ok semid a s" "distinct (map sem_num sops)"
    "\<forall>sop\<in>set sops. sem_flg sop AND SEM_UNDO \<noteq> 0 \<and> 0 \<le> sem_num sop \<and> nat (sem_num sop) < nvals a s \<and>
       0 \<le> val a (nat (sem_num sop)) s + sem_op sop \<and> val a (nat (sem_num sop)) s + sem_op sop \<le> SEMVMX \<and>
       0 \<le> val a (nat (sem_num sop)) s \<and> val a (nat (sem_num sop)) s \<le> SEMVMX \<and>
       (\<exists>u. find_undo semid (sem_num sop) s = Some u \<and> semadj (undos s u) = 0)"
  shows "undo_ok semid a (snd (do_sops semid a sops zs s)) \<and> my_undos (snd (do_sops semid a sops zs s)) = my_undos s \<and>
    (\<forall>i. val a i (snd (do_sops semid a sops zs s)) + adj (my_undos s) i (snd (do_sops semid a sops zs s)) = val a i s + adj (my_undos s) i s)"
  using assms
proof (induction sops arbitrary: s zs)
  case (Cons sop sops)
  obtain u where u: "find_undo semid (sem_num sop) s = Some u" "semadj (undos s u) = 0" using Cons.prems(3) by auto
  have p: "sem_flg sop AND SEM_UNDO \<noteq> 0" "0 \<le> sem_num sop" "nat (sem_num sop) < nvals a s"
    "0 \<le> val a (nat (sem_num sop)) s + sem_op sop" "val a (nat (sem_num sop)) s + sem_op sop \<le> SEMVMX"
    "0 \<le> val a (nat (sem_num sop)) s" "val a (nat (sem_num sop)) s \<le> SEMVMX" using Cons.prems(3) by auto
  note D = do_sop_undo [OF Cons.prems(1) p(1) u p(2-7)]
  let ?s = "do_sop semid a sop s"
  have "\<exists>w. find_undo semid (sem_num x) ?s = Some w \<and> semadj (undos ?s w) = 0" if "x \<in> set sops" for x
  proof -
    have "x \<in> set (sop # sops)" using that by simp
    from bspec [OF Cons.prems(3) this] obtain w where w: "find_undo semid (sem_num x) s = Some w" "semadj (undos s w) = 0" by blast
    moreover have "sem_num x \<noteq> sem_num sop" using Cons.prems(2) that by (auto simp: image_iff)
    ultimately show ?thesis using D(4,5) by metis
  qed
  moreover have "val a (nat (sem_num x)) ?s = val a (nat (sem_num x)) s" if "x \<in> set sops" for x
  proof -
    have "sem_num x \<noteq> sem_num sop" "0 \<le> sem_num x" using Cons.prems(2,3) that by (auto simp: image_iff)
    then show ?thesis using D(6) p(2) by (simp add: eq_nat_nat_iff)
  qed
  ultimately have S: "\<forall>x\<in>set sops. sem_flg x AND SEM_UNDO \<noteq> 0 \<and> 0 \<le> sem_num x \<and> nat (sem_num x) < nvals a ?s \<and>
       0 \<le> val a (nat (sem_num x)) ?s + sem_op x \<and> val a (nat (sem_num x)) ?s + sem_op x \<le> SEMVMX \<and>
       0 \<le> val a (nat (sem_num x)) ?s \<and> val a (nat (sem_num x)) ?s \<le> SEMVMX \<and>
       (\<exists>u. find_undo semid (sem_num x) ?s = Some u \<and> semadj (undos ?s u) = 0)" using Cons.prems(3) D(7) by simp
  have d: "distinct (map sem_num sops)" using Cons.prems(2) by simp
  show ?case using Cons.IH [OF D(1) d S] D(2,3) by (simp add: Let_def)
qed simp

lemma nvals_do_sops: "nvals a (snd (do_sops semid a sops zs s)) = nvals a s"
proof (induction semid a sops zs s rule: do_sops.induct)
  case (2 semid a sop sops zs s)
  have "nvals a (do_sop semid a sop s) = nvals a s" by (simp add: do_sop_def Let_def split: option.split)
  then show ?case using 2 by (simp add: Let_def)
qed simp

lemma semop_finish_undo:
  "undo_ok semid a (snd (semop_finish semid a sops s)) = undo_ok semid a (snd (do_sops semid a sops 0 s))"
  "my_undos (snd (semop_finish semid a sops s)) = my_undos (snd (do_sops semid a sops 0 s))"
  "undos (snd (semop_finish semid a sops s)) = undos (snd (do_sops semid a sops 0 s))"
  by (simp_all add: semop_finish_def Let_def split: prod.split)
    (simp_all add: undo_ok_def nvals_def upd_sma_def wake_n_def wake_z_def)

lemma semop_finish_nonneg: "semop_wait 1 env semid a sops s = Some x \<Longrightarrow>
  (case x of Inl (r, t) \<Rightarrow> r < 0 | Inr t \<Rightarrow> t = s \<and> (\<exists>p. check_sops p sops (sem_base (smas s a)) = Ready))"
  using semop_fails [of 1 env semid a sops s] by (auto split: if_splits sem_check.splits option.splits sum.split)


section \<open>A set of semaphores\<close>

definition demo_sma :: semid_ds where
  "demo_sma = \<lparr>sem_perm = \<lparr>ipc_key = 5, ipc_uid = 1000, ipc_gid = 1000, cuid = 1000, cgid = 1000, ipc_mode = 0x1ff, ipc_seq = 2\<rparr>,
     sem_otime = 0, sem_ctime = 0, sem_base = [zero_sem\<lparr>semval := 1\<rparr>, zero_sem], eventn = [], eventz = [], undo = [], sem_nsems = 2\<rparr>"

text \<open>At 0x1000 one operation, minus one on the first semaphore, with undo; at 0x2000 two, both minus one on the first.\<close>

definition demo_sops :: umem where
  "demo_sops a =
     (if a = 0x1002 \<or> a = 0x1003 \<or> a = 0x2002 \<or> a = 0x2003 \<or> a = 0x2008 \<or> a = 0x2009 then 255
      else if a = 0x1005 then 0x18 else if a = 0x2005 \<or> a = 0x200b then 8 else 0)"

definition demo_semst :: semst where
  "demo_semst = \<lparr>skern = demo_kernel\<lparr>umem := demo_sops\<rparr>, semary = Ptr 9 # replicate 127 IPC_UNUSED, smas = (\<lambda>_. demo_sma),
     undos = (\<lambda>_. \<lparr>un_semid = 0, semadj = 0, un_num = 0\<rparr>), semun = (\<lambda>_. []), used_sems = 2, used_semids = 1, sem_seq = 2,
     max_semid = 0, sem_lock = []\<rparr>"

lemma demo_umem: "umem (skern demo_semst) = demo_sops"
  by (simp add: demo_semst_def)

lemma demo_words:
  "get_fs_word demo_sops 0x1000 = 0" "get_fs_word demo_sops 0x1002 = 0xffff" "get_fs_word demo_sops 0x1004 = 0x1800"
  "get_fs_word demo_sops 0x2000 = 0" "get_fs_word demo_sops 0x2002 = 0xffff" "get_fs_word demo_sops 0x2004 = 0x800"
  "get_fs_word demo_sops 0x2006 = 0" "get_fs_word demo_sops 0x2008 = 0xffff" "get_fs_word demo_sops 0x200a = 0x800"
  by (simp_all add: get_fs_word_def demo_sops_def)

lemma demo_read_sops:
  "read_sops (umem (skern demo_semst)) 0x1000 1 = [\<lparr>sem_num = 0, sem_op = - 1, sem_flg = 0x1800\<rparr>]"
  "read_sops (umem (skern demo_semst)) 0x2000 2 = [\<lparr>sem_num = 0, sem_op = - 1, sem_flg = 0x800\<rparr>, \<lparr>sem_num = 0, sem_op = - 1, sem_flg = 0x800\<rparr>]"
  unfolding demo_umem read_sops_def by (simp_all add: read_sembuf_def demo_words upt_rec)

lemma demo_perms: "ipcperms (sem_perm (smas demo_semst 9)) S_IWUGO (skern demo_semst) = Some 0"
  "ipcperms (sem_perm (smas demo_semst 9)) S_IRUGO (skern demo_semst) = Some 0"
  by (simp_all add: demo_semst_def demo_sma_def ipcperms_def suser_def demo_kernel_def demo_heap_def demo_task_def Let_def)

lemma demo_sma_fields: "smas demo_semst 9 = demo_sma" "semary demo_semst ! 0 = Ptr 9" "nvals 9 demo_semst = 2"
  by (simp_all add: demo_semst_def demo_sma_def nvals_def)

lemma demo_request_ok: "sem_request 256 0x1000 1 9 demo_semst"
  using demo_perms demo_read_sops(1) by (simp add: sem_request_def demo_sma_fields) (simp add: demo_sma_def)



text \<open>The check of a call with two operations on the same semaphore looks at each against the value before the call:
  with the value 1, minus one twice passes, and the value wraps around to 65535, far above SEMVMX, although neither
  operation may wait.\<close>

theorem semop_repeated_wraps:
  "\<exists>s'. sys_semop 1 id [] 256 0x2000 2 demo_semst = Some (65535, s') \<and> val 9 0 demo_semst = 1 \<and> val 9 0 s' = 65535"
proof -
  have "sem_request 256 0x2000 2 9 demo_semst"
    using demo_perms demo_read_sops(2) by (simp add: sem_request_def demo_sma_fields) (simp add: demo_sma_def)
  note R = sys_semop_run [OF this]
  let ?sops = "[\<lparr>sem_num = 0, sem_op = - 1, sem_flg = 0x800\<rparr>, \<lparr>sem_num = 0, sem_op = - 1, sem_flg = 0x800\<rparr>]"
  have w: "semop_wait 1 id 256 9 ?sops demo_semst = Some (Inr demo_semst)"
    by (simp add: demo_sma_fields demo_sma_def zero_sem_def Let_def)
  have r: "sys_semop 1 id [] 256 0x2000 2 demo_semst = Some (semop_finish 256 9 ?sops demo_semst)"
    using w by (simp add: R demo_read_sops semop_run_def del: semop_wait.simps)
  have v: "val 9 0 demo_semst = 1" by (simp add: val_def demo_sma_fields demo_sma_def)
  have "fst (semop_finish 256 9 ?sops demo_semst) = val 9 0 (snd (semop_finish 256 9 ?sops demo_semst))"
    by (simp add: semop_finish_def val_def Let_def split: prod.split)
  moreover have "val 9 0 (snd (semop_finish 256 9 ?sops demo_semst)) = 65535"
    by (simp add: semop_finish_val do_sop_val demo_sma_fields Let_def v us16_def)
  ultimately show ?thesis using r v by (metis prod.collapse)
qed

end
