(* ===== verification/Pages.thy ===== *)
theory Pages
  imports Prelude
begin

text \<open>
  The page allocator: the two free lists of \<^verbatim>\<open>mm/swap.c\<close> (\<^verbatim>\<open>free_page\<close>, \<^verbatim>\<open>__get_free_page\<close>), their set-up by
  \<^verbatim>\<open>mem_init\<close> in \<^verbatim>\<open>mm/memory.c\<close> and the page counts \<^verbatim>\<open>mem_map\<close>. Memory is a function from the addresses of longs
  (multiples of 4) to their contents: the lists are threaded through the first long of each free page. An interface
  locale states what users of pages rely on: a page handed out was free, and stays its owner's until it is released.
\<close>

section \<open>Data\<close>

abbreviation (input) PAGE_SIZE :: u32 where "PAGE_SIZE \<equiv> 0x1000"
abbreviation (input) PAGE_MASK :: u32 where "PAGE_MASK \<equiv> 0xfffff000"
abbreviation (input) MAP_PAGE_RESERVED :: u16 where "MAP_PAGE_RESERVED \<equiv> 0x8000"
abbreviation (input) MAX_SECONDARY_PAGES :: int where "MAX_SECONDARY_PAGES \<equiv> 10"
abbreviation (input) NR_LAST_FREE_PAGES :: nat where "NR_LAST_FREE_PAGES \<equiv> 32"

abbreviation (input) GFP_BUFFER :: int where "GFP_BUFFER \<equiv> 0"
abbreviation (input) GFP_ATOMIC :: int where "GFP_ATOMIC \<equiv> 1"
abbreviation (input) GFP_USER :: int where "GFP_USER \<equiv> 2"
abbreviation (input) GFP_KERNEL :: int where "GFP_KERNEL \<equiv> 3"

definition MAP_NR :: "u32 \<Rightarrow> nat" where
  "MAP_NR addr = unat (drop_bit 12 addr)"

definition PAGE_ALIGN :: "u32 \<Rightarrow> u32" where
  "PAGE_ALIGN addr = (addr + PAGE_SIZE - 1) AND PAGE_MASK"

type_synonym memory = "u32 \<Rightarrow> u32"

text \<open>\<open>free_index\<close> is the static variable \<open>index\<close> of \<open>__get_free_page\<close>.\<close>

record mm =
  ram :: memory
  high_memory :: u32
  mem_map :: "nat \<Rightarrow> u16"
  free_page_list :: u32
  nr_free_pages :: int
  secondary_page_list :: u32
  nr_secondary_pages :: int
  last_free_pages :: "u32 list"
  free_index :: nat

section \<open>Releasing a page\<close>

definition add_mem_queue :: "u32 \<Rightarrow> u32 \<Rightarrow> memory \<Rightarrow> u32 \<times> memory" where
  "add_mem_queue addr queue m = (let addr = addr AND PAGE_MASK in (addr, m(addr := queue)))"

definition free_page :: "u32 \<Rightarrow> 'a mm_scheme \<Rightarrow> 'a mm_scheme" where
  "free_page addr s =
     (if addr < high_memory s then
        let n = MAP_NR addr; c = mem_map s n
        in if c \<noteq> 0 then
             if c AND MAP_PAGE_RESERVED = 0 then
               let s = s\<lparr>mem_map := (mem_map s)(n := c - 1)\<rparr>
               in if c - 1 = 0 then
                    if nr_secondary_pages s < MAX_SECONDARY_PAGES then
                      let (q, m) = add_mem_queue addr (secondary_page_list s) (ram s)
                      in s\<lparr>ram := m, secondary_page_list := q, nr_secondary_pages := nr_secondary_pages s + 1\<rparr>
                    else
                      let (q, m) = add_mem_queue addr (free_page_list s) (ram s)
                      in s\<lparr>ram := m, free_page_list := q, nr_free_pages := nr_free_pages s + 1\<rparr>
                  else s
             else s
           else s
      else s)"

section \<open>Getting a page\<close>

text \<open>The macro \<open>REMOVE_FROM_MEM_QUEUE(queue,nr)\<close>: the page it makes its caller return, if any, and the new values of
  \<open>queue\<close> and \<open>nr\<close>.\<close>

definition REMOVE_FROM_MEM_QUEUE :: "u32 \<Rightarrow> int \<Rightarrow> 'a mm_scheme \<Rightarrow> u32 option \<times> u32 \<times> int \<times> 'a mm_scheme" where
  "REMOVE_FROM_MEM_QUEUE queue nr s =
     (if queue \<noteq> 0 then
        if queue AND NOT PAGE_MASK = 0 \<and> queue < high_memory s then
          if mem_map s (MAP_NR queue) = 0 then
            let i = (free_index s + 1) mod NR_LAST_FREE_PAGES
            in (Some queue, ram s queue, nr - 1,
                s\<lparr>mem_map := (mem_map s)(MAP_NR queue := 1), free_index := i,
                  last_free_pages := (last_free_pages s)[i := queue]\<rparr>)
          else (None, 0, 0, s)
        else (None, 0, 0, s)
      else if nr \<noteq> 0 then (None, queue, 0, s)
      else (None, queue, nr, s))"

definition remove_free :: "'a mm_scheme \<Rightarrow> u32 option \<times> 'a mm_scheme" where
  "remove_free s =
     (let (r, q, n, s) = REMOVE_FROM_MEM_QUEUE (free_page_list s) (nr_free_pages s) s
      in (r, s\<lparr>free_page_list := q, nr_free_pages := n\<rparr>))"

definition remove_secondary :: "'a mm_scheme \<Rightarrow> u32 option \<times> 'a mm_scheme" where
  "remove_secondary s =
     (let (r, q, n, s) = REMOVE_FROM_MEM_QUEUE (secondary_page_list s) (nr_secondary_pages s) s
      in (r, s\<lparr>secondary_page_list := q, nr_secondary_pages := n\<rparr>))"

text \<open>\<open>__get_free_page\<close>. \<open>reclaim\<close> is \<open>try_to_free_page\<close> with all that happens while it sleeps, for each round: it
  shrinks the buffer cache or swaps, and says whether it has released something. The loop takes fuel.\<close>

fun do_get_free_page :: "(nat \<Rightarrow> 'a mm_scheme \<Rightarrow> bool \<times> 'a mm_scheme) \<Rightarrow> nat \<Rightarrow> int \<Rightarrow> 'a mm_scheme \<Rightarrow> (u32 \<times> 'a mm_scheme) option" where
  "do_get_free_page reclaim 0 priority s = None"
| "do_get_free_page reclaim (Suc n) priority s =
     (let (r, s) = remove_free s
      in case r of
           Some result \<Rightarrow> Some (result, s)
         | None \<Rightarrow>
             if priority = GFP_BUFFER then Some (0, s)
             else let (again, s) = (if priority \<noteq> GFP_ATOMIC then reclaim n s else (False, s))
                  in if again then do_get_free_page reclaim n priority s
                     else let (r, s) = remove_secondary s
                          in case r of Some result \<Rightarrow> Some (result, s) | None \<Rightarrow> Some (0, s))"

text \<open>\<open>rep stosl\<close>: 1024 longs from \<open>page\<close> on.\<close>

fun clear_longs :: "nat \<Rightarrow> u32 \<Rightarrow> memory \<Rightarrow> memory" where
  "clear_longs 0 a m = m"
| "clear_longs (Suc n) a m = clear_longs n (a + 4) (m(a := 0))"

definition get_free_page :: "(nat \<Rightarrow> 'a mm_scheme \<Rightarrow> bool \<times> 'a mm_scheme) \<Rightarrow> nat \<Rightarrow> int \<Rightarrow> 'a mm_scheme \<Rightarrow> (u32 \<times> 'a mm_scheme) option" where
  "get_free_page reclaim fuel priority s =
     (case do_get_free_page reclaim fuel priority s of
        None \<Rightarrow> None
      | Some (page, s) \<Rightarrow>
          Some (page, if page \<noteq> 0 then s\<lparr>ram := clear_longs 1024 page (ram s)\<rparr> else s))"

section \<open>Set-up\<close>

primrec map_reserve :: "nat \<Rightarrow> (nat \<Rightarrow> u16) \<Rightarrow> nat \<Rightarrow> u16" where
  "map_reserve 0 m = m"
| "map_reserve (Suc p) m = map_reserve p (m(p := MAP_PAGE_RESERVED))"

text \<open>\<open>while (start < end) { mem_map[MAP_NR(start)] = 0; start += PAGE_SIZE; }\<close>\<close>

fun map_release :: "nat \<Rightarrow> u32 \<Rightarrow> u32 \<Rightarrow> (nat \<Rightarrow> u16) \<Rightarrow> (nat \<Rightarrow> u16) option" where
  "map_release 0 start e m = None"
| "map_release (Suc n) start e m =
     (if start < e then map_release n (start + PAGE_SIZE) e (m(MAP_NR start := 0)) else Some m)"

fun free_list_init :: "nat \<Rightarrow> u32 \<Rightarrow> u32 \<Rightarrow> 'a mm_scheme \<Rightarrow> 'a mm_scheme option" where
  "free_list_init 0 tmp e s = None"
| "free_list_init (Suc n) tmp e s =
     (if tmp < e then
        free_list_init n (tmp + PAGE_SIZE) e
          (if mem_map s (MAP_NR tmp) \<noteq> 0 then s
           else s\<lparr>ram := (ram s)(tmp := free_page_list s), free_page_list := tmp,
                  nr_free_pages := nr_free_pages s + 1\<rparr>)
      else Some s)"

text \<open>\<open>mem_init\<close>. The table \<open>mem_map\<close> itself stands at \<open>start_mem\<close>, two bytes for each page. The counts that are only printed are left out. 2^20 rounds are
  enough for each loop: there are no more pages.\<close>

definition sound_mem_init :: "'a mm_scheme \<Rightarrow> 'a mm_scheme" where
  "sound_mem_init s = s"

definition mem_init :: "nat \<Rightarrow> u32 \<Rightarrow> u32 \<Rightarrow> u32 \<Rightarrow> 'a mm_scheme \<Rightarrow> 'a mm_scheme option" where
  "mem_init fuel start_low_mem start_mem end_mem s =
     (let end_mem = end_mem AND PAGE_MASK;
          start_mem = (start_mem + 0xf) AND NOT 0xf;
          start_mem = start_mem + 2 * of_nat (MAP_NR end_mem);
          mp = map_reserve (MAP_NR end_mem) (mem_map s);
          start_low_mem = PAGE_ALIGN start_low_mem;
          start_mem = PAGE_ALIGN start_mem
      in case map_release fuel start_low_mem 0xA0000 mp of
           None \<Rightarrow> None
         | Some mp \<Rightarrow>
             (case map_release fuel start_mem end_mem mp of
                None \<Rightarrow> None
              | Some mp \<Rightarrow>
                  free_list_init fuel 0 end_mem
                    (sound_mem_init (s\<lparr>high_memory := end_mem, mem_map := mp\<rparr>)
                       \<lparr>free_page_list := 0, nr_free_pages := 0\<rparr>)))"

section \<open>Pages and lists of pages\<close>

definition page_aligned :: "u32 \<Rightarrow> bool" where
  "page_aligned p \<longleftrightarrow> p AND NOT PAGE_MASK = 0"

definition page_of :: "u32 \<Rightarrow> u32" where
  "page_of a = a AND PAGE_MASK"

lemma PAGE_MASK_eq: "PAGE_MASK = push_bit 12 (mask 20)"
  by (simp add: mask_eq_exp_minus_1 push_bit_eq_mult)

lemma not_PAGE_MASK: "NOT PAGE_MASK = mask 12"
  by (simp add: mask_eq_exp_minus_1)

lemma bit_PAGE_MASK: "bit PAGE_MASK n \<longleftrightarrow> 12 \<le> n \<and> n < 32"
  unfolding PAGE_MASK_eq by (auto simp: bit_push_bit_iff bit_mask_iff)

lemma page_aligned_bit: "page_aligned p \<longleftrightarrow> (\<forall>n<12. \<not> bit p n)"
proof -
  have "page_aligned p \<longleftrightarrow> take_bit 12 p = 0" unfolding page_aligned_def not_PAGE_MASK by (simp add: take_bit_eq_mask)
  then show ?thesis by (auto simp: bit_eq_iff [of "take_bit 12 p"] bit_take_bit_iff)
qed

lemma bit_page_of: "bit (page_of a) n \<longleftrightarrow> bit a n \<and> 12 \<le> n \<and> n < 32"
  unfolding page_of_def bit_and_iff bit_PAGE_MASK ..

lemma page_of_aligned [simp]: "page_aligned (page_of a)"
  by (simp add: page_aligned_bit bit_page_of)

lemma page_of_id: "page_aligned p \<Longrightarrow> page_of p = p"
  unfolding page_aligned_bit
  by (rule bit_word_eqI) (auto simp: bit_page_of not_less [symmetric])

lemma MAP_NR_page_of: "MAP_NR (page_of a) = MAP_NR a"
proof -
  have "drop_bit 12 (page_of a) = drop_bit 12 a"
    by (rule bit_word_eqI) (auto simp: bit_drop_bit_eq bit_page_of dest: bit_imp_le_length)
  then show ?thesis by (simp add: MAP_NR_def)
qed

lemma MAP_NR_inj:
  assumes "page_aligned a" "page_aligned b" "MAP_NR a = MAP_NR b"
  shows "a = b"
proof (rule bit_word_eqI)
  fix n
  have "drop_bit 12 a = drop_bit 12 b" using assms(3) unfolding MAP_NR_def by (rule word_unat_eq_iff [THEN iffD2])
  then have "bit (drop_bit 12 a) (n - 12) = bit (drop_bit 12 b) (n - 12)" by simp
  then show "bit a n = bit b n"
    using assms(1,2) by (cases "n < 12") (auto simp: page_aligned_bit bit_drop_bit_eq)
qed

lemma MAP_NR_eq_page: "MAP_NR a = MAP_NR b \<longleftrightarrow> page_of a = page_of b"
  by (metis MAP_NR_inj MAP_NR_page_of page_of_aligned)

text \<open>\<open>chain m p xs\<close>: the pointer \<open>p\<close> starts the null-terminated list \<open>xs\<close> through memory \<open>m\<close>.\<close>

fun chain :: "memory \<Rightarrow> u32 \<Rightarrow> u32 list \<Rightarrow> bool" where
  "chain m p [] \<longleftrightarrow> p = 0"
| "chain m p (x # xs) \<longleftrightarrow> p = x \<and> x \<noteq> 0 \<and> chain m (m x) xs"

lemma chain_upd: "a \<notin> set xs \<Longrightarrow> chain (m(a := v)) p xs = chain m p xs"
  by (induction xs arbitrary: p) auto

lemma pchain_cong: "chain m p xs \<Longrightarrow> \<forall>a\<in>set xs. m' a = m a \<Longrightarrow> chain m' p xs"
  by (induction xs arbitrary: p) auto

lemma chain_unique: "chain m p xs \<Longrightarrow> chain m p ys \<Longrightarrow> xs = ys"
proof (induction xs arbitrary: p ys)
  case Nil then show ?case by (cases ys) auto
next
  case (Cons x xs) then show ?case by (cases ys) auto
qed

section \<open>The invariant of the free lists\<close>

text \<open>The pages nobody uses: those with a count of zero.\<close>

definition free_pages :: "'a mm_scheme \<Rightarrow> u32 set" where
  "free_pages s = {p. page_aligned p \<and> p < high_memory s \<and> mem_map s (MAP_NR p) = 0}"

definition page_lists :: "'a mm_scheme \<Rightarrow> u32 list \<Rightarrow> u32 list \<Rightarrow> bool" where
  "page_lists s fs ss \<longleftrightarrow>
     chain (ram s) (free_page_list s) fs \<and> chain (ram s) (secondary_page_list s) ss \<and>
     distinct (fs @ ss) \<and> set (fs @ ss) = free_pages s \<and>
     nr_free_pages s = int (length fs) \<and> nr_secondary_pages s = int (length ss) \<and>
     length ss \<le> 10 \<and> mem_map s 0 AND MAP_PAGE_RESERVED \<noteq> 0 \<and> page_aligned (high_memory s)"

definition pages_ok :: "'a mm_scheme \<Rightarrow> bool" where
  "pages_ok s \<longleftrightarrow> (\<exists>fs ss. page_lists s fs ss)"

lemma free_pages_sub:
  "p \<in> free_pages s \<Longrightarrow> page_aligned p" "p \<in> free_pages s \<Longrightarrow> p < high_memory s"
  "p \<in> free_pages s \<Longrightarrow> mem_map s (MAP_NR p) = 0"
  by (simp_all add: free_pages_def)

lemma MAP_NR_0 [simp]: "MAP_NR 0 = 0"
  by (simp add: MAP_NR_def)

lemma zero_not_free: "page_lists s fs ss \<Longrightarrow> 0 \<notin> free_pages s"
  by (auto simp: page_lists_def free_pages_def)

lemma MAP_NR_nonzero: "page_aligned p \<Longrightarrow> p \<noteq> 0 \<Longrightarrow> MAP_NR p \<noteq> 0"
  using MAP_NR_inj [of p 0] by (auto simp: page_aligned_def)

lemma free_pages_take:
  "page_aligned p \<Longrightarrow> c \<noteq> 0 \<Longrightarrow> free_pages (s\<lparr>mem_map := (mem_map s)(MAP_NR p := c)\<rparr>) = free_pages s - {p}"
  by (auto simp: free_pages_def dest: MAP_NR_inj)

lemma free_pages_give:
  "page_aligned p \<Longrightarrow> p < high_memory s \<Longrightarrow>
   free_pages (s\<lparr>mem_map := (mem_map s)(MAP_NR p := 0)\<rparr>) = insert p (free_pages s)"
  by (auto simp: free_pages_def dest: MAP_NR_inj)

text \<open>The fields \<open>free_pages\<close> does not look at.\<close>

lemma free_pages_simps [simp]:
  "free_pages (s\<lparr>ram := m\<rparr>) = free_pages s"
  "free_pages (s\<lparr>free_page_list := q\<rparr>) = free_pages s"
  "free_pages (s\<lparr>secondary_page_list := q\<rparr>) = free_pages s"
  "free_pages (s\<lparr>nr_free_pages := k\<rparr>) = free_pages s"
  "free_pages (s\<lparr>nr_secondary_pages := k\<rparr>) = free_pages s"
  "free_pages (s\<lparr>last_free_pages := l\<rparr>) = free_pages s"
  "free_pages (s\<lparr>free_index := i\<rparr>) = free_pages s"
  by (simp_all add: free_pages_def)

section \<open>Getting and releasing keep the lists\<close>

definition grabbed :: "u32 \<Rightarrow> 'a mm_scheme \<Rightarrow> 'a mm_scheme" where
  "grabbed p s =
     (let i = (free_index s + 1) mod NR_LAST_FREE_PAGES
      in s\<lparr>mem_map := (mem_map s)(MAP_NR p := 1), free_index := i, last_free_pages := (last_free_pages s)[i := p]\<rparr>)"

lemma grabbed_simps [simp]:
  "ram (grabbed p s) = ram s" "high_memory (grabbed p s) = high_memory s"
  "mem_map (grabbed p s) = (mem_map s)(MAP_NR p := 1)"
  "free_page_list (grabbed p s) = free_page_list s" "nr_free_pages (grabbed p s) = nr_free_pages s"
  "secondary_page_list (grabbed p s) = secondary_page_list s" "nr_secondary_pages (grabbed p s) = nr_secondary_pages s"
  "mm.more (grabbed p s) = mm.more s"
  by (simp_all add: grabbed_def Let_def)

lemma free_pages_grabbed: "page_aligned p \<Longrightarrow> free_pages (grabbed p s) = free_pages s - {p}"
  using free_pages_take [of p 1 s] by (simp add: free_pages_def)

lemma REMOVE_FROM_MEM_QUEUE_Cons:
  assumes "p \<noteq> 0" "p \<in> free_pages s"
  shows "REMOVE_FROM_MEM_QUEUE p n s = (Some p, ram s p, n - 1, grabbed p s)"
  using assms by (simp add: REMOVE_FROM_MEM_QUEUE_def grabbed_def free_pages_def page_aligned_def Let_def)

lemma REMOVE_FROM_MEM_QUEUE_Nil: "REMOVE_FROM_MEM_QUEUE 0 0 s = (None, 0, 0, s)"
  by (simp add: REMOVE_FROM_MEM_QUEUE_def)

lemma remove_free_Nil: "page_lists s [] ss \<Longrightarrow> remove_free s = (None, s)"
  by (simp add: remove_free_def page_lists_def REMOVE_FROM_MEM_QUEUE_Nil)

lemma remove_free_Cons:
  assumes "page_lists s (p # fs) ss"
  shows "\<exists>s'. remove_free s = (Some p, s') \<and> page_lists s' fs ss \<and> p \<in> free_pages s \<and>
              ram s' = ram s \<and> high_memory s' = high_memory s \<and> mem_map s' = (mem_map s)(MAP_NR p := 1) \<and>
              mm.more s' = mm.more s"
proof -
  have p: "p \<in> free_pages s" using assms by (auto simp: page_lists_def)
  then have "remove_free s = (Some p, (grabbed p s)\<lparr>free_page_list := ram s p, nr_free_pages := int (length fs)\<rparr>)"
    using assms by (simp add: remove_free_def page_lists_def REMOVE_FROM_MEM_QUEUE_Cons)
  moreover have "free_pages (grabbed p s) = set (fs @ ss)"
    using assms free_pages_sub(1) [OF p] by (auto simp: page_lists_def free_pages_grabbed)
  moreover have "MAP_NR p \<noteq> 0" using MAP_NR_nonzero [OF free_pages_sub(1) [OF p]] assms by (auto simp: page_lists_def)
  ultimately show ?thesis using assms p by (auto simp: page_lists_def)
qed

lemma remove_secondary_Nil: "page_lists s fs [] \<Longrightarrow> remove_secondary s = (None, s)"
  by (simp add: remove_secondary_def page_lists_def REMOVE_FROM_MEM_QUEUE_Nil)

lemma remove_secondary_Cons:
  assumes "page_lists s fs (p # ss)"
  shows "\<exists>s'. remove_secondary s = (Some p, s') \<and> page_lists s' fs ss \<and> p \<in> free_pages s \<and>
              ram s' = ram s \<and> high_memory s' = high_memory s \<and> mem_map s' = (mem_map s)(MAP_NR p := 1) \<and>
              mm.more s' = mm.more s"
proof -
  have p: "p \<in> free_pages s" using assms by (auto simp: page_lists_def)
  then have "remove_secondary s =
      (Some p, (grabbed p s)\<lparr>secondary_page_list := ram s p, nr_secondary_pages := int (length ss)\<rparr>)"
    using assms by (simp add: remove_secondary_def page_lists_def REMOVE_FROM_MEM_QUEUE_Cons)
  moreover have "free_pages (grabbed p s) = set (fs @ ss)"
    using assms free_pages_sub(1) [OF p] by (auto simp: page_lists_def free_pages_grabbed)
  moreover have "MAP_NR p \<noteq> 0" using MAP_NR_nonzero [OF free_pages_sub(1) [OF p]] assms by (auto simp: page_lists_def)
  ultimately show ?thesis using assms p by (auto simp: page_lists_def)
qed

text \<open>What a page request gives, whatever is reclaimed meanwhile. \<open>got p s s'\<close>: \<open>p\<close> was free in \<open>s\<close>, and \<open>s'\<close> is \<open>s\<close>
  with \<open>p\<close> in use once.\<close>

definition got :: "u32 \<Rightarrow> 'a mm_scheme \<Rightarrow> 'a mm_scheme \<Rightarrow> bool" where
  "got p s s' \<longleftrightarrow>
     p \<in> free_pages s \<and> pages_ok s' \<and> ram s' = ram s \<and> high_memory s' = high_memory s \<and>
     mem_map s' = (mem_map s)(MAP_NR p := 1) \<and> mm.more s' = mm.more s"

lemma got_free: "got p s s' \<Longrightarrow> free_pages s' = free_pages s - {p}"
  using free_pages_take [of p 1 s] by (auto simp: got_def free_pages_def)

lemma got_nonzero: "pages_ok s \<Longrightarrow> got p s s' \<Longrightarrow> p \<noteq> 0"
  using zero_not_free by (auto simp: got_def pages_ok_def)

lemma remove_free_cases:
  assumes "pages_ok s"
  shows "(\<exists>p s'. remove_free s = (Some p, s') \<and> got p s s') \<or> remove_free s = (None, s)"
proof -
  obtain fs ss where l: "page_lists s fs ss" using assms by (auto simp: pages_ok_def)
  then show ?thesis
    by (cases fs) (auto simp: got_def pages_ok_def dest!: remove_free_Cons remove_free_Nil)
qed

lemma remove_secondary_cases:
  assumes "pages_ok s"
  shows "(\<exists>p s'. remove_secondary s = (Some p, s') \<and> got p s s') \<or> remove_secondary s = (None, s)"
proof -
  obtain fs ss where l: "page_lists s fs ss" using assms by (auto simp: pages_ok_def)
  then show ?thesis
    by (cases ss) (auto simp: got_def pages_ok_def dest!: remove_secondary_Cons remove_secondary_Nil)
qed

lemma both_empty:
  assumes "pages_ok s" "fst (remove_free s) = None" "fst (remove_secondary s) = None"
  shows "free_pages s = {}"
proof -
  obtain fs ss where l: "page_lists s fs ss" using assms(1) by (auto simp: pages_ok_def)
  have "fs = []" using l assms(2) by (cases fs) (auto dest: remove_free_Cons)
  moreover have "ss = []" using l assms(3) by (cases ss) (auto dest: remove_secondary_Cons)
  ultimately show ?thesis using l by (simp add: page_lists_def)
qed

text \<open>An atomic request never waits: it gives a free page unless there is none.\<close>

lemma get_atomic_cases:
  assumes "pages_ok s"
  shows "(\<exists>p s'. do_get_free_page reclaim (Suc n) GFP_ATOMIC s = Some (p, s') \<and> got p s s') \<or>
         do_get_free_page reclaim (Suc n) GFP_ATOMIC s = Some (0, s) \<and> free_pages s = {}"
  using remove_free_cases [OF assms] remove_secondary_cases [OF assms] both_empty [OF assms] by fastforce

text \<open>A request with any priority and any way of reclaiming that keeps an invariant \<open>I\<close> that includes the one of the lists.\<close>

lemma do_get_free_page_rule:
  assumes "do_get_free_page reclaim n prio s = Some (p, s')" "I s"
    and "\<And>s. I s \<Longrightarrow> pages_ok s" "\<And>n s. I s \<Longrightarrow> I (snd (reclaim n s))"
  shows "(p = 0 \<and> I s') \<or> (\<exists>s1. I s1 \<and> got p s1 s')"
  using assms(1,2)
proof (induction n arbitrary: s)
  case (Suc n)
  have ok: "pages_ok s" using Suc.prems(2) assms(3) by blast
  show ?case
  proof (cases "\<exists>q t. remove_free s = (Some q, t) \<and> got q s t")
    case True then show ?thesis using Suc.prems by auto
  next
    case False
    then have rf: "remove_free s = (None, s)" using remove_free_cases [OF ok] by blast
    obtain b t where t: "(if prio \<noteq> GFP_ATOMIC then reclaim n s else (False, s)) = (b, t)" by (meson surj_pair)
    then have It: "I t" using Suc.prems(2) assms(4) [of s n] by (auto split: if_splits)
    show ?thesis
    proof (cases "prio = GFP_BUFFER")
      case True then show ?thesis using Suc.prems rf by simp
    next
      case pb: False
      have eq: "do_get_free_page reclaim (Suc n) prio s =
          (if b then do_get_free_page reclaim n prio t
           else let (r, s) = remove_secondary t in case r of Some result \<Rightarrow> Some (result, s) | None \<Rightarrow> Some (0, s))"
        using rf pb t by simp
      show ?thesis
        using Suc.prems(1) [unfolded eq] It Suc.IH [of t] remove_secondary_cases [OF assms(3) [OF It]]
        by (auto split: if_splits)
    qed
  qed
qed simp


lemma page_of_le: "page_of a \<le> a"
  unfolding page_of_def by (rule word_and_le2)

text \<open>Releasing a page that is in use once puts it on one of the lists; a page in use more often keeps its place.\<close>

lemma free_page_last:
  assumes "pages_ok s" "a < high_memory s" "mem_map s (MAP_NR a) = 1" "page_of a \<noteq> 0"
  shows "pages_ok (free_page a s) \<and> free_pages (free_page a s) = insert (page_of a) (free_pages s) \<and>
         high_memory (free_page a s) = high_memory s \<and> mem_map (free_page a s) = (mem_map s)(MAP_NR a := 0) \<and>
         mm.more (free_page a s) = mm.more s \<and> (\<forall>b. b \<noteq> page_of a \<longrightarrow> ram (free_page a s) b = ram s b)"
proof -
  obtain fs ss where l: "page_lists s fs ss" using assms(1) by (auto simp: pages_ok_def)
  let ?p = "page_of a"
  let ?s = "s\<lparr>mem_map := (mem_map s)(MAP_NR a := 0)\<rparr>"
  have p: "page_aligned ?p" "?p < high_memory s" "?p \<notin> free_pages s" "MAP_NR a \<noteq> 0"
    using assms(2-4) page_of_le [of a] MAP_NR_nonzero [of ?p]
    by (auto simp: free_pages_def MAP_NR_page_of intro: le_less_trans)
  have fp: "free_pages ?s = insert ?p (free_pages s)"
    using free_pages_give [OF p(1,2)] by (simp add: MAP_NR_page_of)
  have pc: "?p \<notin> set fs" "?p \<notin> set ss" using p(3) l by (auto simp: page_lists_def)
  note ch = chain_upd [OF pc(1)] chain_upd [OF pc(2)]
  show ?thesis
  proof (cases "nr_secondary_pages s < MAX_SECONDARY_PAGES")
    case True
    then have eq: "free_page a s = ?s\<lparr>ram := (ram s)(?p := secondary_page_list s), secondary_page_list := ?p,
                                   nr_secondary_pages := nr_secondary_pages s + 1\<rparr>"
      using assms(2,3) by (simp add: free_page_def add_mem_queue_def page_of_def Let_def)
    have "page_lists (free_page a s) fs (?p # ss)"
      using l fp pc p assms(4) True by (auto simp: eq page_lists_def ch)
    then show ?thesis unfolding pages_ok_def using fp by (auto simp: eq)
  next
    case False
    then have eq: "free_page a s = ?s\<lparr>ram := (ram s)(?p := free_page_list s), free_page_list := ?p,
                                   nr_free_pages := nr_free_pages s + 1\<rparr>"
      using assms(2,3) by (simp add: free_page_def add_mem_queue_def page_of_def Let_def)
    have "page_lists (free_page a s) (?p # fs) ss"
      using l fp pc p assms(4) False by (auto simp: eq page_lists_def ch)
    then show ?thesis unfolding pages_ok_def using fp by (auto simp: eq)
  qed
qed

lemma free_page_shared:
  assumes "a < high_memory s" "mem_map s (MAP_NR a) \<notin> {0, 1}" "mem_map s (MAP_NR a) AND MAP_PAGE_RESERVED = 0"
  shows "free_page a s = s\<lparr>mem_map := (mem_map s)(MAP_NR a := mem_map s (MAP_NR a) - 1)\<rparr>"
  using assms by (simp add: free_page_def Let_def)

lemma free_page_ignored:
  assumes "high_memory s \<le> a \<or> mem_map s (MAP_NR a) = 0 \<or> mem_map s (MAP_NR a) AND MAP_PAGE_RESERVED \<noteq> 0"
  shows "free_page a s = s"
  using assms by (auto simp: free_page_def Let_def)

lemma pages_ok_count:
  assumes "pages_ok s" "mem_map s n \<noteq> 0" "c \<noteq> 0" "n = 0 \<Longrightarrow> c AND MAP_PAGE_RESERVED \<noteq> 0"
  shows "pages_ok (s\<lparr>mem_map := (mem_map s)(n := c)\<rparr>)"
        "free_pages (s\<lparr>mem_map := (mem_map s)(n := c)\<rparr>) = free_pages s"
proof -
  show fp: "free_pages (s\<lparr>mem_map := (mem_map s)(n := c)\<rparr>) = free_pages s"
    using assms(2,3) by (auto simp: free_pages_def)
  show "pages_ok (s\<lparr>mem_map := (mem_map s)(n := c)\<rparr>)"
  proof -
    obtain fs ss where "page_lists s fs ss" using assms(1) by (auto simp: pages_ok_def)
    then have "page_lists (s\<lparr>mem_map := (mem_map s)(n := c)\<rparr>) fs ss"
      using assms(4) fp by (cases "n = 0") (auto simp: page_lists_def)
    then show ?thesis by (auto simp: pages_ok_def)
  qed
qed

text \<open>Memory outside free pages belongs to the owners of pages: they may write it.\<close>

lemma pages_ok_ram:
  assumes "pages_ok s" "\<forall>p\<in>free_pages s. m p = ram s p"
  shows "pages_ok (s\<lparr>ram := m\<rparr>)"
proof -
  obtain fs ss where l: "page_lists s fs ss" using assms(1) by (auto simp: pages_ok_def)
  then have "page_lists (s\<lparr>ram := m\<rparr>) fs ss"
    using assms(2) by (auto simp: page_lists_def intro: pchain_cong)
  then show ?thesis by (auto simp: pages_ok_def)
qed


lemma page_of_eq_div: "unat (page_of a) = unat a div 4096 * 4096"
proof -
  have "page_of a = push_bit 12 (drop_bit 12 a)"
    by (rule bit_word_eqI) (auto simp: bit_page_of bit_push_bit_iff bit_drop_bit_eq)
  then have "unat (page_of a) = unat a div 4096 * 4096 mod 2 ^ 32"
    by (simp add: push_bit_eq_mult unat_word_ariths unat_drop_bit_eq drop_bit_eq_div mult.commute mod_mult_right_eq)
  moreover have "unat a div 4096 * 4096 \<le> unat a" by simp
  then have "unat a div 4096 * 4096 < 2 ^ 32" using unsigned_less [of a, where ?'a = nat] by simp
  ultimately show ?thesis by simp
qed

lemma page_of_less_iff:
  assumes "page_aligned h"
  shows "page_of a < h \<longleftrightarrow> a < h"
proof -
  have h: "unat h = unat h div 4096 * 4096" using page_of_eq_div [of h] page_of_id [OF assms] by simp
  have "unat a div 4096 * 4096 < unat h \<longleftrightarrow> unat a < unat h" (is "?l = ?r")
  proof
    assume ?l
    then have "unat a div 4096 < unat h div 4096" by (subst (asm) h) simp
    then show ?r by (metis div_le_mono linorder_not_le)
  next
    assume ?r then show ?l by (meson div_times_less_eq_dividend le_less_trans)
  qed
  then show ?thesis by (simp add: word_less_nat_alt page_of_eq_div)
qed

section \<open>The interface: pages with counts\<close>

text \<open>What users of the allocator see: pages with a count of users. A request gives a page with count zero, or 0 when
  there is none; a release takes one user away, except from reserved and unused pages.\<close>

datatype page_op = Get_page | Put_page u32

fun page_run :: "('s \<Rightarrow> u32 \<times> 's) \<Rightarrow> (u32 \<Rightarrow> 's \<Rightarrow> 's) \<Rightarrow> page_op list \<Rightarrow> 's \<Rightarrow> u32 list \<times> 's" where
  "page_run get put [] s = ([], s)"
| "page_run get put (Get_page # ops) s =
     (let (p, s) = get s; (rs, s) = page_run get put ops s in (p # rs, s))"
| "page_run get put (Put_page a # ops) s = page_run get put ops (put a s)"

definition drop_user :: "u32 set \<Rightarrow> u32 \<Rightarrow> (nat \<Rightarrow> u16) \<Rightarrow> nat \<Rightarrow> u16" where
  "drop_user V a c =
     (if page_of a \<in> V \<and> c (MAP_NR a) \<noteq> 0 \<and> c (MAP_NR a) AND MAP_PAGE_RESERVED = 0
      then c(MAP_NR a := c (MAP_NR a) - 1) else c)"

fun page_spec :: "u32 set \<Rightarrow> page_op list \<Rightarrow> u32 list \<Rightarrow> (nat \<Rightarrow> u16) \<Rightarrow> (nat \<Rightarrow> u16) \<Rightarrow> bool" where
  "page_spec V [] rs c c' \<longleftrightarrow> rs = [] \<and> c' = c"
| "page_spec V (Get_page # ops) [] c c' \<longleftrightarrow> False"
| "page_spec V (Get_page # ops) (r # rs) c c' \<longleftrightarrow>
     (if r = 0 then (\<forall>p\<in>V. c (MAP_NR p) \<noteq> 0) \<and> page_spec V ops rs c c'
      else r \<in> V \<and> c (MAP_NR r) = 0 \<and> page_spec V ops rs (c(MAP_NR r := 1)) c')"
| "page_spec V (Put_page a # ops) rs c c' \<longleftrightarrow> page_spec V ops rs (drop_user V a c) c'"

lemma page_spec_in_use:
  assumes "page_spec V ops rs c c'" "c n \<noteq> 0" "\<forall>a. Put_page a \<in> set ops \<longrightarrow> MAP_NR a \<noteq> n"
  shows "(\<forall>r\<in>set rs. r = 0 \<or> MAP_NR r \<noteq> n) \<and> c' n = c n"
  using assms
proof (induction V ops rs c c' rule: page_spec.induct)
  case (3 V ops r rs c c')
  show ?case
  proof (cases "r = 0")
    case True then show ?thesis using 3 by auto
  next
    case False
    have "n \<noteq> MAP_NR r" using 3 False by auto
    then have "(c(MAP_NR r := 1)) n = c n" by simp
    then show ?thesis using 3 False \<open>n \<noteq> MAP_NR r\<close> by (simp del: fun_upd_apply)
  qed
next
  case (4 V a ops rs c c')
  then have "drop_user V a c n = c n" by (auto simp: drop_user_def)
  then show ?case using 4 by simp
qed simp_all

locale page_allocator =
  fixes inv :: "'s \<Rightarrow> bool" and frames :: "'s \<Rightarrow> u32 set" and users :: "'s \<Rightarrow> nat \<Rightarrow> u16"
    and get :: "'s \<Rightarrow> u32 \<times> 's" and put :: "u32 \<Rightarrow> 's \<Rightarrow> 's"
  assumes get_none: "inv s \<Longrightarrow> get s = (0, s') \<Longrightarrow> s' = s \<and> (\<forall>p\<in>frames s. users s (MAP_NR p) \<noteq> 0)"
    and get_some: "inv s \<Longrightarrow> get s = (p, s') \<Longrightarrow> p \<noteq> 0 \<Longrightarrow>
      inv s' \<and> frames s' = frames s \<and> p \<in> frames s \<and> users s (MAP_NR p) = 0 \<and> users s' = (users s)(MAP_NR p := 1)"
    and put_user: "inv s \<Longrightarrow>
      inv (put a s) \<and> frames (put a s) = frames s \<and> users (put a s) = drop_user (frames s) a (users s)"
begin

lemma run_refines:
  assumes "inv s" "page_run get put ops s = (rs, s')"
  shows "inv s' \<and> frames s' = frames s \<and> page_spec (frames s) ops rs (users s) (users s')"
  using assms
proof (induction ops arbitrary: s rs s')
  case (Cons x ops)
  show ?case
  proof (cases x)
    case Get_page
    obtain p t where g: "get s = (p, t)" by fastforce
    obtain us u where r: "page_run get put ops t = (us, u)" by fastforce
    have u: "rs = p # us" "s' = u" using Cons.prems(2) Get_page g r by simp_all
    have t: "inv t" "frames t = frames s"
      using get_none [OF Cons.prems(1)] get_some [OF Cons.prems(1) g] g Cons.prems(1) by (cases "p = 0"; auto)+
    show ?thesis
      using Cons.IH [OF t(1) r] Get_page u t(2) get_none [OF Cons.prems(1)] get_some [OF Cons.prems(1) g] g
      by (cases "p = 0") (auto simp: fun_upd_def)
  next
    case (Put_page a)
    then show ?thesis using Cons.IH [of "put a s"] Cons.prems put_user [OF Cons.prems(1), of a] by simp
  qed
qed simp

end

definition mm_frames :: "'a mm_scheme \<Rightarrow> u32 set" where
  "mm_frames s = {p. page_aligned p \<and> p < high_memory s}"

text \<open>A request at interrupt time: it does not reclaim.\<close>

definition get_page_atomic :: "'a mm_scheme \<Rightarrow> u32 \<times> 'a mm_scheme" where
  "get_page_atomic s =
     (case do_get_free_page (\<lambda>_ s. (False, s)) 1 GFP_ATOMIC s of Some r \<Rightarrow> r | None \<Rightarrow> (0, s))"

lemma get_page_atomic_cases:
  assumes "pages_ok s"
  shows "(\<exists>p s'. get_page_atomic s = (p, s') \<and> got p s s') \<or> get_page_atomic s = (0, s) \<and> free_pages s = {}"
  using get_atomic_cases [OF assms, of "\<lambda>_ s. (False, s)" 0] by (auto simp: get_page_atomic_def)

lemma free_page_user:
  assumes "pages_ok s"
  shows "pages_ok (free_page a s) \<and> high_memory (free_page a s) = high_memory s \<and>
         mem_map (free_page a s) = drop_user (mm_frames s) a (mem_map s)"
proof -
  have h: "page_of a \<in> mm_frames s \<longleftrightarrow> a < high_memory s"
    using assms page_of_less_iff [of "high_memory s" a] by (auto simp: mm_frames_def pages_ok_def page_lists_def)
  let ?c = "mem_map s (MAP_NR a)"
  consider "a < high_memory s" "?c = 1" | "a < high_memory s" "?c \<notin> {0, 1}" "?c AND MAP_PAGE_RESERVED = 0"
    | "high_memory s \<le> a \<or> ?c = 0 \<or> ?c AND MAP_PAGE_RESERVED \<noteq> 0" by fastforce
  then show ?thesis
  proof cases
    case 1
    have "page_of a \<noteq> 0"
      using 1 assms MAP_NR_page_of [of a] by (auto simp: pages_ok_def page_lists_def)
    then show ?thesis using free_page_last [OF assms 1] 1 h by (simp add: drop_user_def)
  next
    case 2
    have "MAP_NR a \<noteq> 0" using 2 assms by (auto simp: pages_ok_def page_lists_def)
    then show ?thesis
      using 2 h free_page_shared [OF 2] pages_ok_count [OF assms, of "MAP_NR a" "?c - 1"] by (simp add: drop_user_def)
  next
    case 3 then show ?thesis using assms h free_page_ignored [OF 3] by (auto simp: drop_user_def)
  qed
qed

interpretation pa: page_allocator pages_ok mm_frames mem_map get_page_atomic free_page
proof unfold_locales
  fix s s' :: "'a mm_scheme" assume "pages_ok s" "get_page_atomic s = (0, s')"
  then show "s' = s \<and> (\<forall>p\<in>mm_frames s. mem_map s (MAP_NR p) \<noteq> 0)"
    using get_page_atomic_cases [of s] got_nonzero by (fastforce simp: free_pages_def mm_frames_def)
next
  fix s s' :: "'a mm_scheme" and p assume "pages_ok s" "get_page_atomic s = (p, s')" "p \<noteq> 0"
  then show "pages_ok s' \<and> mm_frames s' = mm_frames s \<and> p \<in> mm_frames s \<and> mem_map s (MAP_NR p) = 0 \<and>
             mem_map s' = (mem_map s)(MAP_NR p := 1)"
    using get_page_atomic_cases [of s] by (auto simp: got_def free_pages_def mm_frames_def)
next
  fix s :: "'a mm_scheme" and a assume "pages_ok s"
  then show "pages_ok (free_page a s) \<and> mm_frames (free_page a s) = mm_frames s \<and>
             mem_map (free_page a s) = drop_user (mm_frames s) a (mem_map s)"
    using free_page_user [of s a] by (simp add: mm_frames_def)
qed


section \<open>Set-up establishes the invariant\<close>

lemma MAP_NR_div: "MAP_NR a = unat a div 4096"
  unfolding MAP_NR_def unat_drop_bit_eq by (simp add: drop_bit_eq_div)

lemma aligned_unat: "page_aligned p \<Longrightarrow> unat p = MAP_NR p * 4096"
  using page_of_eq_div [of p] page_of_id [of p] by (simp add: MAP_NR_div)

lemma aligned_unatI: "unat p = k * 4096 \<Longrightarrow> page_aligned p"
proof -
  assume "unat p = k * 4096"
  then have "page_of p = p" by (simp add: word_unat_eq_iff page_of_eq_div)
  then show ?thesis using page_of_aligned [of p] by simp
qed

lemma aligned_less: "page_aligned p \<Longrightarrow> page_aligned q \<Longrightarrow> p < q \<longleftrightarrow> MAP_NR p < MAP_NR q"
  by (simp add: word_less_nat_alt aligned_unat)

lemma aligned_add:
  assumes "page_aligned p" "page_aligned e" "p < e"
  shows "page_aligned (p + PAGE_SIZE)" "MAP_NR (p + PAGE_SIZE) = MAP_NR p + 1"
proof -
  have "MAP_NR p < MAP_NR e" using assms by (simp add: aligned_less)
  then have "MAP_NR p * 4096 + 4096 \<le> unat e" using assms(2) by (simp add: aligned_unat)
  then have "unat p + 4096 < 2 ^ 32" using unsigned_less [of e, where ?'a = nat] assms(1) aligned_unat by fastforce
  then have u: "unat (p + PAGE_SIZE) = (MAP_NR p + 1) * 4096"
    using assms(1) by (simp add: unat_add_lem [THEN iffD1] aligned_unat unat_word_ariths)
  then show "page_aligned (p + PAGE_SIZE)" by (rule aligned_unatI)
  show "MAP_NR (p + PAGE_SIZE) = MAP_NR p + 1" unfolding MAP_NR_div [of "p + PAGE_SIZE"] u by simp
qed

lemma map_reserve_eq: "map_reserve n m = (\<lambda>k. if k < n then MAP_PAGE_RESERVED else m k)"
  by (induction n arbitrary: m) (auto simp: less_Suc_eq)

lemma map_release_eq:
  assumes "page_aligned a" "page_aligned e" "MAP_NR e - MAP_NR a < n"
  shows "map_release n a e m = Some (\<lambda>k. if MAP_NR a \<le> k \<and> k < MAP_NR e then 0 else m k)"
  using assms
proof (induction n arbitrary: a m)
  case (Suc n)
  show ?case
  proof (cases "a < e")
    case True
    then have l: "MAP_NR a < MAP_NR e" using Suc.prems by (simp add: aligned_less)
    note a = aligned_add [OF Suc.prems(1,2) True]
    show ?thesis
      using Suc.IH [OF a(1) Suc.prems(2)] a(2) Suc.prems(3) True l by (auto simp: fun_eq_iff)
  next
    case False
    then show ?thesis using Suc.prems by (auto simp: aligned_less fun_eq_iff)
  qed
qed simp

definition free_below :: "'a mm_scheme \<Rightarrow> u32 \<Rightarrow> u32 list \<Rightarrow> bool" where
  "free_below s a fs \<longleftrightarrow>
     chain (ram s) (free_page_list s) fs \<and> distinct fs \<and> nr_free_pages s = int (length fs) \<and>
     set fs = {p. page_aligned p \<and> p < a \<and> mem_map s (MAP_NR p) = 0}"

lemma below_add:
  assumes "page_aligned a" "page_aligned e" "a < e"
  shows "{p. page_aligned p \<and> p < a + PAGE_SIZE \<and> P p} = {p. page_aligned p \<and> p < a \<and> P p} \<union> (if P a then {a} else {})"
proof -
  note a = aligned_add [OF assms]
  have "p < a + PAGE_SIZE \<longleftrightarrow> p < a \<or> p = a" if "page_aligned p" for p
    using that assms(1) a MAP_NR_inj [OF that assms(1)] by (auto simp: aligned_less less_Suc_eq)
  then show ?thesis using assms(1) by auto
qed

lemma free_list_init_ok:
  assumes "page_aligned a" "page_aligned e" "a \<le> e" "MAP_NR e - MAP_NR a < n" "mem_map s 0 \<noteq> 0" "free_below s a fs"
  shows "\<exists>s' fs'. free_list_init n a e s = Some s' \<and> free_below s' e fs' \<and> mem_map s' = mem_map s \<and>
           high_memory s' = high_memory s \<and> secondary_page_list s' = secondary_page_list s \<and>
           nr_secondary_pages s' = nr_secondary_pages s"
  using assms
proof (induction n arbitrary: a s fs)
  case (Suc n)
  show ?case
  proof (cases "a < e")
    case True
    note a = aligned_add [OF Suc.prems(1,2) True] and b = below_add [OF Suc.prems(1,2) True]
    have le: "a + PAGE_SIZE \<le> e"
      using a True Suc.prems(1,2) by (metis Suc_eq_plus1 aligned_less linorder_not_less not_less_eq)
    define t where "t = (if mem_map s (MAP_NR a) \<noteq> 0 then s
           else s\<lparr>ram := (ram s)(a := free_page_list s), free_page_list := a, nr_free_pages := nr_free_pages s + 1\<rparr>)"
    have "a \<noteq> 0" if "mem_map s (MAP_NR a) = 0" using that Suc.prems(5) by auto
    then have "free_below t (a + PAGE_SIZE) (if mem_map s (MAP_NR a) \<noteq> 0 then fs else a # fs)"
      using Suc.prems(1,6) by (auto simp: t_def free_below_def b chain_upd)
    moreover have "mem_map t 0 \<noteq> 0" "MAP_NR e - MAP_NR (a + PAGE_SIZE) < n"
      using Suc.prems(4,5) a(2) True Suc.prems(1,2) by (auto simp: t_def aligned_less)
    ultimately obtain s' fs' where "free_list_init n (a + PAGE_SIZE) e t = Some s'" "free_below s' e fs'"
      "mem_map s' = mem_map t" "high_memory s' = high_memory t" "secondary_page_list s' = secondary_page_list t"
      "nr_secondary_pages s' = nr_secondary_pages t"
      using Suc.IH [OF a(1) Suc.prems(2) le] by blast
    moreover have "free_list_init (Suc n) a e s = free_list_init n (a + PAGE_SIZE) e t" using True by (simp add: t_def)
    moreover have "mem_map t = mem_map s" "high_memory t = high_memory s" "secondary_page_list t = secondary_page_list s"
      "nr_secondary_pages t = nr_secondary_pages s" by (simp_all add: t_def)
    ultimately show ?thesis by metis
  next
    case False
    then have "a = e" using Suc.prems(3) by simp
    then show ?thesis using Suc.prems(6) by auto
  qed
qed simp


text \<open>The pages \<open>mem_init\<close> gives to the allocator: from the end of the kernel to the video memory, and from the end of the
  tables up.\<close>

definition init_start :: "u32 \<Rightarrow> u32 \<Rightarrow> u32" where
  "init_start start_mem end_mem =
     PAGE_ALIGN ((start_mem + 0xf AND NOT 0xf) + 2 * of_nat (MAP_NR (end_mem AND PAGE_MASK)))"

lemma PAGE_ALIGN_aligned [simp]: "page_aligned (PAGE_ALIGN a)"
  using page_of_aligned [of "a + PAGE_SIZE - 1"] by (simp add: PAGE_ALIGN_def page_of_def)

lemma MAP_NR_bound: "MAP_NR a < 2 ^ 20"
  using unsigned_less [of a, where ?'a = nat] by (simp add: MAP_NR_div less_mult_imp_div_less)

lemma unat_add_len: "unat (x :: u32) + unat y < 2 ^ LENGTH(32) \<Longrightarrow> unat (x + y) = unat x + unat y"
  by (rule unat_add_lem [THEN iffD1])

lemma unat_add_u32: "unat (x :: u32) + unat y < 4294967296 \<Longrightarrow> unat (x + y) = unat x + unat y"
  using unat_add_len [of x y] by simp

lemma page_of_eqI: "unat a div 4096 = unat b div 4096 \<Longrightarrow> page_of a = page_of b"
  by (simp add: word_unat_eq_iff page_of_eq_div)

lemma unat_in_page:
  assumes "page_aligned p" "j < 4096"
  shows "unat (p + of_nat j) = unat p + j"
proof -
  have "unat p + j < 2 ^ 32" using MAP_NR_bound [of p] assms(2) aligned_unat [OF assms(1)] by simp
  moreover have "unat (of_nat j :: u32) = j" using assms(2) by (simp add: unat_of_nat)
  ultimately show ?thesis using unat_add_u32 [of p "of_nat j"] by simp
qed

lemma page_of_in_page: "page_aligned p \<Longrightarrow> j < 4096 \<Longrightarrow> page_of (p + of_nat j) = p"
  using page_of_eqI [of "p + of_nat j" p] by (simp add: unat_in_page aligned_unat page_of_id)

lemma mem_init_lists:
  assumes low: "PAGE_ALIGN start_low_mem \<noteq> 0" and st: "init_start start_mem end_mem \<noteq> 0"
    and sec: "secondary_page_list s = 0" "nr_secondary_pages s = 0" and fuel: "2 ^ 20 \<le> fuel"
    and e: "PAGE_SIZE \<le> end_mem"
  shows "\<exists>s'. mem_init fuel start_low_mem start_mem end_mem s = Some s' \<and> pages_ok s' \<and>
     high_memory s' = page_of end_mem \<and>
     free_pages s' = {p. page_aligned p \<and> p < page_of end_mem \<and>
                         (PAGE_ALIGN start_low_mem \<le> p \<and> p < 0xA0000 \<or> init_start start_mem end_mem \<le> p)}"
proof -
  let ?e = "page_of end_mem" and ?l = "PAGE_ALIGN start_low_mem" and ?t = "init_start start_mem end_mem"
  have al: "page_aligned 0xA0000" "page_aligned 0" "page_aligned ?l" "page_aligned ?t" "page_aligned ?e"
    using PAGE_ALIGN_aligned by (simp_all add: init_start_def) (simp_all add: page_aligned_def)
  have fu: "MAP_NR a - MAP_NR b < fuel" for a b using MAP_NR_bound [of a] fuel by linarith
  define mp where "mp = (\<lambda>k. if MAP_NR ?t \<le> k \<and> k < MAP_NR ?e then 0
      else if MAP_NR ?l \<le> k \<and> k < MAP_NR 0xA0000 then 0 else if k < MAP_NR ?e then MAP_PAGE_RESERVED else mem_map s k)"
  define s0 where "s0 = s\<lparr>high_memory := ?e, mem_map := mp, free_page_list := 0, nr_free_pages := 0\<rparr>"
  have t: "PAGE_ALIGN ((start_mem + 0xf AND NOT 0xf) + 2 * of_nat (MAP_NR ?e)) = ?t"
    by (simp add: init_start_def page_of_def)
  have m: "mem_init fuel start_low_mem start_mem end_mem s = free_list_init fuel 0 ?e s0"
    unfolding mem_init_def Let_def page_of_def [symmetric] t
    using al fu by (simp add: map_release_eq map_reserve_eq sound_mem_init_def s0_def mp_def)
  have "4096 \<le> unat end_mem" using e by (simp add: word_le_nat_alt)
  moreover have "MAP_NR ?e = unat end_mem div 4096" using MAP_NR_page_of [of end_mem] MAP_NR_div [of end_mem] by simp
  ultimately have "1 \<le> MAP_NR ?e" by linarith
  then have z: "mp 0 = MAP_PAGE_RESERVED"
    using low st MAP_NR_nonzero [OF al(3)] MAP_NR_nonzero [OF al(4)] by (simp add: mp_def)
  have "free_below s0 0 []" by (simp add: free_below_def s0_def)
  then obtain s' fs where s': "free_list_init fuel 0 ?e s0 = Some s'" "free_below s' ?e fs" "mem_map s' = mp"
    "high_memory s' = ?e" "secondary_page_list s' = 0" "nr_secondary_pages s' = 0"
    using free_list_init_ok [OF al(2,5) _ fu, of s0 "[]"] z sec by (auto simp: s0_def)
  have fr: "free_pages s' = {p. page_aligned p \<and> p < ?e \<and> mp (MAP_NR p) = 0}" by (simp add: free_pages_def s')
  have "page_lists s' fs []"
    using s' fr z al by (simp add: page_lists_def free_below_def)
  moreover have "mp (MAP_NR p) = 0 \<longleftrightarrow> ?l \<le> p \<and> p < 0xA0000 \<or> ?t \<le> p" if "page_aligned p" "p < ?e" for p
    using that al by (auto simp: mp_def aligned_less linorder_not_less [symmetric])
  ultimately show ?thesis using m s'(1,4) fr unfolding pages_ok_def by auto
qed


section \<open>Properties\<close>

text \<open>C19. The page allocator refines a table of user counts. From any consistent state, for every sequence of requests
  at interrupt priority and releases: each request gives a page that is in use by nobody and now has one user, and
  fails only when every page is in use; each release takes one user away (and is ignored for reserved, unused and
  nonexistent pages). The free lists stay consistent, and a page that is in use and not released in the sequence is
  never handed out.\<close>

theorem page_allocator_refines:
  assumes "pages_ok s" "page_run get_page_atomic free_page ops s = (rs, s')"
  shows "pages_ok s' \<and> page_spec (mm_frames s) ops rs (mem_map s) (mem_map s') \<and>
    (\<forall>p\<in>mm_frames s. mem_map s (MAP_NR p) \<noteq> 0 \<and> (\<forall>a. Put_page a \<in> set ops \<longrightarrow> page_of a \<noteq> p) \<longrightarrow>
        p = 0 \<or> p \<notin> set rs)"
proof -
  note r = pa.run_refines [OF assms]
  have "p = 0 \<or> p \<notin> set rs"
    if "page_aligned p" "mem_map s (MAP_NR p) \<noteq> 0" "\<forall>a. Put_page a \<in> set ops \<longrightarrow> page_of a \<noteq> p" for p
    using page_spec_in_use [of "mm_frames s" ops rs "mem_map s" "mem_map s'" "MAP_NR p"] r that
    by (metis MAP_NR_eq_page page_of_id)
  then show ?thesis using r by (simp add: mm_frames_def)
qed

definition mm0 :: mm where
  "mm0 = \<lparr>ram = (\<lambda>_. 0)(0x2000 := 0x1000), high_memory = 0x4000, mem_map = (\<lambda>n. if n \<in> {1, 2} then 0 else 0x8000),
          free_page_list = 0x2000, nr_free_pages = 2, secondary_page_list = 0, nr_secondary_pages = 0,
          last_free_pages = replicate 32 0, free_index = 0\<rparr>"

lemma frames_mm0: "page_aligned p \<and> p < 0x4000 \<longleftrightarrow> p \<in> {0, 0x1000, 0x2000, 0x3000}"
proof
  assume p: "page_aligned p \<and> p < 0x4000"
  then have "MAP_NR p < 4" using aligned_unat [of p] by (simp add: word_less_nat_alt)
  then have "MAP_NR p = 0 \<or> MAP_NR p = 1 \<or> MAP_NR p = 2 \<or> MAP_NR p = 3" by linarith
  then have "unat p \<in> {0, 4096, 8192, 12288}" using p by (auto simp: aligned_unat)
  then show "p \<in> {0, 0x1000, 0x2000, 0x3000}" by (auto simp: word_unat_eq_iff)
qed (auto simp: page_aligned_def)

lemma mm0_ok: "page_lists mm0 [0x2000, 0x1000] []"
proof -
  have "page_aligned p \<and> p < high_memory mm0 \<and> mem_map mm0 (MAP_NR p) = 0 \<longleftrightarrow>
        p \<in> {0, 0x1000, 0x2000, 0x3000} \<and> mem_map mm0 (MAP_NR p) = 0" for p
    using frames_mm0 [of p] by (simp add: mm0_def)
  then have "free_pages mm0 = {p \<in> {0, 0x1000, 0x2000, 0x3000}. mem_map mm0 (MAP_NR p) = 0}"
    by (simp add: free_pages_def)
  also have "\<dots> = {0x2000, 0x1000}" by (auto simp: mm0_def MAP_NR_def)
  finally show ?thesis by (simp add: page_lists_def) (simp add: mm0_def page_aligned_def)
qed

theorem page_allocator_refines_witness:
  "page_run get_page_atomic free_page [Get_page, Get_page, Get_page, Put_page 0x1234, Get_page] mm0 =
     ([0x2000, 0x1000, 0, 0x1000], snd (page_run get_page_atomic free_page [Get_page, Get_page, Get_page, Put_page 0x1234, Get_page] mm0)) \<and>
   pages_ok (snd (page_run get_page_atomic free_page [Get_page, Get_page, Get_page, Put_page 0x1234, Get_page] mm0))"
proof -
  let ?ops = "[Get_page, Get_page, Get_page, Put_page 0x1234, Get_page]"
  have r: "fst (page_run get_page_atomic free_page ?ops mm0) = [0x2000, 0x1000, 0, 0x1000]"
    by (simp add: get_page_atomic_def remove_free_def remove_secondary_def REMOVE_FROM_MEM_QUEUE_def free_page_def
        add_mem_queue_def mm0_def MAP_NR_def Let_def)
  have "pages_ok mm0" using mm0_ok by (auto simp: pages_ok_def)
  then show ?thesis
    using page_allocator_refines [of mm0 ?ops _ "snd (page_run get_page_atomic free_page ?ops mm0)"] r by (metis prod.collapse)
qed

text \<open>C27. Starting up: with room for at least one page, \<open>mem_init\<close> ends, builds free lists that are consistent, and
  hands over exactly the pages from the end of the kernel's low memory to the video memory at 640K and from the
  end of its tables to the end of memory.\<close>

theorem mem_init_ok:
  assumes "PAGE_ALIGN start_low_mem \<noteq> 0" "init_start start_mem end_mem \<noteq> 0" "PAGE_SIZE \<le> end_mem"
    and "secondary_page_list s = 0" "nr_secondary_pages s = 0"
  shows "\<exists>s'. mem_init (2 ^ 20) start_low_mem start_mem end_mem s = Some s' \<and> pages_ok s' \<and>
     high_memory s' = page_of end_mem \<and>
     free_pages s' = {p. page_aligned p \<and> p < page_of end_mem \<and>
                         (PAGE_ALIGN start_low_mem \<le> p \<and> p < 0xA0000 \<or> init_start start_mem end_mem \<le> p)}"
  using assms by (intro mem_init_lists) auto

theorem mem_init_ok_witness:
  "\<exists>s'. mem_init (2 ^ 20) 0x90000 0x110000 0x200123 mm0 = Some s' \<and> pages_ok s' \<and> high_memory s' = 0x200000 \<and>
        0x9f000 \<in> free_pages s' \<and> 0xa0000 \<notin> free_pages s' \<and> 0x111000 \<in> free_pages s'"
proof -
  have i: "init_start 0x110000 0x200123 = 0x111000" by (simp add: init_start_def PAGE_ALIGN_def MAP_NR_def)
  have e: "page_of 0x200123 = 0x200000" by (simp add: page_of_def)
  have l: "PAGE_ALIGN 0x90000 = 0x90000" by (simp add: PAGE_ALIGN_def)
  show ?thesis
    using mem_init_ok [of "0x90000" "0x110000" "0x200123" mm0] unfolding i e l
    by (fastforce simp: mm0_def page_aligned_def)
qed

end
