(* ===== verification/Kmalloc.thy ===== *)
theory Kmalloc
  imports Pages
begin

text \<open>
  The kernel's memory allocator (\<^verbatim>\<open>lib/malloc.c\<close>, without the debugging code of \<^verbatim>\<open>CONFIG_DEBUG_MALLOC\<close>, which is off by
  default). Pages are cut into blocks of one size; the free blocks of a page form a list through their first long, and a
  descriptor of 16 bytes holds the page, the next descriptor, the first free block, and in its last long the
  number of blocks in use and their size. Descriptors live in pages of their own. Both kinds of page come from the page
  allocator. All of this is in the memory of theory \<open>Pages\<close>: there is no other store.
\<close>

section \<open>Data\<close>

text \<open>Fields of \<open>struct bucket_desc\<close> at address \<open>d\<close>: \<open>page\<close>, \<open>next\<close>, \<open>freeptr\<close>, and the two shorts \<open>refcnt\<close> and
  \<open>bucket_size\<close>.\<close>

abbreviation (input) bd_page :: "memory \<Rightarrow> u32 \<Rightarrow> u32" where "bd_page m d \<equiv> m d"
abbreviation (input) bd_next :: "memory \<Rightarrow> u32 \<Rightarrow> u32" where "bd_next m d \<equiv> m (d + 4)"
abbreviation (input) bd_freeptr :: "memory \<Rightarrow> u32 \<Rightarrow> u32" where "bd_freeptr m d \<equiv> m (d + 8)"

definition bd_refcnt :: "memory \<Rightarrow> u32 \<Rightarrow> u16" where
  "bd_refcnt m d = ucast (m (d + 12))"

definition set_refcnt :: "u16 \<Rightarrow> u32 \<Rightarrow> memory \<Rightarrow> memory" where
  "set_refcnt r d m = m(d + 12 := ucast r OR (m (d + 12) AND 0xffff0000))"

definition set_bucket_size :: "u16 \<Rightarrow> u32 \<Rightarrow> memory \<Rightarrow> memory" where
  "set_bucket_size z d m = m(d + 12 := push_bit 16 (ucast z) OR (m (d + 12) AND 0xffff))"

record bucket_dir_entry =
  bd_size :: u32
  bd_chain :: u32

record kmem = mm +
  bucket_dir :: "bucket_dir_entry list"
  free_bucket_desc :: u32

definition initial_bucket_dir :: "bucket_dir_entry list" where
  "initial_bucket_dir =
     map (\<lambda>z. \<lparr>bd_size = z, bd_chain = 0\<rparr>) [16, 32, 64, 128, 256, 512, 1024, 2048, 4096, 0]"

definition set_chain :: "nat \<Rightarrow> u32 \<Rightarrow> kmem \<Rightarrow> kmem" where
  "set_chain i d s = s\<lparr>bucket_dir := (bucket_dir s)[i := (bucket_dir s ! i)\<lparr>bd_chain := d\<rparr>]\<rparr>"

section \<open>Allocation\<close>

text \<open>The first bucket size that is large enough, by its place in the table; \<open>None\<close> is \<open>too_large\<close>.\<close>

fun find_bdir :: "nat \<Rightarrow> u32 \<Rightarrow> bucket_dir_entry list \<Rightarrow> nat option" where
  "find_bdir i len [] = None"
| "find_bdir i len (b # bs) =
     (if bd_size b < len then if bd_size b = 0 then None else find_bdir (i + 1) len bs else Some i)"

text \<open>The first descriptor of a chain with a free block, or 0.\<close>

fun find_bdesc :: "nat \<Rightarrow> memory \<Rightarrow> u32 \<Rightarrow> u32 option" where
  "find_bdesc 0 m d = None"
| "find_bdesc (Suc n) m d =
     (if d = 0 then Some 0 else if bd_freeptr m d \<noteq> 0 then Some d else find_bdesc n m (bd_next m d))"

text \<open>\<open>for (i = PAGE_SIZE/sizeof(struct bucket_desc); --i > 0; bdesc++) bdesc->next = bdesc+1;\<close> The result is also the last
  descriptor of the page.\<close>

fun link_descs :: "nat \<Rightarrow> u32 \<Rightarrow> memory \<Rightarrow> u32 \<times> memory" where
  "link_descs 0 d m = (d, m)"
| "link_descs (Suc i) d m = link_descs i (d + 16) (m(d + 4 := d + 16))"

definition init_bucket_desc :: "u32 \<Rightarrow> kmem \<Rightarrow> kmem" where
  "init_bucket_desc page s =
     (let (d, m) = link_descs 255 page (ram s)
      in s\<lparr>ram := m(d + 4 := free_bucket_desc s), free_bucket_desc := page\<rparr>)"

type_synonym reclaimer = "nat \<Rightarrow> kmem \<Rightarrow> bool \<times> kmem"

text \<open>A descriptor from the free list, which is filled from a new page when it is empty; 0 when there is no page.\<close>

definition take_desc :: "reclaimer \<Rightarrow> nat \<Rightarrow> int \<Rightarrow> kmem \<Rightarrow> (u32 \<times> kmem) option" where
  "take_desc reclaim fuel priority s =
     (case (if free_bucket_desc s = 0
            then (case do_get_free_page reclaim fuel priority s of
                    None \<Rightarrow> None
                  | Some (page, s) \<Rightarrow> Some (page = 0, if page = 0 then s else init_bucket_desc page s))
            else Some (False, s)) of
        None \<Rightarrow> None
      | Some (failed, s) \<Rightarrow>
          if failed then Some (0, s)
          else let d = free_bucket_desc s in Some (d, s\<lparr>free_bucket_desc := bd_next (ram s) d\<rparr>))"

text \<open>The list of the free blocks of a new page: \<open>i\<close> of them, from \<open>page\<close> on.\<close>

fun link_blocks :: "nat \<Rightarrow> u32 \<Rightarrow> u32 \<Rightarrow> memory \<Rightarrow> memory" where
  "link_blocks 0 sz page m = m"
| "link_blocks (Suc i) sz page m =
     link_blocks i sz (page + sz) (m(page := (if i = 0 then 0 else page + sz)))"

definition setup_bucket :: "u32 \<Rightarrow> u32 \<Rightarrow> u32 \<Rightarrow> memory \<Rightarrow> memory" where
  "setup_bucket d sz page m =
     (let m = set_refcnt 0 d m;
          m = set_bucket_size (ucast sz) d m;
          m = m(d + 8 := page, d := page)
      in link_blocks (unat (PAGE_SIZE div sz)) sz page m)"

text \<open>A new page for bucket \<open>i\<close>: its descriptor, or 0.\<close>

definition new_bucket :: "reclaimer \<Rightarrow> nat \<Rightarrow> int \<Rightarrow> nat \<Rightarrow> kmem \<Rightarrow> (u32 \<times> kmem) option" where
  "new_bucket reclaim fuel priority i s =
     (case take_desc reclaim fuel priority s of
        None \<Rightarrow> None
      | Some (d, s) \<Rightarrow>
          if d = 0 then Some (0, s)
          else (case do_get_free_page reclaim fuel priority s of
                  None \<Rightarrow> None
                | Some (page, s) \<Rightarrow>
                    if page = 0 then
                      Some (0, s\<lparr>ram := (ram s)(d + 4 := free_bucket_desc s), free_bucket_desc := d\<rparr>)
                    else
                      let s = s\<lparr>ram := setup_bucket d (bd_size (bucket_dir s ! i)) page (ram s)\<rparr>;
                          s = s\<lparr>ram := (ram s)(d + 4 := bd_chain (bucket_dir s ! i))\<rparr>
                      in Some (d, set_chain i d s)))"

definition take_block :: "u32 \<Rightarrow> kmem \<Rightarrow> u32 \<times> kmem" where
  "take_block d s =
     (let retval = bd_freeptr (ram s) d;
          m = (ram s)(d + 8 := ram s retval)
      in (retval, s\<lparr>ram := set_refcnt (bd_refcnt m d + 1) d m\<rparr>))"

definition kmalloc :: "reclaimer \<Rightarrow> nat \<Rightarrow> u32 \<Rightarrow> int \<Rightarrow> kmem \<Rightarrow> (u32 \<times> kmem) option" where
  "kmalloc reclaim fuel len priority s =
     (case find_bdir 0 len (bucket_dir s) of
        None \<Rightarrow> Some (0, s)
      | Some i \<Rightarrow>
          (case find_bdesc fuel (ram s) (bd_chain (bucket_dir s ! i)) of
             None \<Rightarrow> None
           | Some d \<Rightarrow>
               if d \<noteq> 0 then Some (take_block d s)
               else (case new_bucket reclaim fuel priority i s of
                       None \<Rightarrow> None
                     | Some (d, s) \<Rightarrow> if d = 0 then Some (0, s) else Some (take_block d s))))"

section \<open>Freeing\<close>

text \<open>The descriptor of a page in a chain, with the one before it (or 0).\<close>

fun find_page :: "nat \<Rightarrow> memory \<Rightarrow> u32 \<Rightarrow> u32 \<Rightarrow> u32 \<Rightarrow> (u32 \<times> u32) option option" where
  "find_page 0 m page prev d = None"
| "find_page (Suc n) m page prev d =
     (if d = 0 then Some None
      else if bd_page m d = page then Some (Some (prev, d))
      else find_page n m page d (bd_next m d))"

text \<open>\<open>size\<close> is compared as an unsigned number.\<close>

fun find_bucket :: "nat \<Rightarrow> memory \<Rightarrow> u32 \<Rightarrow> u32 \<Rightarrow> nat \<Rightarrow> bucket_dir_entry list \<Rightarrow> (nat \<times> u32 \<times> u32) option option" where
  "find_bucket fuel m page sz i [] = Some None"
| "find_bucket fuel m page sz i (b # bs) =
     (if bd_size b = 0 then Some None
      else if bd_size b \<ge> sz then
        (case find_page fuel m page 0 (bd_chain b) of
           None \<Rightarrow> None
         | Some (Some (prev, d)) \<Rightarrow> Some (Some (i, prev, d))
         | Some None \<Rightarrow> find_bucket fuel m page sz (i + 1) bs)
      else find_bucket fuel m page sz (i + 1) bs)"

text \<open>\<open>for (prev = bdir->chain; prev; prev = prev->next) if (prev->next == bdesc) break;\<close>\<close>

fun find_prev_desc :: "nat \<Rightarrow> memory \<Rightarrow> u32 \<Rightarrow> u32 \<Rightarrow> u32 option" where
  "find_prev_desc 0 m d prev = None"
| "find_prev_desc (Suc n) m d prev =
     (if prev = 0 \<or> bd_next m prev = d then Some prev else find_prev_desc n m d (bd_next m prev))"

text \<open>The end of \<open>kfree_s\<close> for a page with no block in use; \<open>None\<close> also for the panic.\<close>

definition drop_bucket :: "nat \<Rightarrow> nat \<Rightarrow> u32 \<Rightarrow> u32 \<Rightarrow> kmem \<Rightarrow> kmem option" where
  "drop_bucket fuel i prev d s =
     (let ch = bd_chain (bucket_dir s ! i)
      in case (if prev \<noteq> 0 \<and> bd_next (ram s) prev \<noteq> d \<or> prev = 0 \<and> ch \<noteq> d
               then find_prev_desc fuel (ram s) d ch else Some prev) of
           None \<Rightarrow> None
         | Some prev \<Rightarrow>
             (case (if prev \<noteq> 0 then Some (s\<lparr>ram := (ram s)(prev + 4 := bd_next (ram s) d)\<rparr>)
                    else if ch \<noteq> d then None
                    else Some (set_chain i (bd_next (ram s) d) s)) of
                None \<Rightarrow> None
              | Some s \<Rightarrow>
                  let s = s\<lparr>ram := (ram s)(d + 4 := free_bucket_desc s), free_bucket_desc := d\<rparr>
                  in Some (free_page (bd_page (ram s) d) s)))"

definition kfree_s :: "nat \<Rightarrow> u32 \<Rightarrow> u32 \<Rightarrow> kmem \<Rightarrow> kmem option" where
  "kfree_s fuel obj sz s =
     (if obj = 0 then Some s
      else case find_bucket fuel (ram s) (obj AND PAGE_MASK) sz 0 (bucket_dir s) of
             None \<Rightarrow> None
           | Some None \<Rightarrow> Some s
           | Some (Some (i, prev, d)) \<Rightarrow>
               let m = (ram s)(obj := bd_freeptr (ram s) d);
                   m = m(d + 8 := obj);
                   m = set_refcnt (bd_refcnt m d - 1) d m;
                   s = s\<lparr>ram := m\<rparr>
               in if bd_refcnt m d = 0 then drop_bucket fuel i prev d s else Some s)"

section \<open>Addresses of descriptors and blocks\<close>

definition desc_aligned :: "u32 \<Rightarrow> bool" where
  "desc_aligned d \<longleftrightarrow> unat d mod 16 = 0"

lemma unat_desc:
  assumes "desc_aligned d" "j < 16"
  shows "unat (d + of_nat j) = unat d + j"
proof -
  obtain k where k: "unat d = 16 * k" using assms(1) by (auto simp: desc_aligned_def)
  then have "k < 2 ^ 28" using unsigned_less [of d, where ?'a = nat] by simp
  then have "unat d + j < 2 ^ 32" using assms(2) k by simp
  moreover have "unat (of_nat j :: u32) = j" using assms(2) by (simp add: unat_of_nat)
  ultimately show ?thesis using unat_add_u32 [of d "of_nat j"] by simp
qed

lemma unat_desc_num:
  assumes "desc_aligned d"
  shows "unat (d + 4) = unat d + 4" "unat (d + 8) = unat d + 8" "unat (d + 12) = unat d + 12"
  using unat_desc [OF assms, of 4] unat_desc [OF assms, of 8] unat_desc [OF assms, of 12] by simp_all

lemma page_of_desc:
  assumes "desc_aligned d"
  shows "page_of (d + 4) = page_of d" "page_of (d + 8) = page_of d" "page_of (d + 12) = page_of d"
proof -
  obtain k where k: "unat d = 16 * k" using assms(1) by (auto simp: desc_aligned_def)
  have "(unat d + j) div 4096 = unat d div 4096" if "j < 16" for j
  proof -
    have "4096 = 16 * (256 :: nat)" by simp
    then have "(16 * k + j) div 4096 = (16 * k + j) div 16 div 256" by (simp only: div_mult2_eq)
    also have "\<dots> = 16 * k div 4096" using that by (simp add: div_mult2_eq [symmetric])
    finally show ?thesis unfolding k .
  qed
  then show "page_of (d + 4) = page_of d" "page_of (d + 8) = page_of d" "page_of (d + 12) = page_of d"
    by (auto intro!: page_of_eqI simp: unat_desc_num [OF assms])
qed

text \<open>Longs of two descriptors are different.\<close>

lemma desc_sep:
  assumes "desc_aligned d" "desc_aligned e" "d + of_nat i = e + of_nat j" "i < 16" "j < 16"
  shows "d = e \<and> i = j"
proof -
  have "unat d + i = unat e + j" using assms unat_desc by metis
  moreover obtain k where "unat d = 16 * k" using assms(1) by (auto simp: desc_aligned_def)
  moreover obtain l where "unat e = 16 * l" using assms(2) by (auto simp: desc_aligned_def)
  ultimately have e: "16 * k + i = 16 * l + j" "unat d = 16 * k" "unat e = 16 * l" by simp_all
  then have "k = l" using assms(4,5) by presburger
  then show ?thesis using e by (simp add: word_unat_eq_iff)
qed

lemma desc_sep_num:
  assumes "desc_aligned d" "desc_aligned e" "d \<noteq> e"
  shows "d \<noteq> e + 4" "d \<noteq> e + 8" "d \<noteq> e + 12" "d + 4 \<noteq> e + 8" "d + 4 \<noteq> e + 12" "d + 8 \<noteq> e + 12"
    "d + 8 \<noteq> e + 4" "d + 12 \<noteq> e + 4" "d + 12 \<noteq> e + 8" "d + 4 \<noteq> e" "d + 8 \<noteq> e" "d + 12 \<noteq> e"
  using assms desc_sep [OF assms(1,2), of 0 4] desc_sep [OF assms(1,2), of 0 8] desc_sep [OF assms(1,2), of 0 12]
    desc_sep [OF assms(1,2), of 4 8] desc_sep [OF assms(1,2), of 4 12] desc_sep [OF assms(1,2), of 8 12]
    desc_sep [OF assms(1,2), of 8 4] desc_sep [OF assms(1,2), of 12 4] desc_sep [OF assms(1,2), of 12 8]
    desc_sep [OF assms(1,2), of 4 0] desc_sep [OF assms(1,2), of 8 0] desc_sep [OF assms(1,2), of 12 0] by auto

definition bsz :: "nat \<Rightarrow> nat" where
  "bsz i = 16 * 2 ^ i"

definition block :: "u32 \<Rightarrow> nat \<Rightarrow> nat \<Rightarrow> u32" where
  "block p z k = p + of_nat (k * z)"

definition blocks_of :: "u32 \<Rightarrow> nat \<Rightarrow> u32 set" where
  "blocks_of p z = block p z ` {..<4096 div z}"

lemma block_offset: "k < 4096 div z \<Longrightarrow> k * z + z \<le> (4096 :: nat)"
  by (metis Suc_leI add.commute div_times_less_eq_dividend mult_Suc mult_le_mono1 order_trans)

lemma unat_block: "page_aligned p \<Longrightarrow> 0 < z \<Longrightarrow> k < 4096 div z \<Longrightarrow> unat (block p z k) = unat p + k * z"
  unfolding block_def by (rule unat_in_page) (use block_offset [of k z] in auto)

lemma page_of_block:
  assumes "page_aligned p" "0 < z" "b \<in> blocks_of p z"
  shows "page_of b = p"
proof -
  obtain k where k: "b = block p z k" "k < 4096 div z" using assms(3) by (auto simp: blocks_of_def)
  have "k * z < 4096" using block_offset [OF k(2)] assms(2) by linarith
  then show ?thesis unfolding k(1) block_def by (rule page_of_in_page [OF assms(1)])
qed

lemma inj_blocks:
  assumes "page_aligned p" "0 < z"
  shows "inj_on (block p z) {..<4096 div z}"
proof (rule inj_onI)
  fix k l assume kl: "k \<in> {..<4096 div z}" "l \<in> {..<4096 div z}" "block p z k = block p z l"
  then have "unat (block p z k) = unat (block p z l)" by simp
  then have "k * z = l * z" using assms kl(1,2) by (simp add: unat_block)
  then show "k = l" using assms(2) by simp
qed

lemma finite_blocks [simp]: "finite (blocks_of p z)"
  by (simp add: blocks_of_def)

lemma card_blocks: "page_aligned p \<Longrightarrow> 0 < z \<Longrightarrow> card (blocks_of p z) = 4096 div z"
  unfolding blocks_of_def by (subst card_image) (simp_all add: inj_blocks)

lemma bsz_pos [simp]: "0 < bsz i"
  by (simp add: bsz_def)

lemma bsz_cases: "i < 9 \<Longrightarrow> bsz i \<in> {16, 32, 64, 128, 256, 512, 1024, 2048, 4096}"
proof -
  assume "i < 9"
  then have "i = 0 \<or> i = 1 \<or> i = 2 \<or> i = 3 \<or> i = 4 \<or> i = 5 \<or> i = 6 \<or> i = 7 \<or> i = 8" by linarith
  then show ?thesis by (auto simp: bsz_def)
qed

section \<open>The word with count and size\<close>

definition desc_word :: "u16 \<Rightarrow> nat \<Rightarrow> u32" where
  "desc_word r z = ucast r OR push_bit 16 (of_nat z)"

lemma high_half: "(0xffff0000 :: u32) = push_bit 16 (mask 16)" and low_half: "(0xffff :: u32) = mask 16"
  by (simp_all add: mask_eq_exp_minus_1 push_bit_eq_mult)

lemma refcnt_desc_word: "m (d + 12) = desc_word r z \<Longrightarrow> bd_refcnt m d = r"
  unfolding bd_refcnt_def desc_word_def by (rule bit_word_eqI) (simp add: bit_simps)

lemma set_refcnt_desc_word:
  assumes "m (d + 12) = desc_word r z"
  shows "set_refcnt r' d m = m(d + 12 := desc_word r' z)"
proof -
  have "ucast r' OR (desc_word r z AND 0xffff0000) = desc_word r' z"
    unfolding desc_word_def high_half
    by (rule bit_word_eqI) (auto simp: bit_simps dest: bit_imp_le_length)
  then show ?thesis using assms by (simp add: set_refcnt_def)
qed

lemma set_size_desc_word:
  assumes "z < 65536"
  shows "set_bucket_size (of_nat z) d (set_refcnt 0 d m) = m(d + 12 := desc_word 0 z)"
proof -
  have z: "bit (of_nat z :: u16) n \<longleftrightarrow> bit (of_nat z :: u32) n" for n
  proof -
    have "z = take_bit 16 z" using assms by (simp add: take_bit_nat_eq_self)
    then have "bit z n \<longrightarrow> n < 16" by (metis bit_take_bit_iff)
    then show ?thesis by (auto simp: bit_simps)
  qed
  have "push_bit 16 (ucast (of_nat z :: u16)) OR (ucast (0 :: u16) OR (w AND 0xffff0000) AND 0xffff) = desc_word 0 z" for w :: u32
    unfolding desc_word_def high_half low_half
    by (rule bit_word_eqI) (auto simp: bit_and_iff bit_or_iff bit_push_bit_iff bit_mask_iff bit_ucast_iff z dest: bit_imp_le_length)
  then show ?thesis by (simp add: set_refcnt_def set_bucket_size_def)
qed


section \<open>The invariant\<close>

text \<open>\<open>ds i\<close> is the chain of bucket \<open>i\<close>, \<open>fl d\<close> the list of free blocks of descriptor \<open>d\<close>, \<open>fd\<close> the list of free
  descriptors; \<open>hs\<close> are descriptors taken off that list by calls that are waiting for a page.\<close>

definition owned :: "'a mm_scheme \<Rightarrow> u32 \<Rightarrow> bool" where
  "owned s p \<longleftrightarrow> page_aligned p \<and> p < high_memory s \<and> p \<noteq> 0 \<and> mem_map s (MAP_NR p) = 1"

definition bucket_ok :: "memory \<Rightarrow> nat \<Rightarrow> u32 \<Rightarrow> u32 list \<Rightarrow> bool" where
  "bucket_ok m z d fs \<longleftrightarrow>
     chain m (bd_freeptr m d) fs \<and> distinct fs \<and> set fs \<subseteq> blocks_of (bd_page m d) z \<and>
     m (d + 12) = desc_word (of_nat (4096 div z - length fs)) z"

definition in_chains :: "(nat \<Rightarrow> u32 list) \<Rightarrow> u32 set" where
  "in_chains ds = (\<Union>i<9. set (ds i))"

definition all_descs :: "(nat \<Rightarrow> u32 list) \<Rightarrow> u32 list \<Rightarrow> u32 list \<Rightarrow> u32 set" where
  "all_descs ds fd hs = in_chains ds \<union> set fd \<union> set hs"

definition descs_distinct :: "(nat \<Rightarrow> u32 list) \<Rightarrow> u32 list \<Rightarrow> u32 list \<Rightarrow> bool" where
  "descs_distinct ds fd hs \<longleftrightarrow>
     (\<forall>i<9. distinct (ds i)) \<and> (\<forall>i<9. \<forall>j<9. i \<noteq> j \<longrightarrow> set (ds i) \<inter> set (ds j) = {}) \<and>
     distinct (fd @ hs) \<and> in_chains ds \<inter> set (fd @ hs) = {}"

definition dir_sizes :: "u32 list" where
  "dir_sizes = [16, 32, 64, 128, 256, 512, 1024, 2048, 4096, 0]"

definition kinv :: "(nat \<Rightarrow> u32 list) \<Rightarrow> (u32 \<Rightarrow> u32 list) \<Rightarrow> u32 list \<Rightarrow> u32 list \<Rightarrow> kmem \<Rightarrow> bool" where
  "kinv ds fl fd hs s \<longleftrightarrow>
     pages_ok s \<and> map bd_size (bucket_dir s) = dir_sizes \<and>
     (\<forall>i<9. chain (\<lambda>d. ram s (d + 4)) (bd_chain (bucket_dir s ! i)) (ds i)) \<and>
     chain (\<lambda>d. ram s (d + 4)) (free_bucket_desc s) fd \<and>
     descs_distinct ds fd hs \<and>
     (\<forall>d\<in>all_descs ds fd hs. d \<noteq> 0 \<and> desc_aligned d \<and> owned s (page_of d)) \<and>
     (\<forall>i<9. \<forall>d\<in>set (ds i). bucket_ok (ram s) (bsz i) d (fl d) \<and> owned s (ram s d)) \<and>
     inj_on (ram s) (in_chains ds) \<and>
     (\<forall>d\<in>in_chains ds. \<forall>e\<in>all_descs ds fd hs. ram s d \<noteq> page_of e)"

lemma owned_not_free: "owned s p \<Longrightarrow> p \<notin> free_pages s"
  by (simp add: owned_def free_pages_def)

lemma free_page_of: "p \<in> free_pages s \<Longrightarrow> page_of p = p"
  by (simp add: free_pages_def page_of_id)

text \<open>The parts of the invariant as rules.\<close>

lemma kinvD:
  assumes "kinv ds fl fd hs s"
  shows "pages_ok s" "map bd_size (bucket_dir s) = dir_sizes" "length (bucket_dir s) = 10"
    "\<And>i. i < 9 \<Longrightarrow> chain (\<lambda>d. ram s (d + 4)) (bd_chain (bucket_dir s ! i)) (ds i)"
    "chain (\<lambda>d. ram s (d + 4)) (free_bucket_desc s) fd"
    "descs_distinct ds fd hs"
    "\<And>d. d \<in> all_descs ds fd hs \<Longrightarrow> d \<noteq> 0 \<and> desc_aligned d \<and> owned s (page_of d)"
    "\<And>i d. i < 9 \<Longrightarrow> d \<in> set (ds i) \<Longrightarrow> bucket_ok (ram s) (bsz i) d (fl d) \<and> owned s (ram s d)"
    "inj_on (ram s) (in_chains ds)"
    "\<And>d e. d \<in> in_chains ds \<Longrightarrow> e \<in> all_descs ds fd hs \<Longrightarrow> ram s d \<noteq> page_of e"
proof -
  have sz: "map bd_size (bucket_dir s) = dir_sizes" using assms by (simp add: kinv_def)
  then have "length (map bd_size (bucket_dir s)) = 10" by (simp add: dir_sizes_def)
  then show "length (bucket_dir s) = 10" by simp
qed (use assms in \<open>auto simp: kinv_def\<close>)

lemma dir_size: "kinv ds fl fd hs s \<Longrightarrow> i < 9 \<Longrightarrow> bd_size (bucket_dir s ! i) = of_nat (bsz i)"
proof -
  assume k: "kinv ds fl fd hs s" and i: "i < 9"
  have "bd_size (bucket_dir s ! i) = dir_sizes ! i"
    using nth_map [of i "bucket_dir s" bd_size] kinvD(2,3) [OF k] i by simp
  moreover have "i = 0 \<or> i = 1 \<or> i = 2 \<or> i = 3 \<or> i = 4 \<or> i = 5 \<or> i = 6 \<or> i = 7 \<or> i = 8" using i by linarith
  ultimately show ?thesis by (auto simp: dir_sizes_def bsz_def)
qed

lemma in_chainsI: "i < 9 \<Longrightarrow> d \<in> set (ds i) \<Longrightarrow> d \<in> in_chains ds"
  by (auto simp: in_chains_def)

lemma in_chains_all: "d \<in> in_chains ds \<Longrightarrow> d \<in> all_descs ds fd hs"
  by (simp add: all_descs_def)

text \<open>Every address the invariant looks at is in a page of a known kind: a free page, a page of descriptors, or a page of
  blocks.\<close>

lemma kinv_block:
  assumes "kinv ds fl fd hs s" "i < 9" "d \<in> set (ds i)" "b \<in> blocks_of (ram s d) (bsz i)"
  shows "page_of b = ram s d"
  using kinvD(8) [OF assms(1-3)] by (intro page_of_block [OF _ bsz_pos assms(4)]) (simp add: owned_def)

lemma kinv_free_block:
  assumes "kinv ds fl fd hs s" "i < 9" "d \<in> set (ds i)" "b \<in> set (fl d)"
  shows "page_of b = ram s d"
  using assms kinvD(8) [OF assms(1-3)] by (auto simp: bucket_ok_def intro: kinv_block)

lemma bucket_ok_cong:
  assumes "bucket_ok m z d fs" "m' d = m d" "m' (d + 8) = m (d + 8)" "m' (d + 12) = m (d + 12)" "\<forall>b\<in>set fs. m' b = m b"
  shows "bucket_ok m' z d fs"
  using assms pchain_cong [of m _ fs m'] by (auto simp: bucket_ok_def)


text \<open>A change of memory that leaves alone what the invariant reads, except for one bucket, which has a new free list.\<close>

lemma kinv_bucket:
  assumes k: "kinv ds fl fd hs s" and i: "i < 9" "d \<in> set (ds i)"
    and new: "bucket_ok m (bsz i) d fs" "m d = ram s d"
    and links: "\<And>e. e \<in> all_descs ds fd hs \<Longrightarrow> m (e + 4) = ram s (e + 4)"
    and free: "\<And>p. p \<in> free_pages s \<Longrightarrow> m p = ram s p"
    and others: "\<And>e. e \<in> in_chains ds \<Longrightarrow> e \<noteq> d \<Longrightarrow> m e = ram s e \<and> m (e + 8) = ram s (e + 8) \<and> m (e + 12) = ram s (e + 12)"
    and lists: "\<And>e b. e \<in> in_chains ds \<Longrightarrow> e \<noteq> d \<Longrightarrow> b \<in> set (fl e) \<Longrightarrow> m b = ram s b"
  shows "kinv ds (fl(d := fs)) fd hs (s\<lparr>ram := m\<rparr>)"
proof -
  note K = kinvD [OF k]
  have eq: "m e = ram s e" if "e \<in> in_chains ds" for e using that new(2) others by (cases "e = d") auto
  have c: "chain (\<lambda>d. m (d + 4)) (bd_chain (bucket_dir s ! j)) (ds j)" if "j < 9" for j
    using pchain_cong [OF K(4) [OF that], of "\<lambda>d. m (d + 4)"] links in_chainsI [OF that] in_chains_all by blast
  have cf: "chain (\<lambda>d. m (d + 4)) (free_bucket_desc s) fd"
    using pchain_cong [OF K(5), of "\<lambda>d. m (d + 4)"] links by (auto simp: all_descs_def)
  have b: "bucket_ok m (bsz j) e ((fl(d := fs)) e) \<and> owned s (m e)" if "j < 9" "e \<in> set (ds j)" for j e
  proof (cases "e = d")
    case True
    have "j = i" using True that i K(6) unfolding descs_distinct_def by blast
    then show ?thesis using True new K(8) [OF i] by simp
  next
    case False
    note e = in_chainsI [of j e ds, OF that]
    show ?thesis using False K(8) [OF that] others [OF e False] lists [OF e False] by (auto intro: bucket_ok_cong)
  qed
  have inj: "inj_on m (in_chains ds)" using K(9) eq by (auto simp: inj_on_def)
  have "pages_ok (s\<lparr>ram := m\<rparr>)" using K(1) free by (intro pages_ok_ram) auto
  then show ?thesis
    unfolding kinv_def using K(2,6,7,10) c cf b inj eq by (auto simp: owned_def)
qed


text \<open>Writing to a descriptor in use, but not to its link, and to blocks of its page.\<close>

lemma kinv_write:
  assumes k: "kinv ds fl fd hs s" and i: "i < 9" "d \<in> set (ds i)"
    and new: "bucket_ok m (bsz i) d fs"
    and same: "\<And>a. a \<notin> {d + 8, d + 12} \<Longrightarrow> page_of a \<noteq> ram s d \<Longrightarrow> m a = ram s a"
  shows "kinv ds (fl(d := fs)) fd hs (s\<lparr>ram := m\<rparr>)"
proof -
  note K = kinvD [OF k]
  note d = in_chainsI [of i d ds, OF i]
  have D: "desc_aligned d" "owned s (page_of d)" "owned s (ram s d)" "ram s d \<noteq> page_of d"
    using K(7,10) in_chains_all [OF d] K(8) [OF i] d by auto
  have desc: "m a = ram s a" if "e \<in> all_descs ds fd hs" "a \<in> {e, e + 4, e + 8, e + 12}" "a \<notin> {d + 8, d + 12}" for a e
  proof -
    have "page_of a = page_of e" using that(2) K(7) [OF that(1)] page_of_desc [of e] by auto
    then show ?thesis using same that(3) K(10) [OF d that(1)] by metis
  qed
  note S = desc_sep_num [OF _ D(1)]
  show ?thesis
  proof (rule kinv_bucket [OF k i new])
    show "m d = ram s d" using desc [OF in_chains_all [OF d], of d] by simp
    show "m (e + 4) = ram s (e + 4)" if "e \<in> all_descs ds fd hs" for e
    proof (rule desc [OF that])
      show "e + 4 \<notin> {d + 8, d + 12}" using S [of e] K(7) [OF that] by (cases "e = d") auto
    qed simp
    show "m p = ram s p" if "p \<in> free_pages s" for p
    proof (rule same)
      have "p \<noteq> ram s d" "p \<noteq> page_of d" using that D(2,3) owned_not_free by blast+
      then show "p \<notin> {d + 8, d + 12}" "page_of p \<noteq> ram s d"
        using free_page_of [OF that] page_of_desc [OF D(1)] by auto
    qed
    show "m e = ram s e \<and> m (e + 8) = ram s (e + 8) \<and> m (e + 12) = ram s (e + 12)" if "e \<in> in_chains ds" "e \<noteq> d" for e
      using desc [OF in_chains_all [OF that(1)]] S [OF _ that(2)] K(7) [OF in_chains_all [OF that(1)]] that(2) by auto
    show "m b = ram s b" if e: "e \<in> in_chains ds" "e \<noteq> d" "b \<in> set (fl e)" for e b
    proof (rule same)
      obtain j where j: "j < 9" "e \<in> set (ds j)" using e(1) by (auto simp: in_chains_def)
      have p: "page_of b = ram s e" by (rule kinv_free_block [OF k j e(3)])
      moreover have "ram s e \<noteq> ram s d" using K(9) d e(1,2) by (auto simp: inj_on_def)
      ultimately show "page_of b \<noteq> ram s d" by simp
      show "b \<notin> {d + 8, d + 12}" using p page_of_desc [OF D(1)] K(10) [OF e(1) in_chains_all [OF d]] by auto
    qed
  qed
qed

lemma blocks_nonzero: "page_aligned p \<Longrightarrow> p \<noteq> 0 \<Longrightarrow> 0 < z \<Longrightarrow> b \<in> blocks_of p z \<Longrightarrow> b \<noteq> 0"
  using page_of_block [of p z b] by (auto simp: page_of_def)

lemma free_list_length:
  assumes "bucket_ok m z d fs" "page_aligned (m d)" "0 < z"
  shows "length fs \<le> 4096 div z"
proof -
  have "length fs = card (set fs)" using assms(1) by (simp add: bucket_ok_def distinct_card)
  also have "\<dots> \<le> card (blocks_of (m d) z)" using assms(1) by (intro card_mono) (auto simp: bucket_ok_def)
  finally show ?thesis using assms(2,3) by (simp add: card_blocks)
qed

lemma take_block_ok:
  assumes k: "kinv ds fl fd hs s" and i: "i < 9" "d \<in> set (ds i)" and f: "fl d = b # bs"
  shows "\<exists>s'. take_block d s = (b, s') \<and> kinv ds (fl(d := bs)) fd hs s' \<and> b \<in> blocks_of (ram s d) (bsz i) \<and>
              b \<noteq> 0 \<and> (\<exists>m. s' = s\<lparr>ram := m\<rparr>) \<and> (\<forall>a. a \<notin> {d + 8, d + 12} \<longrightarrow> ram s' a = ram s a)"
proof -
  note K = kinvD [OF k]
  let ?z = "bsz i" and ?n = "4096 div bsz i"
  have B: "bucket_ok (ram s) ?z d (b # bs)" "owned s (ram s d)" using K(8) [OF i] f by auto
  note d = in_chainsI [of i d ds, OF i]
  have D: "desc_aligned d" using K(7) in_chains_all [OF d] by blast
  have len: "Suc (length bs) \<le> ?n" using free_list_length [OF B(1)] B(2) by (simp add: owned_def)
  have b: "bd_freeptr (ram s) d = b" "b \<in> blocks_of (ram s d) ?z" using B(1) by (auto simp: bucket_ok_def)
  define m where "m = (ram s)(d + 8 := ram s b)"
  have w: "m (d + 12) = desc_word (of_nat (?n - Suc (length bs))) ?z" using B(1) by (simp add: m_def bucket_ok_def)
  have r: "of_nat (?n - Suc (length bs)) + 1 = (of_nat (?n - length bs) :: u16)"
    using len by (metis Suc_diff_Suc Suc_le_eq of_nat_Suc add.commute)
  define m' where "m' = m(d + 12 := desc_word (of_nat (?n - length bs)) ?z)"
  have t: "take_block d s = (b, s\<lparr>ram := m'\<rparr>)"
    using b(1) set_refcnt_desc_word [of m d, OF w, of "of_nat (?n - Suc (length bs)) + 1"] refcnt_desc_word [of m d, OF w] r
    by (simp add: take_block_def Let_def m_def m'_def)
  have pg: "page_of x = ram s d" if "x \<in> blocks_of (ram s d) ?z" for x by (rule kinv_block [OF k i that])
  have pd: "page_of (d + 8) \<noteq> ram s d" "page_of (d + 12) \<noteq> ram s d" "page_of d \<noteq> ram s d"
    using K(10) [OF d in_chains_all [OF d]] page_of_desc [OF D] by auto
  have "m' x = ram s x" if "x \<in> set (b # bs)" for x
    using that B(1) pg [of x] pd by (auto simp: m'_def m_def bucket_ok_def)
  then have "chain m' (ram s b) bs" using B(1) pchain_cong [of "ram s" "ram s b" bs m'] by (simp add: bucket_ok_def)
  then have "bucket_ok m' ?z d bs" using B(1) by (simp add: m'_def m_def bucket_ok_def)
  then have "kinv ds (fl(d := bs)) fd hs (s\<lparr>ram := m'\<rparr>)"
    by (rule kinv_write [OF k i]) (simp_all add: m'_def m_def)
  moreover have "b \<noteq> 0" using B(1) by (simp add: bucket_ok_def)
  ultimately show ?thesis using t b(2) by (auto simp: m'_def m_def)
qed

end
