(* ===== verification/Kmfree.thy ===== *)
theory Kmfree
  imports Kmalloc
begin

text \<open>
  Freeing blocks of \<^verbatim>\<open>kmalloc\<close>: what \<^verbatim>\<open>kfree_s\<close> (\<^verbatim>\<open>lib/malloc.c\<close>) does to the free list of a page, to the chain of
  its descriptor and to the page itself; the blocks in use as a set, which do not overlap.
\<close>

section \<open>Freeing a block\<close>

definition put_block :: "u32 \<Rightarrow> u32 \<Rightarrow> memory \<Rightarrow> memory" where
  "put_block d b m0 =
     (let m = m0(b := bd_freeptr m0 d); m = m(d + 8 := b) in set_refcnt (bd_refcnt m d - 1) d m)"

lemma put_block_ok:
  assumes k: "kinv ds fl fd hs s" and i: "i < 9" "d \<in> set (ds i)"
    and b: "b \<in> blocks_of (ram s d) (bsz i)" "b \<notin> set (fl d)"
  shows "kinv ds (fl(d := b # fl d)) fd hs (s\<lparr>ram := put_block d b (ram s)\<rparr>)"
    "bd_refcnt (put_block d b (ram s)) d = of_nat (4096 div bsz i - Suc (length (fl d)))"
    "length (fl d) < 4096 div bsz i"
    "\<And>a. a \<notin> {b, d + 8, d + 12} \<Longrightarrow> put_block d b (ram s) a = ram s a"
proof -
  note K = kinvD [OF k] and d = in_chainsI [of i d ds, OF i]
  let ?z = "bsz i" and ?n = "4096 div bsz i" and ?fs = "fl d" and ?m = "(ram s)(b := ram s (d + 8), d + 8 := b)"
  have B: "bucket_ok (ram s) ?z d ?fs" "owned s (ram s d)" using K(8) [OF i] by auto
  have D: "desc_aligned d" using K(7) in_chains_all [OF d] by blast
  have pg: "page_of x = ram s d" if "x \<in> blocks_of (ram s d) ?z" for x by (rule kinv_block [OF k i that])
  have pd: "page_of (d + 8) \<noteq> ram s d" "page_of (d + 12) \<noteq> ram s d" "page_of d \<noteq> ram s d"
    using K(10) [OF d in_chains_all [OF d]] page_of_desc [OF D] by auto
  have ne: "b \<noteq> d + 8" "b \<noteq> d + 12" "b \<noteq> d" using pg [OF b(1)] pd by auto
  have "set (b # ?fs) \<subseteq> blocks_of (ram s d) ?z" "distinct (b # ?fs)" using B(1) b by (auto simp: bucket_ok_def)
  then have "length (b # ?fs) \<le> card (blocks_of (ram s d) ?z)" by (metis card_mono distinct_card finite_blocks)
  then show len: "length ?fs < ?n" using B(2) by (simp add: card_blocks owned_def)
  have w: "?m (d + 12) = desc_word (of_nat (?n - length ?fs)) ?z" using B(1) ne by (simp add: bucket_ok_def)
  have "Suc (?n - Suc (length ?fs)) = ?n - length ?fs" using len by simp
  then have r: "of_nat (?n - length ?fs) - 1 = (of_nat (?n - Suc (length ?fs)) :: u16)"
    by (metis add_diff_cancel_left' of_nat_Suc)
  have eq: "put_block d b (ram s) = ?m(d + 12 := desc_word (of_nat (?n - Suc (length ?fs))) ?z)"
    using set_refcnt_desc_word [of ?m d, OF w, of "of_nat (?n - length ?fs) - 1"] refcnt_desc_word [of ?m d, OF w] r
    by (simp add: put_block_def Let_def)
  let ?m' = "?m(d + 12 := desc_word (of_nat (?n - Suc (length ?fs))) ?z)"
  have "?m' x = ram s x" if "x \<in> set ?fs" for x
    using that B(1) pg [of x] pd b(2) by (auto simp: bucket_ok_def)
  then have "chain ?m' (ram s (d + 8)) ?fs" using B(1) pchain_cong [of "ram s" "ram s (d + 8)" ?fs ?m'] by (simp add: bucket_ok_def)
  moreover have "b \<noteq> 0" using blocks_nonzero [OF _ _ bsz_pos b(1)] B(2) by (simp add: owned_def)
  ultimately have "bucket_ok ?m' ?z d (b # ?fs)" using B(1) b ne by (simp add: bucket_ok_def)
  then show "kinv ds (fl(d := b # fl d)) fd hs (s\<lparr>ram := put_block d b (ram s)\<rparr>)"
    unfolding eq by (rule kinv_write [OF k i]) (use pg [OF b(1)] in auto)
  show "bd_refcnt (put_block d b (ram s)) d = of_nat (?n - Suc (length ?fs))"
    unfolding eq by (rule refcnt_desc_word) simp
  show "\<And>a. a \<notin> {b, d + 8, d + 12} \<Longrightarrow> put_block d b (ram s) a = ram s a" unfolding eq by simp
qed

section \<open>Unlinking a descriptor\<close>

lemma pchain_last: "chain f p (xs @ d # ys) \<Longrightarrow> xs \<noteq> [] \<Longrightarrow> f (last xs) = d"
  by (induction xs arbitrary: p) (auto split: if_splits)

lemma chain_head: "chain f p (xs @ d # ys) \<Longrightarrow> distinct (xs @ d # ys) \<Longrightarrow> p = d \<longleftrightarrow> xs = []"
  by (cases xs) auto

lemma chain_unlink:
  "chain f p (xs @ d # ys) \<Longrightarrow> distinct (xs @ d # ys) \<Longrightarrow> xs \<noteq> [] \<Longrightarrow> chain (f(last xs := f d)) p (xs @ ys)"
proof (induction xs arbitrary: p)
  case (Cons x xs)
  show ?case
  proof (cases "xs = []")
    case True
    then show ?thesis using Cons.prems chain_upd [of x ys f "f d" "f d"] by (simp add: fun_upd_def)
  next
    case False
    have "chain (f(last xs := f d)) (f x) (xs @ ys)" by (rule Cons.IH) (use Cons.prems False in auto)
    moreover have "x \<noteq> last xs" using Cons.prems(2) False last_in_set [of xs] by auto
    ultimately show ?thesis using Cons.prems False by (simp add: fun_upd_def)
  qed
qed simp

lemma chain_tail: "chain f p (d # ys) \<Longrightarrow> chain f (f d) ys"
  by simp

text \<open>The search for the descriptor of a page.\<close>

lemma find_page_found:
  assumes "chain (\<lambda>d. m (d + 4)) p (xs @ d # ys)" "\<forall>x\<in>set xs. m x \<noteq> page" "m d = page" "length xs < n"
  shows "find_page n m page prev p = Some (Some (if xs = [] then prev else last xs, d))"
  using assms
proof (induction xs arbitrary: p prev n)
  case Nil
  then show ?case by (cases n) auto
next
  case (Cons x xs)
  then obtain k where "n = Suc k" by (cases n) auto
  then show ?case using Cons.prems Cons.IH [of "m (x + 4)" k x] by auto
qed

lemma find_page_none:
  assumes "chain (\<lambda>d. m (d + 4)) p xs" "\<forall>x\<in>set xs. m x \<noteq> page" "length xs < n"
  shows "find_page n m page prev p = Some None"
  using assms
proof (induction xs arbitrary: p prev n)
  case Nil
  then show ?case by (cases n) auto
next
  case (Cons x xs)
  then obtain k where "n = Suc k" by (cases n) auto
  then show ?case using Cons.prems Cons.IH [of "m (x + 4)" k x] by auto
qed


lemma kinv_same_page:
  assumes "kinv ds fl fd hs s" "d \<in> in_chains ds" "e \<in> in_chains ds" "ram s d = ram s e"
  shows "d = e"
  using kinvD(9) [OF assms(1)] assms(2-4) by (auto simp: inj_on_def)

lemma find_bucket_at:
  assumes "i < length dir" "sz \<le> bd_size (dir ! i)" "\<forall>j\<le>i. bd_size (dir ! j) \<noteq> 0"
    and "\<forall>j<i. find_page fuel m page 0 (bd_chain (dir ! j)) = Some None"
    and "find_page fuel m page 0 (bd_chain (dir ! i)) = Some (Some (pv, d))"
  shows "k \<le> i \<Longrightarrow> find_bucket fuel m page sz k (drop k dir) = Some (Some (i, pv, d))"
proof (induction "i - k" arbitrary: k)
  case 0
  then show ?case using assms by (simp add: Cons_nth_drop_Suc [symmetric])
next
  case (Suc n)
  then have k: "k < i" "k < length dir" using assms(1) by auto
  then have "find_bucket fuel m page sz (Suc k) (drop (Suc k) dir) = Some (Some (i, pv, d))"
    using Suc.hyps(1) [of "Suc k"] Suc.hyps(2) by simp
  then show ?case using k assms(3,4) by (simp add: Cons_nth_drop_Suc [symmetric])
qed

text \<open>\<open>kfree_s\<close> finds the descriptor of a block, when the given size is not larger than the block.\<close>

lemma kfree_finds:
  assumes k: "kinv ds fl fd hs s" and i: "i < 9" and d: "ds i = xs @ d # ys"
    and b: "b \<in> blocks_of (ram s d) (bsz i)" and sz: "unat sz \<le> bsz i"
    and fuel: "\<forall>j<9. length (ds j) < fuel"
  shows "find_bucket fuel (ram s) (b AND PAGE_MASK) sz 0 (bucket_dir s) = Some (Some (i, if xs = [] then 0 else last xs, d))"
proof -
  note K = kinvD [OF k]
  have di: "d \<in> set (ds i)" by (simp add: d)
  note dc = in_chainsI [of i d ds, OF i di]
  have p: "b AND PAGE_MASK = ram s d" using kinv_block [OF k i di b] by (simp add: page_of_def)
  have other: "ram s e \<noteq> ram s d" if "j < 9" "e \<in> set (ds j)" "e \<noteq> d" for j e
    using kinv_same_page [OF k in_chainsI [of j e ds] dc] that by blast
  have size: "bd_size (bucket_dir s ! j) = of_nat (bsz j)" if "j < 9" for j by (rule dir_size [OF k that])
  have nz: "of_nat (bsz j) \<noteq> (0 :: u32)" "unat (of_nat (bsz j) :: u32) = bsz j" if "j < 9" for j using bsz_cases [OF that] by auto
  have "distinct (ds i)" using K(6) i by (simp add: descs_distinct_def)
  then have nx: "d \<notin> set xs" by (simp add: d)
  have "find_page fuel (ram s) (ram s d) 0 (bd_chain (bucket_dir s ! i)) = Some (Some (if xs = [] then 0 else last xs, d))"
    using K(4) [OF i] other [OF i] nx fuel [rule_format, OF i] unfolding d by (intro find_page_found) auto
  moreover have "find_page fuel (ram s) (ram s d) 0 (bd_chain (bucket_dir s ! j)) = Some None" if "j < i" for j
  proof (rule find_page_none)
    have j: "j < 9" using that i by simp
    show "chain (\<lambda>d. ram s (d + 4)) (bd_chain (bucket_dir s ! j)) (ds j)" by (rule K(4) [OF j])
    have "d \<notin> set (ds j)" using K(6) i di j that unfolding descs_distinct_def by blast
    then show "\<forall>x\<in>set (ds j). ram s x \<noteq> ram s d" using other [OF j] by metis
    show "length (ds j) < fuel" using fuel j by blast
  qed
  ultimately show ?thesis
    unfolding p using find_bucket_at [of i "bucket_dir s" sz fuel "ram s" "ram s d" _ d 0] i K(3) size nz sz
    by (simp add: word_le_nat_alt)
qed


section \<open>Giving a page back\<close>

lemma owned_mono: "owned s p \<Longrightarrow> high_memory s' = high_memory s \<Longrightarrow> mem_map s' (MAP_NR p) = mem_map s (MAP_NR p) \<Longrightarrow> owned s' p"
  by (simp add: owned_def)

lemma pages_ok_cong:
  assumes "pages_ok s" "\<forall>p\<in>free_pages s. ram t p = ram s p" "high_memory t = high_memory s" "mem_map t = mem_map s"
    "free_page_list t = free_page_list s" "nr_free_pages t = nr_free_pages s"
    "secondary_page_list t = secondary_page_list s" "nr_secondary_pages t = nr_secondary_pages s"
  shows "pages_ok t"
proof -
  obtain fs ss where l: "page_lists s fs ss" using assms(1) by (auto simp: pages_ok_def)
  moreover have "free_pages t = free_pages s" using assms(3,4) by (simp add: free_pages_def)
  moreover have "chain (ram t) (free_page_list s) fs" "chain (ram t) (secondary_page_list s) ss"
    using l assms(2) pchain_cong [of "ram s" _ _ "ram t"] unfolding page_lists_def by (metis Un_iff set_append)+
  ultimately have "page_lists t fs ss" using assms(2-) by (auto simp: page_lists_def)
  then show ?thesis by (auto simp: pages_ok_def)
qed

lemma kmem_more: "mm.more (t :: kmem) = mm.more u \<Longrightarrow> bucket_dir t = bucket_dir u \<and> free_bucket_desc t = free_bucket_desc u"
  by (cases t; cases u) simp

text \<open>The memory after \<open>drop_bucket\<close> up to the release of the page.\<close>

definition unlinked :: "nat \<Rightarrow> u32 list \<Rightarrow> u32 \<Rightarrow> kmem \<Rightarrow> kmem" where
  "unlinked i xs d s =
     (let s = (if xs = [] then set_chain i (bd_next (ram s) d) s
               else s\<lparr>ram := (ram s)(last xs + 4 := bd_next (ram s) d)\<rparr>)
      in s\<lparr>ram := (ram s)(d + 4 := free_bucket_desc s), free_bucket_desc := d\<rparr>)"

lemma drop_bucket_eq:
  assumes k: "kinv ds fl fd hs s" and i: "i < 9" and d: "ds i = xs @ d # ys"
  shows "drop_bucket fuel i (if xs = [] then 0 else last xs) d s = Some (free_page (ram s d) (unlinked i xs d s))"
proof -
  note K = kinvD [OF k]
  note c = K(4) [OF i, unfolded d]
  have dist: "distinct (xs @ d # ys)" using K(6) i unfolding d [symmetric] by (simp add: descs_distinct_def)
  have D: "desc_aligned d" "d \<noteq> 0" using K(7) in_chains_all [OF in_chainsI [of i d ds, OF i]] d by auto
  show ?thesis
  proof (cases "xs = []")
    case True
    then have "bd_chain (bucket_dir s ! i) = d" using c by simp
    then show ?thesis using True by (simp add: drop_bucket_def unlinked_def set_chain_def Let_def)
  next
    case False
    let ?l = "last xs"
    have l: "?l \<in> set xs" using False by simp
    then have L: "?l \<noteq> 0" "desc_aligned ?l" "?l \<noteq> d"
      using K(7) in_chains_all [OF in_chainsI [of i ?l ds, OF i]] d dist by auto
    have "ram s (?l + 4) = d" using pchain_last [OF c False] .
    then show ?thesis
      using False L D desc_sep_num [OF D(1) L(2)] by (simp add: drop_bucket_def unlinked_def Let_def)
  qed
qed

lemma unlinked_simps [simp]:
  "high_memory (unlinked i xs d s) = high_memory s" "mem_map (unlinked i xs d s) = mem_map s"
  "free_page_list (unlinked i xs d s) = free_page_list s" "nr_free_pages (unlinked i xs d s) = nr_free_pages s"
  "secondary_page_list (unlinked i xs d s) = secondary_page_list s"
  "nr_secondary_pages (unlinked i xs d s) = nr_secondary_pages s"
  "free_bucket_desc (unlinked i xs d s) = d" "free_pages (unlinked i xs d s) = free_pages s"
  "map bd_size (bucket_dir (unlinked i xs d s)) = map bd_size (bucket_dir s)"
  by (simp_all add: unlinked_def set_chain_def Let_def free_pages_def map_update)
     (metis list_update_id map_update nth_map)


text \<open>What the memory and the tables are after \<open>drop_bucket\<close>.\<close>

lemma kinv_desc:
  assumes "kinv ds fl fd hs s" "e \<in> all_descs ds fd hs"
  shows "desc_aligned e" "e \<noteq> 0" "owned s (page_of e)" "page_of (e + 4) = page_of e"
    "\<And>d. d \<in> in_chains ds \<Longrightarrow> page_of (e + 4) \<noteq> ram s d" "\<And>q. q \<in> free_pages s \<Longrightarrow> q \<noteq> e + 4"
proof -
  note K = kinvD(7) [OF assms]
  show "desc_aligned e" "e \<noteq> 0" "owned s (page_of e)" using K by auto
  then show p: "page_of (e + 4) = page_of e" using page_of_desc by blast
  show "\<And>d. d \<in> in_chains ds \<Longrightarrow> page_of (e + 4) \<noteq> ram s d" using p kinvD(10) [OF assms(1) _ assms(2)] by metis
  show "\<And>q. q \<in> free_pages s \<Longrightarrow> q \<noteq> e + 4" using K p owned_not_free free_page_of by metis
qed

definition dropped :: "nat \<Rightarrow> u32 list \<Rightarrow> u32 \<Rightarrow> kmem \<Rightarrow> kmem" where
  "dropped i xs d s = free_page (ram s d) (unlinked i xs d s)"

lemma dropped_facts:
  assumes k: "kinv ds fl fd hs s" and i: "i < 9" and d: "ds i = xs @ d # ys"
  shows "pages_ok (dropped i xs d s)" "high_memory (dropped i xs d s) = high_memory s"
    "mem_map (dropped i xs d s) = (mem_map s)(MAP_NR (ram s d) := 0)"
    "bucket_dir (dropped i xs d s) = bucket_dir (unlinked i xs d s)" "free_bucket_desc (dropped i xs d s) = d"
    "\<And>a. a \<noteq> ram s d \<Longrightarrow> ram (dropped i xs d s) a = ram (unlinked i xs d s) a"
proof -
  let ?u = "unlinked i xs d s" and ?p = "ram s d"
  have all: "e \<in> all_descs ds fd hs" if "e \<in> set (ds i)" for e using in_chains_all [OF in_chainsI [of i e ds, OF i that]] .
  have "ram ?u q = ram s q" if q: "q \<in> free_pages s" for q
    using all [of d] all [of "last xs"] kinv_desc(6) [OF k _ q] d by (auto simp: unlinked_def set_chain_def Let_def)
  then have up: "pages_ok ?u" by (intro pages_ok_cong [OF kinvD(1) [OF k]]) simp_all
  have pp: "page_aligned ?p" "?p < high_memory ?u" "?p \<noteq> 0" "mem_map ?u (MAP_NR ?p) = 1" "page_of ?p = ?p"
    using kinvD(8) [OF k i, of d] d by (auto simp: owned_def page_of_id)
  note F = free_page_last [OF up pp(2,4)]
  then show "pages_ok (dropped i xs d s)" "high_memory (dropped i xs d s) = high_memory s"
    "mem_map (dropped i xs d s) = (mem_map s)(MAP_NR ?p := 0)"
    "\<And>a. a \<noteq> ?p \<Longrightarrow> ram (dropped i xs d s) a = ram ?u a"
    using pp(3,5) unfolding dropped_def by auto
  have "mm.more (dropped i xs d s) = mm.more ?u" using F pp(3,5) unfolding dropped_def by simp
  from kmem_more [OF this] show "bucket_dir (dropped i xs d s) = bucket_dir ?u" "free_bucket_desc (dropped i xs d s) = d" by simp_all
qed

lemma dropped_ram:
  assumes k: "kinv ds fl fd hs s" and i: "i < 9" and d: "ds i = xs @ d # ys"
  shows "page_of a \<noteq> ram s d \<Longrightarrow> \<forall>e\<in>set (ds i). a \<noteq> e + 4 \<Longrightarrow> ram (dropped i xs d s) a = ram s a"
    and "e \<in> all_descs ds fd hs \<Longrightarrow>
      ram (dropped i xs d s) (e + 4) =
        (if e = d then free_bucket_desc s else if xs \<noteq> [] \<and> e = last xs then ram s (d + 4) else ram s (e + 4))"
    and "e \<in> all_descs ds fd hs \<Longrightarrow> a \<in> {e, e + 8, e + 12} \<Longrightarrow> ram (dropped i xs d s) a = ram s a"
proof -
  have di: "d \<in> set (ds i)" by (simp add: d)
  note dc = in_chainsI [of i d ds, OF i di]
  have all: "e \<in> all_descs ds fd hs" if "e \<in> set (ds i)" for e using in_chains_all [OF in_chainsI [of i e ds, OF i that]] .
  have p: "page_of (ram s d) = ram s d" using kinvD(8) [OF k i di] by (auto simp: owned_def page_of_id)
  show fr: "ram (dropped i xs d s) a = ram s a" if "page_of a \<noteq> ram s d" "\<forall>e\<in>set (ds i). a \<noteq> e + 4" for a
  proof -
    have "a \<noteq> ram s d" using that(1) p by auto
    moreover have "a \<noteq> d + 4" "xs \<noteq> [] \<Longrightarrow> a \<noteq> last xs + 4" using that(2) di d by auto
    ultimately show ?thesis using dropped_facts(6) [OF k i d, of a] by (auto simp: unlinked_def set_chain_def Let_def)
  qed
  show "ram (dropped i xs d s) (e + 4) =
      (if e = d then free_bucket_desc s else if xs \<noteq> [] \<and> e = last xs then ram s (d + 4) else ram s (e + 4))"
    if "e \<in> all_descs ds fd hs" for e
  proof -
    have "e + 4 \<noteq> ram s d" using kinv_desc(5) [OF k that dc] p by metis
    then show ?thesis using dropped_facts(6) [OF k i d, of "e + 4"] by (auto simp: unlinked_def set_chain_def Let_def)
  qed
  show "ram (dropped i xs d s) a = ram s a" if e: "e \<in> all_descs ds fd hs" "a \<in> {e, e + 8, e + 12}" for a e
  proof (rule fr)
    show "page_of a \<noteq> ram s d"
      using e kinvD(10) [OF k dc e(1)] page_of_desc [OF kinv_desc(1) [OF k e(1)]] by auto
    have "a \<noteq> e' + 4" if "e' \<in> set (ds i)" for e'
      using desc_sep_num [OF kinv_desc(1) [OF k e(1)] kinv_desc(1) [OF k all [OF that]]] e(2) by (cases "e = e'") auto
    then show "\<forall>e'\<in>set (ds i). a \<noteq> e' + 4" by blast
  qed
qed

lemma dropped_chains:
  assumes k: "kinv ds fl fd hs s" and i: "i < 9" and d: "ds i = xs @ d # ys"
  defines "t \<equiv> dropped i xs d s"
  shows "j < 9 \<Longrightarrow> chain (\<lambda>e. ram t (e + 4)) (bd_chain (bucket_dir t ! j)) ((ds(i := xs @ ys)) j)"
    "chain (\<lambda>e. ram t (e + 4)) (free_bucket_desc t) (d # fd)"
proof -
  note K = kinvD [OF k] and link = dropped_ram(2) [OF k i d, folded t_def]
  note bd = dropped_facts(4) [OF k i d, folded t_def] and fd = dropped_facts(5) [OF k i d, folded t_def]
  note c = K(4) [OF i, unfolded d]
  have dist: "distinct (xs @ d # ys)" using K(6) i unfolding d [symmetric] by (simp add: descs_distinct_def)
  have di: "d \<in> set (ds i)" and last: "xs \<noteq> [] \<Longrightarrow> last xs \<in> set (ds i)" by (simp_all add: d)
  have all: "e \<in> all_descs ds fd hs" if "j < 9" "e \<in> set (ds j)" for e j using in_chains_all [OF in_chainsI [of j e ds, OF that]] .
  show "chain (\<lambda>e. ram t (e + 4)) (bd_chain (bucket_dir t ! j)) ((ds(i := xs @ ys)) j)" if j: "j < 9" for j
  proof (cases "j = i")
    case True
    show ?thesis
    proof (cases "xs = []")
      case nil: True
      have "chain (\<lambda>e. ram s (e + 4)) (ram s (d + 4)) ys" using c nil by simp
      then have "chain (\<lambda>e. ram t (e + 4)) (ram s (d + 4)) ys"
        by (rule pchain_cong) (use link all [OF i] dist nil d in auto)
      then show ?thesis using True nil i K(3) by (simp add: bd unlinked_def set_chain_def Let_def)
    next
      case False
      have "chain (\<lambda>e. ram t (e + 4)) (bd_chain (bucket_dir s ! i)) (xs @ ys)"
        by (rule pchain_cong [OF chain_unlink [OF c dist False]]) (use link all [OF i] dist False d in auto)
      then show ?thesis using True False by (simp add: bd unlinked_def Let_def)
    qed
  next
    case False
    have "e \<noteq> d" "xs \<noteq> [] \<Longrightarrow> e \<noteq> last xs" if "e \<in> set (ds j)" for e
      using that False i j di last K(6) unfolding descs_distinct_def by blast+
    then have "chain (\<lambda>e. ram t (e + 4)) (bd_chain (bucket_dir s ! j)) (ds j)"
      by (intro pchain_cong [OF K(4) [OF j]]) (use link all [OF j] in auto)
    then show ?thesis using False by (auto simp: bd unlinked_def set_chain_def Let_def)
  qed
  have "e \<noteq> d" "xs \<noteq> [] \<Longrightarrow> e \<noteq> last xs" if "e \<in> set fd" for e
    using that di last in_chainsI [of i _ ds, OF i] K(6) unfolding descs_distinct_def set_append by blast+
  then have "chain (\<lambda>e. ram t (e + 4)) (free_bucket_desc s) fd"
    by (intro pchain_cong [OF K(5)]) (use link in \<open>auto simp: all_descs_def\<close>)
  then show "chain (\<lambda>e. ram t (e + 4)) (free_bucket_desc t) (d # fd)"
    using link [OF all [OF i di]] kinv_desc(2) [OF k all [OF i di]] by (simp add: fd)
qed

lemma dropped_bucket:
  assumes k: "kinv ds fl fd hs s" and i: "i < 9" and d: "ds i = xs @ d # ys" and j: "j < 9" "e \<in> set (ds j)" "e \<noteq> d"
  defines "t \<equiv> dropped i xs d s"
  shows "bucket_ok (ram t) (bsz j) e (fl e)" "ram t e = ram s e" "ram s e \<noteq> ram s d"
proof -
  note ec = in_chainsI [of j e ds, OF j(1,2)] and dc = in_chainsI [of i d ds, OF i]
  show ne: "ram s e \<noteq> ram s d" using kinv_same_page [OF k ec dc] j(3) d by auto
  note desc = dropped_ram(3) [OF k i d in_chains_all [OF ec], folded t_def]
  have "ram t b = ram s b" if "b \<in> set (fl e)" for b
    unfolding t_def
  proof (rule dropped_ram(1) [OF k i d])
    have p: "page_of b = ram s e" by (rule kinv_free_block [OF k j(1,2) that])
    then show "page_of b \<noteq> ram s d" using ne by simp
    show "\<forall>e'\<in>set (ds i). b \<noteq> e' + 4"
      using p kinv_desc(5) [OF k _ ec] in_chains_all [OF in_chainsI [of i _ ds, OF i]] by metis
  qed
  then show "bucket_ok (ram t) (bsz j) e (fl e)"
    using bucket_ok_cong [of "ram s" "bsz j" e "fl e" "ram t"] kinvD(8) [OF k j(1,2)] desc by auto
  show "ram t e = ram s e" using desc by simp
qed

lemma in_chains_drop:
  assumes "i < 9" "ds i = xs @ d # ys"
  shows "in_chains ds = insert d (in_chains (ds(i := xs @ ys)))"
proof -
  have "(\<Union>j<9. set ((ds(i := xs @ ys)) j)) = (\<Union>j\<in>{..<9} - {i}. set (ds j)) \<union> set (xs @ ys)"
    using assms(1) by (auto split: if_splits)
  moreover have "(\<Union>j<9. set (ds j)) = (\<Union>j\<in>{..<9} - {i}. set (ds j)) \<union> set (ds i)" using assms(1) by auto
  ultimately show ?thesis using assms(2) by (auto simp: in_chains_def)
qed

lemma descs_distinct_drop:
  assumes k: "descs_distinct ds fd hs" and i: "i < 9" and d: "ds i = xs @ d # ys"
  shows "descs_distinct (ds(i := xs @ ys)) (d # fd) hs"
proof -
  let ?ds = "ds(i := xs @ ys)"
  have dist: "distinct (xs @ d # ys)" using k i unfolding d [symmetric] by (simp add: descs_distinct_def)
  have sub: "set (?ds j) \<subseteq> set (ds j)" "j < 9 \<Longrightarrow> d \<notin> set (?ds j)" for j
    using dist d k i unfolding descs_distinct_def by (cases "j = i"; auto)+
  have "d \<notin> in_chains ?ds" using sub(2) by (auto simp: in_chains_def)
  moreover have "in_chains ds \<inter> set (fd @ hs) = {}" "distinct (fd @ hs)" using k by (simp_all add: descs_distinct_def)
  moreover note in_chains_drop [of i ds, OF i d]
  moreover have "set (?ds j) \<inter> set (?ds l) = {}" if "j < 9" "l < 9" "j \<noteq> l" for j l
    using sub(1) [of j] sub(1) [of l] k that unfolding descs_distinct_def by blast
  moreover have "distinct (?ds j)" if "j < 9" for j using dist k that by (simp add: descs_distinct_def)
  ultimately show ?thesis unfolding descs_distinct_def by auto
qed

lemma drop_bucket_ok:
  assumes k: "kinv ds fl fd hs s" and i: "i < 9" and d: "ds i = xs @ d # ys"
  shows "kinv (ds(i := xs @ ys)) fl (d # fd) hs (dropped i xs d s)"
proof -
  let ?t = "dropped i xs d s" and ?ds = "ds(i := xs @ ys)"
  note K = kinvD [OF k] and F = dropped_facts [OF k i d]
  have dc: "d \<in> in_chains ds" using in_chainsI [of i d ds, OF i] d by simp
  have dist: "distinct (xs @ d # ys)" using K(6) i unfolding d [symmetric] by (simp add: descs_distinct_def)
  have all: "all_descs ?ds (d # fd) hs = all_descs ds fd hs" using in_chains_drop [of i ds, OF i d] by (auto simp: all_descs_def)
  have sub: "set (?ds j) \<subseteq> set (ds j) - {d}" if "j < 9" for j
    using dist d that K(6) i unfolding descs_distinct_def by (cases "j = i") auto
  then have ic: "in_chains ?ds \<subseteq> in_chains ds - {d}" by (force simp: in_chains_def)
  have own: "owned ?t q" if "owned s q" "q \<noteq> ram s d" for q
    using that F(2,3) MAP_NR_inj [of q "ram s d"] K(8) [OF i, of d] d by (auto simp: owned_def)
  have bk: "bucket_ok (ram ?t) (bsz j) e (fl e) \<and> owned ?t (ram ?t e)" if "j < 9" "e \<in> set (?ds j)" for j e
  proof -
    have e: "e \<in> set (ds j)" "e \<noteq> d" using sub [OF that(1)] that(2) by auto
    show ?thesis using dropped_bucket [OF k i d that(1) e] own K(8) [OF that(1) e(1)] by auto
  qed
  have same: "ram ?t e = ram s e" if "e \<in> in_chains ds" for e using dropped_ram(3) [OF k i d in_chains_all [OF that]] by simp
  note dd = descs_distinct_drop [OF K(6) i d]
  show ?thesis
    unfolding kinv_def all
  proof (intro conjI)
    show "map bd_size (bucket_dir ?t) = dir_sizes" using F(4) K(2) by simp
    show "\<forall>e\<in>all_descs ds fd hs. e \<noteq> 0 \<and> desc_aligned e \<and> owned ?t (page_of e)"
      using kinv_desc(1-3) [OF k] own K(10) [OF dc] by metis
    show "inj_on (ram ?t) (in_chains ?ds)" using K(9) ic same unfolding inj_on_def by (metis DiffD1 subsetD)
    show "\<forall>e\<in>in_chains ?ds. \<forall>e'\<in>all_descs ds fd hs. ram ?t e \<noteq> page_of e'" using K(10) ic same by auto
  qed (use F(1) dropped_chains [OF k i d] dd bk in auto)
qed

section \<open>Blocks in use\<close>

definition blocks_in_use :: "(nat \<Rightarrow> u32 list) \<Rightarrow> (u32 \<Rightarrow> u32 list) \<Rightarrow> memory \<Rightarrow> (u32 \<times> nat) set" where
  "blocks_in_use ds fl m = {(b, bsz i) |b i d. i < 9 \<and> d \<in> set (ds i) \<and> b \<in> blocks_of (m d) (bsz i) \<and> b \<notin> set (fl d)}"

definition live :: "kmem \<Rightarrow> (u32 \<times> nat) set" where
  "live s = {x. \<exists>ds fl fd hs. kinv ds fl fd hs s \<and> x \<in> blocks_in_use ds fl (ram s)}"

text \<open>A consistent allocator: every page with a descriptor in a chain has a block in use.\<close>

definition kmem_ok :: "u32 list \<Rightarrow> kmem \<Rightarrow> bool" where
  "kmem_ok hs s \<longleftrightarrow>
     (\<exists>ds fl fd. kinv ds fl fd hs s \<and> (\<forall>i<9. \<forall>d\<in>set (ds i). length (fl d) < 4096 div bsz i))"

lemma kinv_unique:
  assumes "kinv ds fl fd hs s" "kinv ds' fl' fd' hs' s"
  shows "i < 9 \<Longrightarrow> ds' i = ds i" "i < 9 \<Longrightarrow> d \<in> set (ds i) \<Longrightarrow> fl' d = fl d"
proof -
  show eq: "ds' i = ds i" if "i < 9" for i using chain_unique kinvD(4) [OF assms(1) that] kinvD(4) [OF assms(2) that] by blast
  show "fl' d = fl d" if "i < 9" "d \<in> set (ds i)"
    using chain_unique kinvD(8) [OF assms(1) that] kinvD(8) [OF assms(2) that(1), of d] eq [OF that(1)] that(2)
    unfolding bucket_ok_def by metis
qed

lemma live_eq:
  assumes "kinv ds fl fd hs s"
  shows "live s = blocks_in_use ds fl (ram s)"
proof -
  have "blocks_in_use ds' fl' (ram s) = blocks_in_use ds fl (ram s)" if "kinv ds' fl' fd' hs' s" for ds' fl' fd' hs'
    using kinv_unique [OF assms that] unfolding blocks_in_use_def by (intro Collect_cong) metis
  then show ?thesis using assms unfolding live_def by blast
qed

text \<open>Two blocks in use do not overlap, and lie in pages the allocator owns.\<close>

definition extent :: "u32 \<times> nat \<Rightarrow> u32 set" where
  "extent x = (\<lambda>j. fst x + of_nat j) ` {..<snd x}"

lemma extent_block:
  assumes "page_aligned p" "0 < z" "k < 4096 div z"
  shows "extent (block p z k, z) = {a. page_of a = p \<and> (unat a - unat p) div z = k}"
proof (intro set_eqI iffI)
  fix a assume "a \<in> extent (block p z k, z)"
  then obtain j where j: "a = p + of_nat (k * z + j)" "j < z" by (auto simp: extent_def block_def add.assoc)
  have "k * z + j < 4096" using block_offset [OF assms(3)] j(2) by linarith
  then show "a \<in> {a. page_of a = p \<and> (unat a - unat p) div z = k}"
    using page_of_in_page [OF assms(1)] unat_in_page [OF assms(1)] j by (simp del: of_nat_add)
next
  fix a assume "a \<in> {a. page_of a = p \<and> (unat a - unat p) div z = k}"
  then have a: "page_of a = p" "(unat a - unat p) div z = k" by auto
  define j where "j = (unat a - unat p) mod z"
  have "p \<le> a" using page_of_le [of a] a(1) by simp
  moreover have "unat a - unat p = k * z + j" using a(2) div_mult_mod_eq [of "unat a - unat p" z] by (simp add: j_def)
  ultimately have "unat a = unat p + (k * z + j)" by (simp add: word_le_nat_alt)
  then have "of_nat (unat a) = (of_nat (unat p + (k * z + j)) :: u32)" by (simp only:)
  then have "a = block p z k + of_nat j" by (simp add: block_def add.assoc)
  moreover have "j < z" using assms(2) by (simp add: j_def)
  ultimately show "a \<in> extent (block p z k, z)" by (auto simp: extent_def)
qed

lemma extent_page: "page_aligned p \<Longrightarrow> 0 < z \<Longrightarrow> b \<in> blocks_of p z \<Longrightarrow> a \<in> extent (b, z) \<Longrightarrow> page_of a = p"
  using extent_block by (auto simp: blocks_of_def)

lemma extent_disjoint:
  "page_aligned p \<Longrightarrow> 0 < z \<Longrightarrow> b \<in> blocks_of p z \<Longrightarrow> c \<in> blocks_of p z \<Longrightarrow> b \<noteq> c \<Longrightarrow> extent (b, z) \<inter> extent (c, z) = {}"
  using extent_block by (auto simp: blocks_of_def)

lemma self_extent: "0 < z \<Longrightarrow> b \<in> extent (b, z)"
  by (force simp: extent_def)

lemma live_owner:
  assumes "kinv ds fl fd hs s" "x \<in> live s"
  obtains b i d where "x = (b, bsz i)" "i < 9" "d \<in> set (ds i)" "b \<in> blocks_of (ram s d) (bsz i)" "b \<notin> set (fl d)"
    "owned s (ram s d)" "d \<in> in_chains ds"
  using assms(2) kinvD(8) [OF assms(1)] unfolding live_eq [OF assms(1)] blocks_in_use_def by (auto intro: in_chainsI)

lemma live_page:
  assumes "kinv ds fl fd hs s" "i < 9" "d \<in> set (ds i)" "b \<in> blocks_of (ram s d) (bsz i)" "a \<in> extent (b, bsz i)"
  shows "page_of a = ram s d"
  using extent_page [OF _ bsz_pos assms(4,5)] kinvD(8) [OF assms(1-3)] by (simp add: owned_def)

lemma live_disjoint:
  assumes "kinv ds fl fd hs s" "x \<in> live s" "y \<in> live s" "x \<noteq> y"
  shows "extent x \<inter> extent y = {}"
proof -
  obtain b i d where x: "x = (b, bsz i)" "i < 9" "d \<in> set (ds i)" "b \<in> blocks_of (ram s d) (bsz i)" "owned s (ram s d)" "d \<in> in_chains ds"
    using live_owner [OF assms(1,2)] by metis
  obtain c j e where y: "y = (c, bsz j)" "j < 9" "e \<in> set (ds j)" "c \<in> blocks_of (ram s e) (bsz j)" "e \<in> in_chains ds"
    using live_owner [OF assms(1,3)] by metis
  show ?thesis
  proof (cases "d = e")
    case True
    then have "i = j" using x y kinvD(6) [OF assms(1)] unfolding descs_distinct_def by blast
    then show ?thesis using extent_disjoint [OF _ bsz_pos, of "ram s d" b i c] x y True assms(4) by (auto simp: owned_def)
  next
    case False
    then have "ram s d \<noteq> ram s e" using kinv_same_page [OF assms(1) x(6) y(5)] by blast
    then show ?thesis
      using live_page [OF assms(1) x(2-4)] live_page [OF assms(1) y(2-4)] x(1) y(1) by fastforce
  qed
qed


definition keeps :: "(u32 \<times> nat) set \<Rightarrow> kmem \<Rightarrow> kmem \<Rightarrow> bool" where
  "keeps X s s' \<longleftrightarrow> (\<forall>x\<in>X. \<forall>a\<in>extent x. ram s' a = ram s a)"

text \<open>No descriptor lies in a block in use.\<close>

lemma live_not_desc:
  assumes "kinv ds fl fd hs s" "x \<in> live s" "a \<in> extent x" "e \<in> all_descs ds fd hs"
  shows "a \<notin> {e, e + 4, e + 8, e + 12}"
proof -
  obtain b i d where x: "x = (b, bsz i)" "i < 9" "d \<in> set (ds i)" "b \<in> blocks_of (ram s d) (bsz i)" "d \<in> in_chains ds"
    using live_owner [OF assms(1,2)] by metis
  have "page_of a = ram s d" using live_page [OF assms(1) x(2-4)] assms(3) x(1) by simp
  then show ?thesis
    using kinvD(10) [OF assms(1) x(5) assms(4)] page_of_desc [OF kinv_desc(1) [OF assms(1,4)]] by auto
qed

lemma chain_pages_bounded:
  assumes "kinv ds fl fd hs s" "i < 9"
  shows "length (ds i) < 2 ^ 20"
proof -
  have o: "owned s (ram s d)" if "d \<in> set (ds i)" for d using kinvD(8) [OF assms that] by blast
  have "inj_on (MAP_NR \<circ> ram s) (set (ds i))"
    using kinvD(9) [OF assms(1)] o in_chainsI [of i _ ds, OF assms(2)]
    unfolding inj_on_def comp_def owned_def by (metis MAP_NR_inj)
  moreover have "(MAP_NR \<circ> ram s) ` set (ds i) \<subseteq> {1..<2 ^ 20}"
    using o MAP_NR_bound MAP_NR_nonzero unfolding owned_def by (fastforce simp: Suc_le_eq)
  ultimately have "card (set (ds i)) \<le> card {1..<2 ^ 20 :: nat}" by (meson card_inj_on_le finite_atLeastLessThan)
  moreover have "card (set (ds i)) = length (ds i)"
    using kinvD(6) [OF assms(1)] assms(2) by (simp add: descs_distinct_def distinct_card)
  ultimately show ?thesis by simp
qed

lemma live_put:
  assumes k: "kinv ds fl fd hs s" and i: "i < 9" "d \<in> set (ds i)"
    and b: "b \<in> blocks_of (ram s d) (bsz i)" "b \<notin> set (fl d)"
  defines "t \<equiv> s\<lparr>ram := put_block d b (ram s)\<rparr>"
  shows "live t = live s - {(b, bsz i)}" "keeps (live s - {(b, bsz i)}) s t"
proof -
  note P = put_block_ok [OF k i b, folded t_def]
  note dc = in_chainsI [of i d ds, OF i]
  have bp: "page_of b = ram s d" by (rule kinv_block [OF k i b(1)])
  have ram: "put_block d b (ram s) e = ram s e" if "e \<in> in_chains ds" for e
  proof (rule P(4))
    have "e \<noteq> b" using bp kinvD(10) [OF k dc in_chains_all [OF that]] by metis
    then show "e \<notin> {b, d + 8, d + 12}"
      using desc_sep_num [OF kinv_desc(1) [OF k in_chains_all [OF that]] kinv_desc(1) [OF k in_chains_all [OF dc]]]
      by (cases "e = d") auto
  qed
  have one: "e = d" if "j < 9" "e \<in> set (ds j)" "b \<in> blocks_of (ram s e) (bsz j)" for j e
    using kinv_block [OF k that] bp kinv_same_page [OF k in_chainsI [of j e ds, OF that(1,2)] dc] by simp
  have "blocks_in_use ds (fl(d := b # fl d)) (ram t) = blocks_in_use ds fl (ram s) - {(b, bsz i)}"
  proof (intro set_eqI iffI)
    fix x assume "x \<in> blocks_in_use ds (fl(d := b # fl d)) (ram t)"
    then obtain c j e where y: "x = (c, bsz j)" "j < 9" "e \<in> set (ds j)" "c \<in> blocks_of (ram t e) (bsz j)" "c \<notin> set ((fl(d := b # fl d)) e)"
      unfolding blocks_in_use_def by blast
    have "ram t e = ram s e" using ram [OF in_chainsI [of j e ds, OF y(2,3)]] by (simp add: t_def)
    then have x: "x = (c, bsz j)" "j < 9" "e \<in> set (ds j)" "c \<in> blocks_of (ram s e) (bsz j)" using y by simp_all
    have "c \<notin> set (fl e)" using y(5) by (simp split: if_splits)
    moreover have "c \<noteq> b" using y(5) one [OF x(2,3)] x(4) by (cases "e = d") auto
    ultimately show "x \<in> blocks_in_use ds fl (ram s) - {(b, bsz i)}" using x(1-4) unfolding blocks_in_use_def by blast
  next
    fix x assume "x \<in> blocks_in_use ds fl (ram s) - {(b, bsz i)}"
    then obtain c j e where x: "x = (c, bsz j)" "j < 9" "e \<in> set (ds j)" "c \<in> blocks_of (ram s e) (bsz j)" "c \<notin> set (fl e)"
      "x \<noteq> (b, bsz i)" unfolding blocks_in_use_def by auto
    moreover have "j = i" if "e = d" using x(2,3) i that kinvD(6) [OF k] unfolding descs_distinct_def by blast
    ultimately have c: "c \<notin> set ((fl(d := b # fl d)) e)" by auto
    have "ram t e = ram s e" using ram [OF in_chainsI [of j e ds, OF x(2,3)]] by (simp add: t_def)
    then have "c \<in> blocks_of (ram t e) (bsz j)" using x(4) by simp
    then show "x \<in> blocks_in_use ds (fl(d := b # fl d)) (ram t)" using x(1-3) c unfolding blocks_in_use_def by blast
  qed
  then show "live t = live s - {(b, bsz i)}" unfolding live_eq [OF k] live_eq [OF P(1)] .
  have "put_block d b (ram s) a = ram s a" if x: "x \<in> live s - {(b, bsz i)}" "a \<in> extent x" for x a
  proof (rule P(4))
    have "(b, bsz i) \<in> live s" unfolding live_eq [OF k] blocks_in_use_def using i b by blast
    then have "a \<noteq> b" using live_disjoint [OF k, of x "(b, bsz i)"] x self_extent [OF bsz_pos, of b i] by auto
    then show "a \<notin> {b, d + 8, d + 12}" using live_not_desc [OF k _ x(2) in_chains_all [OF dc]] x(1) by auto
  qed
  then show "keeps (live s - {(b, bsz i)}) s t" unfolding keeps_def t_def by auto
qed

lemma live_drop:
  assumes k: "kinv ds fl fd hs s" and i: "i < 9" and d: "ds i = xs @ d # ys" and full: "length (fl d) = 4096 div bsz i"
  shows "live (dropped i xs d s) = live s" "keeps (live s) s (dropped i xs d s)"
proof -
  let ?t = "dropped i xs d s" and ?ds = "ds(i := xs @ ys)"
  note K = kinvD [OF k] and k' = drop_bucket_ok [OF k i d]
  have di: "d \<in> set (ds i)" by (simp add: d)
  note dc = in_chainsI [of i d ds, OF i di]
  have B: "bucket_ok (ram s) (bsz i) d (fl d)" "owned s (ram s d)" using K(8) [OF i di] by auto
  have "card (set (fl d)) = card (blocks_of (ram s d) (bsz i))"
    using B full by (simp add: bucket_ok_def distinct_card card_blocks owned_def)
  then have all: "blocks_of (ram s d) (bsz i) = set (fl d)" using B(1) by (intro card_subset_eq [symmetric]) (auto simp: bucket_ok_def)
  have nd: "e \<noteq> d" if "j < 9" "e \<in> set (ds j)" "c \<in> blocks_of (ram s e) (bsz j)" "c \<notin> set (fl e)" for j e c
  proof
    assume "e = d"
    then have "j = i" using that(1,2) i di K(6) unfolding descs_distinct_def by blast
    then show False using that(3,4) all \<open>e = d\<close> by simp
  qed
  have same: "ram ?t e = ram s e" if "e \<in> in_chains ds" for e using dropped_ram(3) [OF k i d in_chains_all [OF that]] by simp
  have "blocks_in_use ?ds fl (ram ?t) = blocks_in_use ds fl (ram s)"
  proof (intro set_eqI iffI)
    fix x assume "x \<in> blocks_in_use ?ds fl (ram ?t)"
    then obtain c j e where x: "x = (c, bsz j)" "j < 9" "e \<in> set (?ds j)" "c \<in> blocks_of (ram ?t e) (bsz j)" "c \<notin> set (fl e)"
      unfolding blocks_in_use_def by blast
    have e: "e \<in> set (ds j)" using x(3) d by (auto split: if_splits)
    then have "c \<in> blocks_of (ram s e) (bsz j)" using x(4) same [OF in_chainsI [of j e ds, OF x(2) e]] by simp
    then show "x \<in> blocks_in_use ds fl (ram s)" using x e unfolding blocks_in_use_def by blast
  next
    fix x assume "x \<in> blocks_in_use ds fl (ram s)"
    then obtain c j e where x: "x = (c, bsz j)" "j < 9" "e \<in> set (ds j)" "c \<in> blocks_of (ram s e) (bsz j)" "c \<notin> set (fl e)"
      unfolding blocks_in_use_def by blast
    have e: "e \<in> set (?ds j)" using x(3) nd [OF x(2-5)] d by (auto split: if_splits)
    have "c \<in> blocks_of (ram ?t e) (bsz j)" using x(4) same [OF in_chainsI [of j e ds, OF x(2,3)]] by simp
    then show "x \<in> blocks_in_use ?ds fl (ram ?t)" using x e unfolding blocks_in_use_def by blast
  qed
  then show "live ?t = live s" unfolding live_eq [OF k] live_eq [OF k'] .
  have "ram ?t a = ram s a" if x: "x \<in> live s" "a \<in> extent x" for x a
  proof (rule dropped_ram(1) [OF k i d])
    obtain c j e where y: "x = (c, bsz j)" "j < 9" "e \<in> set (ds j)" "c \<in> blocks_of (ram s e) (bsz j)" "c \<notin> set (fl e)" "e \<in> in_chains ds"
      using live_owner [OF k x(1)] by metis
    have "ram s e \<noteq> ram s d" using nd [OF y(2-5)] kinv_same_page [OF k y(6) dc] by blast
    then show "page_of a \<noteq> ram s d" using live_page [OF k y(2-4)] x(2) y(1) by simp
    show "\<forall>e\<in>set (ds i). a \<noteq> e + 4"
      using live_not_desc [OF k x] in_chains_all [OF in_chainsI [of i _ ds, OF i]] by blast
  qed
  then show "keeps (live s) s ?t" by (simp add: keeps_def)
qed

lemma mem_keeps_trans: "keeps X s t \<Longrightarrow> keeps X t u \<Longrightarrow> keeps X s u"
  by (simp add: keeps_def)

lemma bsz_div: "i < 9 \<Longrightarrow> 0 < 4096 div bsz i \<and> 4096 div bsz i < 65536"
  using bsz_cases [of i] by auto

lemma u16_of_nat_eq_0: "n < 65536 \<Longrightarrow> (of_nat n :: u16) = 0 \<longleftrightarrow> n = 0"
  by (auto simp: word_of_nat_eq_0_iff dest: dvd_imp_le)

lemma kfree_eq:
  assumes k: "kinv ds fl fd hs s" and i: "i < 9" and d: "ds i = xs @ d # ys"
    and b: "b \<in> blocks_of (ram s d) (bsz i)" "b \<notin> set (fl d)" and sz: "unat sz \<le> bsz i" and fuel: "2 ^ 20 \<le> fuel"
  defines "t \<equiv> s\<lparr>ram := put_block d b (ram s)\<rparr>"
  shows "kfree_s fuel b sz s = Some (if Suc (length (fl d)) = 4096 div bsz i then dropped i xs d t else t)"
proof -
  have di: "d \<in> set (ds i)" by (simp add: d)
  note P = put_block_ok [OF k i di b, folded t_def]
  have "owned s (ram s d)" using kinvD(8) [OF k i di] by blast
  then have b0: "b \<noteq> 0" using blocks_nonzero [OF _ _ bsz_pos b(1)] by (simp add: owned_def)
  have "\<forall>j<9. length (ds j) < fuel" using chain_pages_bounded [OF k] fuel by (meson less_le_trans)
  note f = kfree_finds [OF k i d b(1) sz this]
  have "(of_nat (4096 div bsz i - Suc (length (fl d))) :: u16) = 0 \<longleftrightarrow> 4096 div bsz i - Suc (length (fl d)) = 0"
    using bsz_div [OF i] by (intro u16_of_nat_eq_0) linarith
  then have "bd_refcnt (put_block d b (ram s)) d = 0 \<longleftrightarrow> Suc (length (fl d)) = 4096 div bsz i"
    using P(2,3) by auto
  moreover have "kfree_s fuel b sz s =
      (if bd_refcnt (put_block d b (ram s)) d = 0 then drop_bucket fuel i (if xs = [] then 0 else last xs) d t else Some t)"
    using b0 f by (simp add: kfree_s_def put_block_def t_def Let_def)
  ultimately show ?thesis using drop_bucket_eq [OF P(1) i d] by (simp add: dropped_def)
qed


lemma kfree_block:
  assumes "kmem_ok hs s" "(b, z) \<in> live s" "unat sz \<le> z" "2 ^ 20 \<le> fuel"
  shows "\<exists>s'. kfree_s fuel b sz s = Some s' \<and> kmem_ok hs s' \<and> live s' = live s - {(b, z)} \<and> keeps (live s') s s'"
proof -
  obtain ds fl fd where k: "kinv ds fl fd hs s" and part: "\<forall>i<9. \<forall>d\<in>set (ds i). length (fl d) < 4096 div bsz i"
    using assms(1) by (auto simp: kmem_ok_def)
  obtain i d where b: "z = bsz i" "i < 9" "d \<in> set (ds i)" "b \<in> blocks_of (ram s d) (bsz i)" "b \<notin> set (fl d)"
    using live_owner [OF k assms(2)] by (metis prod.inject)
  obtain xs ys where d: "ds i = xs @ d # ys" using b(3) by (meson split_list)
  let ?t = "s\<lparr>ram := put_block d b (ram s)\<rparr>"
  note P = put_block_ok [OF k b(2-5)] and L = live_put [OF k b(2-5)]
  note e = kfree_eq [OF k b(2) d b(4,5) assms(3) [unfolded b(1)] assms(4)]
  show ?thesis
  proof (cases "Suc (length (fl d)) = 4096 div bsz i")
    case True
    have nd: "d \<notin> set ((ds(i := xs @ ys)) j)" "set ((ds(i := xs @ ys)) j) \<subseteq> set (ds j)" if "j < 9" for j
      using kinvD(6) [OF k] b(2,3) d that unfolding descs_distinct_def by (cases "j = i"; force)+
    note D = drop_bucket_ok [OF P(1) b(2) d] and LD = live_drop [OF P(1) b(2) d]
    have "kmem_ok hs (dropped i xs d ?t)"
      unfolding kmem_ok_def
    proof (intro exI conjI allI impI ballI, rule D)
      fix j e assume j: "j < 9" and "e \<in> set ((ds(i := xs @ ys)) j)"
      then have "e \<noteq> d" "e \<in> set (ds j)" using nd [OF j] by blast+
      then show "length ((fl(d := b # fl d)) e) < 4096 div bsz j" using part j by simp
    qed
    then show ?thesis
      using e True LD L b(1) mem_keeps_trans [OF L(2) LD(2) [unfolded L(1)]] by simp
  next
    case False
    have "kmem_ok hs ?t"
      unfolding kmem_ok_def
    proof (intro exI conjI allI impI ballI, rule P(1))
      fix j e assume j: "j < 9" "e \<in> set (ds j)"
      have "j = i" if "e = d" using j b(2,3) that kinvD(6) [OF k] unfolding descs_distinct_def by blast
      then show "length ((fl(d := b # fl d)) e) < 4096 div bsz j" using part j P(3) False by (cases "e = d") (auto intro: Suc_lessI)
    qed
    then show ?thesis using e False L b(1) by simp
  qed
qed

end
