(* ===== verification/Kmblocks.thy ===== *)
theory Kmblocks
  imports Kmfree
begin

text \<open>
  Allocation by \<^verbatim>\<open>kmalloc\<close> (\<^verbatim>\<open>lib/malloc.c\<close>): the search for a bucket with room, new descriptors and new pages; and the
  interface of the allocator as a locale: blocks that are private to their owners.
\<close>

section \<open>Searching for room\<close>

lemma find_bdesc_ok:
  assumes "chain (\<lambda>d. m (d + 4)) p xs" "length xs < n"
  shows "\<exists>d. find_bdesc n m p = Some d \<and> (d = 0 \<or> d \<in> set xs \<and> m (d + 8) \<noteq> 0)"
  using assms
proof (induction xs arbitrary: p n)
  case Nil
  then show ?case by (cases n) auto
next
  case (Cons x xs)
  then obtain k where "n = Suc k" by (cases n) auto
  then show ?case using Cons.prems Cons.IH [of "m (x + 4)" k] by auto
qed

fun find_size :: "nat \<Rightarrow> nat \<Rightarrow> nat list \<Rightarrow> nat option" where
  "find_size i len [] = None"
| "find_size i len (z # zs) = (if z < len then if z = 0 then None else find_size (i + 1) len zs else Some i)"

lemma find_bdir_sizes: "find_bdir i len bs = find_size i (unat len) (map (unat \<circ> bd_size) bs)"
  by (induction i len bs rule: find_bdir.induct) (simp_all add: word_less_nat_alt unat_eq_0)

lemma unat_dir_sizes: "map bd_size bs = dir_sizes \<Longrightarrow> map (unat \<circ> bd_size) bs = map bsz [0..<9] @ [0]"
  by (simp flip: map_map) (simp add: dir_sizes_def bsz_def upt_rec)

lemma find_size_upt:
  "k \<le> n \<Longrightarrow> len \<le> bsz n \<Longrightarrow> k = 0 \<or> bsz (k - 1) < len \<Longrightarrow>
   \<exists>i. k \<le> i \<and> i \<le> n \<and> find_size k len (map bsz [k..<Suc n] @ zs) = Some i \<and> len \<le> bsz i \<and> (i = 0 \<or> bsz (i - 1) < len)"
proof (induction "n - k" arbitrary: k)
  case 0
  then show ?case by (auto simp: not_less)
next
  case (Suc x)
  show ?case
  proof (cases "bsz k < len")
    case True
    have "x = n - Suc k" "Suc k \<le> n" using Suc.hyps(2) by auto
    from Suc.hyps(1) [OF this] True Suc.prems obtain i where "Suc k \<le> i" "i \<le> n"
      "find_size (Suc k) len (map bsz [Suc k..<Suc n] @ zs) = Some i" "len \<le> bsz i" "i = 0 \<or> bsz (i - 1) < len" by auto
    then show ?thesis using True Suc.prems by (intro exI [of _ i]) (simp add: upt_conv_Cons del: upt_Suc)
  next
    case False
    then show ?thesis using Suc.prems by (intro exI [of _ k]) (simp add: upt_conv_Cons not_less del: upt_Suc)
  qed
qed

lemma find_bdir_fits:
  assumes "map bd_size bs = dir_sizes" "unat len \<le> 4096"
  shows "\<exists>i<9. find_bdir 0 len bs = Some i \<and> unat len \<le> bsz i \<and> (i = 0 \<or> bsz (i - 1) < unat len)"
proof -
  have "unat len \<le> bsz 8" using assms(2) by (simp add: bsz_def)
  from find_size_upt [OF _ this, of 0 "[0]"] obtain i where "i \<le> 8"
    "find_size 0 (unat len) (map bsz [0..<Suc 8] @ [0]) = Some i" "unat len \<le> bsz i" "i = 0 \<or> bsz (i - 1) < unat len" by auto
  moreover have "Suc 8 = 9" by simp
  ultimately show ?thesis unfolding find_bdir_sizes unat_dir_sizes [OF assms(1)] by (metis le_imp_less_Suc)
qed

lemma find_size_none: "(\<forall>z\<in>set zs. 0 < z \<and> z < len) \<Longrightarrow> 0 < len \<Longrightarrow> find_size i len (zs @ [0]) = None"
  by (induction zs arbitrary: i) auto

lemma find_bdir_too_large:
  assumes "map bd_size bs = dir_sizes" "4096 < unat len"
  shows "find_bdir 0 len bs = None"
  unfolding find_bdir_sizes unat_dir_sizes [OF assms(1)]
proof (rule find_size_none)
  have "bsz i \<le> 4096" if "i < 9" for i using bsz_cases [OF that] by auto
  then show "\<forall>z\<in>set (map bsz [0..<9]). 0 < z \<and> z < unat len" using assms(2) by fastforce
qed (use assms(2) in simp)

section \<open>New pages\<close>

text \<open>A page that the page allocator hands out is none of the allocator's pages so far.\<close>

lemma kinv_got:
  assumes k: "kinv ds fl fd hs s" and g: "got p s s'"
  shows "kinv ds fl fd hs s'" "owned s' p" "\<And>d. d \<in> in_chains ds \<Longrightarrow> ram s' d \<noteq> p"
    "\<And>d. d \<in> all_descs ds fd hs \<Longrightarrow> page_of d \<noteq> p" "live s' = live s" "ram s' = ram s"
proof -
  note K = kinvD [OF k]
  have p: "p \<in> free_pages s" "p \<noteq> 0" using g got_nonzero [OF K(1) g] by (auto simp: got_def)
  have s': "ram s' = ram s" "high_memory s' = high_memory s" "mem_map s' = (mem_map s)(MAP_NR p := 1)" "pages_ok s'"
    "bucket_dir s' = bucket_dir s" "free_bucket_desc s' = free_bucket_desc s"
    using g kmem_more [of s' s] by (simp_all add: got_def)
  show "ram s' = ram s" by (rule s'(1))
  show "owned s' p" using p s' by (simp add: owned_def free_pages_def)
  have own: "owned s' q" if "owned s q" for q using that s' by (simp add: owned_def)
  have np: "owned s q \<Longrightarrow> q \<noteq> p" for q using owned_not_free p(1) by blast
  show "\<And>d. d \<in> in_chains ds \<Longrightarrow> ram s' d \<noteq> p" using np K(8) s'(1) unfolding in_chains_def by force
  show "\<And>d. d \<in> all_descs ds fd hs \<Longrightarrow> page_of d \<noteq> p" using np K(7) by blast
  show k': "kinv ds fl fd hs s'" using k own s' unfolding kinv_def by simp
  show "live s' = live s" unfolding live_eq [OF k] live_eq [OF k'] s'(1) ..
qed

text \<open>A page of new descriptors.\<close>

text \<open>\<open>link_descs n d\<close> writes the links of \<open>n\<close> descriptors from \<open>d\<close> on.\<close>

definition nth_desc :: "u32 \<Rightarrow> nat \<Rightarrow> u32" where
  "nth_desc d i = d + of_nat (16 * i)"

lemma nth_desc_Suc: "nth_desc (d + 16) i = nth_desc d (Suc i)" "nth_desc d 0 = d" "nth_desc d (Suc i) = nth_desc d i + 16"
  by (simp_all add: nth_desc_def algebra_simps)

lemma inj_nth_desc_Suc: "inj_on (nth_desc d) {..Suc n} \<Longrightarrow> inj_on (nth_desc (d + 16)) {..n}"
  unfolding nth_desc_Suc(1) using comp_inj_on [of Suc "{..n}" "nth_desc d"] by (auto simp: inj_on_def)

lemma link_descs_mem:
  assumes "inj_on (nth_desc d) {..n}"
  shows "fst (link_descs n d m) = nth_desc d n \<and>
    (\<forall>i<n. snd (link_descs n d m) (nth_desc d i + 4) = nth_desc d (Suc i)) \<and>
    (\<forall>a. (\<forall>i<n. a \<noteq> nth_desc d i + 4) \<longrightarrow> snd (link_descs n d m) a = m a)"
  using assms
proof (induction n arbitrary: d m)
  case 0
  then show ?case by (simp add: nth_desc_def)
next
  case (Suc n)
  let ?m = "m(d + 4 := d + 16)"
  note IH = Suc.IH [OF inj_nth_desc_Suc [OF Suc.prems], of ?m, unfolded nth_desc_Suc(1)]
  have f: "fst (link_descs n (d + 16) ?m) = nth_desc d (Suc n)"
    and l: "\<And>i. i < n \<Longrightarrow> snd (link_descs n (d + 16) ?m) (nth_desc d (Suc i) + 4) = nth_desc d (Suc (Suc i))"
    and u: "\<And>a. (\<forall>i<n. a \<noteq> nth_desc d (Suc i) + 4) \<Longrightarrow> snd (link_descs n (d + 16) ?m) a = ?m a"
    using IH by blast+
  have ne: "d + 4 \<noteq> nth_desc d (Suc i) + 4" if "i < n" for i
    using Suc.prems that nth_desc_Suc(2) [of d] unfolding inj_on_def by (metis Suc_le_mono add_right_cancel atMost_iff less_imp_le nat.distinct(1) zero_le)
  have 0: "snd (link_descs n (d + 16) ?m) (d + 4) = d + 16" using u [of "d + 4"] ne by simp
  show ?case
  proof (intro conjI allI impI)
    show "fst (link_descs (Suc n) d m) = nth_desc d (Suc n)" using f by simp
    show "snd (link_descs (Suc n) d m) (nth_desc d i + 4) = nth_desc d (Suc i)" if "i < Suc n" for i
      using that l 0 by (cases i) (simp_all add: nth_desc_Suc(2), simp add: nth_desc_def)
    show "snd (link_descs (Suc n) d m) a = m a" if "\<forall>i<Suc n. a \<noteq> nth_desc d i + 4" for a
      using that u [of a] nth_desc_Suc(2) [of d] by (metis (no_types, lifting) Suc_less_eq fun_upd_other link_descs.simps(2) zero_less_Suc)
  qed
qed

lemma nth_desc_page:
  assumes "page_aligned p" "i < 256"
  shows "unat (nth_desc p i) = unat p + 16 * i" "desc_aligned (nth_desc p i)" "page_of (nth_desc p i) = p"
proof -
  show u: "unat (nth_desc p i) = unat p + 16 * i" unfolding nth_desc_def using assms by (intro unat_in_page) auto
  show "desc_aligned (nth_desc p i)" using aligned_unat [OF assms(1)] by (simp add: desc_aligned_def u mod_add_left_eq [symmetric])
  show "page_of (nth_desc p i) = p" unfolding nth_desc_def using assms by (intro page_of_in_page) auto
qed

lemma inj_nth_desc: "page_aligned p \<Longrightarrow> inj_on (nth_desc p) {..255}"
  by (rule inj_onI) (use nth_desc_page(1) [of p] in \<open>force dest: arg_cong [of _ _ unat]\<close>)

text \<open>The list of free blocks of a new page.\<close>

lemma block_Suc: "block p z k + of_nat z = block p z (Suc k)"
  by (simp add: block_def algebra_simps)

lemma link_blocks_mem:
  assumes "inj_on (block p z) {..<n}" "k \<le> n"
  shows "(\<forall>j. k \<le> j \<and> j < n \<longrightarrow> link_blocks (n - k) (of_nat z) (block p z k) m (block p z j) = (if Suc j = n then 0 else block p z (Suc j))) \<and>
         (\<forall>a. (\<forall>j. k \<le> j \<and> j < n \<longrightarrow> a \<noteq> block p z j) \<longrightarrow> link_blocks (n - k) (of_nat z) (block p z k) m a = m a)"
  using assms(2)
proof (induction "n - k" arbitrary: k m)
  case (Suc x)
  then have x: "x = n - Suc k" "Suc k \<le> n" "k < n" by auto
  let ?m = "m(block p z k := (if x = 0 then 0 else block p z (Suc k)))"
  have e: "link_blocks (n - k) (of_nat z) (block p z k) m = link_blocks (n - Suc k) (of_nat z) (block p z (Suc k)) ?m"
    unfolding Suc.hyps(2) [symmetric] x(1) [symmetric] by (simp add: block_Suc)
  note IH = Suc.hyps(1) [OF x(1,2), of ?m]
  have ne: "block p z k \<noteq> block p z j" if "Suc k \<le> j" "j < n" for j
    using assms(1) that x(3) unfolding inj_on_def by (metis Suc_n_not_le_n lessThan_iff)
  have 0: "link_blocks (n - Suc k) (of_nat z) (block p z (Suc k)) ?m (block p z k) = (if Suc k = n then 0 else block p z (Suc k))"
    using IH ne x by auto
  show ?case
    unfolding e
  proof (intro conjI allI impI)
    fix j assume "k \<le> j \<and> j < n"
    then show "link_blocks (n - Suc k) (of_nat z) (block p z (Suc k)) ?m (block p z j) = (if Suc j = n then 0 else block p z (Suc j))"
      using IH 0 by (cases "j = k") auto
  next
    fix a assume "\<forall>j. k \<le> j \<and> j < n \<longrightarrow> a \<noteq> block p z j"
    then show "link_blocks (n - Suc k) (of_nat z) (block p z (Suc k)) ?m a = m a" using IH x(3) by (auto simp: Suc_le_eq)
  qed
qed auto

lemma chain_upt:
  assumes "k \<le> n" "\<forall>j. k \<le> j \<and> j < n \<longrightarrow> f j \<noteq> 0 \<and> m (f j) = (if Suc j = n then q else f (Suc j))" "chain m q zs"
  shows "chain m (if k = n then q else f k) (map f [k..<n] @ zs)"
  using assms(1,2)
proof (induction "n - k" arbitrary: k)
  case 0
  then show ?case using assms(3) by simp
next
  case (Suc x)
  then have x: "x = n - Suc k" "Suc k \<le> n" "k < n" by auto
  have "chain m (if Suc k = n then q else f (Suc k)) (map f [Suc k..<n] @ zs)"
    by (rule Suc.hyps(1) [OF x(1,2)]) (use Suc.prems in auto)
  then show ?case using x(3) Suc.prems(2) by (simp add: upt_conv_Cons)
qed

section \<open>Writing to a page of one's own\<close>

text \<open>A page that belongs to none of the buckets and holds no descriptor.\<close>

definition fresh :: "(nat \<Rightarrow> u32 list) \<Rightarrow> u32 list \<Rightarrow> u32 list \<Rightarrow> kmem \<Rightarrow> u32 \<Rightarrow> bool" where
  "fresh ds fd hs s p \<longleftrightarrow> owned s p \<and> (\<forall>d\<in>in_chains ds. ram s d \<noteq> p) \<and> (\<forall>d\<in>all_descs ds fd hs. page_of d \<noteq> p)"

lemma kinv_ram:
  assumes k: "kinv ds fl fd hs s"
    and links: "\<And>e. e \<in> all_descs ds fd hs \<Longrightarrow> m (e + 4) = ram s (e + 4)"
    and free: "\<And>p. p \<in> free_pages s \<Longrightarrow> m p = ram s p"
    and descs: "\<And>e. e \<in> in_chains ds \<Longrightarrow> m e = ram s e \<and> m (e + 8) = ram s (e + 8) \<and> m (e + 12) = ram s (e + 12)"
    and lists: "\<And>e b. e \<in> in_chains ds \<Longrightarrow> b \<in> set (fl e) \<Longrightarrow> m b = ram s b"
  shows "kinv ds fl fd hs (s\<lparr>ram := m\<rparr>)"
proof (cases "in_chains ds = {}")
  case False
  then obtain i d where i: "i < 9" "d \<in> set (ds i)" unfolding in_chains_def by blast
  note dc = in_chainsI [of i d ds, OF i]
  have "bucket_ok m (bsz i) d (fl d)"
    using kinvD(8) [OF k i] descs [OF dc] lists [OF dc] by (auto intro: bucket_ok_cong)
  from kinv_bucket [OF k i this] descs dc links free lists show ?thesis by simp
next
  case True
  have "chain (\<lambda>d. m (d + 4)) (free_bucket_desc s) fd"
    by (rule pchain_cong [OF kinvD(5) [OF k]]) (use links in \<open>auto simp: all_descs_def\<close>)
  moreover have "chain (\<lambda>d. m (d + 4)) (bd_chain (bucket_dir s ! i)) (ds i)" if "i < 9" for i
    by (rule pchain_cong [OF kinvD(4) [OF k that]]) (use True that in \<open>auto simp: in_chains_def\<close>)
  moreover have "pages_ok (s\<lparr>ram := m\<rparr>)" using kinvD(1) [OF k] free by (intro pages_ok_ram) auto
  moreover have "ds i = []" if "i < 9" for i using True that by (auto simp: in_chains_def)
  ultimately show ?thesis using kinvD(2,6,7) [OF k] True by (simp add: kinv_def owned_def)
qed

lemma live_ram:
  assumes "kinv ds fl fd hs s" "kinv ds fl fd' hs' t" "\<And>e. e \<in> in_chains ds \<Longrightarrow> ram t e = ram s e"
  shows "live t = live s"
  unfolding live_eq [OF assms(1)] live_eq [OF assms(2)] blocks_in_use_def
  using assms(3) in_chainsI [of _ _ ds] by (intro Collect_cong) metis

lemma keeps_page:
  assumes "kinv ds fl fd hs s" "\<forall>d\<in>in_chains ds. ram s d \<noteq> p" "\<And>a. page_of a \<noteq> p \<Longrightarrow> ram t a = ram s a"
  shows "keeps (live s) s t"
  unfolding keeps_def
proof (intro ballI)
  fix x a assume x: "x \<in> live s" "a \<in> extent x"
  obtain b i d where y: "x = (b, bsz i)" "i < 9" "d \<in> set (ds i)" "b \<in> blocks_of (ram s d) (bsz i)" "d \<in> in_chains ds"
    using live_owner [OF assms(1) x(1)] by metis
  have "page_of a = ram s d" using live_page [OF assms(1) y(2-4)] x(2) y(1) by simp
  then show "ram t a = ram s a" using assms(2,3) y(5) by metis
qed

lemma fresh_write:
  assumes k: "kinv ds fl fd hs s" and f: "fresh ds fd hs s p" and m: "\<And>a. page_of a \<noteq> p \<Longrightarrow> m a = ram s a"
  shows "kinv ds fl fd hs (s\<lparr>ram := m\<rparr>)" "live (s\<lparr>ram := m\<rparr>) = live s" "keeps (live s) s (s\<lparr>ram := m\<rparr>)"
proof -
  have F: "owned s p" "\<And>d. d \<in> in_chains ds \<Longrightarrow> ram s d \<noteq> p" "\<And>d. d \<in> all_descs ds fd hs \<Longrightarrow> page_of d \<noteq> p"
    using f by (auto simp: fresh_def)
  have desc: "m a = ram s a" if "e \<in> all_descs ds fd hs" "a \<in> {e, e + 4, e + 8, e + 12}" for a e
    using m [of a] that F(3) [OF that(1)] page_of_desc [OF kinv_desc(1) [OF k that(1)]] by auto
  show k': "kinv ds fl fd hs (s\<lparr>ram := m\<rparr>)"
  proof (rule kinv_ram [OF k])
    show "m (e + 4) = ram s (e + 4)" if "e \<in> all_descs ds fd hs" for e using desc [OF that] by simp
    show "m q = ram s q" if "q \<in> free_pages s" for q
      using m [of q] free_page_of [OF that] owned_not_free [OF F(1)] that by metis
    show "m e = ram s e \<and> m (e + 8) = ram s (e + 8) \<and> m (e + 12) = ram s (e + 12)" if "e \<in> in_chains ds" for e
      using desc [OF in_chains_all [OF that]] by simp
    show "m b = ram s b" if e: "e \<in> in_chains ds" "b \<in> set (fl e)" for e b
    proof (rule m)
      obtain i where "i < 9" "e \<in> set (ds i)" using e(1) by (auto simp: in_chains_def)
      then show "page_of b \<noteq> p" using kinv_free_block [OF k _ _ e(2)] F(2) [OF e(1)] by metis
    qed
  qed
  show "live (s\<lparr>ram := m\<rparr>) = live s"
    by (rule live_ram [OF k k']) (use desc [OF in_chains_all] in simp)
  show "keeps (live s) s (s\<lparr>ram := m\<rparr>)" by (rule keeps_page [OF k]) (use F m in auto)
qed

lemma got_fresh: "kinv ds fl fd hs s \<Longrightarrow> got p s s' \<Longrightarrow> fresh ds fd hs s' p"
  using kinv_got [of ds fl fd hs s p s'] by (simp add: fresh_def)

section \<open>The list of free descriptors\<close>

lemma kinv_add_descs:
  assumes k: "kinv ds fl fd hs s" and f: "fresh ds fd hs s p"
    and ns: "distinct ns" "\<forall>d\<in>set ns. d \<noteq> 0 \<and> desc_aligned d \<and> page_of d = p"
    and c: "chain (\<lambda>d. ram s (d + 4)) q (ns @ fd)"
  shows "kinv ds fl (ns @ fd) hs (s\<lparr>free_bucket_desc := q\<rparr>)"
proof -
  note K = kinvD [OF k]
  have new: "set ns \<inter> all_descs ds fd hs = {}" using f ns(2) by (auto simp: fresh_def)
  have all: "all_descs ds (ns @ fd) hs = set ns \<union> all_descs ds fd hs" by (auto simp: all_descs_def)
  have "descs_distinct ds (ns @ fd) hs"
    using K(6) new ns(1) unfolding descs_distinct_def all_descs_def by auto
  moreover have "pages_ok (s\<lparr>free_bucket_desc := q\<rparr>)" by (rule pages_ok_cong [OF K(1)]) simp_all
  ultimately show ?thesis
    using K(2,4,7-10) f ns(2) c unfolding kinv_def all by (auto simp: fresh_def owned_def)
qed

lemma init_bucket_desc_ok:
  assumes k: "kinv ds fl fd hs s" and f: "fresh ds fd hs s p"
  shows "\<exists>fd'. kinv ds fl (p # fd') hs (init_bucket_desc p s)"
    "live (init_bucket_desc p s) = live s" "keeps (live s) s (init_bucket_desc p s)"
proof -
  have p: "page_aligned p" "p \<noteq> 0" using f by (auto simp: fresh_def owned_def)
  let ?ns = "map (nth_desc p) [0..<256]"
  obtain d m where dm: "link_descs 255 p (ram s) = (d, m)" by fastforce
  note L = link_descs_mem [OF inj_nth_desc [OF p(1)], of "ram s", unfolded dm fst_conv snd_conv]
  define m' where "m' = m(d + 4 := free_bucket_desc s)"
  have d: "d = nth_desc p 255" using L by simp
  have N: "desc_aligned (nth_desc p i)" "page_of (nth_desc p i) = p" "page_of (nth_desc p i + 4) = p" "nth_desc p i \<noteq> 0" if "i < 256" for i
    using nth_desc_page [OF p(1) that] page_of_desc [of "nth_desc p i"] p(2) by (auto simp: page_of_def)
  have off: "m' a = ram s a" if a: "page_of a \<noteq> p" for a
  proof -
    have "a \<noteq> nth_desc p i + 4" if "i < 256" for i using N(3) [OF that] a by auto
    then have "\<forall>i<255. a \<noteq> nth_desc p i + 4" "a \<noteq> d + 4" by (simp_all add: d)
    then show ?thesis using L by (simp add: m'_def)
  qed
  note W = fresh_write [OF k f, of m', OF off]
  have f': "fresh ds fd hs (s\<lparr>ram := m'\<rparr>) p"
  proof -
    have "ram (s\<lparr>ram := m'\<rparr>) e = ram s e" if "e \<in> in_chains ds" for e
      using off [of e] f in_chains_all [OF that, of fd hs] by (simp add: fresh_def)
    then show ?thesis using f by (simp add: fresh_def owned_def)
  qed
  have inj: "inj_on (nth_desc p) {0..<256}" using inj_nth_desc [OF p(1)] by (rule inj_on_subset) auto
  have c: "chain (\<lambda>d. m' (d + 4)) p (?ns @ fd)"
  proof -
    have "nth_desc p j + 4 \<noteq> d + 4" if "j < 255" for j
      using inj that unfolding d by (simp add: inj_on_eq_iff [of _ "{0..<256}"])
    then have "\<forall>j. 0 \<le> j \<and> j < 256 \<longrightarrow> nth_desc p j \<noteq> 0 \<and>
        m' (nth_desc p j + 4) = (if Suc j = 256 then free_bucket_desc s else nth_desc p (Suc j))"
      using L N(4) by (auto simp: m'_def d less_Suc_eq)
    moreover have "chain (\<lambda>d. m' (d + 4)) (free_bucket_desc s) fd"
      using kinvD(5) [OF W(1)] by simp
    ultimately show ?thesis
      using chain_upt [of 0 256 "nth_desc p" "\<lambda>d. m' (d + 4)" "free_bucket_desc s" fd] by (simp add: nth_desc_Suc(2) del: upt_Suc)
  qed
  have "kinv ds fl (?ns @ fd) hs (s\<lparr>ram := m', free_bucket_desc := p\<rparr>)"
    using kinv_add_descs [OF W(1) f' _ _, of ?ns p] c N inj by (simp add: distinct_map)
  moreover have "?ns = p # map (nth_desc p) [1..<256]" by (simp add: upt_conv_Cons nth_desc_Suc(2) del: upt_Suc)
  moreover have e: "init_bucket_desc p s = s\<lparr>ram := m', free_bucket_desc := p\<rparr>"
    by (simp add: init_bucket_desc_def dm m'_def Let_def)
  ultimately have k2: "kinv ds fl (p # map (nth_desc p) [1..<256] @ fd) hs (init_bucket_desc p s)" by simp
  then show "\<exists>fd'. kinv ds fl (p # fd') hs (init_bucket_desc p s)" by blast
  show "live (init_bucket_desc p s) = live s"
    using live_ram [OF W(1) k2] W(2) e by simp
  show "keeps (live s) s (init_bucket_desc p s)" using W(3) e by (simp add: keeps_def)
qed

lemma kinv_take_desc:
  assumes "kinv ds fl (d # fd) hs s"
  shows "kinv ds fl fd (d # hs) (s\<lparr>free_bucket_desc := ram s (d + 4)\<rparr>)"
    "live (s\<lparr>free_bucket_desc := ram s (d + 4)\<rparr>) = live s" "free_bucket_desc s = d" "d \<noteq> 0"
proof -
  note K = kinvD [OF assms]
  have all: "all_descs ds fd (d # hs) = all_descs ds (d # fd) hs" by (auto simp: all_descs_def)
  have "descs_distinct ds fd (d # hs)" using K(6) unfolding descs_distinct_def by auto
  moreover have "pages_ok (s\<lparr>free_bucket_desc := ram s (d + 4)\<rparr>)" by (rule pages_ok_cong [OF K(1)]) simp_all
  ultimately show k: "kinv ds fl fd (d # hs) (s\<lparr>free_bucket_desc := ram s (d + 4)\<rparr>)"
    using K(2,4,5,7-10) unfolding kinv_def all by (auto simp: owned_def)
  show "live (s\<lparr>free_bucket_desc := ram s (d + 4)\<rparr>) = live s" by (rule live_ram [OF assms k]) simp
  show "free_bucket_desc s = d" "d \<noteq> 0" using K(5) by auto
qed

text \<open>Writing to a descriptor that is on none of the lists.\<close>

lemma held_write:
  assumes k: "kinv ds fl fd (d # hs) s" and m': "\<forall>a. a \<notin> {d, d + 4, d + 8, d + 12} \<longrightarrow> m a = ram s a"
  shows "e \<in> all_descs ds fd hs \<Longrightarrow> a \<in> {e, e + 4, e + 8, e + 12} \<Longrightarrow> m a = ram s a"
    "q \<in> free_pages s \<Longrightarrow> m q = ram s q"
    "e \<in> in_chains ds \<Longrightarrow> b \<in> set (fl e) \<Longrightarrow> m b = ram s b"
    "x \<in> live s \<Longrightarrow> a \<in> extent x \<Longrightarrow> m a = ram s a"
proof -
  have m: "\<And>a. a \<notin> {d, d + 4, d + 8, d + 12} \<Longrightarrow> m a = ram s a" using m' by blast
  have da: "d \<in> all_descs ds fd (d # hs)" by (simp add: all_descs_def)
  note D = kinv_desc [OF k da] and P = page_of_desc [OF kinv_desc(1) [OF k da]]
  show "m a = ram s a" if e: "e \<in> all_descs ds fd hs" "a \<in> {e, e + 4, e + 8, e + 12}"
  proof (rule m)
    have ea: "e \<in> all_descs ds fd (d # hs)" using e(1) by (auto simp: all_descs_def)
    have "e \<noteq> d" using e(1) kinvD(6) [OF k] unfolding descs_distinct_def all_descs_def by auto
    then show "a \<notin> {d, d + 4, d + 8, d + 12}"
      using desc_sep_num [OF kinv_desc(1) [OF k ea] D(1)] e(2) by auto
  qed
  show "m q = ram s q" if "q \<in> free_pages s"
  proof (rule m)
    show "q \<notin> {d, d + 4, d + 8, d + 12}" using that free_page_of [OF that] P owned_not_free [OF D(3)] by auto
  qed
  show "m b = ram s b" if e: "e \<in> in_chains ds" "b \<in> set (fl e)"
  proof (rule m)
    obtain i where "i < 9" "e \<in> set (ds i)" using e(1) by (auto simp: in_chains_def)
    then have "page_of b = ram s e" using kinv_free_block [OF k _ _ e(2)] by blast
    then show "b \<notin> {d, d + 4, d + 8, d + 12}" using P kinvD(10) [OF k e(1) da] by auto
  qed
  show "m a = ram s a" if "x \<in> live s" "a \<in> extent x"
    using m live_not_desc [OF k that da] by blast
qed

lemma held_kinv:
  assumes k: "kinv ds fl fd (d # hs) s" and m': "\<forall>a. a \<notin> {d, d + 4, d + 8, d + 12} \<longrightarrow> m a = ram s a"
  shows "kinv ds fl fd hs (s\<lparr>ram := m\<rparr>)" "live (s\<lparr>ram := m\<rparr>) = live s" "keeps (live s) s (s\<lparr>ram := m\<rparr>)"
proof -
  note H = held_write [OF k m']
  have k0: "kinv ds fl fd hs s"
    using k unfolding kinv_def all_descs_def descs_distinct_def by auto
  show k': "kinv ds fl fd hs (s\<lparr>ram := m\<rparr>)"
    by (rule kinv_ram [OF k0]) (use H(1) [OF in_chains_all] H in auto)
  show "live (s\<lparr>ram := m\<rparr>) = live s" by (rule live_ram [OF k k']) (use H(1) [OF in_chains_all] in simp)
  show "keeps (live s) s (s\<lparr>ram := m\<rparr>)" using H(4) by (simp add: keeps_def)
qed

lemma kinv_put_desc:
  assumes k: "kinv ds fl fd (d # hs) s"
  defines "t \<equiv> s\<lparr>ram := (ram s)(d + 4 := free_bucket_desc s), free_bucket_desc := d\<rparr>"
  shows "kinv ds fl (d # fd) hs t" "live t = live s" "keeps (live s) s t"
proof -
  let ?m = "(ram s)(d + 4 := free_bucket_desc s)"
  note H = held_kinv [OF k, of ?m, simplified] and K = kinvD [OF k]
  note K' = kinvD [OF H(1)]
  have all: "all_descs ds (d # fd) hs = all_descs ds fd (d # hs)" by (auto simp: all_descs_def)
  have da: "d \<in> all_descs ds fd (d # hs)" by (simp add: all_descs_def)
  have "descs_distinct ds (d # fd) hs" using K(6) unfolding descs_distinct_def by auto
  moreover have "pages_ok t" by (rule pages_ok_cong [OF K'(1)]) (simp_all add: t_def)
  moreover have "chain (\<lambda>d. ?m (d + 4)) d (d # fd)" using K'(5) kinv_desc(2) [OF k da] by simp
  moreover have "ram t e = ram s e" if "e \<in> in_chains ds" for e
    using held_write(1) [OF k, of ?m e e] in_chains_all [OF that] by (simp add: t_def)
  ultimately show k2: "kinv ds fl (d # fd) hs t"
    using K'(2,4,8,9) K(7,10) unfolding kinv_def all by (auto simp: t_def owned_def)
  show "live t = live s" using live_ram [OF H(1) k2] H(2) by (simp add: t_def)
  show "keeps (live s) s t" using H(3) by (simp add: keeps_def t_def)
qed

section \<open>A new bucket\<close>

lemma setup_bucket_mem:
  assumes "page_aligned p" "p \<noteq> 0" "desc_aligned d" "page_of d \<noteq> p" "i < 9"
  defines "z \<equiv> bsz i"
  shows "\<And>a. a \<notin> {d, d + 8, d + 12} \<Longrightarrow> page_of a \<noteq> p \<Longrightarrow> setup_bucket d (of_nat z) p m a = m a"
    "setup_bucket d (of_nat z) p m d = p"
    "bucket_ok (setup_bucket d (of_nat z) p m) z d (map (block p z) [0..<4096 div z])"
proof -
  let ?n = "4096 div z" and ?m = "m(d + 12 := desc_word 0 z, d + 8 := p, d := p)" and ?fs = "map (block p z) [0..<4096 div z]"
  have z: "0 < z" "z < 65536" "unat (PAGE_SIZE div of_nat z) = ?n" "(ucast (of_nat z :: u32) :: u16) = of_nat z"
    using bsz_cases [OF assms(5)] by (auto simp: z_def)
  have n: "0 < ?n" using bsz_div [OF assms(5)] by (simp add: z_def)
  let ?m' = "link_blocks ?n (of_nat z) p ?m"
  have e: "setup_bucket d (of_nat z) p m = ?m'"
    unfolding setup_bucket_def Let_def z(3,4) set_size_desc_word [OF z(2)] ..
  note inj = inj_blocks [OF assms(1) z(1)]
  have L: "\<And>j. j < ?n \<Longrightarrow> ?m' (block p z j) = (if Suc j = ?n then 0 else block p z (Suc j))"
    and U: "\<And>a. (\<forall>j<?n. a \<noteq> block p z j) \<Longrightarrow> ?m' a = ?m a"
    using link_blocks_mem [OF inj, of 0 ?m] by (simp_all add: block_def)
  have pg: "page_of (block p z j) = p" if "j < ?n" for j
    using page_of_block [OF assms(1) z(1)] that by (auto simp: blocks_of_def)
  have off: "?m' a = ?m a" if "page_of a \<noteq> p" for a using U pg that by metis
  note P = page_of_desc [OF assms(3)] and S = desc_sep_num [OF assms(3)]
  show "setup_bucket d (of_nat z) p m a = m a" if "a \<notin> {d, d + 8, d + 12}" "page_of a \<noteq> p" for a
    using off [OF that(2)] that(1) by (simp add: e)
  show "setup_bucket d (of_nat z) p m d = p" using off [OF assms(4)] by (simp add: e)
  have w: "?m' (d + 8) = p" "?m' (d + 12) = desc_word 0 z" "?m' d = p" using off P assms(4) by simp_all
  have "block p z j \<noteq> 0" if "j < ?n" for j
    using blocks_nonzero [OF assms(1,2) z(1)] that by (auto simp: blocks_of_def)
  then have "chain ?m' p (?fs @ [])"
    using chain_upt [of 0 ?n "block p z" ?m' 0 "[]"] L n by (simp add: block_def)
  moreover have "distinct ?fs" using inj by (simp add: distinct_map lessThan_atLeast0)
  moreover have "set ?fs = blocks_of p z" by (simp add: blocks_of_def lessThan_atLeast0)
  ultimately show "bucket_ok (setup_bucket d (of_nat z) p m) z d ?fs" using w by (simp add: e bucket_ok_def)
qed

lemma descs_distinct_add:
  assumes "descs_distinct ds fd (d # hs)" "i < 9"
  shows "descs_distinct (ds(i := d # ds i)) fd hs" "in_chains (ds(i := d # ds i)) = insert d (in_chains ds)"
proof -
  have "(\<Union>j<9. set ((ds(i := d # ds i)) j)) = insert d (\<Union>j<9. set (ds j))" using assms(2) by (auto split: if_splits)
  then show ic: "in_chains (ds(i := d # ds i)) = insert d (in_chains ds)" by (simp add: in_chains_def)
  have d: "d \<notin> set (ds j)" if "j < 9" for j using assms(1) in_chainsI [of j d ds] that unfolding descs_distinct_def by auto
  have "set ((ds(i := d # ds i)) j) \<inter> set ((ds(i := d # ds i)) l) = {}" if "j < 9" "l < 9" "j \<noteq> l" for j l
    using assms(1) d that unfolding descs_distinct_def by (auto; blast)
  then show "descs_distinct (ds(i := d # ds i)) fd hs"
    using assms d ic unfolding descs_distinct_def by auto
qed

definition linked :: "nat \<Rightarrow> u32 \<Rightarrow> u32 \<Rightarrow> kmem \<Rightarrow> kmem" where
  "linked i d p s =
     set_chain i d (s\<lparr>ram := (setup_bucket d (of_nat (bsz i)) p (ram s))(d + 4 := bd_chain (bucket_dir s ! i))\<rparr>)"

text \<open>A held descriptor that has been set up for a fresh page becomes part of a chain.\<close>

lemma kinv_add_bucket:
  assumes k: "kinv ds fl fd hs s" and dd: "descs_distinct ds fd (d # hs)" and i: "i < 9"
    and d: "d \<noteq> 0" "desc_aligned d" "owned s (page_of d)" "ram s (d + 4) = bd_chain (bucket_dir s ! i)"
    and b: "bucket_ok (ram s) (bsz i) d fs" and f: "fresh ds fd (d # hs) s (ram s d)"
    and o: "\<forall>e\<in>in_chains ds. ram s e \<noteq> page_of d"
  shows "kinv (ds(i := d # ds i)) (fl(d := fs)) fd hs (set_chain i d s)"
    "set fs = blocks_of (ram s d) (bsz i) \<Longrightarrow> live (set_chain i d s) = live s"
proof -
  note K = kinvD [OF k] and A = descs_distinct_add [OF dd i]
  let ?ds = "ds(i := d # ds i)" and ?fl = "fl(d := fs)" and ?t = "set_chain i d s"
  have t: "ram ?t = ram s" "high_memory ?t = high_memory s" "mem_map ?t = mem_map s" "free_bucket_desc ?t = free_bucket_desc s"
    "bucket_dir ?t = (bucket_dir s)[i := (bucket_dir s ! i)\<lparr>bd_chain := d\<rparr>]" by (simp_all add: set_chain_def)
  have all: "all_descs ?ds fd hs = all_descs ds fd (d # hs)" by (auto simp: all_descs_def A(2))
  have nd: "d \<notin> in_chains ds" using dd by (auto simp: descs_distinct_def)
  have F: "owned s (ram s d)" "\<And>e. e \<in> in_chains ds \<Longrightarrow> ram s e \<noteq> ram s d" "\<And>e. e \<in> all_descs ds fd (d # hs) \<Longrightarrow> page_of e \<noteq> ram s d"
    using f by (auto simp: fresh_def)
  have "pages_ok ?t" by (rule pages_ok_cong [OF K(1)]) (simp_all add: set_chain_def)
  moreover have "map bd_size (bucket_dir ?t) = dir_sizes"
    using K(2) by (simp add: t map_update) (metis list_update_id map_update nth_map i K(3) list_update_beyond)
  moreover have "chain (\<lambda>d. ram ?t (d + 4)) (bd_chain (bucket_dir ?t ! j)) (?ds j)" if "j < 9" for j
    using K(4) [OF that] K(3) i d(1,4) by (cases "j = i") (simp_all add: t)
  moreover have "\<forall>e\<in>all_descs ds fd (d # hs). e \<noteq> 0 \<and> desc_aligned e \<and> owned ?t (page_of e)"
    using K(7) d(1-3) unfolding all_descs_def by (auto simp: owned_def t)
  moreover have "bucket_ok (ram ?t) (bsz j) e (?fl e) \<and> owned ?t (ram ?t e)" if "j < 9" "e \<in> set (?ds j)" for j e
  proof (cases "e = d")
    case True
    then have "j = i" using that in_chainsI [of j d ds] nd by (auto split: if_splits)
    then show ?thesis using b F(1) True by (simp add: t owned_def)
  next
    case False
    then have "e \<in> set (ds j)" using that(2) by (auto split: if_splits)
    then show ?thesis using K(8) [OF that(1)] False by (simp add: t owned_def)
  qed
  moreover have "ram s d \<notin> ram s ` (in_chains ds - {d})" using F(2) by (metis DiffD1 imageE)
  then have "inj_on (ram ?t) (in_chains ?ds)" using K(9) unfolding t A(2) inj_on_insert by blast
  moreover have "\<forall>e\<in>in_chains ?ds. \<forall>e'\<in>all_descs ds fd (d # hs). ram ?t e \<noteq> page_of e'"
    using K(10) F(3) o unfolding t A(2) all_descs_def by force
  ultimately show k': "kinv ?ds ?fl fd hs ?t" using K(5) A(1) unfolding kinv_def all by (simp add: t)
  show "live ?t = live s" if fs: "set fs = blocks_of (ram s d) (bsz i)"
  proof -
    have "(j < 9 \<and> e \<in> set (?ds j) \<and> c \<in> blocks_of (ram s e) (bsz j) \<and> c \<notin> set (?fl e)) \<longleftrightarrow>
          (j < 9 \<and> e \<in> set (ds j) \<and> c \<in> blocks_of (ram s e) (bsz j) \<and> c \<notin> set (fl e))" for j e c
      using fs nd in_chainsI [of j d ds] by (cases "e = d"; cases "j = i") auto
    then show ?thesis unfolding live_eq [OF k] live_eq [OF k'] blocks_in_use_def t by presburger
  qed
qed

lemma linked_ok:
  assumes k: "kinv ds fl fd (d # hs) s" and f: "fresh ds fd (d # hs) s p" and i: "i < 9"
  shows "kinv (ds(i := d # ds i)) (fl(d := map (block p (bsz i)) [0..<4096 div bsz i])) fd hs (linked i d p s)"
    "live (linked i d p s) = live s" "keeps (live s) s (linked i d p s)" "ram (linked i d p s) d = p"
proof -
  note K = kinvD [OF k]
  define m2 where "m2 = (setup_bucket d (of_nat (bsz i)) p (ram s))(d + 4 := bd_chain (bucket_dir s ! i))"
  define m1 where "m1 = (\<lambda>a. if page_of a = p then m2 a else ram s a)"
  let ?s1 = "s\<lparr>ram := m1\<rparr>" and ?s2 = "s\<lparr>ram := m2\<rparr>"
  let ?fs = "map (block p (bsz i)) [0..<4096 div bsz i]"
  have da: "d \<in> all_descs ds fd (d # hs)" by (simp add: all_descs_def)
  have p: "page_aligned p" "p \<noteq> 0" "page_of d \<noteq> p" "owned s p" using f da by (auto simp: fresh_def owned_def)
  note D = kinv_desc [OF k da] and P = page_of_desc [OF kinv_desc(1) [OF k da]]
  note B = setup_bucket_mem [OF p(1,2) D(1) p(3) i, where m = "ram s"]
  have W: "kinv ds fl fd (d # hs) ?s1" "live ?s1 = live s" "keeps (live s) s ?s1" using fresh_write [OF k f, of m1] by (simp_all add: m1_def)
  have m: "\<forall>a. a \<notin> {d, d + 4, d + 8, d + 12} \<longrightarrow> m2 a = ram ?s1 a" using B(1) by (auto simp: m1_def m2_def)
  have H: "kinv ds fl fd hs ?s2" "live ?s2 = live ?s1" "keeps (live ?s1) ?s1 ?s2" using held_kinv [OF W(1) m] by simp_all
  have old: "m2 e = ram s e" if "e \<in> in_chains ds" for e
  proof -
    have "e \<noteq> d" using that K(6) by (auto simp: descs_distinct_def)
    then have "e \<notin> {d, d + 8, d + 12}" "e \<noteq> d + 4" using desc_sep_num [OF kinv_desc(1) [OF k in_chains_all [OF that]] D(1)] by auto
    moreover have "page_of e \<noteq> p" using f in_chains_all [OF that] by (auto simp: fresh_def)
    ultimately show ?thesis using B(1) by (simp add: m2_def)
  qed
  have md: "m2 d = p" "m2 (d + 4) = bd_chain (bucket_dir s ! i)" using B(2) by (simp_all add: m2_def)
  have "m2 b = setup_bucket d (of_nat (bsz i)) p (ram s) b" if "b \<in> set ?fs" for b
  proof -
    have "b \<in> blocks_of p (bsz i)" using that by (auto simp: blocks_of_def)
    then have "b \<noteq> d + 4" using page_of_block [OF p(1) bsz_pos, of b i] P p(3) by auto
    then show ?thesis by (simp add: m2_def)
  qed
  then have bo: "bucket_ok m2 (bsz i) d ?fs" by (intro bucket_ok_cong [OF B(3)]) (simp_all add: m2_def)
  have "fresh ds fd (d # hs) ?s2 p" using f old by (simp add: fresh_def owned_def)
  moreover have "set ?fs = blocks_of p (bsz i)" by (simp add: blocks_of_def lessThan_atLeast0)
  moreover have "\<forall>e\<in>in_chains ds. m2 e \<noteq> page_of d" using K(10) [OF _ da] old by simp
  ultimately have A: "kinv (ds(i := d # ds i)) (fl(d := ?fs)) fd hs (set_chain i d ?s2)" "live (set_chain i d ?s2) = live ?s2"
    using kinv_add_bucket [OF H(1) K(6) i D(2,1), of ?fs] D(3) bo md by (simp_all add: owned_def)
  then show "kinv (ds(i := d # ds i)) (fl(d := ?fs)) fd hs (linked i d p s)" "live (linked i d p s) = live s"
    using H W by (simp_all add: linked_def m2_def)
  have "ram (linked i d p s) = ram ?s2" by (simp add: linked_def set_chain_def m2_def)
  then show "keeps (live s) s (linked i d p s)" "ram (linked i d p s) d = p"
    using W(3) H(3) W(2) md by (simp_all add: keeps_def)
qed

section \<open>Allocation\<close>

text \<open>A property of blocks in use and their contents that is kept while the allocator waits for pages.\<close>

definition stable :: "(kmem \<Rightarrow> bool) \<Rightarrow> bool" where
  "stable Q \<longleftrightarrow> (\<forall>s t. Q s \<longrightarrow> live t = live s \<longrightarrow> keeps (live s) s t \<longrightarrow> Q t)"

definition reclaim_keeps :: "reclaimer \<Rightarrow> (kmem \<Rightarrow> bool) \<Rightarrow> bool" where
  "reclaim_keeps reclaim Q \<longleftrightarrow>
     (\<forall>n s hs. kmem_ok hs s \<and> Q s \<longrightarrow> kmem_ok hs (snd (reclaim n s)) \<and> Q (snd (reclaim n s)))"

definition partial_lists :: "(nat \<Rightarrow> u32 list) \<Rightarrow> (u32 \<Rightarrow> u32 list) \<Rightarrow> bool" where
  "partial_lists ds fl \<longleftrightarrow> (\<forall>i<9. \<forall>d\<in>set (ds i). length (fl d) < 4096 div bsz i)"

lemma kmem_okI: "kinv ds fl fd hs s \<Longrightarrow> partial_lists ds fl \<Longrightarrow> kmem_ok hs s"
  by (auto simp: kmem_ok_def partial_lists_def)

lemma kmem_okE:
  assumes "kmem_ok hs s"
  obtains ds fl fd where "kinv ds fl fd hs s" "partial_lists ds fl"
  using assms unfolding kmem_ok_def partial_lists_def by blast

lemma kmem_pages_ok: "kmem_ok hs s \<Longrightarrow> pages_ok s"
  by (auto elim: kmem_okE dest: kinvD(1))

text \<open>A page request by the allocator.\<close>

lemma kmem_get:
  assumes g: "do_get_free_page reclaim n prio s = Some (p, s')" and s: "kmem_ok hs s" "Q s"
    and Q: "stable Q" "reclaim_keeps reclaim Q"
  shows "p = 0 \<and> kmem_ok hs s' \<and> Q s' \<or>
         p \<noteq> 0 \<and> Q s' \<and> (\<exists>ds fl fd. kinv ds fl fd hs s' \<and> partial_lists ds fl \<and> fresh ds fd hs s' p)"
proof -
  have "p = 0 \<and> kmem_ok hs s' \<and> Q s' \<or> (\<exists>s1. (kmem_ok hs s1 \<and> Q s1) \<and> got p s1 s')"
    using do_get_free_page_rule [OF g, of "\<lambda>s. kmem_ok hs s \<and> Q s"] s Q(2) kmem_pages_ok
    unfolding reclaim_keeps_def by blast
  moreover have ?thesis if s1: "kmem_ok hs s1" "Q s1" "got p s1 s'" for s1
  proof -
    obtain ds fl fd where k: "kinv ds fl fd hs s1" "partial_lists ds fl" using s1(1) by (rule kmem_okE)
    note G = kinv_got [OF k(1) s1(3)]
    have "Q s'" using Q(1) s1(2) G(5,6) unfolding stable_def keeps_def by metis
    then show ?thesis
      using G(1) k(2) got_fresh [OF k(1) s1(3)] got_nonzero [OF kmem_pages_ok [OF s1(1)] s1(3)] by blast
  qed
  ultimately show ?thesis by blast
qed

lemma take_first_desc:
  assumes "kinv ds fl fd hs u" "partial_lists ds fl" "Q u" "free_bucket_desc u \<noteq> 0" "stable Q"
  defines "v \<equiv> u\<lparr>free_bucket_desc := ram u (free_bucket_desc u + 4)\<rparr>"
  shows "kmem_ok (free_bucket_desc u # hs) v \<and> Q v"
proof -
  obtain d fd' where fd: "fd = d # fd'" using kinvD(5) [OF assms(1)] assms(4) by (cases fd) auto
  note T = kinv_take_desc [OF assms(1) [unfolded fd]]
  have "Q v" using assms(3,5) T(2,3) unfolding stable_def keeps_def v_def by fastforce
  then show ?thesis using T(1,3) assms(2) by (auto simp: v_def intro: kmem_okI)
qed

lemma take_desc_ok:
  assumes t: "take_desc reclaim fuel prio s = Some (d, s')" and s: "kmem_ok hs s" "Q s"
    and Q: "stable Q" "reclaim_keeps reclaim Q"
  shows "d = 0 \<and> kmem_ok hs s' \<and> Q s' \<or> d \<noteq> 0 \<and> kmem_ok (d # hs) s' \<and> Q s'"
proof (cases "free_bucket_desc s = 0")
  case True
  then obtain p u where g: "do_get_free_page reclaim fuel prio s = Some (p, u)"
    using t by (auto simp: take_desc_def split: option.splits)
  from kmem_get [OF g s Q] consider "p = 0" "kmem_ok hs u" "Q u" |
    ds fl fd where "p \<noteq> 0" "Q u" "kinv ds fl fd hs u" "partial_lists ds fl" "fresh ds fd hs u p" by blast
  then show ?thesis
  proof cases
    case 1 then show ?thesis using t True g by (simp add: take_desc_def)
  next
    case 2
    let ?v = "init_bucket_desc p u"
    note I = init_bucket_desc_ok [OF 2(3,5)]
    obtain fd' where k: "kinv ds fl (p # fd') hs ?v" using I(1) by blast
    have q: "Q ?v" using Q(1) 2(2) I(2,3) unfolding stable_def by blast
    have f: "free_bucket_desc ?v = p" by (simp add: init_bucket_desc_def Let_def split: prod.splits)
    then show ?thesis
      using t True g 2(1) take_first_desc [OF k 2(4) q _ Q(1)] by (auto simp: take_desc_def Let_def)
  qed
next
  case False
  obtain ds fl fd where k: "kinv ds fl fd hs s" "partial_lists ds fl" using s(1) by (rule kmem_okE)
  show ?thesis using t False take_first_desc [OF k s(2) False Q(1)] by (auto simp: take_desc_def Let_def)
qed

lemma new_bucket_ok:
  assumes t: "new_bucket reclaim fuel prio i s = Some (d, s')" and s: "kmem_ok hs s" "Q s" and i: "i < 9"
    and Q: "stable Q" "reclaim_keeps reclaim Q"
  shows "d = 0 \<and> kmem_ok hs s' \<and> Q s' \<or>
    d \<noteq> 0 \<and> Q s' \<and> (\<exists>ds fl fd. kinv (ds(i := d # ds i)) fl fd hs s' \<and> partial_lists ds fl \<and>
      d \<notin> in_chains ds \<and> length (fl d) = 4096 div bsz i)"
proof -
  obtain e u where td: "take_desc reclaim fuel prio s = Some (e, u)"
    using t by (auto simp: new_bucket_def split: option.splits)
  show ?thesis
  proof (cases "e = 0")
    case True then show ?thesis using t td take_desc_ok [OF td s Q] by (simp add: new_bucket_def)
  next
    case False
    then have u: "kmem_ok (e # hs) u" "Q u" using take_desc_ok [OF td s Q] by auto
    obtain p v where g: "do_get_free_page reclaim fuel prio u = Some (p, v)"
      using t td False by (auto simp: new_bucket_def split: option.splits)
    from kmem_get [OF g u Q] consider "p = 0" "kmem_ok (e # hs) v" "Q v" |
      ds fl fd where "p \<noteq> 0" "Q v" "kinv ds fl fd (e # hs) v" "partial_lists ds fl" "fresh ds fd (e # hs) v p" by blast
    then show ?thesis
    proof cases
      case 1
      obtain ds fl fd where k: "kinv ds fl fd (e # hs) v" "partial_lists ds fl" using 1(2) by (rule kmem_okE)
      note P = kinv_put_desc [OF k(1)]
      show ?thesis
        using t td False g 1 kmem_okI [OF P(1) k(2)] P(2,3) Q(1) unfolding stable_def by (auto simp: new_bucket_def)
    next
      case 2
      note L = linked_ok [OF 2(3,5) i]
      have "s' = linked i e p v" "d = e"
        using t td False g 2(1) dir_size [OF 2(3) i] by (auto simp: new_bucket_def Let_def linked_def set_chain_def)
      moreover have "e \<notin> in_chains ds" using kinvD(6) [OF 2(3)] by (auto simp: descs_distinct_def)
      moreover have "Q (linked i e p v)" using Q(1) 2(2) L(2,3) unfolding stable_def by blast
      moreover have "partial_lists ds (fl(e := map (block p (bsz i)) [0..<4096 div bsz i]))"
        using 2(4) \<open>e \<notin> in_chains ds\<close> in_chainsI [of _ _ ds] by (auto simp: partial_lists_def)
      moreover have "length ((fl(e := map (block p (bsz i)) [0..<4096 div bsz i])) e) = 4096 div bsz i" by simp
      ultimately show ?thesis using L(1) False by blast
    qed
  qed
qed

text \<open>Taking a block from a bucket.\<close>

lemma live_take:
  assumes k: "kinv ds fl fd hs s" and i: "i < 9" "d \<in> set (ds i)" and f: "fl d = b # bs"
  shows "\<exists>s'. take_block d s = (b, s') \<and> kinv ds (fl(d := bs)) fd hs s' \<and> b \<noteq> 0 \<and> (b, bsz i) \<notin> live s \<and>
    live s' = insert (b, bsz i) (live s) \<and> keeps (live s) s s'"
proof -
  obtain s' where T: "take_block d s = (b, s')" "kinv ds (fl(d := bs)) fd hs s'" "b \<in> blocks_of (ram s d) (bsz i)" "b \<noteq> 0"
    "\<forall>a. a \<notin> {d + 8, d + 12} \<longrightarrow> ram s' a = ram s a" using take_block_ok [OF k i f] by blast
  note d = in_chainsI [of i d ds, OF i] and K = kinvD [OF k]
  have same: "ram s' e = ram s e" if e: "e \<in> in_chains ds" for e
    using T(5) desc_sep_num [OF kinv_desc(1) [OF k in_chains_all [OF e]] kinv_desc(1) [OF k in_chains_all [OF d]]]
    by (cases "e = d") auto
  have dist: "b \<notin> set bs" using K(8) [OF i] f by (simp add: bucket_ok_def)
  have only: "j = i" if "j < 9" "d \<in> set (ds j)" for j using that i K(6) unfolding descs_distinct_def by blast
  have nl: "(b, bsz i) \<notin> live s"
  proof
    assume "(b, bsz i) \<in> live s"
    then obtain j e where "bsz i = bsz j" "j < 9" "e \<in> set (ds j)" "b \<in> blocks_of (ram s e) (bsz j)" "b \<notin> set (fl e)" "e \<in> in_chains ds"
      using live_owner [OF k] by (metis prod.inject)
    moreover from this have "e = d" using kinv_block [OF k] T(3) i kinv_same_page [OF k _ d] by metis
    ultimately show False using f by simp
  qed
  have "blocks_in_use ds (fl(d := bs)) (ram s') = insert (b, bsz i) (blocks_in_use ds fl (ram s))"
  proof (intro set_eqI iffI)
    fix x assume "x \<in> blocks_in_use ds (fl(d := bs)) (ram s')"
    then obtain c j e where x: "x = (c, bsz j)" "j < 9" "e \<in> set (ds j)" "c \<in> blocks_of (ram s' e) (bsz j)" "c \<notin> set ((fl(d := bs)) e)"
      unfolding blocks_in_use_def by blast
    have c: "c \<in> blocks_of (ram s e) (bsz j)" using x(4) same [OF in_chainsI [of j e ds, OF x(2,3)]] by simp
    show "x \<in> insert (b, bsz i) (blocks_in_use ds fl (ram s))"
    proof (cases "c \<in> set (fl e)")
      case True
      then have "e = d" "c = b" using x(5) f by (auto split: if_splits)
      then show ?thesis using x only by auto
    qed (use x c in \<open>auto simp: blocks_in_use_def\<close>)
  next
    fix x assume x: "x \<in> insert (b, bsz i) (blocks_in_use ds fl (ram s))"
    then obtain c j e where y: "x = (c, bsz j)" "j < 9" "e \<in> set (ds j)" "c \<in> blocks_of (ram s e) (bsz j)" "c \<notin> set ((fl(d := bs)) e)"
    proof (cases "x = (b, bsz i)")
      case True then show ?thesis using that [of b i d] i T(3) dist by simp
    next
      case False
      then obtain c j e where "x = (c, bsz j)" "j < 9" "e \<in> set (ds j)" "c \<in> blocks_of (ram s e) (bsz j)" "c \<notin> set (fl e)"
        using x unfolding blocks_in_use_def by blast
      then show ?thesis using that [of c j e] f by (cases "e = d") auto
    qed
    have "c \<in> blocks_of (ram s' e) (bsz j)" using y(4) same [OF in_chainsI [of j e ds, OF y(2,3)]] by simp
    then show "x \<in> blocks_in_use ds (fl(d := bs)) (ram s')" using y unfolding blocks_in_use_def by blast
  qed
  then have "live s' = insert (b, bsz i) (live s)" unfolding live_eq [OF k] live_eq [OF T(2)] .
  moreover have "keeps (live s) s s'"
    using T(5) live_not_desc [OF k _ _ in_chains_all [OF d]] unfolding keeps_def by blast
  ultimately show ?thesis using T nl by blast
qed

lemma find_bdesc_sound:
  assumes "chain (\<lambda>d. m (d + 4)) p xs" "find_bdesc n m p = Some d"
  shows "d = 0 \<or> d \<in> set xs \<and> m (d + 8) \<noteq> 0"
  using assms
proof (induction n m p arbitrary: xs rule: find_bdesc.induct)
  case (2 n m p)
  then show ?case by (cases xs) (auto split: if_splits)
qed simp

lemma freeptr_nonzero:
  assumes "kinv ds fl fd hs s" "i < 9" "d \<in> set (ds i)" "ram s (d + 8) \<noteq> 0"
  shows "\<exists>b bs. fl d = b # bs"
  using kinvD(8) [OF assms(1-3)] assms(4) by (cases "fl d") (auto simp: bucket_ok_def)

text \<open>The outcome of a call: the new block, of the smallest size that is large enough, is none of those in use at that moment.\<close>

definition allocated :: "(kmem \<Rightarrow> bool) \<Rightarrow> u32 \<Rightarrow> u32 \<Rightarrow> kmem \<Rightarrow> bool" where
  "allocated Q len a s' \<longleftrightarrow>
     (\<exists>i<9. \<exists>u. Q u \<and> unat len \<le> bsz i \<and> (i = 0 \<or> bsz (i - 1) < unat len) \<and> (a, bsz i) \<notin> live u \<and>
        live s' = insert (a, bsz i) (live u) \<and> keeps (live u) u s')"

lemma take_allocated:
  assumes k: "kinv ds fl fd hs u" and i: "i < 9" "d \<in> set (ds i)" "fl d \<noteq> []"
    and part: "\<And>j e. j < 9 \<Longrightarrow> e \<in> set (ds j) \<Longrightarrow> e \<noteq> d \<Longrightarrow> length (fl e) < 4096 div bsz j"
    and Q: "Q u" "unat len \<le> bsz i" "i = 0 \<or> bsz (i - 1) < unat len" and t: "take_block d u = (a, s')"
  shows "a \<noteq> 0 \<and> kmem_ok hs s' \<and> allocated Q len a s'"
proof -
  obtain b bs where f: "fl d = b # bs" using i(3) by (cases "fl d") auto
  have T: "a = b" "kinv ds (fl(d := bs)) fd hs s'" "b \<noteq> 0" "(b, bsz i) \<notin> live u" "live s' = insert (b, bsz i) (live u)" "keeps (live u) u s'"
    using live_take [OF k i(1,2) f] t by auto
  have o: "page_aligned (ram u d)" and bo: "bucket_ok (ram u) (bsz i) d (fl d)" using kinvD(8) [OF k i(1,2)] by (auto simp: owned_def)
  have l: "length bs < 4096 div bsz i" using free_list_length [OF bo o bsz_pos] f by simp
  have "partial_lists ds (fl(d := bs))"
    unfolding partial_lists_def
  proof (intro allI impI ballI)
    fix j e assume j: "j < 9" "e \<in> set (ds j)"
    have "j = i" if "e = d" using j i that kinvD(6) [OF k] unfolding descs_distinct_def by blast
    then show "length ((fl(d := bs)) e) < 4096 div bsz j" using l part [OF j] by (cases "e = d") auto
  qed
  then have "kmem_ok hs s'" using T(2) by (intro kmem_okI)
  then show ?thesis using T Q i(1) unfolding allocated_def by blast
qed

lemma kmalloc_rule:
  assumes t: "kmalloc reclaim fuel len prio s = Some (a, s')" and s: "kmem_ok hs s" "Q s"
    and Q: "stable Q" "reclaim_keeps reclaim Q"
  shows "a = 0 \<and> kmem_ok hs s' \<and> Q s' \<or> a \<noteq> 0 \<and> kmem_ok hs s' \<and> allocated Q len a s'"
proof -
  obtain ds fl fd where k: "kinv ds fl fd hs s" "partial_lists ds fl" using s(1) by (rule kmem_okE)
  note sizes = kinvD(2) [OF k(1)]
  show ?thesis
  proof (cases "unat len \<le> 4096")
    case False
    then show ?thesis using t s find_bdir_too_large [OF sizes, of len] by (simp add: kmalloc_def)
  next
    case True
    then obtain i where i: "i < 9" "find_bdir 0 len (bucket_dir s) = Some i" "unat len \<le> bsz i" "i = 0 \<or> bsz (i - 1) < unat len"
      using find_bdir_fits [OF sizes] by blast
    obtain d where fb: "find_bdesc fuel (ram s) (bd_chain (bucket_dir s ! i)) = Some d"
      using t i(2) by (auto simp: kmalloc_def split: option.splits)
    show ?thesis
    proof (cases "d = 0")
      case False
      have d: "d \<in> set (ds i)" "ram s (d + 8) \<noteq> 0"
        using find_bdesc_sound [OF kinvD(4) [OF k(1) i(1)] fb] False by auto
      have "take_block d s = (a, s')" using t i(2) fb False by (simp add: kmalloc_def)
      then show ?thesis
        using take_allocated [where Q = Q, OF k(1) i(1) d(1) _ _ s(2) i(3,4)] k(2) freeptr_nonzero [OF k(1) i(1) d] unfolding partial_lists_def by fastforce
    next
      case True
      then obtain e u where nb: "new_bucket reclaim fuel prio i s = Some (e, u)"
        using t i(2) fb by (auto simp: kmalloc_def split: option.splits)
      from new_bucket_ok [OF nb s i(1) Q] consider "e = 0" "kmem_ok hs u" "Q u" |
        ds fl fd where "e \<noteq> 0" "Q u" "kinv (ds(i := e # ds i)) fl fd hs u" "partial_lists ds fl" "e \<notin> in_chains ds" "length (fl e) = 4096 div bsz i"
        by blast
      then show ?thesis
      proof cases
        case 1 then show ?thesis using t i(2) fb True nb by (simp add: kmalloc_def)
      next
        case 2
        have "take_block e u = (a, s')" using t i(2) fb True nb 2(1) by (simp add: kmalloc_def)
        moreover have "fl e \<noteq> []" using 2(6) bsz_div [OF i(1)] by auto
        moreover have "length (fl e') < 4096 div bsz j" if "j < 9" "e' \<in> set ((ds(i := e # ds i)) j)" "e' \<noteq> e" for j e'
          using 2(4) that unfolding partial_lists_def by (cases "j = i") auto
        ultimately have "a \<noteq> 0 \<and> kmem_ok hs s' \<and> allocated Q len a s'"
          by (intro take_allocated [where Q = Q and d = e, OF 2(3) i(1) _ _ _ 2(2) i(3,4)]) simp_all
        then show ?thesis by blast
      qed
    qed
  qed
qed


text \<open>At interrupt priority nothing is reclaimed, and the call always returns.\<close>

lemma get_atomic_no_reclaim: "do_get_free_page reclaim n GFP_ATOMIC s = do_get_free_page (\<lambda>_ s. (False, s)) n GFP_ATOMIC s"
  by (cases n) (simp_all split: prod.splits option.splits)

lemma get_atomic_returns: "\<exists>p s'. do_get_free_page reclaim (Suc n) GFP_ATOMIC s = Some (p, s')"
  by (simp split: prod.splits option.splits)

lemma take_desc_atomic: "take_desc reclaim n GFP_ATOMIC s = take_desc (\<lambda>_ s. (False, s)) n GFP_ATOMIC s"
  unfolding take_desc_def by (subst get_atomic_no_reclaim) (rule refl)

lemma kmalloc_atomic: "kmalloc reclaim n len GFP_ATOMIC s = kmalloc (\<lambda>_ s. (False, s)) n len GFP_ATOMIC s"
  unfolding kmalloc_def new_bucket_def take_desc_atomic [of reclaim] get_atomic_no_reclaim [of reclaim] ..

lemma take_desc_returns: "\<exists>p s'. take_desc reclaim (Suc n) GFP_ATOMIC s = Some (p, s')"
  using get_atomic_returns [of reclaim n s] unfolding take_desc_def by (auto simp: Let_def)

lemma new_bucket_returns: "\<exists>d s'. new_bucket reclaim (Suc n) GFP_ATOMIC i s = Some (d, s')"
proof -
  obtain d u where t: "take_desc reclaim (Suc n) GFP_ATOMIC s = Some (d, u)" using take_desc_returns by blast
  show ?thesis using get_atomic_returns [of reclaim n u] unfolding new_bucket_def t by (auto simp: Let_def)
qed

lemma kmalloc_returns:
  assumes "kmem_ok hs s" "2 ^ 20 \<le> fuel"
  shows "\<exists>a s'. kmalloc reclaim fuel len GFP_ATOMIC s = Some (a, s')"
proof -
  obtain ds fl fd where k: "kinv ds fl fd hs s" "partial_lists ds fl" using assms(1) by (rule kmem_okE)
  obtain n where n: "fuel = Suc n" using assms(2) by (cases fuel) auto
  show ?thesis
  proof (cases "find_bdir 0 len (bucket_dir s)")
    case None then show ?thesis by (simp add: kmalloc_def)
  next
    case (Some i)
    then have i: "i < 9" using find_bdir_fits [OF kinvD(2) [OF k(1)], of len] find_bdir_too_large [OF kinvD(2) [OF k(1)], of len]
      by (cases "unat len \<le> 4096") auto
    obtain d where "find_bdesc fuel (ram s) (bd_chain (bucket_dir s ! i)) = Some d"
      using find_bdesc_ok [OF kinvD(4) [OF k(1) i], of fuel] chain_pages_bounded [OF k(1) i] assms(2) by auto
    moreover obtain e u where "new_bucket reclaim fuel GFP_ATOMIC i s = Some (e, u)" using new_bucket_returns n by metis
    ultimately show ?thesis using Some by (cases "take_block d s"; cases "take_block e u") (simp add: kmalloc_def)
  qed
qed

section \<open>The interface: blocks of memory\<close>

datatype heap_op = Alloc u32 | Free u32 u32 | Store u32 u32

fun heap_run :: "('s \<Rightarrow> (u32 \<times> nat) set) \<Rightarrow> (u32 \<Rightarrow> 's \<Rightarrow> u32 \<times> 's) \<Rightarrow> (u32 \<Rightarrow> u32 \<Rightarrow> 's \<Rightarrow> 's) \<Rightarrow>
    (u32 \<Rightarrow> u32 \<Rightarrow> 's \<Rightarrow> 's) \<Rightarrow> heap_op list \<Rightarrow> 's \<Rightarrow> 's" where
  "heap_run lv alloc free store [] s = s"
| "heap_run lv alloc free store (Alloc len # ops) s = heap_run lv alloc free store ops (snd (alloc len s))"
| "heap_run lv alloc free store (Free a sz # ops) s = heap_run lv alloc free store ops (free a sz s)"
| "heap_run lv alloc free store (Store a v # ops) s = heap_run lv alloc free store ops (store a v s)"

text \<open>A legal sequence frees only blocks in use, with a size that is not too large, and stores only into blocks in use.\<close>

fun heap_legal :: "('s \<Rightarrow> (u32 \<times> nat) set) \<Rightarrow> (u32 \<Rightarrow> 's \<Rightarrow> u32 \<times> 's) \<Rightarrow> (u32 \<Rightarrow> u32 \<Rightarrow> 's \<Rightarrow> 's) \<Rightarrow>
    (u32 \<Rightarrow> u32 \<Rightarrow> 's \<Rightarrow> 's) \<Rightarrow> heap_op list \<Rightarrow> 's \<Rightarrow> bool" where
  "heap_legal lv alloc free store [] s \<longleftrightarrow> True"
| "heap_legal lv alloc free store (Alloc len # ops) s \<longleftrightarrow> heap_legal lv alloc free store ops (snd (alloc len s))"
| "heap_legal lv alloc free store (Free a sz # ops) s \<longleftrightarrow>
     (\<exists>z. (a, z) \<in> lv s \<and> unat sz \<le> z) \<and> heap_legal lv alloc free store ops (free a sz s)"
| "heap_legal lv alloc free store (Store a v # ops) s \<longleftrightarrow>
     (\<exists>x\<in>lv s. a \<in> extent x) \<and> heap_legal lv alloc free store ops (store a v s)"

text \<open>The value last stored at an address.\<close>

fun last_store :: "u32 \<Rightarrow> heap_op list \<Rightarrow> u32 \<Rightarrow> u32" where
  "last_store a [] v = v"
| "last_store a (Store b w # ops) v = last_store a ops (if b = a then w else v)"
| "last_store a (x # ops) v = last_store a ops v"

locale block_allocator =
  fixes inv :: "'s \<Rightarrow> bool" and lv :: "'s \<Rightarrow> (u32 \<times> nat) set" and mem :: "'s \<Rightarrow> memory"
    and alloc :: "u32 \<Rightarrow> 's \<Rightarrow> u32 \<times> 's" and free :: "u32 \<Rightarrow> u32 \<Rightarrow> 's \<Rightarrow> 's" and store :: "u32 \<Rightarrow> u32 \<Rightarrow> 's \<Rightarrow> 's"
  assumes apart: "inv s \<Longrightarrow> x \<in> lv s \<Longrightarrow> y \<in> lv s \<Longrightarrow> x \<noteq> y \<Longrightarrow> extent x \<inter> extent y = {}"
    and alloc_ok: "inv s \<Longrightarrow> alloc len s = (a, s') \<Longrightarrow>
      inv s' \<and> lv s \<subseteq> lv s' \<and> (a \<noteq> 0 \<longrightarrow> (\<exists>z\<ge>unat len. lv s' = insert (a, z) (lv s) \<and> (a, z) \<notin> lv s)) \<and>
      (\<forall>x\<in>lv s. \<forall>b\<in>extent x. mem s' b = mem s b)"
    and free_ok: "inv s \<Longrightarrow> (a, z) \<in> lv s \<Longrightarrow> unat sz \<le> z \<Longrightarrow>
      inv (free a sz s) \<and> lv (free a sz s) = lv s - {(a, z)} \<and> (\<forall>x\<in>lv s - {(a, z)}. \<forall>b\<in>extent x. mem (free a sz s) b = mem s b)"
    and store_ok: "inv s \<Longrightarrow> x \<in> lv s \<Longrightarrow> a \<in> extent x \<Longrightarrow>
      inv (store a v s) \<and> lv (store a v s) = lv s \<and> mem (store a v s) = (mem s)(a := v)"
begin

lemma run_isolated:
  assumes "inv s" "heap_legal lv alloc free store ops s" "(b, z) \<in> lv s" "\<forall>sz. Free b sz \<notin> set ops"
  shows "inv (heap_run lv alloc free store ops s) \<and> (b, z) \<in> lv (heap_run lv alloc free store ops s) \<and>
         (\<forall>a\<in>extent (b, z). mem (heap_run lv alloc free store ops s) a = last_store a ops (mem s a))"
  using assms
proof (induction ops arbitrary: s)
  case (Cons x ops)
  show ?case
  proof (cases x)
    case (Alloc len)
    obtain a t where t: "alloc len s = (a, t)" by fastforce
    then show ?thesis using Cons.IH [of t] Cons.prems Alloc alloc_ok [OF Cons.prems(1) t] by auto
  next
    case (Free a sz)
    then obtain w where w: "(a, w) \<in> lv s" "unat sz \<le> w" using Cons.prems(2) by auto
    have "a \<noteq> b" using Cons.prems(4) Free by auto
    then have n: "(b, z) \<in> lv s - {(a, w)}" using Cons.prems(3) by simp
    note f = free_ok [OF Cons.prems(1) w]
    have "mem (free a sz s) c = mem s c" if "c \<in> extent (b, z)" for c using f n that by blast
    then show ?thesis using Cons.IH [of "free a sz s"] Cons.prems Free f n by simp
  next
    case (Store a v)
    then obtain y where y: "y \<in> lv s" "a \<in> extent y" using Cons.prems(2) by auto
    then show ?thesis using Cons.IH [of "store a v s"] Cons.prems Store store_ok [OF Cons.prems(1) y] by auto
  qed
qed simp

end

section \<open>The allocator provides it\<close>

definition km_alloc :: "u32 \<Rightarrow> kmem \<Rightarrow> u32 \<times> kmem" where
  "km_alloc len s = (case kmalloc (\<lambda>_ s. (False, s)) (2 ^ 20) len GFP_ATOMIC s of Some r \<Rightarrow> r | None \<Rightarrow> (0, s))"

definition km_free :: "u32 \<Rightarrow> u32 \<Rightarrow> kmem \<Rightarrow> kmem" where
  "km_free a sz s = (case kfree_s (2 ^ 20) a sz s of Some s' \<Rightarrow> s' | None \<Rightarrow> s)"

definition km_store :: "u32 \<Rightarrow> u32 \<Rightarrow> kmem \<Rightarrow> kmem" where
  "km_store a v s = s\<lparr>ram := (ram s)(a := v)\<rparr>"

lemma stable_keeps: "stable (\<lambda>t. live t = L \<and> keeps L s t)"
  by (auto simp: stable_def keeps_def)

lemma km_alloc_ok:
  assumes "kmem_ok [] s" "km_alloc len s = (a, s')"
  shows "kmem_ok [] s' \<and> live s \<subseteq> live s' \<and> (a \<noteq> 0 \<longrightarrow> (\<exists>z\<ge>unat len. live s' = insert (a, z) (live s) \<and> (a, z) \<notin> live s)) \<and>
    keeps (live s) s s'"
proof -
  let ?Q = "\<lambda>t. live t = live s \<and> keeps (live s) s t"
  obtain b t where "kmalloc (\<lambda>_ s. (False, s)) (2 ^ 20) len GFP_ATOMIC s = Some (b, t)"
    using kmalloc_returns [OF assms(1) order_refl] by blast
  then have "kmalloc (\<lambda>_ s. (False, s)) (2 ^ 20) len GFP_ATOMIC s = Some (a, s')" using assms(2) by (simp add: km_alloc_def)
  then have "a = 0 \<and> kmem_ok [] s' \<and> ?Q s' \<or> a \<noteq> 0 \<and> kmem_ok [] s' \<and> allocated ?Q len a s'"
    using assms(1) by (intro kmalloc_rule [OF _ _ _ stable_keeps]) (auto simp: reclaim_keeps_def keeps_def)
  then show ?thesis unfolding allocated_def keeps_def by auto
qed

lemma store_ok:
  assumes "kmem_ok hs s" "x \<in> live s" "a \<in> extent x"
  shows "kmem_ok hs (km_store a v s) \<and> live (km_store a v s) = live s"
proof -
  obtain ds fl fd where k: "kinv ds fl fd hs s" "partial_lists ds fl" using assms(1) by (rule kmem_okE)
  obtain b i d where x: "x = (b, bsz i)" "i < 9" "d \<in> set (ds i)" "b \<in> blocks_of (ram s d) (bsz i)" "b \<notin> set (fl d)" "d \<in> in_chains ds"
    using live_owner [OF k(1) assms(2)] by metis
  note nd = live_not_desc [OF k(1) assms(2,3)]
  have pa: "page_of a = ram s d" using live_page [OF k(1) x(2-4)] assms(3) x(1) by simp
  have B: "bucket_ok (ram s) (bsz i) d (fl d)" "page_aligned (ram s d)" using kinvD(8) [OF k(1) x(2,3)] by (auto simp: owned_def)
  have "c \<noteq> a" if "c \<in> set (fl d)" for c
    using extent_disjoint [OF B(2) bsz_pos x(4), of c] that B(1) x(1,5) assms(3) self_extent [OF bsz_pos, of c i]
    by (auto simp: bucket_ok_def)
  then have "bucket_ok ((ram s)(a := v)) (bsz i) d (fl d)"
    using nd [OF in_chains_all [OF x(6)]] by (intro bucket_ok_cong [OF B(1)]) auto
  then have "kinv ds (fl(d := fl d)) fd hs (s\<lparr>ram := (ram s)(a := v)\<rparr>)"
    by (rule kinv_write [OF k(1) x(2,3)]) (use pa in auto)
  then have k': "kinv ds fl fd hs (km_store a v s)" by (simp add: km_store_def)
  moreover have "live (km_store a v s) = live s"
    by (rule live_ram [OF k(1) k']) (use nd [OF in_chains_all] in \<open>auto simp: km_store_def\<close>)
  ultimately show ?thesis using k(2) by (auto intro: kmem_okI)
qed

interpretation kheap: block_allocator "kmem_ok []" live ram km_alloc km_free km_store
proof unfold_locales
  fix s x y assume "kmem_ok [] s" "x \<in> live s" "y \<in> live s" "x \<noteq> y"
  then show "extent x \<inter> extent y = {}" by (metis kmem_okE live_disjoint)
next
  fix s len a s' assume "kmem_ok [] s" "km_alloc len s = (a, s')"
  from km_alloc_ok [OF this]
  show "kmem_ok [] s' \<and> live s \<subseteq> live s' \<and> (a \<noteq> 0 \<longrightarrow> (\<exists>z\<ge>unat len. live s' = insert (a, z) (live s) \<and> (a, z) \<notin> live s)) \<and>
        (\<forall>x\<in>live s. \<forall>b\<in>extent x. ram s' b = ram s b)" by (simp add: keeps_def)
next
  fix s a z and sz :: u32 assume "kmem_ok [] s" "(a, z) \<in> live s" "unat sz \<le> z"
  from kfree_block [OF this, of "2 ^ 20"] obtain s' where "kfree_s (2 ^ 20) a sz s = Some s'" "kmem_ok [] s'"
    "live s' = live s - {(a, z)}" "keeps (live s') s s'" by auto
  then show "kmem_ok [] (km_free a sz s) \<and> live (km_free a sz s) = live s - {(a, z)} \<and>
             (\<forall>x\<in>live s - {(a, z)}. \<forall>b\<in>extent x. ram (km_free a sz s) b = ram s b)" by (simp add: km_free_def keeps_def)
next
  fix s x a v assume "kmem_ok [] s" "x \<in> live s" "a \<in> extent x"
  from store_ok [OF this]
  show "kmem_ok [] (km_store a v s) \<and> live (km_store a v s) = live s \<and> ram (km_store a v s) = (ram s)(a := v)"
    by (simp add: km_store_def)
qed


section \<open>Properties\<close>

lemma kfree_page:
  assumes s: "kmem_ok hs s" "(b, z) \<in> live s" "unat sz \<le> z" "2 ^ 20 \<le> fuel" and f: "kfree_s fuel b sz s = Some s'"
    and e: "\<forall>x\<in>live s'. page_of (fst x) \<noteq> page_of b"
  shows "page_of b \<in> free_pages s'"
proof -
  obtain ds fl fd where k: "kinv ds fl fd hs s" "partial_lists ds fl" using s(1) by (rule kmem_okE)
  obtain i d where b: "z = bsz i" "i < 9" "d \<in> set (ds i)" "b \<in> blocks_of (ram s d) (bsz i)" "b \<notin> set (fl d)"
    using live_owner [OF k(1) s(2)] by (metis prod.inject)
  obtain xs ys where d: "ds i = xs @ d # ys" using b(3) by (meson split_list)
  let ?t = "s\<lparr>ram := put_block d b (ram s)\<rparr>"
  note P = put_block_ok [OF k(1) b(2-5)] and L = live_put [OF k(1) b(2-5)]
  have own: "owned s (ram s d)" using kinvD(8) [OF k(1) b(2,3)] by blast
  have bp: "page_of b = ram s d" by (rule kinv_block [OF k(1) b(2-4)])
  have eq: "s' = (if Suc (length (fl d)) = 4096 div bsz i then dropped i xs d ?t else ?t)"
    using kfree_eq [OF k(1) b(2) d b(4,5) s(3) [unfolded b(1)] s(4)] f by simp
  have "\<not> Suc (length (fl d)) < 4096 div bsz i"
  proof
    assume l: "Suc (length (fl d)) < 4096 div bsz i"
    have "card (set (b # fl d)) \<le> Suc (length (fl d))" using card_length [of "b # fl d"] by simp
    then have "card (set (b # fl d)) < card (blocks_of (ram s d) (bsz i))" using l own by (simp add: card_blocks owned_def)
    then have "\<not> blocks_of (ram s d) (bsz i) \<subseteq> set (b # fl d)" using card_mono [OF finite_set] by (metis linorder_not_less)
    then obtain c where c: "c \<in> blocks_of (ram s d) (bsz i)" "c \<notin> set (b # fl d)" by blast
    then have "(c, bsz i) \<in> live s - {(b, bsz i)}" unfolding live_eq [OF k(1)] blocks_in_use_def using b(2,3) by auto
    then have "(c, bsz i) \<in> live s'" using L(1) eq l by simp
    then show False using e kinv_block [OF k(1) b(2,3) c(1)] bp by fastforce
  qed
  then have "Suc (length (fl d)) = 4096 div bsz i" using P(3) by simp
  then have "s' = dropped i xs d ?t" using eq by simp
  moreover have "d \<noteq> b \<Longrightarrow> ram ?t d = ram s d" "d \<noteq> b"
    using P(4) [of d] bp kinvD(10) [OF k(1) in_chainsI [of i d ds] in_chains_all [OF in_chainsI [of i d ds]]] b(2,3) by auto
  ultimately show ?thesis
    using dropped_facts(2,3) [OF P(1) b(2) d] own bp by (simp add: free_pages_def owned_def)
qed

text \<open>A state with one bucket of blocks of 2048 bytes: its descriptor at \<open>0x3000\<close>, its page at \<open>0x4000\<close>, the first block in
  use and the second free.\<close>

definition km1 :: kmem where
  "km1 = \<lparr>ram = (\<lambda>_. 0)(0x2000 := 0x1000, 0x3000 := 0x4000, 0x3008 := 0x4800, 0x300c := desc_word 1 2048),
          high_memory = 0x5000, mem_map = (\<lambda>n. if n \<in> {1, 2} then 0 else if n \<in> {3, 4} then 1 else 0x8000),
          free_page_list = 0x2000, nr_free_pages = 2, secondary_page_list = 0, nr_secondary_pages = 0,
          last_free_pages = replicate 32 0, free_index = 0,
          bucket_dir = initial_bucket_dir[7 := \<lparr>bd_size = 2048, bd_chain = 0x3000\<rparr>], free_bucket_desc = 0\<rparr>"

lemma km1_pages: "pages_ok km1"
proof -
  have fr: "page_aligned p \<and> p < 0x5000 \<longleftrightarrow> p \<in> {0, 0x1000, 0x2000, 0x3000, 0x4000}" for p
  proof
    assume p: "page_aligned p \<and> p < 0x5000"
    then have "MAP_NR p < 5" using aligned_unat [of p] by (simp add: word_less_nat_alt)
    then have "MAP_NR p = 0 \<or> MAP_NR p = 1 \<or> MAP_NR p = 2 \<or> MAP_NR p = 3 \<or> MAP_NR p = 4" by linarith
    then have "unat p \<in> {0, 4096, 8192, 12288, 16384}" using p by (auto simp: aligned_unat)
    then show "p \<in> {0, 0x1000, 0x2000, 0x3000, 0x4000}" by (auto simp: word_unat_eq_iff)
  qed (auto simp: page_aligned_def)
  have "page_aligned p \<and> p < high_memory km1 \<and> mem_map km1 (MAP_NR p) = 0 \<longleftrightarrow>
        p \<in> {0, 0x1000, 0x2000, 0x3000, 0x4000} \<and> mem_map km1 (MAP_NR p) = 0" for p
    using fr [of p] by (simp add: km1_def)
  then have "free_pages km1 = {p \<in> {0, 0x1000, 0x2000, 0x3000, 0x4000}. mem_map km1 (MAP_NR p) = 0}"
    by (simp add: free_pages_def)
  also have "\<dots> = {0x2000, 0x1000}" by (auto simp: km1_def MAP_NR_def)
  finally have "page_lists km1 [0x2000, 0x1000] []" by (simp add: page_lists_def) (simp add: km1_def page_aligned_def)
  then show ?thesis by (auto simp: pages_ok_def)
qed

lemma km1_blocks: "blocks_of 0x4000 2048 = {0x4000, 0x4800}"
proof -
  have "{..<2 :: nat} = {0, 1}" by auto
  then show ?thesis by (simp add: blocks_of_def block_def)
qed

definition ds1 :: "nat \<Rightarrow> u32 list" where
  "ds1 i = (if i = 7 then [0x3000] else [])"

lemma km1_in_chains: "in_chains ds1 = {0x3000}"
  by (auto simp: in_chains_def ds1_def)

lemma km1_kinv: "kinv ds1 (\<lambda>_. [0x4800]) [] [] km1"
proof -
  have o: "owned km1 0x3000" "owned km1 0x4000" by (simp_all add: owned_def km1_def page_aligned_def MAP_NR_def)
  note b = km1_blocks
  have "chain (\<lambda>d. ram km1 (d + 4)) (bd_chain (bucket_dir km1 ! i)) (ds1 i)" if "i < 9" for i
  proof -
    have "i = 0 \<or> i = 1 \<or> i = 2 \<or> i = 3 \<or> i = 4 \<or> i = 5 \<or> i = 6 \<or> i = 7 \<or> i = 8" using that by linarith
    then show ?thesis by (elim disjE) (simp_all add: ds1_def km1_def initial_bucket_dir_def)
  qed
  moreover have "bucket_ok (ram km1) (bsz i) d [0x4800] \<and> owned km1 (ram km1 d)" if "i < 9" "d \<in> set (ds1 i)" for i d
  proof -
    have "i = 7" "d = 0x3000" using that(2) by (auto simp: ds1_def split: if_splits)
    then show ?thesis using o b by (simp add: bucket_ok_def bsz_def km1_def)
  qed
  moreover have "descs_distinct ds1 [] []" by (auto simp: descs_distinct_def ds1_def)
  moreover have "all_descs ds1 [] [] = {0x3000}" by (simp add: all_descs_def km1_in_chains)
  moreover have "page_of 0x3000 = 0x3000" by (simp add: page_of_def)
  moreover have "ram km1 0x3000 = 0x4000" "map bd_size (bucket_dir km1) = dir_sizes" "free_bucket_desc km1 = 0"
    by (simp_all add: km1_def initial_bucket_dir_def dir_sizes_def)
  ultimately show ?thesis using km1_pages o by (simp add: kinv_def km1_in_chains desc_aligned_def)
qed

lemma km1_ok: "kmem_ok [] km1" "live km1 = {(0x4000, 2048)}"
proof -
  have "partial_lists ds1 (\<lambda>_. [0x4800])" by (simp add: partial_lists_def ds1_def bsz_def)
  then show "kmem_ok [] km1" using km1_kinv by (rule kmem_okI [rotated])
  note b = km1_blocks
  have r: "ram km1 0x3000 = 0x4000" by (simp add: km1_def)
  have "x \<in> blocks_in_use ds1 (\<lambda>_. [0x4800]) (ram km1) \<longleftrightarrow> x = (0x4000, 2048)" for x
  proof
    assume "x \<in> blocks_in_use ds1 (\<lambda>_. [0x4800]) (ram km1)"
    then obtain c i d where x: "x = (c, bsz i)" "d \<in> set (ds1 i)" "c \<in> blocks_of (ram km1 d) (bsz i)" "c \<noteq> 0x4800"
      unfolding blocks_in_use_def by auto
    then have "i = 7" "d = 0x3000" by (auto simp: ds1_def split: if_splits)
    then show "x = (0x4000, 2048)" using x b r by (auto simp: bsz_def)
  next
    assume "x = (0x4000, 2048)"
    then have "x = (0x4000, bsz 7) \<and> 7 < (9 :: nat) \<and> 0x3000 \<in> set (ds1 7) \<and> 0x4000 \<in> blocks_of (ram km1 0x3000) (bsz 7) \<and> 0x4000 \<notin> set [0x4800 :: u32]"
      using b r by (simp add: ds1_def bsz_def)
    then show "x \<in> blocks_in_use ds1 (\<lambda>_. [0x4800]) (ram km1)" unfolding blocks_in_use_def by blast
  qed
  then show "live km1 = {(0x4000, 2048)}" unfolding live_eq [OF km1_kinv] by blast
qed

text \<open>C20. Blocks of \<open>kmalloc\<close> are private. For every sequence of allocations at interrupt priority, releases of blocks in use,
  and stores into blocks in use, a block that is in use and is not released stays in use, and each of its longs holds
  what was last stored there: no other block overlaps it and the allocator does not write to it. The allocator stays
  consistent.\<close>

theorem kmalloc_blocks_private:
  assumes "kmem_ok [] s" "heap_legal live km_alloc km_free km_store ops s" "(b, z) \<in> live s" "\<forall>sz. Free b sz \<notin> set ops"
  shows "kmem_ok [] (heap_run live km_alloc km_free km_store ops s) \<and>
         (b, z) \<in> live (heap_run live km_alloc km_free km_store ops s) \<and>
         (\<forall>a\<in>extent (b, z). ram (heap_run live km_alloc km_free km_store ops s) a = last_store a ops (ram s a))"
  using assms by (rule kheap.run_isolated)

theorem kmalloc_blocks_private_witness:
  "ram (heap_run live km_alloc km_free km_store [Alloc 100, Store 0x4004 7, Alloc 2000] km1) 0x4004 = 7"
proof -
  let ?ops = "[Alloc 100, Store 0x4004 7, Alloc 2000]"
  obtain a t where t: "km_alloc 100 km1 = (a, t)" by fastforce
  have e: "0x4004 \<in> extent (0x4000, 2048)" unfolding extent_def by (rule image_eqI [of _ _ 4]) simp_all
  moreover have "(0x4000, 2048) \<in> live t" using km_alloc_ok [OF km1_ok(1) t] km1_ok(2) by blast
  ultimately have "heap_legal live km_alloc km_free km_store ?ops km1" using t by auto
  then show ?thesis using kmalloc_blocks_private [of km1 ?ops "0x4000" 2048] km1_ok e by simp
qed

text \<open>C21. \<open>kmalloc\<close> at any priority, whatever happens while it waits for memory, as long as the allocator stays consistent and
  the blocks of the caller (\<open>X\<close>) stay allocated and unchanged: if it returns an address, this is a block of the
  smallest size that is large enough, which overlaps none of the caller's blocks; they are still there, unchanged.\<close>

theorem kmalloc_fresh_block:
  assumes s: "kmem_ok hs s" "X \<subseteq> live s"
    and reclaim: "\<forall>n t hs. kmem_ok hs t \<and> X \<subseteq> live t \<longrightarrow>
      kmem_ok hs (snd (reclaim n t)) \<and> X \<subseteq> live (snd (reclaim n t)) \<and> keeps X t (snd (reclaim n t))"
    and call: "kmalloc reclaim fuel len priority s = Some (a, s')"
  shows "kmem_ok hs s' \<and> X \<subseteq> live s' \<and> keeps X s s' \<and>
    (a \<noteq> 0 \<longrightarrow> (\<exists>i<9. unat len \<le> bsz i \<and> (i = 0 \<or> bsz (i - 1) < unat len) \<and> (a, bsz i) \<in> live s' \<and>
      (\<forall>x\<in>X. extent x \<inter> extent (a, bsz i) = {})))"
proof -
  let ?Q = "\<lambda>t. X \<subseteq> live t \<and> keeps X s t"
  have st: "stable ?Q" unfolding stable_def keeps_def by (metis subsetD)
  have rk: "reclaim_keeps reclaim ?Q" using reclaim unfolding reclaim_keeps_def keeps_def by auto
  have q: "?Q s" using s(2) by (simp add: keeps_def)
  from kmalloc_rule [OF call s(1) q st rk] consider "a = 0" "kmem_ok hs s'" "?Q s'" | "a \<noteq> 0" "kmem_ok hs s'" "allocated ?Q len a s'" by blast
  then show ?thesis
  proof cases
    case 2
    then obtain i u where i: "i < 9" "?Q u" "unat len \<le> bsz i" "i = 0 \<or> bsz (i - 1) < unat len" "(a, bsz i) \<notin> live u"
      "live s' = insert (a, bsz i) (live u)" "keeps (live u) u s'" unfolding allocated_def by blast
    have d: "extent x \<inter> extent (a, bsz i) = {}" if "x \<in> X" for x
      using that i(2,5,6) live_disjoint 2(2) by (metis (no_types, lifting) insert_iff kmem_okE subsetD)
    have "X \<subseteq> live s'" using i(2,6) by blast
    moreover have "keeps X s s'" using i(2,7) unfolding keeps_def by (metis subsetD)
    ultimately show ?thesis using i 2(2) d by blast
  qed (use q in auto)
qed

theorem kmalloc_fresh_block_witness:
  "\<exists>s'. kmalloc (\<lambda>_ s. (False, s)) 1 2000 GFP_KERNEL km1 = Some (0x4800, s') \<and> kmem_ok [] s' \<and>
        {(0x4000, 2048)} \<subseteq> live s' \<and> keeps {(0x4000, 2048)} km1 s'"
proof -
  have "fst (the (kmalloc (\<lambda>_ s. (False, s)) 1 2000 GFP_KERNEL km1)) = 0x4800 \<and>
        kmalloc (\<lambda>_ s. (False, s)) 1 2000 GFP_KERNEL km1 \<noteq> None"
    by (simp add: kmalloc_def km1_def initial_bucket_dir_def take_block_def Let_def)
  then obtain s' where c: "kmalloc (\<lambda>_ s. (False, s)) 1 2000 GFP_KERNEL km1 = Some (0x4800, s')" by auto
  then show ?thesis
    using kmalloc_fresh_block [OF km1_ok(1) _ _ c, of "{(0x4000, 2048)}"] km1_ok(2) by (simp add: keeps_def)
qed

text \<open>C22. \<open>kfree_s\<close> of a block in use, with its size, a smaller size or 0, always returns: the block is no longer in use, all
  others are, with their contents, and when the page holds no other block it goes back to the page allocator.\<close>

theorem kfree_returns_block:
  assumes "kmem_ok hs s" "(b, z) \<in> live s" "unat sz \<le> z"
  shows "\<exists>s'. kfree_s (2 ^ 20) b sz s = Some s' \<and> kmem_ok hs s' \<and> live s' = live s - {(b, z)} \<and> keeps (live s') s s' \<and>
    ((\<forall>x\<in>live s'. page_of (fst x) \<noteq> page_of b) \<longrightarrow> page_of b \<in> free_pages s')"
proof -
  obtain s' where f: "kfree_s (2 ^ 20) b sz s = Some s'" "kmem_ok hs s'" "live s' = live s - {(b, z)}" "keeps (live s') s s'"
    using kfree_block [OF assms, of "2 ^ 20"] by auto
  moreover have "(\<forall>x\<in>live s'. page_of (fst x) \<noteq> page_of b) \<longrightarrow> page_of b \<in> free_pages s'"
    using kfree_page [OF assms _ f(1)] by simp
  ultimately show ?thesis by blast
qed

theorem kfree_returns_block_witness:
  "\<exists>s'. kfree_s (2 ^ 20) 0x4000 0 km1 = Some s' \<and> kmem_ok [] s' \<and> live s' = {} \<and> 0x4000 \<in> free_pages s'"
proof -
  have "page_of 0x4000 = 0x4000" by (simp add: page_of_def)
  then show ?thesis using kfree_returns_block [OF km1_ok(1), of "0x4000" 2048 0] km1_ok(2) by auto
qed

end
