(* ===== verification/Pgtable.thy ===== *)
theory Pgtable
  imports Pages Signals
begin

text \<open>
  Page tables: \<^verbatim>\<open>mm/memory.c\<close> (copying, clearing and freeing the tables of a process, the write-protection fault, new
  pages, sharing of clean pages) and the swap map of \<^verbatim>\<open>mm/swap.c\<close>. A directory is a page of 1024 longs that name page
  tables, a page table one of 1024 longs that name pages; both stand in the memory of theory \<open>Pages\<close>. The translation
  buffer of the processor is not modelled, so \<^verbatim>\<open>invalidate\<close> does nothing. \<open>None\<close> as a result is a panic, or that the
  fuel of a loop that sleeps is used up.
\<close>

section \<open>Data\<close>

abbreviation (input) PAGE_PRESENT :: u32 where "PAGE_PRESENT \<equiv> 0x001"
abbreviation (input) PAGE_RW :: u32 where "PAGE_RW \<equiv> 0x002"
abbreviation (input) PAGE_USER :: u32 where "PAGE_USER \<equiv> 0x004"
abbreviation (input) PAGE_ACCESSED :: u32 where "PAGE_ACCESSED \<equiv> 0x020"
abbreviation (input) PAGE_DIRTY :: u32 where "PAGE_DIRTY \<equiv> 0x040"
abbreviation (input) PAGE_COW :: u32 where "PAGE_COW \<equiv> 0x200"
abbreviation (input) PAGE_PRIVATE :: u32 where "PAGE_PRIVATE \<equiv> 0x227"
abbreviation (input) PAGE_SHARED :: u32 where "PAGE_SHARED \<equiv> 0x027"
abbreviation (input) PAGE_TABLE :: u32 where "PAGE_TABLE \<equiv> 0x027"
abbreviation (input) PTRS_PER_PAGE :: nat where "PTRS_PER_PAGE \<equiv> 1024"
abbreviation (input) SWP_USED :: u32 where "SWP_USED \<equiv> 1"
abbreviation (input) SWP_WRITEOK :: u32 where "SWP_WRITEOK \<equiv> 3"
abbreviation (input) SHM_SWP_TYPE :: nat where "SHM_SWP_TYPE \<equiv> 0x41"
abbreviation (input) SWAP_BITS :: nat where "SWAP_BITS \<equiv> 4096"

text \<open>The fields of \<open>struct swap_info_struct\<close> that the maps need. \<open>lowest_bit\<close> and \<open>highest_bit\<close> are ints that are only
  compared with unsigned values.\<close>

record swap_info_struct =
  swp_flags :: u32
  swap_map :: "nat \<Rightarrow> u8"
  swap_lockmap :: "nat \<Rightarrow> bool"
  lowest_bit :: u32
  highest_bit :: u32

text \<open>\<open>cr3\<close> is \<open>tss.cr3\<close> of each task; the last three fields are the addresses of objects of the kernel image.\<close>

record vmm = mm +
  kern :: kernel
  cr3 :: "tptr \<Rightarrow> u32"
  swap_info :: "swap_info_struct list"
  nr_swapfiles :: nat
  nr_swap_pages :: int
  lock_queue :: "tptr list"
  swapper_pg_dir :: u32
  empty_bad_page :: u32
  empty_bad_page_table :: u32

type_synonym reclaimer = "nat \<Rightarrow> vmm \<Rightarrow> bool \<times> vmm"
type_synonym sleeper = "nat \<Rightarrow> vmm \<Rightarrow> vmm"

definition PAGE_DIR_OFFSET :: "u32 \<Rightarrow> u32 \<Rightarrow> u32" where
  "PAGE_DIR_OFFSET base address = base + (drop_bit 20 address AND NOT 3 AND NOT PAGE_MASK)"

definition PAGE_PTR :: "u32 \<Rightarrow> u32" where
  "PAGE_PTR address = drop_bit 10 address AND NOT 3 AND NOT PAGE_MASK"

definition SWP_TYPE :: "u32 \<Rightarrow> nat" where
  "SWP_TYPE entry = unat (drop_bit 1 (entry AND 0xfe))"

definition SWP_OFFSET :: "u32 \<Rightarrow> nat" where
  "SWP_OFFSET entry = unat (drop_bit 12 entry)"

definition SWP_ENTRY :: "nat \<Rightarrow> u32 \<Rightarrow> u32" where
  "SWP_ENTRY ty offset = push_bit 1 (of_nat ty) OR push_bit 12 offset"

abbreviation store :: "u32 \<Rightarrow> u32 \<Rightarrow> vmm \<Rightarrow> vmm" where
  "store a v s \<equiv> s\<lparr>ram := (ram s)(a := v)\<rparr>"

abbreviation reserved :: "vmm \<Rightarrow> u32 \<Rightarrow> bool" where
  "reserved s e \<equiv> mem_map s (MAP_NR e) AND MAP_PAGE_RESERVED \<noteq> 0"

definition use_page :: "u32 \<Rightarrow> vmm \<Rightarrow> vmm" where
  "use_page e s = s\<lparr>mem_map := (mem_map s)(MAP_NR e := mem_map s (MAP_NR e) + 1)\<rparr>"

abbreviation on_task :: "tptr \<Rightarrow> (task_struct \<Rightarrow> task_struct) \<Rightarrow> vmm \<Rightarrow> vmm" where
  "on_task p f s \<equiv> s\<lparr>kern := upd_task p f (kern s)\<rparr>"

abbreviation kill_task :: "u32 \<Rightarrow> tptr \<Rightarrow> vmm \<Rightarrow> vmm" where
  "kill_task sig p s \<equiv> s\<lparr>kern := snd (send_sig sig (Some p) True (kern s))\<rparr>"

text \<open>\<open>rep stosl\<close> with a value, and \<open>copy_page\<close>, which is \<open>memcpy\<close> of a page.\<close>

fun fill_longs :: "u32 \<Rightarrow> nat \<Rightarrow> u32 \<Rightarrow> memory \<Rightarrow> memory" where
  "fill_longs v 0 a m = m"
| "fill_longs v (Suc n) a m = fill_longs v n (a + 4) (m(a := v))"

fun copy_longs :: "nat \<Rightarrow> u32 \<Rightarrow> u32 \<Rightarrow> memory \<Rightarrow> memory" where
  "copy_longs 0 a b m = m"
| "copy_longs (Suc n) a b m = copy_longs n (a + 4) (b + 4) (m(b := m a))"

definition copy_page :: "u32 \<Rightarrow> u32 \<Rightarrow> vmm \<Rightarrow> vmm" where
  "copy_page src dst s = s\<lparr>ram := copy_longs 1024 src dst (ram s)\<rparr>"

text \<open>\<open>BAD_PAGE\<close> and \<open>BAD_PAGETABLE\<close> call functions that fill a page of the kernel image and return its address.\<close>

definition BAD_PAGE :: "vmm \<Rightarrow> u32 \<times> vmm" where
  "BAD_PAGE s = (empty_bad_page s, s\<lparr>ram := fill_longs 0 PTRS_PER_PAGE (empty_bad_page s) (ram s)\<rparr>)"

definition BAD_PAGETABLE :: "vmm \<Rightarrow> u32 \<times> vmm" where
  "BAD_PAGETABLE s =
     (let (b, s) = BAD_PAGE s
      in (empty_bad_page_table s,
          s\<lparr>ram := fill_longs (b + PAGE_TABLE) PTRS_PER_PAGE (empty_bad_page_table s) (ram s)\<rparr>))"

definition oom :: "tptr \<Rightarrow> vmm \<Rightarrow> vmm" where
  "oom tsk s =
     kill_task SIGKILL tsk
       (on_task tsk (\<lambda>t. t\<lparr>sigaction := (sigaction t)[8 := (sigaction t ! 8)\<lparr>sa_handler := 0\<rparr>],
                            blocked := blocked t AND NOT (sigbit SIGKILL)\<rparr>) s)"

section \<open>The swap map\<close>

text \<open>The search for a free page on a swap device, from \<open>lowest_bit\<close> to \<open>highest_bit\<close>; \<open>n\<close> bounds the number of steps.\<close>

fun swap_scan :: "nat \<Rightarrow> u32 \<Rightarrow> swap_info_struct \<Rightarrow> u32 option" where
  "swap_scan 0 offset p = None"
| "swap_scan (Suc n) offset p =
     (if offset \<le> highest_bit p then
        if swap_map p (unat offset) \<noteq> 0 then swap_scan n (offset + 1) p else Some offset
      else None)"

fun swap_search :: "nat \<Rightarrow> nat \<Rightarrow> vmm \<Rightarrow> u32 \<times> vmm" where
  "swap_search 0 ty s = (0, s)"
| "swap_search (Suc n) ty s =
     (let p = swap_info s ! ty
      in if swp_flags p AND SWP_WRITEOK \<noteq> SWP_WRITEOK then swap_search n (Suc ty) s
         else case swap_scan (Suc SWAP_BITS) (lowest_bit p) p of
                None \<Rightarrow> swap_search n (Suc ty) s
              | Some offset \<Rightarrow>
                  let p = p\<lparr>swap_map := (swap_map p)(unat offset := 1)\<rparr>;
                      p = (if offset = highest_bit p then p\<lparr>highest_bit := highest_bit p - 1\<rparr> else p);
                      p = p\<lparr>lowest_bit := offset\<rparr>
                  in (SWP_ENTRY ty offset,
                      s\<lparr>swap_info := (swap_info s)[ty := p], nr_swap_pages := nr_swap_pages s - 1\<rparr>))"

definition get_swap_page :: "vmm \<Rightarrow> u32 \<times> vmm" where
  "get_swap_page s = swap_search (nr_swapfiles s) 0 s"

abbreviation upd_swap :: "nat \<Rightarrow> (swap_info_struct \<Rightarrow> swap_info_struct) \<Rightarrow> vmm \<Rightarrow> vmm" where
  "upd_swap ty f s \<equiv> s\<lparr>swap_info := (swap_info s)[ty := f (swap_info s ! ty)]\<rparr>"

definition swap_duplicate :: "u32 \<Rightarrow> vmm \<Rightarrow> u32 \<times> vmm" where
  "swap_duplicate entry s =
     (if entry = 0 then (0, s)
      else let offset = SWP_OFFSET entry; ty = SWP_TYPE entry
           in if ty = SHM_SWP_TYPE then (entry, s)
              else if ty \<ge> nr_swapfiles s then (0, s)
              else if offset \<ge> SWAP_BITS then (0, s)
              else if swap_map (swap_info s ! ty) offset = 0 then (0, s)
              else (entry, upd_swap ty (\<lambda>p. p\<lparr>swap_map := (swap_map p)(offset := swap_map p offset + 1)\<rparr>) s))"

text \<open>\<open>while (set_bit(offset,p->swap_lockmap)) sleep_on(&lock_queue);\<close> where \<open>env\<close> is what happens during the sleep.\<close>

fun lock_swap_page :: "sleeper \<Rightarrow> nat \<Rightarrow> nat \<Rightarrow> nat \<Rightarrow> vmm \<Rightarrow> vmm option" where
  "lock_swap_page env 0 ty offset s = None"
| "lock_swap_page env (Suc n) ty offset s =
     (if swap_lockmap (swap_info s ! ty) offset then lock_swap_page env n ty offset (env n s)
      else Some (upd_swap ty (\<lambda>p. p\<lparr>swap_lockmap := (swap_lockmap p)(offset := True)\<rparr>) s))"

definition unuse_swap :: "nat \<Rightarrow> nat \<Rightarrow> vmm \<Rightarrow> vmm" where
  "unuse_swap ty offset s =
     (let s = upd_swap ty (\<lambda>p. if of_nat offset < lowest_bit p then p\<lparr>lowest_bit := of_nat offset\<rparr> else p) s;
          s = upd_swap ty (\<lambda>p. if of_nat offset > highest_bit p then p\<lparr>highest_bit := of_nat offset\<rparr> else p) s
      in if swap_map (swap_info s ! ty) offset = 0 then s
         else let s = upd_swap ty (\<lambda>p. p\<lparr>swap_map := (swap_map p)(offset := swap_map p offset - 1)\<rparr>) s
              in if swap_map (swap_info s ! ty) offset = 0 then s\<lparr>nr_swap_pages := nr_swap_pages s + 1\<rparr> else s)"

definition swap_free :: "sleeper \<Rightarrow> nat \<Rightarrow> u32 \<Rightarrow> vmm \<Rightarrow> vmm option" where
  "swap_free env fuel entry s =
     (if entry = 0 then Some s
      else let ty = SWP_TYPE entry
           in if ty = SHM_SWP_TYPE then Some s
              else if ty \<ge> nr_swapfiles s then Some s
              else let offset = SWP_OFFSET entry
                   in if offset \<ge> SWAP_BITS then Some s
                      else if swp_flags (swap_info s ! ty) AND SWP_USED = 0 then Some s
                      else case lock_swap_page env fuel ty offset s of
                             None \<Rightarrow> None
                           | Some s \<Rightarrow>
                               let s = unuse_swap ty offset s;
                                   s = upd_swap ty (\<lambda>p. p\<lparr>swap_lockmap := (swap_lockmap p)(offset := False)\<rparr>) s
                               in Some (s\<lparr>kern := wake_up (lock_queue s) (kern s)\<rparr>))"

section \<open>Freeing the tables of a process\<close>

text \<open>The loop over the entries of a table: \<open>n\<close> longs from \<open>a\<close> on.\<close>

fun free_entries :: "sleeper \<Rightarrow> nat \<Rightarrow> nat \<Rightarrow> u32 \<Rightarrow> vmm \<Rightarrow> vmm option" where
  "free_entries env fuel 0 a s = Some s"
| "free_entries env fuel (Suc n) a s =
     (let pg = ram s a
      in if pg = 0 then free_entries env fuel n (a + 4) s
         else let s = store a 0 s
              in case (if pg AND PAGE_PRESENT \<noteq> 0 then Some (free_page (PAGE_MASK AND pg) s)
                       else swap_free env fuel pg s) of
                   None \<Rightarrow> None
                 | Some s \<Rightarrow> free_entries env fuel n (a + 4) s)"

definition free_one_table :: "sleeper \<Rightarrow> nat \<Rightarrow> u32 \<Rightarrow> vmm \<Rightarrow> vmm option" where
  "free_one_table env fuel page_dir s =
     (let pg_table = ram s page_dir
      in if pg_table = 0 then Some s
         else let s = store page_dir 0 s
              in if pg_table \<ge> high_memory s \<or> pg_table AND PAGE_PRESENT = 0 then Some s
                 else if reserved s pg_table then Some s
                 else case free_entries env fuel PTRS_PER_PAGE (pg_table AND PAGE_MASK) s of
                        None \<Rightarrow> None
                      | Some s \<Rightarrow> Some (free_page (PAGE_MASK AND pg_table) s))"

fun free_tables :: "sleeper \<Rightarrow> nat \<Rightarrow> nat \<Rightarrow> u32 \<Rightarrow> vmm \<Rightarrow> vmm option" where
  "free_tables env fuel 0 page_dir s = Some s"
| "free_tables env fuel (Suc n) page_dir s =
     (case free_one_table env fuel page_dir s of
        None \<Rightarrow> None
      | Some s \<Rightarrow> free_tables env fuel n (page_dir + 4) s)"

text \<open>\<open>for (i = 768 ; i < 1024 ; i++) new_pg[i] = page_dir[i];\<close>\<close>

definition copy_kernel_dir :: "u32 \<Rightarrow> u32 \<Rightarrow> vmm \<Rightarrow> vmm" where
  "copy_kernel_dir page_dir new_pg s = s\<lparr>ram := copy_longs 256 (page_dir + 3072) (new_pg + 3072) (ram s)\<rparr>"

definition clear_page_tables :: "reclaimer \<Rightarrow> sleeper \<Rightarrow> nat \<Rightarrow> tptr option \<Rightarrow> vmm \<Rightarrow> vmm option" where
  "clear_page_tables reclaim env fuel tsk s =
     (case tsk of
        None \<Rightarrow> Some s
      | Some tsk \<Rightarrow>
          if task (kern s) ! 0 = Some tsk then None
          else let pg_dir = cr3 s tsk
               in if pg_dir = 0 \<or> pg_dir = swapper_pg_dir s then Some s
                  else if mem_map s (MAP_NR pg_dir) > 1 then
                    (case get_free_page reclaim fuel GFP_KERNEL s of
                       None \<Rightarrow> None
                     | Some (new_pg, s) \<Rightarrow>
                         if new_pg = 0 then Some (oom tsk s)
                         else let s = free_page pg_dir (copy_kernel_dir pg_dir new_pg s)
                              in Some (s\<lparr>cr3 := (cr3 s)(tsk := new_pg)\<rparr>))
                  else free_tables env fuel 768 pg_dir s)"

definition free_page_tables :: "sleeper \<Rightarrow> nat \<Rightarrow> tptr option \<Rightarrow> vmm \<Rightarrow> vmm option" where
  "free_page_tables env fuel tsk s =
     (case tsk of
        None \<Rightarrow> Some s
      | Some tsk \<Rightarrow>
          if task (kern s) ! 0 = Some tsk then None
          else let pg_dir = cr3 s tsk
               in if pg_dir = 0 \<or> pg_dir = swapper_pg_dir s then Some s
                  else let s = s\<lparr>cr3 := (cr3 s)(tsk := swapper_pg_dir s)\<rparr>
                       in if mem_map s (MAP_NR pg_dir) > 1 then Some (free_page pg_dir s)
                          else case free_tables env fuel PTRS_PER_PAGE pg_dir s of
                                 None \<Rightarrow> None
                               | Some s \<Rightarrow> Some (free_page pg_dir s))"

section \<open>Copying the tables of a process\<close>

definition clone_page_tables :: "tptr \<Rightarrow> vmm \<Rightarrow> int \<times> vmm" where
  "clone_page_tables tsk s =
     (let pg_dir = cr3 s (current (kern s)); s = use_page pg_dir s
      in (0, s\<lparr>cr3 := (cr3 s)(tsk := pg_dir)\<rparr>))"

text \<open>One entry of a table, and the loop over the table.\<close>

definition copy_entry :: "u32 \<Rightarrow> u32 \<Rightarrow> vmm \<Rightarrow> vmm" where
  "copy_entry old new s =
     (let pg = ram s old
      in if pg = 0 then s
         else if pg AND PAGE_PRESENT = 0 then let (e, s) = swap_duplicate pg s in store new e s
         else let pg = (if pg AND (PAGE_RW OR PAGE_COW) = PAGE_RW OR PAGE_COW then pg AND NOT PAGE_RW else pg);
                  s = store new pg s
              in if reserved s pg then s else use_page pg (store old pg s))"

fun copy_entries :: "nat \<Rightarrow> u32 \<Rightarrow> u32 \<Rightarrow> vmm \<Rightarrow> vmm" where
  "copy_entries 0 old new s = s"
| "copy_entries (Suc n) old new s = copy_entries n (old + 4) (new + 4) (copy_entry old new s)"

text \<open>The loop over the directory: the result is 0, or \<open>-ENOMEM\<close> after what was built has been freed.\<close>

fun copy_tables :: "reclaimer \<Rightarrow> sleeper \<Rightarrow> nat \<Rightarrow> tptr \<Rightarrow> nat \<Rightarrow> u32 \<Rightarrow> u32 \<Rightarrow> vmm \<Rightarrow> (int \<times> vmm) option" where
  "copy_tables reclaim env fuel tsk 0 old_page_dir new_page_dir s = Some (0, s)"
| "copy_tables reclaim env fuel tsk (Suc n) old_page_dir new_page_dir s =
     (let old_pg_table = ram s old_page_dir
      in if old_pg_table = 0 then copy_tables reclaim env fuel tsk n (old_page_dir + 4) (new_page_dir + 4) s
         else if old_pg_table \<ge> high_memory s \<or> old_pg_table AND PAGE_PRESENT = 0 then
           copy_tables reclaim env fuel tsk n (old_page_dir + 4) (new_page_dir + 4) (store old_page_dir 0 s)
         else if reserved s old_pg_table then
           copy_tables reclaim env fuel tsk n (old_page_dir + 4) (new_page_dir + 4) (store new_page_dir old_pg_table s)
         else case get_free_page reclaim fuel GFP_KERNEL s of
                None \<Rightarrow> None
              | Some (new_pg_table, s) \<Rightarrow>
                  if new_pg_table = 0 then
                    (case free_page_tables env fuel (Some tsk) s of None \<Rightarrow> None | Some s \<Rightarrow> Some (- ENOMEM, s))
                  else
                    let s = copy_entries PTRS_PER_PAGE (PAGE_MASK AND old_pg_table) (PAGE_MASK AND new_pg_table) s;
                        s = store new_page_dir (new_pg_table OR PAGE_TABLE) s
                    in copy_tables reclaim env fuel tsk n (old_page_dir + 4) (new_page_dir + 4) s)"

definition copy_page_tables :: "reclaimer \<Rightarrow> sleeper \<Rightarrow> nat \<Rightarrow> tptr \<Rightarrow> vmm \<Rightarrow> (int \<times> vmm) option" where
  "copy_page_tables reclaim env fuel tsk s =
     (case get_free_page reclaim fuel GFP_KERNEL s of
        None \<Rightarrow> None
      | Some (new_pg_dir, s) \<Rightarrow>
          if new_pg_dir = 0 then Some (- ENOMEM, s)
          else let old_pg_dir = cr3 s (current (kern s));
                   s = s\<lparr>cr3 := (cr3 s)(tsk := new_pg_dir)\<rparr>
               in copy_tables reclaim env fuel tsk PTRS_PER_PAGE old_pg_dir new_pg_dir s)"

section \<open>Faults\<close>

text \<open>The labels of \<open>__do_wp_page\<close>.\<close>

definition end_wp_page :: "u32 \<Rightarrow> vmm \<Rightarrow> vmm" where
  "end_wp_page new_page s = (if new_page \<noteq> 0 then free_page new_page s else s)"

definition bad_wp_page :: "u32 \<Rightarrow> tptr \<Rightarrow> u32 \<Rightarrow> vmm \<Rightarrow> vmm" where
  "bad_wp_page pte tsk new_page s =
     (let (b, s) = BAD_PAGE s
      in end_wp_page new_page (kill_task SIGKILL tsk (store pte (b OR PAGE_SHARED) s)))"

definition bad_wp_pagetable :: "u32 \<Rightarrow> tptr \<Rightarrow> u32 \<Rightarrow> vmm \<Rightarrow> vmm" where
  "bad_wp_pagetable pde tsk new_page s =
     (let (b, s) = BAD_PAGETABLE s
      in end_wp_page new_page (kill_task SIGKILL tsk (store pde (b OR PAGE_TABLE) s)))"

text \<open>The replacement of a page that others use too.\<close>

definition replace_page :: "u32 \<Rightarrow> tptr \<Rightarrow> u32 \<Rightarrow> u32 \<Rightarrow> u32 \<Rightarrow> vmm \<Rightarrow> vmm" where
  "replace_page pte tsk old_page prot new_page s =
     (if new_page \<noteq> 0 then
        let s = (if reserved s old_page then on_task tsk (\<lambda>t. t\<lparr>rss := rss t + 1\<rparr>) s else s);
            s = copy_page old_page new_page s;
            s = store pte (new_page OR prot) s
        in free_page old_page s
      else
        let s = oom tsk (free_page old_page s); (b, s) = BAD_PAGE s
        in store pte (b OR prot) s)"

definition wp_page_slow :: "reclaimer \<Rightarrow> nat \<Rightarrow> u32 \<Rightarrow> tptr \<Rightarrow> vmm \<Rightarrow> vmm option" where
  "wp_page_slow reclaim fuel address tsk s =
     (case do_get_free_page reclaim fuel GFP_KERNEL s of
        None \<Rightarrow> None
      | Some (new_page, s) \<Rightarrow>
          let pde = PAGE_DIR_OFFSET (cr3 s tsk) address; pte = ram s pde
          in if pte AND PAGE_PRESENT = 0 then Some (end_wp_page new_page s)
             else if pte AND PAGE_TABLE \<noteq> PAGE_TABLE \<or> pte \<ge> high_memory s then Some (bad_wp_pagetable pde tsk new_page s)
             else
               let pte = (pte AND PAGE_MASK) + PAGE_PTR address; old_page = ram s pte
               in if old_page AND PAGE_PRESENT = 0 then Some (end_wp_page new_page s)
                  else if old_page \<ge> high_memory s then Some (bad_wp_page pte tsk new_page s)
                  else if old_page AND PAGE_RW \<noteq> 0 then Some (end_wp_page new_page s)
                  else
                    let s = on_task tsk (\<lambda>t. t\<lparr>min_flt := min_flt t + 1\<rparr>) s;
                        prot = (old_page AND NOT PAGE_MASK) OR PAGE_RW;
                        old_page = old_page AND PAGE_MASK
                    in if mem_map s (MAP_NR old_page) \<noteq> 1 then Some (replace_page pte tsk old_page prot new_page s)
                       else Some (end_wp_page new_page (store pte (ram s pte OR PAGE_RW) s)))"

definition do_wp_page :: "reclaimer \<Rightarrow> nat \<Rightarrow> u32 \<Rightarrow> tptr \<Rightarrow> u32 \<Rightarrow> vmm \<Rightarrow> vmm option" where
  "do_wp_page reclaim fuel address tsk user_esp s =
     (let pg_table = PAGE_DIR_OFFSET (cr3 s tsk) address; page = ram s pg_table
      in if page = 0 then Some s
         else if page AND PAGE_PRESENT \<noteq> 0 \<and> page < high_memory s then
           let pg_table = (page AND PAGE_MASK) + PAGE_PTR address; page = ram s pg_table
           in if page AND PAGE_PRESENT = 0 then Some s
              else if page AND PAGE_RW \<noteq> 0 then Some s
              else if page AND PAGE_COW = 0 \<and> user_esp \<noteq> 0 \<and> tsk = current (kern s) then Some (kill_task SIGSEGV tsk s)
              else if mem_map s (MAP_NR page) = 1 then Some (store pg_table (page OR (PAGE_RW OR PAGE_DIRTY)) s)
              else wp_page_slow reclaim fuel address tsk s
         else Some (store pg_table 0 s))"

end
