(* ===== verification/Pgacc.thy ===== *)
theory Pgacc
  imports Pgtable
begin

text \<open>
  The accounts of the memory manager. A page is used once for each page-table entry that names it, for each directory entry
  that names it as a table, for each task that has it as its directory, and by the rest of the kernel. The invariant
  \<open>acct\<close> says that \<^verbatim>\<open>mem_map\<close> counts exactly these uses, that tables belong to one entry of one directory, and that a
  task may write through an entry to a copy-on-write page only when that entry is its only use. The lemmas say which stores and
  which counter updates keep it.
\<close>

section \<open>Entries of a page of longs\<close>

definition slot :: "u32 \<Rightarrow> nat \<Rightarrow> u32" where
  "slot f i = f + of_nat (4 * i)"

lemma slot_0 [simp]: "slot f 0 = f"
  by (simp add: slot_def)

lemma slot_Suc: "slot f i + 4 = slot f (Suc i)"
  by (simp add: slot_def)

lemma unat_slot: "page_aligned f \<Longrightarrow> i < 1024 \<Longrightarrow> unat (slot f i) = unat f + 4 * i"
  unfolding slot_def by (rule unat_in_page) simp_all

lemma page_of_slot: "page_aligned f \<Longrightarrow> i < 1024 \<Longrightarrow> page_of (slot f i) = f"
  unfolding slot_def by (rule page_of_in_page) simp_all

lemma slot_inj:
  assumes "page_aligned f" "page_aligned g" "i < 1024" "j < 1024"
  shows "slot f i = slot g j \<longleftrightarrow> f = g \<and> i = j"
proof
  assume e: "slot f i = slot g j"
  then have "f = g" using page_of_slot assms by metis
  moreover have "4 * i = 4 * j" using e assms unat_slot \<open>f = g\<close> by (metis add_left_cancel)
  ultimately show "f = g \<and> i = j" by simp
qed simp

lemma slot_eq_page: "page_aligned f \<Longrightarrow> page_aligned p \<Longrightarrow> i < 1024 \<Longrightarrow> slot f i = p \<longleftrightarrow> f = p \<and> i = 0"
  using slot_inj [of f p i 0] by simp

section \<open>References\<close>

abbreviation present :: "u32 \<Rightarrow> bool" where
  "present e \<equiv> e AND PAGE_PRESENT \<noteq> 0"

text \<open>\<open>e\<close> names the page \<open>p\<close>; the number of entries of the page of longs \<open>f\<close> that do.\<close>

definition names :: "u32 \<Rightarrow> u32 \<Rightarrow> bool" where
  "names e p \<longleftrightarrow> present e \<and> page_of e = p"

definition refs :: "memory \<Rightarrow> u32 \<Rightarrow> u32 \<Rightarrow> nat" where
  "refs m f p = card {i. i < 1024 \<and> names (m (slot f i)) p}"

definition users :: "memory \<Rightarrow> u32 list \<Rightarrow> u32 list \<Rightarrow> u32 set \<Rightarrow> u32 \<Rightarrow> nat" where
  "users m D H T p = count_list (D @ H) p + (\<Sum>f\<in>set D \<union> T. refs m f p)"

lemma names_0 [simp]: "\<not> names 0 p"
  by (simp add: names_def)

lemma refs_cong: "(\<And>i. i < 1024 \<Longrightarrow> m' (slot f i) = m (slot f i)) \<Longrightarrow> refs m' f p = refs m f p"
  unfolding refs_def by (rule arg_cong [where f = card]) auto

lemma refs_other: "page_aligned f \<Longrightarrow> page_of a \<noteq> f \<Longrightarrow> refs (m(a := v)) f p = refs m f p"
  by (rule refs_cong) (use page_of_slot in auto)

lemma refs_store:
  assumes "page_aligned f" "i < 1024"
  shows "refs (m(slot f i := v)) f p + of_bool (names (m (slot f i)) p) = refs m f p + of_bool (names v p)"
proof -
  let ?S = "\<lambda>m. {j. j < 1024 \<and> names (m (slot f j)) p}" and ?R = "{j. j < 1024 \<and> j \<noteq> i \<and> names (m (slot f j)) p}"
  have s: "?S m' = (if names (m' (slot f i)) p then insert i {j. j < 1024 \<and> j \<noteq> i \<and> names (m' (slot f j)) p}
                    else {j. j < 1024 \<and> j \<noteq> i \<and> names (m' (slot f j)) p})" for m'
    using assms(2) by auto
  have e: "{j. j < 1024 \<and> j \<noteq> i \<and> names ((m(slot f i := v)) (slot f j)) p} = ?R"
    using assms slot_inj [OF assms(1,1)] by auto
  have "card (insert i ?R) = Suc (card ?R)" by (subst card_insert_disjoint) auto
  then show ?thesis unfolding refs_def s [of m] s [of "m(slot f i := v)"] e by simp
qed

lemma names_refs: "i < 1024 \<Longrightarrow> names (m (slot f i)) p \<Longrightarrow> 0 < refs m f p"
  unfolding refs_def by (subst card_gt_0_iff) auto

lemma refs_unique:
  assumes "refs m f p \<le> 1" "i < 1024" "j < 1024" "names (m (slot f i)) p" "names (m (slot f j)) p"
  shows "i = j"
proof -
  have "finite {i. i < 1024 \<and> names (m (slot f i)) p}" by simp
  then show ?thesis using assms card_le_Suc0_iff_eq [of "{i. i < 1024 \<and> names (m (slot f i)) p}"] unfolding refs_def by auto
qed

lemma users_store:
  assumes "\<forall>g\<in>set D \<union> T. page_aligned g" "finite T" "f \<in> set D \<union> T" "i < 1024"
  shows "users (m(slot f i := v)) D H T p + of_bool (names (m (slot f i)) p) = users m D H T p + of_bool (names v p)"
proof -
  have fin: "finite (set D \<union> T)" using assms(2) by simp
  have f: "page_aligned f" using assms by blast
  have "(\<Sum>g\<in>(set D \<union> T) - {f}. refs (m(slot f i := v)) g p) = (\<Sum>g\<in>(set D \<union> T) - {f}. refs m g p)"
    by (rule sum.cong) (use assms(1,4) f page_of_slot in \<open>auto intro!: refs_other\<close>)
  then show ?thesis
    using sum.remove [OF fin assms(3), of "\<lambda>g. refs (m(slot f i := v)) g p"] sum.remove [OF fin assms(3), of "\<lambda>g. refs m g p"]
      refs_store [OF f assms(4), of m v p] unfolding users_def by simp
qed

lemma users_cong:
  "(\<And>f i. f \<in> set D \<union> T \<Longrightarrow> i < 1024 \<Longrightarrow> m' (slot f i) = m (slot f i)) \<Longrightarrow> users m' D H T p = users m D H T p"
  unfolding users_def by (intro arg_cong2 [where f = "(+)"] refl sum.cong refs_cong) auto

lemma users_refs: "finite T \<Longrightarrow> f \<in> set D \<union> T \<Longrightarrow> refs m f p \<le> users m D H T p"
  unfolding users_def by (rule trans_le_add2) (rule member_le_sum, auto)

section \<open>The accounts\<close>

definition frame :: "vmm \<Rightarrow> u32 \<Rightarrow> bool" where
  "frame s p \<longleftrightarrow> page_aligned p \<and> p < high_memory s \<and> \<not> reserved s p"

text \<open>An entry the processor lets a task write through, on a page that is to be copied when it is shared.\<close>

definition private_rw :: "u32 \<Rightarrow> bool" where
  "private_rw e \<longleftrightarrow> e AND PAGE_RW \<noteq> 0 \<and> e AND PAGE_COW \<noteq> 0"

definition dir_ok :: "vmm \<Rightarrow> u32 set \<Rightarrow> u32 \<Rightarrow> bool" where
  "dir_ok s T e \<longleftrightarrow> e = 0 \<or> present e \<and> e < high_memory s \<and> (reserved s e \<or> page_of e \<in> T \<and> e AND PAGE_TABLE = PAGE_TABLE)"

definition pte_ok :: "vmm \<Rightarrow> u32 \<Rightarrow> bool" where
  "pte_ok s e \<longleftrightarrow> (present e \<longrightarrow> e < high_memory s \<and> (private_rw e \<and> \<not> reserved s e \<longrightarrow> mem_map s (MAP_NR e) = 1))"

text \<open>\<open>D\<close>: the directories, once for each task that has it; \<open>T\<close>: the page tables, of which those in \<open>H\<close> are not entered in
  a directory but held by running code; \<open>ext p\<close>: the number of other users of page \<open>p\<close>.\<close>

definition acct :: "u32 list \<Rightarrow> u32 list \<Rightarrow> u32 set \<Rightarrow> (u32 \<Rightarrow> nat) \<Rightarrow> vmm \<Rightarrow> bool" where
  "acct D H T ext s \<longleftrightarrow>
     pages_ok s \<and> finite T \<and> set D \<inter> T = {} \<and> set H \<subseteq> T \<and> (\<forall>f\<in>set D \<union> T. frame s f) \<and>
     (\<forall>d\<in>set D. unat (mem_map s (MAP_NR d)) = count_list D d) \<and>
     (\<forall>t\<in>T. mem_map s (MAP_NR t) = 1 \<and> 0 < count_list H t + (\<Sum>d\<in>set D. refs (ram s) d t)) \<and>
     (\<forall>d\<in>set D. \<forall>i<1024. dir_ok s T (ram s (slot d i))) \<and>
     (\<forall>t\<in>T. \<forall>i<1024. pte_ok s (ram s (slot t i))) \<and>
     (\<forall>p. frame s p \<longrightarrow> unat (mem_map s (MAP_NR p)) = users (ram s) D H T p + ext p)"

lemma acctD:
  assumes "acct D H T ext s"
  shows "pages_ok s" "finite T" "set D \<inter> T = {}" "set H \<subseteq> T" "\<And>f. f \<in> set D \<union> T \<Longrightarrow> frame s f"
    "\<And>d. d \<in> set D \<Longrightarrow> unat (mem_map s (MAP_NR d)) = count_list D d"
    "\<And>t. t \<in> T \<Longrightarrow> mem_map s (MAP_NR t) = 1" "\<And>t. t \<in> T \<Longrightarrow> 0 < count_list H t + (\<Sum>d\<in>set D. refs (ram s) d t)"
    "\<And>d i. d \<in> set D \<Longrightarrow> i < 1024 \<Longrightarrow> dir_ok s T (ram s (slot d i))"
    "\<And>t i. t \<in> T \<Longrightarrow> i < 1024 \<Longrightarrow> pte_ok s (ram s (slot t i))"
    "\<And>p. frame s p \<Longrightarrow> unat (mem_map s (MAP_NR p)) = users (ram s) D H T p + ext p"
  using assms by (simp_all add: acct_def)

lemma acct_aligned: "acct D H T ext s \<Longrightarrow> f \<in> set D \<union> T \<Longrightarrow> page_aligned f"
  using acctD(5) frame_def by blast

lemma users_split:
  assumes "acct D H T ext s"
  shows "users m D H T p = count_list D p + count_list H p + (\<Sum>f\<in>set D. refs m f p) + (\<Sum>f\<in>T. refs m f p)"
  unfolding users_def using sum.union_disjoint [of "set D" T "\<lambda>f. refs m f p"] acctD(2,3) [OF assms] by simp

text \<open>A page that has other users, or that a table names, is no directory and no table.\<close>

lemma not_node:
  assumes "acct D H T ext s" "frame s p" "0 < ext p + (\<Sum>t\<in>T. refs (ram s) t p)"
  shows "p \<notin> set D \<union> T"
proof -
  note u = acctD(11) [OF assms(1,2)] users_split [OF assms(1), of "ram s" p]
  have "p \<notin> set D" using u acctD(6) [OF assms(1), of p] assms(3) by auto
  moreover have "p \<notin> T" using u acctD(7) [OF assms(1), of p] acctD(8) [OF assms(1), of p] assms(3) by auto
  ultimately show ?thesis by blast
qed

lemma ext_not_node: "acct D H T ext s \<Longrightarrow> frame s p \<Longrightarrow> 0 < ext p \<Longrightarrow> p \<notin> set D \<union> T"
  using not_node by simp

lemma named_not_node:
  assumes "acct D H T ext s" "t \<in> T" "i < 1024" "names (ram s (slot t i)) p" "frame s p"
  shows "p \<notin> set D \<union> T"
proof (rule not_node [OF assms(1,5)])
  have "refs (ram s) t p \<le> (\<Sum>t\<in>T. refs (ram s) t p)"
    using member_le_sum [of t T "\<lambda>t. refs (ram s) t p"] assms(2) acctD(2) [OF assms(1)] by simp
  then show "0 < ext p + (\<Sum>t\<in>T. refs (ram s) t p)" using names_refs [where m = "ram s" and f = t, OF assms(3,4)] by simp
qed

section \<open>Single steps\<close>

lemma use_page_simps [simp]:
  "ram (use_page e s) = ram s" "high_memory (use_page e s) = high_memory s" "mm.more (use_page e s) = mm.more s"
  by (simp_all add: use_page_def)

lemma high_bit_count: "c AND MAP_PAGE_RESERVED = 0 \<longleftrightarrow> unat (c :: u16) < 32768"
proof -
  have "c AND MAP_PAGE_RESERVED = 0 \<longleftrightarrow> \<not> bit c 15"
    using bit_iff_and_push_bit_not_eq_0 [of c 15] by (simp add: push_bit_eq_mult)
  also have "\<dots> \<longleftrightarrow> even (unat c div 32768)"
    using bit_unsigned_iff [of c 15, where ?'a = nat] unfolding bit_iff_odd [of "unat c"] by simp blast
  also have "\<dots> \<longleftrightarrow> unat c < 32768"
  proof (cases "unat c < 32768")
    case False
    then have "unat c div 32768 = 1" using unsigned_less [of c, where ?'a = nat] by (intro div_nat_eqI) simp_all
    then show ?thesis using False by simp
  qed simp
  finally show ?thesis .
qed

lemma frame_count: "frame s p \<longleftrightarrow> page_aligned p \<and> p < high_memory s \<and> unat (mem_map s (MAP_NR p)) < 32768"
  using high_bit_count by (simp add: frame_def)

text \<open>A new value for an entry of a table.\<close>

lemma acct_store:
  assumes "acct D H T ext s" "t \<in> T" "i < 1024" "pte_ok s v"
    "\<forall>p. frame s p \<longrightarrow> ext' p + of_bool (names v p) = ext p + of_bool (names (ram s (slot t i)) p)"
  shows "acct D H T ext' (store (slot t i) v s)"
proof -
  note A = acctD [OF assms(1)]
  have al: "\<forall>g\<in>set D \<union> T. page_aligned g" using acct_aligned [OF assms(1)] by blast
  have t: "page_aligned t" using al assms(2) by blast
  have "slot t i \<notin> free_pages s"
    using A(7) [OF assms(2)] slot_eq_page [OF t _ assms(3), of "slot t i"] by (auto simp: free_pages_def)
  then have "\<forall>p\<in>free_pages s. ((ram s)(slot t i := v)) p = ram s p" by auto
  then have "pages_ok (store (slot t i) v s)" by (rule pages_ok_ram [OF A(1)])
  moreover have r: "refs ((ram s)(slot t i := v)) d p = refs (ram s) d p" if "d \<in> set D" for d p
    using that A(3) assms(2) al page_of_slot [OF t assms(3)] by (intro refs_other) auto
  moreover have "unat (mem_map s (MAP_NR p)) = users ((ram s)(slot t i := v)) D H T p + ext' p" if "frame s p" for p
    using users_store [OF al A(2) _ assms(3), of t "ram s" v H p] assms(2,5) A(11) [OF that] that by force
  moreover have "((ram s)(slot t i := v)) (slot d j) = ram s (slot d j)" if "d \<in> set D" "j < 1024" for d j
    using slot_inj [OF _ t that(2) assms(3)] al that(1) A(3) assms(2) by auto
  ultimately show ?thesis
    using A assms(4) unfolding acct_def by (simp add: frame_def dir_ok_def pte_ok_def)
qed

text \<open>A new value for an entry of a directory; tables may be entered or become held.\<close>

lemma acct_dir_store:
  assumes "acct D H T ext s" "d \<in> set D" "i < 1024" "dir_ok s T v" "set H' \<subseteq> T"
    "\<forall>p. frame s p \<longrightarrow> count_list H' p + of_bool (names v p) = count_list H p + of_bool (names (ram s (slot d i)) p)"
  shows "acct D H' T ext (store (slot d i) v s)"
proof -
  note A = acctD [OF assms(1)]
  let ?m = "(ram s)(slot d i := v)"
  have al: "\<forall>g\<in>set D \<union> T. page_aligned g" using acct_aligned [OF assms(1)] by blast
  have d: "page_aligned d" using al assms(2) by blast
  have "0 < unat (mem_map s (MAP_NR d))" using A(6) [OF assms(2)] assms(2) by (metis count_list_0_iff gr0I)
  then have "slot d i \<notin> free_pages s"
    using slot_eq_page [OF d _ assms(3), of "slot d i"] by (auto simp: free_pages_def)
  then have "\<forall>p\<in>free_pages s. ?m p = ram s p" by auto
  then have "pages_ok (store (slot d i) v s)" by (rule pages_ok_ram [OF A(1)])
  moreover have s: "?m (slot t j) = ram s (slot t j)" if "t \<in> T" "j < 1024" for t j
    using slot_inj [OF _ d that(2) assms(3)] al that(1) A(3) assms(2) by auto
  moreover have dr: "count_list H' p + (\<Sum>d\<in>set D. refs ?m d p) = count_list H p + (\<Sum>d\<in>set D. refs (ram s) d p)"
    if "frame s p" for p
    using users_store [of D "{}" d i "ram s" v H p] al assms(2,3,6) that unfolding users_def by force
  moreover have "unat (mem_map s (MAP_NR p)) = users ?m D H' T p + ext p" if "frame s p" for p
  proof -
    have "(\<Sum>f\<in>T. refs ?m f p) = (\<Sum>f\<in>T. refs (ram s) f p)" by (intro sum.cong refl refs_cong) (use s in auto)
    then show ?thesis
      using A(11) [OF that] dr [OF that] A(2,3) sum.union_disjoint [of "set D" T "\<lambda>f. refs ?m f p"]
        users_split [OF assms(1), of "ram s" p] unfolding users_def by simp
  qed
  moreover have "dir_ok s T (?m (slot e j))" if "e \<in> set D" "j < 1024" for e j
    using A(9) [OF that] assms(4) by simp
  ultimately show ?thesis
    using A assms(5) unfolding acct_def by (simp add: frame_def dir_ok_def pte_ok_def)
qed

text \<open>Memory outside the directories and tables.\<close>

lemma acct_ram:
  assumes "acct D H T ext s" "mem_map s (MAP_NR p) \<noteq> 0" "p \<notin> set D \<union> T" "\<forall>a. page_of a \<noteq> p \<longrightarrow> m a = ram s a"
  shows "acct D H T ext (s\<lparr>ram := m\<rparr>)"
proof -
  note A = acctD [OF assms(1)]
  have "\<forall>q\<in>free_pages s. m q = ram s q"
  proof
    fix q assume q: "q \<in> free_pages s"
    then have "page_of q \<noteq> p" using assms(2) page_of_id [of q] by (auto simp: free_pages_def)
    then show "m q = ram s q" using assms(4) by blast
  qed
  then have "pages_ok (s\<lparr>ram := m\<rparr>)" by (rule pages_ok_ram [OF A(1)])
  moreover have s: "m (slot f j) = ram s (slot f j)" if "f \<in> set D \<union> T" "j < 1024" for f j
    using page_of_slot [OF acct_aligned [OF assms(1) that(1)] that(2)] that(1) assms(3,4) by metis
  moreover have "refs m f q = refs (ram s) f q" if "f \<in> set D \<union> T" for f q
    by (rule refs_cong) (rule s [OF that])
  moreover have "users m D H T q = users (ram s) D H T q" for q by (rule users_cong) (rule s)
  ultimately show ?thesis using A unfolding acct_def by (simp add: frame_def dir_ok_def pte_ok_def)
qed

text \<open>A user more or less of a page that is no directory and no table. \<open>c\<close> is the new count.\<close>

lemma acct_count:
  assumes "acct D H T ext s" "frame s p" "p \<notin> set D \<union> T" "c < 32768" "c = users (ram s) D H T p + e"
    and rw: "\<forall>t\<in>T. \<forall>i<1024. names (ram s (slot t i)) p \<and> private_rw (ram s (slot t i)) \<longrightarrow> c = 1"
    and s': "pages_ok s'" "high_memory s' = high_memory s" "mem_map s' = (mem_map s)(MAP_NR p := of_nat c)"
      "\<forall>a. page_of a \<noteq> p \<longrightarrow> ram s' a = ram s a"
  shows "acct D H T (ext(p := e)) s'"
proof -
  note A = acctD [OF assms(1)]
  have c: "unat (of_nat c :: u16) = c" using assms(4) by (simp add: unat_of_nat)
  have p: "page_aligned p" using assms(2) by (simp add: frame_def)
  have mm: "mem_map s' (MAP_NR a) = (if page_of a = p then of_nat c else mem_map s (MAP_NR a))" for a
    using MAP_NR_eq_page [of a p] page_of_id [OF p] by (simp add: s'(3))
  have res: "reserved s' a \<longleftrightarrow> reserved s a" for a
  proof (cases "page_of a = p")
    case True
    then have "MAP_NR a = MAP_NR p" using MAP_NR_page_of by metis
    then show ?thesis using assms(2,4) c high_bit_count [of "of_nat c"] True by (simp add: mm frame_def)
  qed (simp add: mm)
  then have fr: "frame s' = frame s" by (auto simp: frame_def s'(2))
  have s: "ram s' (slot f j) = ram s (slot f j)" if "f \<in> set D \<union> T" "j < 1024" for f j
    using page_of_slot [OF acct_aligned [OF assms(1) that(1)] that(2)] that(1) assms(3) s'(4) by metis
  have r: "refs (ram s') f q = refs (ram s) f q" if "f \<in> set D \<union> T" for f q by (rule refs_cong) (rule s [OF that])
  have u: "users (ram s') D H T q = users (ram s) D H T q" for q by (rule users_cong) (rule s)
  have nd: "mem_map s' (MAP_NR f) = mem_map s (MAP_NR f)" if "f \<in> set D \<union> T" for f
    using that assms(3) acct_aligned [OF assms(1) that] page_of_id by (auto simp: mm)
  have "pte_ok s' (ram s (slot t i))" if "t \<in> T" "i < 1024" for t i
    using A(10) [OF that] rw that c unfolding pte_ok_def names_def res s'(2) mm by auto
  moreover have "unat (mem_map s' (MAP_NR q)) = users (ram s) D H T q + (ext(p := e)) q" if "frame s q" for q
    using A(11) [OF that] that assms(5) c page_of_id [of q] by (auto simp: mm frame_def)
  ultimately show ?thesis
    using A(2-9) s'(1) unfolding acct_def by (simp add: fr r u s nd dir_ok_def res s'(2))
qed

text \<open>Nobody can write through a copy-on-write entry to a page that has other users.\<close>

lemma ext_no_rw:
  assumes "acct D H T ext s" "frame s p" "0 < ext p" "t \<in> T" "i < 1024" "names (ram s (slot t i)) p"
  shows "\<not> private_rw (ram s (slot t i))"
proof
  note A = acctD [OF assms(1)]
  have p: "page_of p = p" "\<not> reserved s p" using assms(2) by (auto simp: frame_def page_of_id)
  assume "private_rw (ram s (slot t i))"
  then have "mem_map s (MAP_NR p) = 1"
    using A(10) [OF assms(4,5)] assms(6) p MAP_NR_eq_page [of "ram s (slot t i)" p] by (auto simp: pte_ok_def names_def)
  moreover have "0 < users (ram s) D H T p"
    using names_refs [where m = "ram s" and f = t, OF assms(5,6)] users_refs [OF A(2), of t D "ram s" p H] assms(4) by simp
  ultimately show False using A(11) [OF assms(2)] assms(3) by simp
qed

lemma acct_free:
  assumes "acct D H T ext s" "frame s p" "0 < ext p"
  shows "acct D H T (ext(p := ext p - 1)) (free_page p s)"
    "\<forall>a. page_of a \<noteq> p \<longrightarrow> ram (free_page p s) a = ram s a"
    "mm.more (free_page p s) = mm.more s" "high_memory (free_page p s) = high_memory s"
    "mem_map (free_page p s) = (mem_map s)(MAP_NR p := mem_map s (MAP_NR p) - 1)"
proof -
  note A = acctD [OF assms(1)]
  let ?c = "unat (mem_map s (MAP_NR p)) - 1"
  have u: "unat (mem_map s (MAP_NR p)) = users (ram s) D H T p + ext p" by (rule A(11) [OF assms(2)])
  have p: "page_aligned p" "p < high_memory s" "page_of p = p" "mem_map s (MAP_NR p) \<noteq> 0" "\<not> reserved s p"
    using assms(2,3) u by (auto simp: frame_def page_of_id)
  have p0: "p \<noteq> 0" using A(1) p(5) by (auto simp: pages_ok_def page_lists_def)
  have cw: "of_nat ?c = mem_map s (MAP_NR p) - 1"
    using p(4) by (simp add: of_nat_diff unat_gt_0 Suc_leI)
  have *: "pages_ok (free_page p s) \<and> (\<forall>a. page_of a \<noteq> p \<longrightarrow> ram (free_page p s) a = ram s a) \<and>
     mm.more (free_page p s) = mm.more s \<and> high_memory (free_page p s) = high_memory s \<and>
     mem_map (free_page p s) = (mem_map s)(MAP_NR p := mem_map s (MAP_NR p) - 1)"
  proof (cases "mem_map s (MAP_NR p) = 1")
    case True
    then show ?thesis using free_page_last [OF A(1) p(2) True] p(3) p0 by force
  next
    case False
    then have eq: "free_page p s = s\<lparr>mem_map := (mem_map s)(MAP_NR p := mem_map s (MAP_NR p) - 1)\<rparr>"
      using p(2,4,5) by (intro free_page_shared) auto
    have "MAP_NR p \<noteq> 0" using MAP_NR_nonzero [OF p(1) p0] .
    then have "pages_ok (free_page p s)" unfolding eq using False p(4) by (intro pages_ok_count [OF A(1)]) auto
    then show ?thesis using eq by simp
  qed
  note rw = ext_no_rw [OF assms]
  show "acct D H T (ext(p := ext p - 1)) (free_page p s)"
  proof (rule acct_count [OF assms(1,2) ext_not_node [OF assms], of ?c])
    show "?c < 32768" using assms(2) unfolding frame_count by linarith
    show "?c = users (ram s) D H T p + (ext p - 1)" using u assms(3) by simp
    show "mem_map (free_page p s) = (mem_map s)(MAP_NR p := of_nat ?c)" using * cw by simp
  qed (use * rw in blast)+
  show "\<forall>a. page_of a \<noteq> p \<longrightarrow> ram (free_page p s) a = ram s a"
    "mm.more (free_page p s) = mm.more s" "high_memory (free_page p s) = high_memory s"
    "mem_map (free_page p s) = (mem_map s)(MAP_NR p := mem_map s (MAP_NR p) - 1)" using * by blast+
qed

lemma acct_use:
  assumes "acct D H T ext s" "frame s p" "0 < ext p" "page_of e = p" "unat (mem_map s (MAP_NR p)) < 32767"
  shows "acct D H T (ext(p := ext p + 1)) (use_page e s)"
proof (rule acct_count [OF assms(1,2) ext_not_node [OF assms(1-3)]])
  let ?c = "unat (mem_map s (MAP_NR p)) + 1"
  have e: "MAP_NR e = MAP_NR p" using assms(4) MAP_NR_page_of by metis
  show "?c < 32768" using assms(5) by simp
  show "?c = users (ram s) D H T p + (ext p + 1)" using acctD(11) [OF assms(1,2)] by simp
  show "mem_map (use_page e s) = (mem_map s)(MAP_NR p := of_nat ?c)" by (simp add: use_page_def e add.commute)
  have "unat (mem_map s (MAP_NR p) + 1) = ?c" using assms(5) by (simp add: unat_add_lem [THEN iffD1])
  then have nz: "mem_map s (MAP_NR p) + 1 \<noteq> 0" by (metis Suc_eq_plus1 nat.simps(3) unat_0)
  have m0: "mem_map s (MAP_NR p) \<noteq> 0" using acctD(11) [OF assms(1,2)] assms(3) by auto
  have "MAP_NR p \<noteq> 0"
    using assms(2) acctD(1) [OF assms(1)] by (auto simp: frame_def pages_ok_def page_lists_def)
  then show "pages_ok (use_page e s)" unfolding use_page_def e
    by (intro pages_ok_count [OF acctD(1) [OF assms(1)] m0 nz]) auto
qed (use ext_no_rw [OF assms(1-3)] in \<open>auto simp: use_page_def\<close>)

text \<open>Loops over the longs of a page.\<close>

lemma fill_longs_slot:
  assumes "page_aligned f" "k + n \<le> 1024"
  shows "fill_longs v n (slot f k) m a = (if \<exists>i. k \<le> i \<and> i < k + n \<and> a = slot f i then v else m a)"
  using assms(2)
proof (induction n arbitrary: k m)
  case (Suc n)
  have "fill_longs v (Suc n) (slot f k) m a =
        (if \<exists>i. Suc k \<le> i \<and> i < Suc k + n \<and> a = slot f i then v else (m(slot f k := v)) a)"
    using Suc.IH [of "Suc k"] Suc.prems by (simp add: slot_Suc)
  also have "\<dots> = (if \<exists>i. k \<le> i \<and> i < k + Suc n \<and> a = slot f i then v else m a)"
    by (auto simp: le_Suc_eq) (metis Suc_leI le_neq_implies_less add_Suc_right)+
  finally show ?case .
qed auto

lemma clear_longs_fill: "clear_longs n a m = fill_longs 0 n a m"
  by (induction n arbitrary: a m) simp_all

lemma copy_longs_slot:
  assumes "page_aligned f" "page_aligned g" "f \<noteq> g" "k + n \<le> 1024"
  shows "i < 1024 \<Longrightarrow> copy_longs n (slot f k) (slot g k) m (slot g i) = (if k \<le> i \<and> i < k + n then m (slot f i) else m (slot g i))"
    and "page_of a \<noteq> g \<Longrightarrow> copy_longs n (slot f k) (slot g k) m a = m a"
  using assms(4)
proof (induction n arbitrary: k m)
  case (Suc n)
  { case 1
    have "copy_longs (Suc n) (slot f k) (slot g k) m (slot g i) =
      (if Suc k \<le> i \<and> i < Suc k + n then (m(slot g k := m (slot f k))) (slot f i) else (m(slot g k := m (slot f k))) (slot g i))"
      using Suc.IH(1) [of "Suc k"] 1 by (simp add: slot_Suc)
    then show ?case using 1 assms slot_inj [OF assms(1,2), of i k] slot_inj [OF assms(2,2), of i k] by auto
  next
    case 2
    then show ?case using Suc.IH(2) [of "Suc k"] page_of_slot [OF assms(2), of k] by (auto simp: slot_Suc) }
qed auto

text \<open>A new page.\<close>

lemma acct_got:
  assumes "acct D H T ext s" "got p s s'"
  shows "acct D H T (ext(p := 1)) s'" "ext p = 0" "p \<notin> set D \<union> T" "frame s' p" "frame s' = frame s"
proof -
  note A = acctD [OF assms(1)]
  have g: "page_aligned p" "p < high_memory s" "mem_map s (MAP_NR p) = 0" "mem_map s' = (mem_map s)(MAP_NR p := 1)"
    "pages_ok s'" "ram s' = ram s" "high_memory s' = high_memory s"
    using assms(2) by (auto simp: got_def free_pages_def)
  have f: "frame s p" using g by (simp add: frame_def)
  then show fr: "frame s' p" using g by (simp add: frame_def)
  have u: "users (ram s) D H T p = 0" "ext p = 0" using A(11) [OF f] g(3) by simp_all
  then show "ext p = 0" by simp
  have "mem_map s (MAP_NR d) \<noteq> 0" if "d \<in> set D" for d
    using A(6) [OF that] that count_list_0_iff [of D d] by auto
  moreover have "mem_map s (MAP_NR d) \<noteq> 0" if "d \<in> T" for d using A(7) [OF that] by simp
  ultimately show n: "p \<notin> set D \<union> T" using g(3) by auto
  show "acct D H T (ext(p := 1)) s'"
    by (rule acct_count [OF assms(1) f n, of 1]) (use g u in auto)
  show "frame s' = frame s"
  proof
    fix q show "frame s' q = frame s q" by (cases "MAP_NR q = MAP_NR p") (auto simp: frame_def g)
  qed
qed

lemma refs_none: "\<forall>i<1024. \<not> names (m (slot p i)) q \<Longrightarrow> refs m p q = 0"
  by (auto simp: refs_def)

text \<open>A held page becomes a table or a directory, and back.\<close>

lemma acct_table_new:
  assumes "acct D H T ext s" "frame s p" "ext p = 1" "mem_map s (MAP_NR p) = 1" "\<forall>i<1024. \<not> present (ram s (slot p i))"
  shows "acct D (p # H) (insert p T) (ext(p := 0)) s"
proof -
  note A = acctD [OF assms(1)]
  have n: "p \<notin> set D" "p \<notin> T" using ext_not_node [OF assms(1,2)] assms(3) by auto
  have "users (ram s) D (p # H) (insert p T) q + (ext(p := 0)) q = users (ram s) D H T q + ext q" for q
    using n A(2) assms(3,5) refs_none [of "ram s" p q] unfolding users_def by (auto simp: names_def)
  moreover have "pte_ok s (ram s (slot t i))" if "t \<in> insert p T" "i < 1024" for t i
    using A(10) assms(5) that by (auto simp: pte_ok_def)
  moreover have "dir_ok s (insert p T) (ram s (slot d i))" if "d \<in> set D" "i < 1024" for d i
    using A(9) [OF that] by (auto simp: dir_ok_def)
  ultimately show ?thesis
    using A(1-8,11) n assms(2,4) unfolding acct_def by auto
qed

lemma acct_table_drop:
  assumes "acct D H T ext s" "t \<in> set H" "\<forall>i<1024. \<not> present (ram s (slot t i))"
  shows "acct D (remove1 t H) (T - {t}) (ext(t := 1)) s" "ext t = 0"
proof -
  note A = acctD [OF assms(1)]
  have t: "t \<in> T" "frame s t" using A(4,5) assms(2) by auto
  have c: "0 < count_list H t" using assms(2) count_list_0_iff [of H t] by auto
  have one: "unat (mem_map s (MAP_NR t)) = 1" using A(7) [OF t(1)] by simp
  have e: "count_list H t = 1" "(\<Sum>d\<in>set D. refs (ram s) d t) = 0" "ext t = 0"
    using one A(11) [OF t(2)] users_split [OF assms(1), of "ram s" t] c by linarith+
  then show "ext t = 0" by simp
  have tH: "t \<notin> set (remove1 t H)" using e(1) count_list_0_iff [of "remove1 t H" t] by simp
  have cr: "count_list (remove1 t H) q = (if q = t then 0 else count_list H q)" for q
    using tH count_list_0_iff [of "remove1 t H" t] by auto
  have n: "t \<notin> set D" using A(3) t(1) by blast
  have "set D \<union> T = insert t (set D \<union> (T - {t}))" using t by blast
  moreover have "refs (ram s) t q = 0" for q using assms(3) by (intro refs_none) (simp add: names_def)
  ultimately have "users (ram s) D (remove1 t H) (T - {t}) q + (ext(t := 1)) q = users (ram s) D H T q + ext q" for q
    using n A(2) e unfolding users_def by (simp add: cr)
  moreover have "dir_ok s (T - {t}) (ram s (slot d i))" if "d \<in> set D" "i < 1024" for d i
  proof -
    have "refs (ram s) d t = 0" using e(2) that(1) by simp
    then have "\<not> names (ram s (slot d i)) t" using names_refs [where m = "ram s" and f = d, OF that(2)] by (metis less_irrefl)
    then show ?thesis using A(9) [OF that] t(2) by (auto simp: dir_ok_def names_def)
  qed
  moreover have "set (remove1 t H) \<subseteq> T - {t}" using A(4) tH set_remove1_subset [of t H] by blast
  ultimately show "acct D (remove1 t H) (T - {t}) (ext(t := 1)) s"
    using A(1-8,10,11) unfolding acct_def by (auto simp: cr)
qed

lemma acct_dir_new:
  assumes "acct D H T ext s" "frame s p" "ext p = 1" "mem_map s (MAP_NR p) = 1" "\<forall>i<1024. ram s (slot p i) = 0"
  shows "acct (p # D) H T (ext(p := 0)) s"
proof -
  note A = acctD [OF assms(1)]
  have n: "p \<notin> set D" "p \<notin> T" using ext_not_node [OF assms(1,2)] assms(3) by auto
  have r: "refs (ram s) p q = 0" for q using assms(5) by (intro refs_none) simp
  then have "users (ram s) (p # D) H T q + (ext(p := 0)) q = users (ram s) D H T q + ext q" for q
    using n A(2) assms(3) unfolding users_def by auto
  moreover have "count_list (p # D) d = unat (mem_map s (MAP_NR d))" if "d \<in> set (p # D)" for d
    using that n A(6) assms(4) count_list_0_iff [of D p] by auto
  moreover have "dir_ok s T (ram s (slot d i))" if "d \<in> set (p # D)" "i < 1024" for d i
    using A(9) that assms(5) by (auto simp: dir_ok_def)
  moreover have "(\<Sum>d\<in>set (p # D). refs (ram s) d t) = (\<Sum>d\<in>set D. refs (ram s) d t)" for t
    using n r by simp
  ultimately show ?thesis
    using A(1-5,7,8,10,11) n assms(2,4) unfolding acct_def by auto
qed

lemma set_remove1_insert: "x \<in> set xs \<Longrightarrow> set xs = insert x (set (remove1 x xs))"
  by (induction xs) auto

lemma acct_dir_drop:
  assumes "acct D H T ext s" "d \<in> set D" "mem_map s (MAP_NR d) = 1" "\<forall>i<1024. ram s (slot d i) = 0"
  shows "acct (remove1 d D) H T (ext(d := 1)) s" "ext d = 0"
proof -
  note A = acctD [OF assms(1)]
  have d: "frame s d" "d \<notin> T" using A(3,5) assms(2) by auto
  have c: "count_list D d = 1" using A(6) [OF assms(2)] assms(3) by simp
  have e: "count_list H d = 0" "ext d = 0"
    using assms(3) A(11) [OF d(1)] users_split [OF assms(1), of "ram s" d] c by simp_all
  then show "ext d = 0" by simp
  have dn: "d \<notin> set (remove1 d D)" using c count_list_0_iff [of "remove1 d D" d] by simp
  have cr: "count_list (remove1 d D) q = (if q = d then 0 else count_list D q)" for q
    using dn count_list_0_iff [of "remove1 d D" d] by auto
  have sD: "set D = insert d (set (remove1 d D))" by (rule set_remove1_insert [OF assms(2)])
  have r: "refs (ram s) d q = 0" for q using assms(4) by (intro refs_none) simp
  have "set D \<union> T = insert d (set (remove1 d D) \<union> T)" using sD by blast
  then have "users (ram s) (remove1 d D) H T q + (ext(d := 1)) q = users (ram s) D H T q + ext q" for q
    using dn d(2) A(2) e c r unfolding users_def by (simp add: cr)
  moreover have "(\<Sum>d\<in>set (remove1 d D). refs (ram s) d t) = (\<Sum>d\<in>set D. refs (ram s) d t)" for t
    using dn r by (simp add: sD)
  ultimately show "acct (remove1 d D) H T (ext(d := 1)) s"
    using A(1-3) A(4-11) dn unfolding acct_def by (simp add: sD cr)
qed

end
