(* ===== verification/Pgfree.thy ===== *)
theory Pgfree
  imports Pgacc
begin

text \<open>
  Freeing page tables keeps the accounts: \<open>free_one_table\<close> and \<open>free_page_tables\<close> return each use that the
  tables stood for, and change no page that is still in use.
\<close>

text \<open>Another task on a directory, or one less.\<close>

lemma acct_dir_count:
  assumes "acct D H T ext s" "d \<in> set D" "set D' = set D" "\<forall>q. q \<noteq> d \<longrightarrow> count_list D' q = count_list D q"
    "count_list D' d = c" "c < 32768"
    and s': "pages_ok s'" "high_memory s' = high_memory s" "mem_map s' = (mem_map s)(MAP_NR d := of_nat c)" "ram s' = ram s"
  shows "acct D' H T ext s'"
proof -
  note A = acctD [OF assms(1)]
  have c: "unat (of_nat c :: u16) = c" using assms(6) by (simp add: unat_of_nat)
  have d: "frame s d" "page_aligned d" using A(5) assms(2) by (auto simp: frame_def)
  have mm: "mem_map s' (MAP_NR a) = (if page_of a = d then of_nat c else mem_map s (MAP_NR a))" for a
    using MAP_NR_eq_page [of a d] page_of_id [OF d(2)] by (simp add: s'(3))
  have res: "reserved s' a \<longleftrightarrow> reserved s a" for a
  proof (cases "page_of a = d")
    case True
    then have "MAP_NR a = MAP_NR d" using MAP_NR_page_of by metis
    then show ?thesis using d assms(6) c high_bit_count [of "of_nat c"] True by (simp add: mm frame_def)
  qed (simp add: mm)
  then have fr: "frame s' = frame s" by (auto simp: frame_def s'(2))
  have al: "page_of q = q" if "q \<in> set D \<union> T" for q using acct_aligned [OF assms(1) that] page_of_id by blast
  have nn: "page_of (ram s (slot t i)) \<noteq> d" if "t \<in> T" "i < 1024" "present (ram s (slot t i))" for t i
    using named_not_node [OF assms(1) that(1,2), of "page_of (ram s (slot t i))"] that(3) d(1) assms(2) by (auto simp: names_def)
  have pte: "pte_ok s' (ram s (slot t i))" if "t \<in> T" "i < 1024" for t i
    using A(10) [OF that] nn [OF that] unfolding pte_ok_def res s'(2) mm by auto
  have tm: "mem_map s' (MAP_NR t) = 1" if "t \<in> T" for t
    using that A(3,7) assms(2) al [of t] by (auto simp: mm)
  have dm: "unat (mem_map s' (MAP_NR q)) = count_list D' q" if "q \<in> set D" for q
    using that A(6) assms(4,5) c al [of q] by (auto simp: mm)
  have "unat (mem_map s' (MAP_NR q)) = users (ram s) D' H T q + ext q" if "frame s q" for q
  proof (cases "q = d")
    case True
    have "unat (mem_map s (MAP_NR d)) = count_list D d" using A(6) assms(2) by blast
    then show ?thesis
      using A(11) [OF d(1)] True assms(3,5) c page_of_id [OF d(2)] unfolding users_def by (simp add: mm)
  next
    case False
    then have "page_of q \<noteq> d" using that page_of_id by (auto simp: frame_def)
    then show ?thesis using A(11) [OF that] False assms(3,4) unfolding users_def by (simp add: mm)
  qed
  then show ?thesis
    using A(2-5,8,9) s'(1) pte tm dm unfolding acct_def by (simp add: fr s'(4) assms(3) dir_ok_def res s'(2))
qed

text \<open>The accounts only depend on the fields of the page allocator.\<close>

lemma pages_ok_truncate: "pages_ok (mm.truncate s) = pages_ok s"
  by (simp add: pages_ok_def page_lists_def free_pages_def mm.defs)

lemma acct_more:
  assumes "acct D H T ext s" "mm.truncate s' = mm.truncate s"
  shows "acct D H T ext s'"
proof -
  have e: "ram s' = ram s" "mem_map s' = mem_map s" "high_memory s' = high_memory s"
    using assms(2) by (simp_all add: mm.defs)
  have p: "pages_ok s' = pages_ok s" using assms(2) pages_ok_truncate by metis
  have "frame s' = frame s" "dir_ok s' = dir_ok s" "pte_ok s' = pte_ok s"
    by (auto simp: fun_eq_iff frame_def dir_ok_def pte_ok_def e)
  then show ?thesis using assms(1) p by (simp add: acct_def e)
qed

section \<open>Swap pages\<close>

text \<open>No transfer from or to a swap device is in progress.\<close>

definition swap_idle :: "vmm \<Rightarrow> bool" where
  "swap_idle s \<longleftrightarrow> nr_swapfiles s \<le> length (swap_info s) \<and>
     (\<forall>ty<nr_swapfiles s. \<forall>offset<SWAP_BITS. \<not> swap_lockmap (swap_info s ! ty) offset)"

text \<open>What running code keeps.\<close>

definition same_frame :: "vmm \<Rightarrow> vmm \<Rightarrow> bool" where
  "same_frame s s' \<longleftrightarrow> high_memory s' = high_memory s \<and> cr3 s' = cr3 s \<and> swapper_pg_dir s' = swapper_pg_dir s \<and>
     empty_bad_page s' = empty_bad_page s \<and> task (kern s') = task (kern s) \<and> current (kern s') = current (kern s) \<and>
     (swap_idle s \<longrightarrow> swap_idle s')"

lemma same_frame_refl [simp]: "same_frame s s"
  by (simp add: same_frame_def)

lemma same_frame_trans: "same_frame s t \<Longrightarrow> same_frame t u \<Longrightarrow> same_frame s u"
  by (simp add: same_frame_def)

lemma same_frame_mm: "mm.more s' = mm.more s \<Longrightarrow> high_memory s' = high_memory s \<Longrightarrow> same_frame s s'"
  by (cases s, cases s') (simp add: same_frame_def swap_idle_def)

lemma same_frame_store [simp]: "same_frame s (store a v s)"
  by (simp add: same_frame_def swap_idle_def)

lemma wake_up_tasks: "task (wake_up q k) = task k" "current (wake_up q k) = current k"
  unfolding wake_up_def using fold_wake_one_frame by auto

lemma swap_free_idle:
  assumes "swap_idle s"
  shows "\<exists>s'. swap_free env (Suc n) e s = Some s' \<and> mm.truncate s' = mm.truncate s \<and> same_frame s s'"
proof (cases "e = 0 \<or> SWP_TYPE e = SHM_SWP_TYPE \<or> SWP_TYPE e \<ge> nr_swapfiles s \<or> SWP_OFFSET e \<ge> SWAP_BITS \<or>
             swp_flags (swap_info s ! SWP_TYPE e) AND SWP_USED = 0")
  case True then show ?thesis by (auto simp: swap_free_def Let_def)
next
  case False
  then have l: "SWP_TYPE e < length (swap_info s)" "\<not> swap_lockmap (swap_info s ! SWP_TYPE e) (SWP_OFFSET e)"
    using assms by (auto simp: swap_idle_def)
  let ?t = "upd_swap (SWP_TYPE e) (\<lambda>p. p\<lparr>swap_lockmap := (swap_lockmap p)(SWP_OFFSET e := True)\<rparr>) s"
  let ?u = "unuse_swap (SWP_TYPE e) (SWP_OFFSET e) ?t"
  let ?v = "upd_swap (SWP_TYPE e) (\<lambda>p. p\<lparr>swap_lockmap := (swap_lockmap p)(SWP_OFFSET e := False)\<rparr>) ?u"
  have r: "swap_free env (Suc n) e s = Some (?v\<lparr>kern := wake_up (lock_queue ?v) (kern ?v)\<rparr>)"
    using False l by (simp add: swap_free_def Let_def)
  have u: "mm.truncate ?u = mm.truncate s" "high_memory ?u = high_memory s" "cr3 ?u = cr3 s" "kern ?u = kern s"
    "swapper_pg_dir ?u = swapper_pg_dir s" "empty_bad_page ?u = empty_bad_page s" "nr_swapfiles ?u = nr_swapfiles s"
    "length (swap_info ?u) = length (swap_info s)"
    by (simp_all add: unuse_swap_def Let_def mm.defs)
  have "swap_lockmap (swap_info ?u ! j) o' = (if j = SWP_TYPE e \<and> o' = SWP_OFFSET e then True else swap_lockmap (swap_info s ! j) o')"
    for j o' using l(1) by (cases "j = SWP_TYPE e") (simp_all add: unuse_swap_def Let_def)
  then have "swap_idle ?v" using assms l u(7,8) by (auto simp: swap_idle_def nth_list_update)
  then show ?thesis using r u by (auto simp: same_frame_def wake_up_tasks mm.defs swap_idle_def)
qed

section \<open>Freeing\<close>

text \<open>From \<open>s\<close> to \<open>s'\<close> pages were given up; those still in use have kept their contents, outside the pages in \<open>W\<close>.\<close>

definition released :: "u32 set \<Rightarrow> vmm \<Rightarrow> vmm \<Rightarrow> bool" where
  "released W s s' \<longleftrightarrow> same_frame s s' \<and> (\<forall>p. reserved s' p = reserved s p) \<and>
     (\<forall>a. mem_map s' (MAP_NR a) \<noteq> 0 \<longrightarrow> mem_map s (MAP_NR a) \<noteq> 0 \<and> (page_of a \<notin> W \<longrightarrow> ram s' a = ram s a))"

lemma released_refl [simp]: "released W s s"
  by (simp add: released_def)

lemma released_trans: "released W s t \<Longrightarrow> released W t u \<Longrightarrow> released W s u"
  by (auto simp: released_def intro: same_frame_trans)

lemma released_mono: "released W s t \<Longrightarrow> W \<subseteq> W' \<Longrightarrow> released W' s t"
  by (auto simp: released_def)

lemma released_store: "page_of a \<in> W \<Longrightarrow> released W s (store a v s)"
  by (auto simp: released_def)

lemma released_same: "mm.truncate s' = mm.truncate s \<Longrightarrow> same_frame s s' \<Longrightarrow> released W s s'"
  by (simp add: released_def mm.defs)

lemma released_frame: "released W s s' \<Longrightarrow> frame s' = frame s"
  by (auto simp: fun_eq_iff frame_def released_def same_frame_def)

lemma released_drop:
  assumes "released (insert t W) s s'" "mem_map s' (MAP_NR t) = 0"
  shows "released W s s'"
proof -
  have "page_of a \<noteq> t" if "mem_map s' (MAP_NR a) \<noteq> 0" for a using that assms(2) MAP_NR_page_of by metis
  then show ?thesis using assms(1) by (simp add: released_def)
qed

text \<open>The nodes that are left have their entries.\<close>

lemma released_slot:
  assumes "released W s s'" "acct D H T ext s'" "f \<in> set D \<union> T" "f \<notin> W" "i < 1024"
  shows "ram s' (slot f i) = ram s (slot f i)"
proof -
  have f: "page_aligned f" "mem_map s' (MAP_NR f) \<noteq> 0"
    using assms(2,3) acct_aligned acctD(6,7) count_list_0_iff [of D f] by fastforce+
  then have "mem_map s' (MAP_NR (slot f i)) \<noteq> 0" using page_of_slot [OF f(1) assms(5)] MAP_NR_page_of by metis
  then show ?thesis using assms(1,4) page_of_slot [OF f(1) assms(5)] by (auto simp: released_def)
qed

lemma free_page_released:
  assumes "acct D H T ext s" "frame s p" "0 < ext p"
  shows "released W s (free_page p s)"
proof -
  note F = acct_free [OF assms]
  have p: "page_of p = p" "MAP_NR a = MAP_NR p \<longleftrightarrow> page_of a = p" for a
    using assms(2) page_of_id MAP_NR_eq_page by (auto simp: frame_def)
  have u: "mem_map s (MAP_NR p) \<noteq> 0" using acctD(11) [OF assms(1,2)] assms(3) by auto
  have c: "unat (mem_map s (MAP_NR p) - 1) < 32768" using assms(2) u unfolding frame_count by (simp add: unat_minus_one less_imp_diff_less)
  have "ram (free_page p s) a = ram s a" if "mem_map (free_page p s) (MAP_NR a) \<noteq> 0" for a
  proof (cases "page_of a = p")
    case True
    then have "mem_map s (MAP_NR p) \<noteq> 1" using that F(5) p(2) by auto
    then show ?thesis using u assms(2) free_page_shared [of p s] by (simp add: frame_def)
  qed (use F(2) in blast)
  then show ?thesis
    using same_frame_mm [OF F(3,4)] u c assms(2) high_bit_count p(2) F(5) unfolding released_def frame_def by (auto simp: MAP_NR_page_of)
qed

lemma acct_high: "acct D H T ext s \<Longrightarrow> page_aligned (high_memory s)"
  by (drule acctD(1)) (auto simp: pages_ok_def page_lists_def)

text \<open>An entry of a table is removed and what it stands for released.\<close>

lemma free_entry_ok:
  assumes "acct D H T ext s" "t \<in> T" "i < 1024" "swap_idle s" "ram s (slot t i) = pg"
  shows "\<exists>s'. (if pg AND PAGE_PRESENT \<noteq> 0 then Some (free_page (PAGE_MASK AND pg) (store (slot t i) 0 s))
                else swap_free env (Suc n) pg (store (slot t i) 0 s)) = Some s' \<and>
              acct D H T ext s' \<and> released {t} s s' \<and> ram s' (slot t i) = 0 \<and>
              (\<forall>j<1024. j \<noteq> i \<longrightarrow> ram s' (slot t j) = ram s (slot t j))"
proof -
  let ?s = "store (slot t i) 0 s" and ?p = "page_of pg"
  have t: "page_aligned t" using acct_aligned [OF assms(1)] assms(2) by blast
  have r1: "released {t} s ?s" using page_of_slot [OF t assms(3)] by (intro released_store) simp
  have sl: "ram ?s (slot t j) = (if j = i then 0 else ram s (slot t j))" if "j < 1024" for j
    using slot_inj [OF t t that assms(3)] by auto
  have p0: "pte_ok s 0" by (simp add: pte_ok_def)
  show ?thesis
  proof (cases "present pg")
    case False
    have a: "acct D H T ext ?s" using False assms(5) by (intro acct_store [OF assms(1-3) p0]) (simp add: names_def)
    have "swap_idle ?s" using r1 assms(4) by (simp add: released_def same_frame_def)
    then obtain s' where s': "swap_free env (Suc n) pg ?s = Some s'" "mm.truncate s' = mm.truncate ?s" "same_frame ?s s'"
      using swap_free_idle by blast
    have "ram s' = ram ?s" using s'(2) by (simp add: mm.defs)
    then show ?thesis
      using False s' acct_more [OF a s'(2)] released_trans [OF r1 released_same [OF s'(2,3)]] sl assms(3) by auto
  next
    case True
    then have hi: "?p < high_memory s" "page_aligned ?p"
      using acctD(10) [OF assms(1-3)] page_of_less_iff [OF acct_high [OF assms(1)]] by (simp_all add: pte_ok_def assms(5))
    show ?thesis
    proof (cases "reserved s ?p")
      case res: True
      have "\<not> names pg q" if "frame s q" for q using that res by (auto simp: names_def frame_def)
      then have a: "acct D H T ext ?s" using assms(5) by (intro acct_store [OF assms(1-3) p0]) auto
      have "free_page ?p ?s = ?s" using res by (intro free_page_ignored) simp
      then show ?thesis using True a r1 sl assms(3) by (auto simp: page_of_def and.commute)
    next
      case False
      then have f: "frame s ?p" "frame ?s ?p" using hi by (simp_all add: frame_def)
      have a: "acct D H T (ext(?p := ext ?p + 1)) ?s"
        using True assms(5) by (intro acct_store [OF assms(1-3) p0]) (auto simp: names_def)
      note F = acct_free [OF a f(2)]
      have "?p \<noteq> t" using named_not_node [OF assms(1-3), of ?p] True assms(2,5) f(1) by (auto simp: names_def)
      then have "ram (free_page ?p ?s) (slot t j) = ram ?s (slot t j)" if "j < 1024" for j
        using F(2) page_of_slot [OF t that] by simp
      then show ?thesis
        using True F(1) released_trans [OF r1 free_page_released [OF a f(2)]] sl assms(3)
        by (auto simp: page_of_def and.commute fun_upd_idem)
    qed
  qed
qed

lemma free_entries_ok:
  assumes "acct D H T ext s" "t \<in> T" "swap_idle s" "k + m \<le> 1024"
  shows "\<exists>s'. free_entries env (Suc n) m (slot t k) s = Some s' \<and> acct D H T ext s' \<and> released {t} s s' \<and>
              (\<forall>i<1024. ram s' (slot t i) = (if k \<le> i \<and> i < k + m then 0 else ram s (slot t i)))"
  using assms(1,3,4)
proof (induction m arbitrary: k s)
  case 0 then show ?case by auto
next
  case (Suc m)
  define pg where "pg = ram s (slot t k)"
  have k: "k < 1024" using Suc.prems(3) by simp
  have "\<exists>s1. free_entries env (Suc n) (Suc m) (slot t k) s = free_entries env (Suc n) m (slot t (Suc k)) s1 \<and>
      acct D H T ext s1 \<and> released {t} s s1 \<and> ram s1 (slot t k) = 0 \<and> (\<forall>j<1024. j \<noteq> k \<longrightarrow> ram s1 (slot t j) = ram s (slot t j))"
  proof (cases "pg = 0")
    case True then show ?thesis using Suc.prems by (auto simp: pg_def slot_Suc)
  next
    case False
    then show ?thesis
      using free_entry_ok [OF Suc.prems(1) assms(2) k Suc.prems(2) pg_def [symmetric], of env n]
      by (auto simp: pg_def [symmetric] slot_Suc Let_def)
  qed
  then obtain s1 where s1: "free_entries env (Suc n) (Suc m) (slot t k) s = free_entries env (Suc n) m (slot t (Suc k)) s1"
    "acct D H T ext s1" "released {t} s s1" "ram s1 (slot t k) = 0" "\<forall>j<1024. j \<noteq> k \<longrightarrow> ram s1 (slot t j) = ram s (slot t j)"
    by blast
  have "swap_idle s1" using s1(3) Suc.prems(2) by (simp add: released_def same_frame_def)
  then obtain s' where s': "free_entries env (Suc n) m (slot t (Suc k)) s1 = Some s'" "acct D H T ext s'" "released {t} s1 s'"
      "\<forall>i<1024. ram s' (slot t i) = (if Suc k \<le> i \<and> i < Suc k + m then 0 else ram s1 (slot t i))"
    using Suc.IH [OF s1(2), of "Suc k"] Suc.prems(3) by auto
  have "ram s' (slot t i) = (if k \<le> i \<and> i < k + Suc m then 0 else ram s (slot t i))" if "i < 1024" for i
    using s'(4) s1(4,5) that by (cases "i = k") auto
  then show ?case using s1(1) s'(1,2) released_trans [OF s1(3) s'(3)] by auto
qed

text \<open>A table is taken out of a directory and freed.\<close>

lemma free_one_table_ok:
  assumes "acct D H T ext s" "d \<in> set D" "i < 1024" "swap_idle s"
  shows "\<exists>s' T'. free_one_table env (Suc n) (slot d i) s = Some s' \<and> T' \<subseteq> T \<and> acct D H T' ext s' \<and> released {d} s s' \<and>
              (\<forall>j<1024. ram s' (slot d j) = (if j = i then 0 else ram s (slot d j)))"
proof -
  define e where "e = ram s (slot d i)"
  let ?s = "store (slot d i) 0 s" and ?t = "page_of e"
  have d: "page_aligned d" using acct_aligned [OF assms(1)] assms(2) by blast
  have r1: "released {d} s ?s" using page_of_slot [OF d assms(3)] by (intro released_store) simp
  have idle: "swap_idle ?s" using r1 assms(4) by (simp add: released_def same_frame_def)
  have sl: "ram ?s (slot d j) = (if j = i then 0 else ram s (slot d j))" if "j < 1024" for j
    using slot_inj [OF d d that assms(3)] by auto
  have ok: "dir_ok s T e" using acctD(9) [OF assms(1-3)] by (simp add: e_def)
  have d0: "dir_ok s T 0" by (simp add: dir_ok_def)
  show ?thesis
  proof (cases "e = 0 \<or> reserved s e")
    case True
    have "\<not> names e q" if "frame s q" for q using that True by (auto simp: names_def frame_def MAP_NR_page_of)
    then have a: "acct D H T ext ?s" using acctD(4) [OF assms(1)] by (intro acct_dir_store [OF assms(1-3) d0]) (auto simp: e_def)
    have "free_one_table env (Suc n) (slot d i) s = Some (if e = 0 then s else ?s)"
      using True ok by (auto simp: free_one_table_def Let_def e_def [symmetric] dir_ok_def)
    moreover have "?s = s" if "e = 0" using that by (simp add: e_def fun_upd_idem)
    ultimately have f: "free_one_table env (Suc n) (slot d i) s = Some ?s" by (cases "e = 0") simp_all
    show ?thesis by (intro exI [of _ ?s] exI [of _ T]) (use f a r1 sl in blast)
  next
    case False
    then have e: "present e" "e < high_memory s" "?t \<in> T" using ok by (auto simp: dir_ok_def)
    have t: "frame s ?t" "?t \<noteq> d" using acctD(3,5) [OF assms(1)] e(3) assms(2) by auto
    have a: "acct D (?t # H) T ext ?s"
      using acctD(4) [OF assms(1)] e by (intro acct_dir_store [OF assms(1-3) d0]) (auto simp: e_def [symmetric] names_def)
    obtain s1 where s1: "free_entries env (Suc n) 1024 ?t ?s = Some s1" "acct D (?t # H) T ext s1" "released {?t} ?s s1"
        "\<forall>i<1024. ram s1 (slot ?t i) = 0"
      using free_entries_ok [OF a e(3) idle, of 0 1024 env n] by auto
    have z: "\<forall>i<1024. \<not> present (ram s1 (slot ?t i))" using s1(4) by simp
    note b = acct_table_drop [OF s1(2) list.set_intros(1) z]
    have f1: "frame s1 ?t" using released_frame [OF s1(3)] t(1) by (simp add: frame_def)
    have b': "acct D H (T - {?t}) (ext(?t := 1)) s1" using b(1) by simp
    note F = acct_free [OF b' f1]
    have c: "acct D H (T - {?t}) ext (free_page ?t s1)" using F(1) b(2) by (simp add: fun_upd_idem)
    have m: "mem_map (free_page ?t s1) (MAP_NR ?t) = 0" using F(5) acctD(7) [OF s1(2) e(3)] by simp
    have "free_one_table env (Suc n) (slot d i) s = Some (free_page ?t s1)"
      using False e s1(1) by (simp add: free_one_table_def Let_def e_def [symmetric] page_of_def and.commute not_le)
    moreover have rel: "released {d} s (free_page ?t s1)"
    proof -
      have "released {?t, d} s ?s" by (rule released_mono [OF r1]) simp
      moreover have "released {?t, d} ?s s1" by (rule released_mono [OF s1(3)]) simp
      moreover have "released {?t, d} s1 (free_page ?t s1)" by (rule free_page_released [OF b' f1]) simp
      ultimately have "released {?t, d} s (free_page ?t s1)" by (meson released_trans)
      then show ?thesis by (rule released_drop [OF _ m])
    qed
    moreover have "ram (free_page ?t s1) (slot d j) = ram ?s (slot d j)" if "j < 1024" for j
    proof -
      have "ram (free_page ?t s1) (slot d j) = ram s1 (slot d j)" using F(2) page_of_slot [OF d that] t(2) by simp
      then show ?thesis using released_slot [OF s1(3,2), of d j] assms(2) t(2) that by simp
    qed
    ultimately show ?thesis using c sl by (intro exI [of _ "free_page ?t s1"] exI [of _ "T - {?t}"]) simp
  qed
qed

lemma free_tables_ok:
  assumes "acct D H T ext s" "d \<in> set D" "swap_idle s" "k + m \<le> 1024"
  shows "\<exists>s' T'. free_tables env (Suc n) m (slot d k) s = Some s' \<and> T' \<subseteq> T \<and> acct D H T' ext s' \<and> released {d} s s' \<and>
              (\<forall>j<1024. ram s' (slot d j) = (if k \<le> j \<and> j < k + m then 0 else ram s (slot d j)))"
  using assms(1,3,4)
proof (induction m arbitrary: k s T)
  case 0 then show ?case by auto
next
  case (Suc m)
  have k: "k < 1024" using Suc.prems(3) by simp
  obtain s1 T1 where s1: "free_one_table env (Suc n) (slot d k) s = Some s1" "T1 \<subseteq> T" "acct D H T1 ext s1" "released {d} s s1"
      "\<forall>j<1024. ram s1 (slot d j) = (if j = k then 0 else ram s (slot d j))"
    using free_one_table_ok [OF Suc.prems(1) assms(2) k Suc.prems(2), of env n] by blast
  have "swap_idle s1" using s1(4) Suc.prems(2) by (simp add: released_def same_frame_def)
  then obtain s' T' where s': "free_tables env (Suc n) m (slot d (Suc k)) s1 = Some s'" "T' \<subseteq> T1" "acct D H T' ext s'"
      "released {d} s1 s'" "\<forall>j<1024. ram s' (slot d j) = (if Suc k \<le> j \<and> j < Suc k + m then 0 else ram s1 (slot d j))"
    using Suc.IH [OF s1(3), of "Suc k"] Suc.prems(3) by auto
  have "ram s' (slot d j) = (if k \<le> j \<and> j < k + Suc m then 0 else ram s (slot d j))" if "j < 1024" for j
    using s'(5) s1(5) that by (cases "j = k") auto
  moreover have "free_tables env (Suc n) (Suc m) (slot d k) s = Some s'" using s1(1) s'(1) by (simp add: slot_Suc)
  ultimately show ?case using released_trans [OF s1(4) s'(4)] s'(2,3) s1(2) by blast
qed

lemma acct_nonzero:
  assumes "acct D H T ext s" "frame s p"
  shows "p \<noteq> 0"
proof -
  have "mem_map s 0 AND MAP_PAGE_RESERVED \<noteq> 0" using acctD(1) [OF assms(1)] by (auto simp: pages_ok_def page_lists_def)
  then show ?thesis using assms(2) by (auto simp: frame_def)
qed

lemma u16_gt_1: "(c :: u16) > 1 \<longleftrightarrow> unat c > 1"
  by (simp add: word_less_nat_alt)

text \<open>A task gives up its directory: with the last task on it, everything below goes too.\<close>

lemma acct_unshare:
  assumes "acct D H T ext s" "d \<in> set D" "1 < count_list D d"
  shows "acct (remove1 d D) H T ext (free_page d s)" "released {} s (free_page d s)"
proof -
  note A = acctD [OF assms(1)]
  have d: "frame s d" "d < high_memory s" "\<not> reserved s d" "unat (mem_map s (MAP_NR d)) = count_list D d" "d \<noteq> 0"
    using A(5,6) assms(2) acct_nonzero [OF assms(1)] by (auto simp: frame_def)
  have c: "mem_map s (MAP_NR d) \<notin> {0, 1}" using d(4) assms(3) by auto
  have m: "of_nat (count_list D d - 1) = mem_map s (MAP_NR d) - 1"
    using d(4) assms(3) by (simp add: of_nat_diff flip: d(4))
  have eq: "free_page d s = s\<lparr>mem_map := (mem_map s)(MAP_NR d := mem_map s (MAP_NR d) - 1)\<rparr>"
    using free_page_shared [OF d(2) c] d(3) by simp
  have "MAP_NR d \<noteq> 0" using MAP_NR_nonzero d(1,5) by (simp add: frame_def)
  then have ok: "pages_ok (free_page d s)" unfolding eq using c by (intro pages_ok_count [OF A(1)]) auto
  have s: "set (remove1 d D) = set D"
    using set_remove1_insert [OF assms(2)] assms(3) count_list_0_iff [of "remove1 d D" d] by auto
  have lt: "count_list D d < 32768" using d(1,4) by (simp add: frame_count)
  show "acct (remove1 d D) H T ext (free_page d s)"
    by (rule acct_dir_count [OF assms(1,2) s, of "count_list D d - 1"]) (use ok lt m in \<open>simp_all add: eq\<close>)
  have "unat (mem_map s (MAP_NR d) - 1) < 32768" using lt d(4) c by (simp add: unat_minus_one)
  then show "released {} s (free_page d s)"
    using d(3) c high_bit_count unfolding released_def by (auto simp: eq same_frame_def swap_idle_def)
qed

lemma acct_cr3 [simp]: "acct D H T ext (s\<lparr>cr3 := x\<rparr>) = acct D H T ext s"
  using acct_more [of D H T ext s "s\<lparr>cr3 := x\<rparr>"] acct_more [of D H T ext "s\<lparr>cr3 := x\<rparr>" s] by (auto simp: mm.defs)

lemma free_page_tables_ok:
  assumes "acct D H T ext s" "cr3 s tsk = d" "d \<in> set D" "d \<noteq> swapper_pg_dir s" "task (kern s) ! 0 \<noteq> Some tsk" "swap_idle s"
  shows "\<exists>s' T'. free_page_tables env (Suc n) (Some tsk) s = Some s' \<and> T' \<subseteq> T \<and> acct (remove1 d D) H T' ext s' \<and>
              released {} (s\<lparr>cr3 := (cr3 s)(tsk := swapper_pg_dir s)\<rparr>) s'"
proof -
  let ?s = "s\<lparr>cr3 := (cr3 s)(tsk := swapper_pg_dir s)\<rparr>"
  have a: "acct D H T ext ?s" using assms(1) by simp
  note A = acctD [OF a]
  have d: "frame ?s d" "d \<noteq> 0" "unat (mem_map s (MAP_NR d)) = count_list D d" "page_aligned d"
    using A(5,6) assms(3) acct_nonzero [OF a] by (auto simp: frame_def)
  have c0: "0 < count_list D d" using assms(3) count_list_0_iff [of D d] by auto
  show ?thesis
  proof (cases "mem_map s (MAP_NR d) > 1")
    case True
    then have "1 < count_list D d" using d(3) by (simp add: u16_gt_1)
    moreover have "free_page_tables env (Suc n) (Some tsk) s = Some (free_page d ?s)"
      using assms(2,4,5) d(2) True by (simp add: free_page_tables_def Let_def)
    ultimately show ?thesis using acct_unshare [OF a assms(3)] by blast
  next
    case False
    then have m1: "unat (mem_map s (MAP_NR d)) = 1" using d(3) c0 by (simp add: u16_gt_1)
    have idle: "swap_idle ?s" using assms(6) by (simp add: swap_idle_def)
    obtain s1 T1 where s1: "free_tables env (Suc n) 1024 d ?s = Some s1" "T1 \<subseteq> T" "acct D H T1 ext s1" "released {d} ?s s1"
        "\<forall>j<1024. ram s1 (slot d j) = 0"
      using free_tables_ok [OF a assms(3) idle, of 0 1024 env n] by auto
    have "unat (mem_map s1 (MAP_NR d)) = 1" using acctD(6) [OF s1(3) assms(3)] m1 d(3) by simp
    then have md: "mem_map s1 (MAP_NR d) = 1" by (metis unat_1 word_unat_eq_iff)
    note b = acct_dir_drop [OF s1(3) assms(3) md s1(5)]
    have f1: "frame s1 d" using released_frame [OF s1(4)] d(1) by simp
    note F = acct_free [OF b(1) f1]
    have c: "acct (remove1 d D) H T1 ext (free_page d s1)" using F(1) b(2) by (simp add: fun_upd_idem)
    have "mem_map (free_page d s1) (MAP_NR d) = 0" using F(5) md by simp
    moreover have "released {d} ?s (free_page d s1)"
      using released_trans [OF s1(4) free_page_released [OF b(1) f1]] by simp
    ultimately have "released {} ?s (free_page d s1)" by (metis released_drop)
    moreover have "free_page_tables env (Suc n) (Some tsk) s = Some (free_page d s1)"
      using assms(2,4,5) d(2) False s1(1) by (simp add: free_page_tables_def Let_def)
    ultimately show ?thesis using c s1(2) by blast
  qed
qed

end
