(* ===== verification/Pgcopy.thy ===== *)
theory Pgcopy
  imports Pgfree
begin

text \<open>
  Copying page tables keeps the accounts: each entry that is copied is one more use of its page, and the old and the new
  entry of a copy-on-write page lose the permission to write. \<open>copying\<close> is the invariant of the loop over the directory.
\<close>

section \<open>Copying entries\<close>

text \<open>The write permission goes, where the page is to be copied on a write.\<close>

definition protect :: "u32 \<Rightarrow> u32" where
  "protect e = (if e AND (PAGE_RW OR PAGE_COW) = PAGE_RW OR PAGE_COW then e AND NOT PAGE_RW else e)"

lemma protect_bits:
  "page_of (protect e) = page_of e" "protect e AND PAGE_PRESENT = e AND PAGE_PRESENT" "protect e AND PAGE_COW = e AND PAGE_COW"
  by (simp_all add: protect_def page_of_def and.assoc)

lemma bit_flags: "bit (2 :: u32) n \<longleftrightarrow> n = 1" "bit (0x200 :: u32) n \<longleftrightarrow> n = 9" "bit (0x202 :: u32) n \<longleftrightarrow> n = 1 \<or> n = 9"
proof -
  have 2: "(2 :: u32) = push_bit 1 1" and 9: "(0x200 :: u32) = push_bit 9 1" by (simp_all add: push_bit_eq_mult)
  show a: "bit (2 :: u32) n \<longleftrightarrow> n = 1" unfolding 2 by (simp only: bit_push_bit_iff) (auto simp: bit_1_iff)
  show b: "bit (0x200 :: u32) n \<longleftrightarrow> n = 9" unfolding 9 by (simp only: bit_push_bit_iff) (auto simp: bit_1_iff)
  have "(0x202 :: u32) = 2 OR 0x200" by simp
  then show "bit (0x202 :: u32) n \<longleftrightarrow> n = 1 \<or> n = 9" by (simp only: bit_or_iff a b)
qed

lemma flag_bit: "e AND PAGE_RW \<noteq> 0 \<longleftrightarrow> bit (e :: u32) 1" "e AND PAGE_COW \<noteq> 0 \<longleftrightarrow> bit e 9"
  using bit_iff_and_push_bit_not_eq_0 [of e 1] bit_iff_and_push_bit_not_eq_0 [of e 9] by (simp_all add: push_bit_eq_mult)

lemma protect_not_rw: "\<not> private_rw (protect e)"
proof (cases "private_rw e")
  case True
  then have b: "bit e 1" "bit e 9" unfolding private_rw_def flag_bit by simp_all
  have "e AND 0x202 = 0x202" by (rule bit_word_eqI) (use b in \<open>auto simp only: bit_and_iff bit_flags\<close>)
  then have "protect e = e AND NOT 2" by (simp add: protect_def)
  then have "\<not> bit (protect e) 1" by (simp only: bit_and_iff bit_not_iff bit_flags) simp
  then show ?thesis unfolding private_rw_def flag_bit by simp
next
  case False
  have "protect e = e \<or> protect e = e AND NOT 2" by (simp add: protect_def)
  then show ?thesis
  proof
    assume "protect e = e AND NOT 2"
    then have "\<not> bit (protect e) 1" by (simp only: bit_and_iff bit_not_iff bit_flags) simp
    then show ?thesis unfolding private_rw_def flag_bit by simp
  qed (use False in simp)
qed

lemma names_protect: "names (protect e) p = names e p" "present (protect e) = present e"
  by (simp_all add: names_def protect_bits)

text \<open>What becomes of an entry \<open>e\<close>: \<open>o'\<close> in the old table and \<open>n'\<close> in the new one.\<close>

definition entry_copied :: "vmm \<Rightarrow> u32 \<Rightarrow> u32 \<Rightarrow> u32 \<Rightarrow> bool" where
  "entry_copied s e o' n' \<longleftrightarrow>
     (if present e then n' = protect e \<and> o' = (if reserved s e then e else protect e)
      else o' = e \<and> n' \<in> {e, 0})"

definition named_from :: "memory \<Rightarrow> u32 \<Rightarrow> nat \<Rightarrow> u32 \<Rightarrow> nat" where
  "named_from m t k p = card {i. k \<le> i \<and> i < 1024 \<and> names (m (slot t i)) p}"

lemma named_from_0: "named_from m t 0 p = refs m t p"
  by (simp add: named_from_def refs_def)

lemma named_from_Suc:
  assumes "k < 1024"
  shows "named_from m t k p = of_bool (names (m (slot t k)) p) + named_from m t (Suc k) p"
proof -
  let ?S = "{i. Suc k \<le> i \<and> i < 1024 \<and> names (m (slot t i)) p}"
  have "{i. k \<le> i \<and> i < 1024 \<and> names (m (slot t i)) p} = (if names (m (slot t k)) p then insert k ?S else ?S)"
    using assms by (auto simp: le_Suc_eq) (metis Suc_leI le_neq_implies_less)+
  then show ?thesis unfolding named_from_def by (simp add: card_insert_disjoint)
qed

text \<open>From \<open>s\<close> to \<open>s'\<close> pages were taken into use; those in use before have kept their contents, outside the pages in \<open>W\<close>.\<close>

definition grown :: "u32 set \<Rightarrow> vmm \<Rightarrow> vmm \<Rightarrow> bool" where
  "grown W s s' \<longleftrightarrow> same_frame s s' \<and> (\<forall>p. reserved s' p = reserved s p) \<and>
     (\<forall>a. mem_map s (MAP_NR a) \<noteq> 0 \<longrightarrow> mem_map s' (MAP_NR a) \<noteq> 0 \<and> (page_of a \<notin> W \<longrightarrow> ram s' a = ram s a))"

lemma grown_refl [simp]: "grown W s s"
  by (simp add: grown_def)

lemma grown_trans: "grown W s t \<Longrightarrow> grown W t u \<Longrightarrow> grown W s u"
  by (auto simp: grown_def intro: same_frame_trans)

lemma grown_mono: "grown W s t \<Longrightarrow> W \<subseteq> W' \<Longrightarrow> grown W' s t"
  by (auto simp: grown_def)

lemma grown_store: "page_of a \<in> W \<Longrightarrow> grown W s (store a v s)"
  by (auto simp: grown_def)

lemma grown_same: "mm.truncate s' = mm.truncate s \<Longrightarrow> same_frame s s' \<Longrightarrow> grown W s s'"
  by (simp add: grown_def mm.defs)

lemma grown_frame: "grown W s s' \<Longrightarrow> frame s' = frame s"
  by (auto simp: fun_eq_iff frame_def grown_def same_frame_def)

lemma swap_duplicate_frame:
  assumes "swap_duplicate e s = (v, s')" "\<not> present e"
  shows "v \<in> {e, 0}" "mm.truncate s' = mm.truncate s" "same_frame s s'"
proof -
  show "v \<in> {e, 0}" "mm.truncate s' = mm.truncate s"
    using assms(1) by (auto simp: swap_duplicate_def Let_def mm.defs split: if_splits)
  have "swap_idle s \<longrightarrow> swap_idle s'"
    using assms(1) by (auto simp: swap_duplicate_def Let_def swap_idle_def nth_list_update split: if_splits)
  then show "same_frame s s'"
    using assms(1) by (auto simp: same_frame_def swap_duplicate_def Let_def split: if_splits)
qed

lemma pte_ok_protect:
  assumes "page_aligned (high_memory s)" "pte_ok s e"
  shows "pte_ok s (protect e)"
proof -
  have "present e \<Longrightarrow> page_of e < high_memory s" using assms page_of_less_iff by (simp add: pte_ok_def)
  then have "present e \<Longrightarrow> protect e < high_memory s" using page_of_less_iff [OF assms(1), of "protect e"] by (simp add: protect_bits)
  then show ?thesis using protect_not_rw [of e] by (simp add: pte_ok_def names_protect)
qed

text \<open>Entry \<open>i\<close> of the table \<open>t\<close> is copied to the table \<open>u\<close>.\<close>

definition copied_at :: "u32 \<Rightarrow> u32 \<Rightarrow> nat \<Rightarrow> vmm \<Rightarrow> vmm \<Rightarrow> bool" where
  "copied_at t u i s s' \<longleftrightarrow> grown {t, u} s s' \<and> entry_copied s (ram s (slot t i)) (ram s' (slot t i)) (ram s' (slot u i)) \<and>
     (\<forall>j<1024. j \<noteq> i \<longrightarrow> ram s' (slot t j) = ram s (slot t j) \<and> ram s' (slot u j) = ram s (slot u j)) \<and>
     (\<forall>p. frame s p \<longrightarrow>
        unat (mem_map s' (MAP_NR p)) = unat (mem_map s (MAP_NR p)) + of_bool (names (ram s (slot t i)) p))"

lemma two_tables:
  assumes "acct D H T ext s" "t \<in> T" "u \<in> T" "t \<noteq> u" "i < 1024"
  shows "\<And>j k. j < 1024 \<Longrightarrow> k < 1024 \<Longrightarrow> slot t j \<noteq> slot u k" "page_of (slot t i) = t" "page_of (slot u i) = u"
    "\<And>j. j < 1024 \<Longrightarrow> slot t j = slot t i \<longleftrightarrow> j = i" "\<And>j. j < 1024 \<Longrightarrow> slot u j = slot u i \<longleftrightarrow> j = i"
proof -
  have al: "page_aligned t" "page_aligned u" using acct_aligned [OF assms(1)] assms(2,3) by auto
  show "\<And>j k. j < 1024 \<Longrightarrow> k < 1024 \<Longrightarrow> slot t j \<noteq> slot u k" using slot_inj [OF al] assms(4) by blast
  show "page_of (slot t i) = t" "page_of (slot u i) = u" using page_of_slot al assms(5) by auto
  show "\<And>j. j < 1024 \<Longrightarrow> slot t j = slot t i \<longleftrightarrow> j = i" "\<And>j. j < 1024 \<Longrightarrow> slot u j = slot u i \<longleftrightarrow> j = i"
    using slot_inj [OF al(1,1) _ assms(5)] slot_inj [OF al(2,2) _ assms(5)] by simp_all
qed

lemma copy_swapped:
  assumes "acct D H T ext s" "t \<in> T" "u \<in> T" "t \<noteq> u" "i < 1024" "ram s (slot u i) = 0" "ram s (slot t i) = e" "\<not> present e"
  shows "acct D H T ext (copy_entry (slot t i) (slot u i) s)" "copied_at t u i s (copy_entry (slot t i) (slot u i) s)"
proof -
  let ?s = "copy_entry (slot t i) (slot u i) s"
  note G = two_tables [OF assms(1-5)]
  obtain v s1 where v: "swap_duplicate e s = (v, s1)" by fastforce
  note S = swap_duplicate_frame [OF v assms(8)]
  have e: "ram s1 = ram s" "mem_map s1 = mem_map s" using S(2) by (simp_all add: mm.defs)
  have s': "?s = store (slot u i) v s1"
  proof (cases "e = 0")
    case True
    then have "v = 0" "s1 = s" using v by (simp_all add: swap_duplicate_def)
    then show ?thesis using True assms(6,7) by (simp add: copy_entry_def fun_upd_idem)
  qed (use assms(7,8) v in \<open>simp add: copy_entry_def Let_def\<close>)
  have nv: "\<not> present v" using S(1) assms(8) by auto
  have a1: "acct D H T ext s1" by (rule acct_more [OF assms(1) S(2)])
  show "acct D H T ext ?s" unfolding s' using nv assms(6)
    by (intro acct_store [OF a1 assms(3,5)]) (simp_all add: pte_ok_def names_def e)
  have "grown {t, u} s ?s" unfolding s' by (rule grown_trans [OF grown_same [OF S(2,3)] grown_store]) (simp add: G(3))
  moreover have "entry_copied s e (ram ?s (slot t i)) (ram ?s (slot u i))"
    using assms(7,8) S(1) G(1) [OF assms(5,5)] by (auto simp: s' entry_copied_def e)
  ultimately show "copied_at t u i s ?s" unfolding copied_at_def
    using assms(5,7,8) G(1,5) by (auto simp: s' e names_def)
qed

lemma copy_reserved:
  assumes "acct D H T ext s" "t \<in> T" "u \<in> T" "t \<noteq> u" "i < 1024" "ram s (slot u i) = 0" "ram s (slot t i) = e" "present e"
    "reserved s e"
  shows "acct D H T ext (copy_entry (slot t i) (slot u i) s)" "copied_at t u i s (copy_entry (slot t i) (slot u i) s)"
proof -
  let ?s = "copy_entry (slot t i) (slot u i) s"
  note G = two_tables [OF assms(1-5)]
  have ok: "pte_ok s (protect e)" using pte_ok_protect [OF acct_high [OF assms(1)]] acctD(10) [OF assms(1,2,5)] assms(7) by simp
  have mp: "MAP_NR (protect e) = MAP_NR e" using MAP_NR_page_of [of e] MAP_NR_page_of [of "protect e"] by (simp add: protect_bits)
  have s': "?s = store (slot u i) (protect e) s" using mp assms(7,8,9) by (auto simp: copy_entry_def protect_def Let_def)
  have nn: "\<not> names e q" if "frame s q" for q using that assms(9) by (auto simp: names_def frame_def MAP_NR_page_of)
  show "acct D H T ext ?s" unfolding s' using nn assms(6) ok
    by (intro acct_store [OF assms(1,3,5)]) (simp_all add: names_protect)
  have "grown {t, u} s ?s" unfolding s' by (rule grown_store) (simp add: G(3))
  then show "copied_at t u i s ?s" unfolding copied_at_def
    using assms(5,7,8,9) nn G(1) [OF _ assms(5)] G(5) by (auto simp: s' entry_copied_def)
qed

lemma copy_entry_protect:
  "present (ram s old) \<Longrightarrow> copy_entry old new s =
     (let pg = protect (ram s old); s = store new pg s
      in if reserved s pg then s else use_page pg (store old pg s))"
  by (auto simp: copy_entry_def protect_def Let_def)

lemma copy_shared:
  assumes "acct D H T ext s" "t \<in> T" "u \<in> T" "t \<noteq> u" "i < 1024" "ram s (slot u i) = 0" "ram s (slot t i) = e" "present e"
    "\<not> reserved s e" "unat (mem_map s (MAP_NR e)) < 32767"
  shows "acct D H T ext (copy_entry (slot t i) (slot u i) s)" "copied_at t u i s (copy_entry (slot t i) (slot u i) s)"
proof -
  let ?s = "copy_entry (slot t i) (slot u i) s" and ?e = "protect e" and ?p = "page_of e"
  note G = two_tables [OF assms(1-5)]
  note ne = G(1) [OF assms(5,5)]
  have mp: "MAP_NR ?e = MAP_NR e" "MAP_NR ?p = MAP_NR e"
    using MAP_NR_page_of [of e] MAP_NR_page_of [of "protect e"] by (simp_all add: protect_bits)
  have okp: "pte_ok s ?e" using pte_ok_protect [OF acct_high [OF assms(1)]] acctD(10) [OF assms(1,2,5)] assms(7) by simp
  have "?p < high_memory s" using acctD(10) [OF assms(1,2,5)] assms(7,8) page_of_less_iff [OF acct_high [OF assms(1)]]
    by (simp add: pte_ok_def)
  then have f: "frame s ?p" using assms(9) by (simp add: frame_def mp)
  let ?s1 = "store (slot t i) 0 s" and ?E = "ext(?p := ext ?p + 1)"
  have a1: "acct D H T ?E ?s1" using assms(7,8) by (intro acct_store [OF assms(1,2,5)]) (auto simp: pte_ok_def names_def)
  have f1: "frame ?s1 ?p" using f by (simp add: frame_def)
  have a2: "acct D H T (?E(?p := ?E ?p + 1)) (use_page ?e ?s1)"
    by (rule acct_use [OF a1 f1]) (use assms(10) in \<open>simp_all add: protect_bits mp\<close>)
  have um: "unat (mem_map s (MAP_NR e) + 1) = unat (mem_map s (MAP_NR e)) + 1"
    using assms(10) by (simp add: unat_add_lem [THEN iffD1])
  let ?m = "(mem_map s)(MAP_NR e := mem_map s (MAP_NR e) + 1)"
  have mu: "mem_map (use_page ?e x) = ?m" if "mem_map x = mem_map s" for x using that by (simp add: use_page_def mp)
  have res: "?m (MAP_NR q) AND MAP_PAGE_RESERVED \<noteq> 0 \<longleftrightarrow> reserved s q" for q
    using um assms(9,10) high_bit_count [of "mem_map s (MAP_NR e) + 1"] by simp
  have okx: "pte_ok x ?e" if "mem_map x = ?m" "high_memory x = high_memory s" for x
    using okp that protect_not_rw [of e] by (simp add: pte_ok_def)
  let ?s3 = "store (slot t i) ?e (use_page ?e ?s1)"
  have ok: "pte_ok (use_page ?e ?s1) ?e" "pte_ok ?s3 ?e" using mu [of ?s1] by (auto intro!: okx)
  have a3: "acct D H T ?E ?s3" using assms(8) by (intro acct_store [OF a2 assms(2,5) ok(1)]) (auto simp: names_def protect_bits)
  have s': "?s = store (slot u i) ?e ?s3"
  proof -
    have "?s = use_page ?e (store (slot t i) ?e (store (slot u i) ?e s))"
      using assms(7,8,9) mp by (simp add: copy_entry_protect Let_def)
    then show ?thesis using ne by (simp add: use_page_def fun_upd_twist)
  qed
  show "acct D H T ext ?s" unfolding s' using assms(6,8) ne
    by (intro acct_store [OF a3 assms(3,5) ok(2)]) (auto simp: names_def protect_bits)
  have mm: "mem_map ?s = ?m" unfolding s' using mu [of ?s1] by simp
  have rm: "ram ?s = (ram s)(slot t i := ?e, slot u i := ?e)" by (simp add: s')
  have "mem_map s (MAP_NR e) + 1 \<noteq> 0" using um by (metis Suc_eq_plus1 nat.simps(3) unat_0)
  moreover have "same_frame s ?s" by (rule same_frame_mm) (simp_all add: s')
  ultimately have "grown {t, u} s ?s" unfolding grown_def using G(2,3) res by (simp add: mm rm)
  moreover have "unat (?m (MAP_NR q)) = unat (mem_map s (MAP_NR q)) + of_bool (names e q)" if "frame s q" for q
  proof -
    have "names e q \<longleftrightarrow> MAP_NR q = MAP_NR e"
      using that assms(8) MAP_NR_eq_page [of q e] page_of_id [of q] by (auto simp: names_def frame_def)
    then show ?thesis using um by simp
  qed
  moreover have "entry_copied s e (ram ?s (slot t i)) (ram ?s (slot u i))" using assms(8,9) ne by (simp add: rm entry_copied_def)
  moreover have "ram ?s (slot t j) = ram s (slot t j) \<and> ram ?s (slot u j) = ram s (slot u j)" if "j < 1024" "j \<noteq> i" for j
    using that G(1) [OF that(1) assms(5)] G(1) [OF assms(5) that(1)] G(4,5) by (auto simp: rm)
  ultimately show "copied_at t u i s ?s" unfolding copied_at_def mm assms(7) by blast
qed

lemma copy_entry_ok:
  assumes "acct D H T ext s" "t \<in> T" "u \<in> T" "t \<noteq> u" "i < 1024" "ram s (slot u i) = 0"
    "\<forall>p. frame s p \<and> names (ram s (slot t i)) p \<longrightarrow> unat (mem_map s (MAP_NR p)) < 32767"
  shows "acct D H T ext (copy_entry (slot t i) (slot u i) s) \<and> copied_at t u i s (copy_entry (slot t i) (slot u i) s)"
proof -
  define e where "e = ram s (slot t i)"
  have "unat (mem_map s (MAP_NR e)) < 32767" if "present e" "\<not> reserved s e"
  proof -
    have "page_of e < high_memory s" using acctD(10) [OF assms(1,2,5)] that(1) page_of_less_iff [OF acct_high [OF assms(1)]]
      by (simp add: pte_ok_def e_def)
    then have "frame s (page_of e)" using that(2) by (simp add: frame_def MAP_NR_page_of)
    then show ?thesis using assms(7) that(1) by (auto simp: names_def e_def MAP_NR_page_of)
  qed
  then show ?thesis
    using copy_swapped [OF assms(1-6) e_def [symmetric]] copy_reserved [OF assms(1-6) e_def [symmetric]]
      copy_shared [OF assms(1-6) e_def [symmetric]] by blast
qed

lemma grown_entry_copied: "grown W s s' \<Longrightarrow> entry_copied s' = entry_copied s"
  by (auto simp: fun_eq_iff entry_copied_def grown_def)

text \<open>The whole table.\<close>

lemma copy_entries_ok:
  assumes "acct D H T ext s" "t \<in> T" "u \<in> T" "t \<noteq> u" "k + m = 1024" "\<forall>i<1024. k \<le> i \<longrightarrow> ram s (slot u i) = 0"
    "\<forall>p. frame s p \<longrightarrow> unat (mem_map s (MAP_NR p)) + named_from (ram s) t k p \<le> 32767"
  shows "\<exists>s'. copy_entries m (slot t k) (slot u k) s = s' \<and> acct D H T ext s' \<and> grown {t, u} s s' \<and>
    (\<forall>i<1024. if k \<le> i then entry_copied s (ram s (slot t i)) (ram s' (slot t i)) (ram s' (slot u i))
              else ram s' (slot t i) = ram s (slot t i) \<and> ram s' (slot u i) = ram s (slot u i)) \<and>
    (\<forall>p. frame s p \<longrightarrow> unat (mem_map s' (MAP_NR p)) = unat (mem_map s (MAP_NR p)) + named_from (ram s) t k p)"
  using assms(1,5-7)
proof (induction m arbitrary: k s)
  case 0
  then have "k = 1024" by simp
  then show ?case using "0.prems" by (auto simp: named_from_def)
next
  case (Suc m)
  have k: "k < 1024" using Suc.prems(2) by simp
  note nf = named_from_Suc [OF k, of "ram s" t]
  define s1 where "s1 = copy_entry (slot t k) (slot u k) s"
  have "\<forall>p. frame s p \<and> names (ram s (slot t k)) p \<longrightarrow> unat (mem_map s (MAP_NR p)) < 32767"
    using Suc.prems(4) nf by fastforce
  then have s1: "acct D H T ext s1" "copied_at t u k s s1"
    using copy_entry_ok [OF Suc.prems(1) assms(2-4) k] Suc.prems(3) k unfolding s1_def by auto
  note C = s1(2) [unfolded copied_at_def]
  have g: "grown {t, u} s s1" and fr: "frame s1 = frame s" using C grown_frame by blast+
  have nf1: "named_from (ram s1) t (Suc k) p = named_from (ram s) t (Suc k) p" for p
    unfolding named_from_def using C by (intro arg_cong [where f = card]) auto
  have z: "\<forall>i<1024. Suc k \<le> i \<longrightarrow> ram s1 (slot u i) = 0" using Suc.prems(3) C by simp
  have sl: "\<forall>p. frame s1 p \<longrightarrow> unat (mem_map s1 (MAP_NR p)) + named_from (ram s1) t (Suc k) p \<le> 32767"
    using Suc.prems(4) C by (simp add: nf1 fr nf add.assoc)
  have km: "Suc k + m = 1024" using Suc.prems(2) by simp
  obtain s' where s': "copy_entries m (slot t (Suc k)) (slot u (Suc k)) s1 = s'" "acct D H T ext s'" "grown {t, u} s1 s'"
    "\<forall>i<1024. if Suc k \<le> i then entry_copied s1 (ram s1 (slot t i)) (ram s' (slot t i)) (ram s' (slot u i))
              else ram s' (slot t i) = ram s1 (slot t i) \<and> ram s' (slot u i) = ram s1 (slot u i)"
    "\<forall>p. frame s1 p \<longrightarrow> unat (mem_map s' (MAP_NR p)) = unat (mem_map s1 (MAP_NR p)) + named_from (ram s1) t (Suc k) p"
    using Suc.IH [OF s1(1) km z sl] by blast
  note ec = grown_entry_copied [OF g]
  have "if k \<le> i then entry_copied s (ram s (slot t i)) (ram s' (slot t i)) (ram s' (slot u i))
        else ram s' (slot t i) = ram s (slot t i) \<and> ram s' (slot u i) = ram s (slot u i)" if "i < 1024" for i
    using s'(4) that C by (cases "i = k") (auto simp: ec)
  moreover have "unat (mem_map s' (MAP_NR p)) = unat (mem_map s (MAP_NR p)) + named_from (ram s) t k p" if "frame s p" for p
    using s'(5) that C nf nf1 fr by simp
  moreover have "copy_entries (Suc m) (slot t k) (slot u k) s = s'" using s'(1) by (simp add: s1_def slot_Suc)
  ultimately show ?case using s'(2) grown_trans [OF g s'(3)] by blast
qed

section \<open>Copying a directory\<close>

text \<open>Nothing can be reclaimed: a request gives a free page or fails at once.\<close>

abbreviation no_reclaim :: reclaimer where
  "no_reclaim \<equiv> \<lambda>_ s. (False, s)"

lemma get_no_reclaim:
  assumes "pages_ok s"
  shows "(\<exists>p s'. do_get_free_page no_reclaim (Suc n) GFP_KERNEL s = Some (p, s') \<and> got p s s') \<or>
         do_get_free_page no_reclaim (Suc n) GFP_KERNEL s = Some (0, s) \<and> free_pages s = {}"
  using remove_free_cases [OF assms] remove_secondary_cases [OF assms] both_empty [OF assms] by fastforce

lemma got_grown:
  assumes "got p s s'"
  shows "grown {} s s'"
proof -
  have "mm.more s' = mm.more s" "high_memory s' = high_memory s" using assms by (auto simp: got_def)
  then have "same_frame s s'" by (rule same_frame_mm)
  then show ?thesis using assms by (auto simp: grown_def got_def free_pages_def)
qed

lemma get_zeroed:
  assumes "acct D H T ext s"
  shows "get_free_page no_reclaim (Suc n) GFP_KERNEL s = Some (0, s) \<and> free_pages s = {} \<or>
    (\<exists>p s'. get_free_page no_reclaim (Suc n) GFP_KERNEL s = Some (p, s') \<and> p \<noteq> 0 \<and> acct D H T (ext(p := 1)) s' \<and> ext p = 0 \<and>
       frame s p \<and> p \<notin> set D \<union> T \<and> mem_map s' = (mem_map s)(MAP_NR p := 1) \<and> mem_map s (MAP_NR p) = 0 \<and>
       (\<forall>i<1024. ram s' (slot p i) = 0) \<and> grown {} s s')"
proof (cases "\<exists>p s'. do_get_free_page no_reclaim (Suc n) GFP_KERNEL s = Some (p, s') \<and> got p s s'")
  case False
  then have "do_get_free_page no_reclaim (Suc n) GFP_KERNEL s = Some (0, s) \<and> free_pages s = {}"
    using get_no_reclaim [OF acctD(1) [OF assms], of n] by blast
  then show ?thesis by (simp add: get_free_page_def del: do_get_free_page.simps)
next
  case True
  then obtain p s1 where g: "do_get_free_page no_reclaim (Suc n) GFP_KERNEL s = Some (p, s1)" "got p s s1" by blast
  note G = acct_got [OF assms g(2)]
  let ?s = "s1\<lparr>ram := clear_longs 1024 p (ram s1)\<rparr>"
  have p0: "p \<noteq> 0" using acct_nonzero [OF G(1,4)] .
  have al: "page_aligned p" using G(4) by (simp add: frame_def)
  have cl: "clear_longs 1024 p (ram s1) a = (if \<exists>i<1024. a = slot p i then 0 else ram s1 a)" for a
    using fill_longs_slot [OF al, of 0 1024 0 "ram s1" a] by (simp add: clear_longs_fill)
  have out: "\<forall>a. page_of a \<noteq> p \<longrightarrow> clear_longs 1024 p (ram s1) a = ram s1 a"
    using page_of_slot [OF al] by (auto simp: cl)
  have mm: "mem_map s1 = (mem_map s)(MAP_NR p := 1)" "mem_map s (MAP_NR p) = 0"
    using g(2) by (auto simp: got_def free_pages_def)
  have "acct D H T (ext(p := 1)) ?s" by (rule acct_ram [OF G(1) _ G(3) out]) (simp add: mm)
  moreover have "\<forall>i<1024. ram ?s (slot p i) = 0" by (auto simp: cl)
  moreover have "grown {} s ?s"
  proof -
    have "page_of a \<noteq> p" if "mem_map s (MAP_NR a) \<noteq> 0" for a using that mm(2) MAP_NR_page_of by metis
    then show ?thesis using got_grown [OF g(2)] out by (simp add: grown_def same_frame_def swap_idle_def)
  qed
  moreover have "frame s p" using G(4,5) by simp
  ultimately show ?thesis using g(1) p0 G(2,3) mm by (simp add: get_free_page_def del: do_get_free_page.simps)
qed

lemma grown_slot:
  assumes "grown W s s'" "acct D H T ext s" "f \<in> set D \<union> T" "f \<notin> W" "i < 1024"
  shows "ram s' (slot f i) = ram s (slot f i)"
proof -
  have f: "page_aligned f" "mem_map s (MAP_NR f) \<noteq> 0"
    using assms(2,3) acct_aligned acctD(6,7) count_list_0_iff [of D f] by fastforce+
  then have "mem_map s (MAP_NR (slot f i)) \<noteq> 0" using page_of_slot [OF f(1) assms(5)] MAP_NR_page_of by metis
  then show ?thesis using assms(1,4) page_of_slot [OF f(1) assms(5)] by (auto simp: grown_def)
qed

text \<open>The page tables of a directory from entry \<open>k\<close> on.\<close>

definition rest :: "vmm \<Rightarrow> u32 \<Rightarrow> nat \<Rightarrow> u32 set" where
  "rest s d k = {t. \<exists>i. k \<le> i \<and> i < 1024 \<and> ram s (slot d i) \<noteq> 0 \<and> \<not> reserved s (ram s (slot d i)) \<and>
                        t = page_of (ram s (slot d i))}"

definition dir_copied :: "vmm \<Rightarrow> vmm \<Rightarrow> u32 set \<Rightarrow> u32 \<Rightarrow> u32 \<Rightarrow> bool" where
  "dir_copied s s' T' e e' \<longleftrightarrow>
     (if e = 0 \<or> reserved s e then e' = e
      else present e' \<and> \<not> reserved s e' \<and> page_of e' \<in> T' \<and>
        (\<forall>j<1024. entry_copied s (ram s (slot (page_of e) j)) (ram s' (slot (page_of e) j)) (ram s' (slot (page_of e') j))))"

text \<open>Entries may have become read-only.\<close>

definition softened :: "u32 set \<Rightarrow> vmm \<Rightarrow> vmm \<Rightarrow> bool" where
  "softened R s s' \<longleftrightarrow> (\<forall>t\<in>R. \<forall>j<1024. ram s' (slot t j) \<in> {ram s (slot t j), protect (ram s (slot t j))})"

lemma entry_copied_soft: "entry_copied s e o' n' \<Longrightarrow> o' \<in> {e, protect e}"
  by (auto simp: entry_copied_def split: if_splits)

lemma rest_Suc:
  assumes "k < 1024"
  shows "rest s d k = (if ram s (slot d k) = 0 \<or> reserved s (ram s (slot d k)) then rest s d (Suc k)
                       else insert (page_of (ram s (slot d k))) (rest s d (Suc k)))"
proof -
  have "k \<le> i \<longleftrightarrow> i = k \<or> Suc k \<le> i" for i by auto
  then show ?thesis using assms by (auto simp: rest_def)
qed

lemma rest_tables: "acct D H T ext s \<Longrightarrow> d \<in> set D \<Longrightarrow> rest s d k \<subseteq> T"
  using acctD(9) by (fastforce simp: rest_def dir_ok_def)

lemma dir_entry_unique:
  assumes "acct D H T ext s" "d \<in> set D" "i < 1024" "ram s (slot d i) \<noteq> 0" "\<not> reserved s (ram s (slot d i))"
  shows "i < k \<Longrightarrow> page_of (ram s (slot d i)) \<notin> rest s d k"
proof
  let ?t = "page_of (ram s (slot d i))"
  assume "i < k" "?t \<in> rest s d k"
  then obtain j where j: "k \<le> j" "j < 1024" "ram s (slot d j) \<noteq> 0" "\<not> reserved s (ram s (slot d j))" "?t = page_of (ram s (slot d j))"
    by (auto simp: rest_def)
  have n: "names (ram s (slot d i)) ?t" "names (ram s (slot d j)) ?t"
    using acctD(9) [OF assms(1,2,3)] acctD(9) [OF assms(1,2) j(2)] assms(4) j by (auto simp: names_def dir_ok_def)
  have t: "?t \<in> T" using acctD(9) [OF assms(1,2,3)] assms(4,5) by (auto simp: dir_ok_def)
  have "refs (ram s) d ?t \<le> users (ram s) D H T ?t" using users_refs [OF acctD(2) [OF assms(1)]] assms(2) by auto
  also have "\<dots> \<le> 1" using acctD(11) [OF assms(1) acctD(5) [OF assms(1)], of ?t] acctD(7) [OF assms(1) t] t by simp
  finally have "i = j" using refs_unique [of "ram s" d ?t i j] assms(3) j(2) n by blast
  then show False using \<open>i < k\<close> j(1) by simp
qed

lemma page_of_table_entry: "page_aligned p \<Longrightarrow> page_of (p OR PAGE_TABLE) = p" "present (p OR PAGE_TABLE)"
proof -
  have "(p OR PAGE_TABLE) AND PAGE_MASK = p AND PAGE_MASK" by (simp add: bit.conj_disj_distrib2)
  then show "page_aligned p \<Longrightarrow> page_of (p OR PAGE_TABLE) = p" using page_of_id by (simp add: page_of_def)
  have "(p OR PAGE_TABLE) AND 1 = (p AND 1) OR 1" by (simp add: bit.conj_disj_distrib2)
  moreover have "(p AND 1) OR 1 = (1 :: u32)" by (simp add: bit.disj_conj_distrib2)
  ultimately show "present (p OR PAGE_TABLE)" by simp
qed

text \<open>Room for one more reference to each page from each table in \<open>R\<close>.\<close>

definition room :: "vmm \<Rightarrow> u32 set \<Rightarrow> bool" where
  "room s R \<longleftrightarrow> (\<forall>p. frame s p \<longrightarrow> unat (mem_map s (MAP_NR p)) + (\<Sum>t\<in>R. refs (ram s) t p) \<le> 32767)"

text \<open>One page table is copied and entered in the new directory.\<close>

lemma copy_one_table:
  assumes "acct D H T ext s" "d \<in> set D" "d' \<in> set D" "d \<noteq> d'" "k < 1024" "ram s (slot d k) = e" "e \<noteq> 0" "\<not> reserved s e"
    "ram s (slot d' k) = 0" "room s (rest s d k)"
    and got: "acct D H T (ext(p := 1)) s1" "ext p = 0" "frame s p" "p \<notin> set D \<union> T" "mem_map s1 = (mem_map s)(MAP_NR p := 1)"
      "mem_map s (MAP_NR p) = 0" "\<forall>i<1024. ram s1 (slot p i) = 0" "grown {} s s1"
    and s': "s' = store (slot d' k) (p OR PAGE_TABLE) (copy_entries 1024 (page_of e) p s1)"
  shows "acct D H (insert p T) ext s'" "grown {page_of e, d'} s s'" "softened {page_of e} s s'"
    "\<forall>i<1024. i \<noteq> k \<longrightarrow> ram s' (slot d' i) = ram s (slot d' i)" "ram s' (slot d' k) = p OR PAGE_TABLE"
    "dir_copied s s' (insert p T) e (p OR PAGE_TABLE)" "room s' (rest s d (Suc k))" "free_pages s' = free_pages s - {p}"
proof -
  let ?t = "page_of e" and ?R = "rest s d (Suc k)"
  have t: "?t \<in> T" "present e" "e < high_memory s" using acctD(9) [OF assms(1,2,5)] assms(6-8) by (auto simp: dir_ok_def)
  have al: "page_aligned p" "page_aligned ?t" "page_aligned d'" using got(3) acct_aligned [OF assms(1)] assms(3) by (auto simp: frame_def)
  have nt: "?t \<noteq> p" "?t \<noteq> d'" "p \<noteq> d'" "?t \<noteq> d" using t(1) got(4) acctD(3) [OF assms(1)] assms(2,3) by auto
  have tR: "?t \<notin> ?R" using dir_entry_unique [OF assms(1,2,5), of "Suc k"] assms(6-8) by simp
  have Rk: "rest s d k = insert ?t ?R" using rest_Suc [OF assms(5), of s d] assms(6-8) by simp
  have RT: "?R \<subseteq> T" "finite ?R" using rest_tables [OF assms(1,2)] acctD(2) [OF assms(1)] finite_subset by blast+
  have fr1: "frame s1 = frame s" by (rule grown_frame [OF got(8)])
  have s1T: "ram s1 (slot f i) = ram s (slot f i)" if "f \<in> set D \<union> T" "i < 1024" for f i
    by (rule grown_slot [OF got(8) assms(1) that(1) _ that(2)]) simp
  have rp: "refs (ram s) f p = 0" if "f \<in> set D \<union> T" for f
    using acctD(11) [OF assms(1) got(3)] got(6) users_refs [OF acctD(2) [OF assms(1)] that, of "ram s" p H] by simp
  have mp1: "mem_map s1 (MAP_NR p) = 1" using got(5) by simp
  have a1: "acct D (p # H) (insert p T) ext s1"
    using acct_table_new [OF got(1), of p] got(2,3,7) fr1 mp1 by (simp add: fun_upd_idem)
  have sl: "unat (mem_map s1 (MAP_NR q)) + refs (ram s1) ?t q + (\<Sum>t\<in>?R. refs (ram s1) t q) \<le> 32767" if "frame s q" for q
  proof -
    have r: "refs (ram s1) f q = refs (ram s) f q" if "f \<in> T" for f using s1T that by (intro refs_cong) blast
    have e: "(\<Sum>t\<in>?R. refs (ram s1) t q) = (\<Sum>t\<in>?R. refs (ram s) t q)" using r RT(1) by (intro sum.cong) auto
    have b: "unat (mem_map s (MAP_NR q)) + (refs (ram s) ?t q + (\<Sum>t\<in>?R. refs (ram s) t q)) \<le> 32767"
      using assms(10) that tR RT(2) unfolding room_def Rk by simp
    show ?thesis
    proof (cases "q = p")
      case True
      have "(\<Sum>t\<in>?R. refs (ram s) t q) = 0" using rp RT(1) True by (intro sum.neutral) auto
      moreover have "unat (mem_map s1 (MAP_NR q)) = 1" "refs (ram s) ?t q = 0" using True mp1 rp [of ?t] t(1) by simp_all
      ultimately show ?thesis using r [OF t(1)] e by linarith
    next
      case False
      then have "MAP_NR q \<noteq> MAP_NR p" using that got(3) MAP_NR_inj by (auto simp: frame_def)
      then show ?thesis using b r [OF t(1)] e by (simp add: got(5))
    qed
  qed
  have "\<forall>q. frame s1 q \<longrightarrow> unat (mem_map s1 (MAP_NR q)) + named_from (ram s1) ?t 0 q \<le> 32767"
    using sl by (auto simp: named_from_0 fr1 intro: order_trans [OF le_add1])
  then obtain s2 where s2: "copy_entries 1024 ?t p s1 = s2" "acct D (p # H) (insert p T) ext s2" "grown {?t, p} s1 s2"
      "\<forall>i<1024. entry_copied s1 (ram s1 (slot ?t i)) (ram s2 (slot ?t i)) (ram s2 (slot p i))"
      "\<forall>q. frame s1 q \<longrightarrow> unat (mem_map s2 (MAP_NR q)) = unat (mem_map s1 (MAP_NR q)) + refs (ram s1) ?t q"
    using copy_entries_ok [OF a1 _ _ nt(1), of 0 1024] t(1) got(7) by (auto simp: named_from_0)
  have s'2: "s' = store (slot d' k) (p OR PAGE_TABLE) s2" using s' s2(1) by simp
  have g2: "grown {?t, p, d'} s s'"
  proof -
    have "grown {?t, p, d'} s s1" "grown {?t, p, d'} s1 s2" using got(8) s2(3) by (auto elim: grown_mono)
    moreover have "grown {?t, p, d'} s2 s'" unfolding s'2 using page_of_slot [OF al(3) assms(5)] by (intro grown_store) simp
    ultimately show ?thesis by (meson grown_trans)
  qed
  show g: "grown {?t, d'} s s'"
  proof -
    have "page_of a \<noteq> p" if "mem_map s (MAP_NR a) \<noteq> 0" for a using that got(6) MAP_NR_page_of by metis
    then show ?thesis using g2 by (simp add: grown_def)
  qed
  have s'T: "ram s' (slot f i) = ram s2 (slot f i)" if "f \<in> insert p T" "i < 1024" for f i
  proof -
    have "page_aligned f" "f \<noteq> d'" using that(1) nt(3) al(1) acct_aligned [OF assms(1)] acctD(3) [OF assms(1)] assms(3) by auto
    then show ?thesis using slot_inj [OF _ al(3) that(2) assms(5)] by (simp add: s'2)
  qed
  have res: "reserved s2 q = reserved s q" for q using got(8) s2(3) by (simp add: grown_def)
  have ec: "entry_copied s (ram s (slot ?t j)) (ram s' (slot ?t j)) (ram s' (slot p j))" if "j < 1024" for j
  proof -
    have "entry_copied s (ram s1 (slot ?t j)) (ram s2 (slot ?t j)) (ram s2 (slot p j))"
      using s2(4) that unfolding grown_entry_copied [OF got(8)] by blast
    then show ?thesis using s1T [of ?t j] s'T [of ?t j] s'T [of p j] t(1) that by simp
  qed
  show "softened {?t} s s'" unfolding softened_def using ec entry_copied_soft by blast
  have pe: "page_of (p OR PAGE_TABLE) = p" "present (p OR PAGE_TABLE)" using page_of_table_entry al(1) by auto
  have rp': "\<not> reserved s (p OR PAGE_TABLE)" using got(3) MAP_NR_page_of [of "p OR PAGE_TABLE"] pe(1) by (simp add: frame_def)
  show "dir_copied s s' (insert p T) e (p OR PAGE_TABLE)"
    using ec pe rp' assms(7,8) by (simp add: dir_copied_def)
  show "ram s' (slot d' k) = p OR PAGE_TABLE" by (simp add: s'2)
  have sd: "ram s2 (slot d' i) = ram s (slot d' i)" if "i < 1024" for i
    using grown_slot [OF s2(3) a1, of d' i] s1T [of d' i] assms(3) nt that by auto
  show "\<forall>i<1024. i \<noteq> k \<longrightarrow> ram s' (slot d' i) = ram s (slot d' i)"
    using sd slot_inj [OF al(3,3) _ assms(5)] by (simp add: s'2)
  show "acct D H (insert p T) ext s'" unfolding s'2
  proof (rule acct_dir_store [OF s2(2) assms(3,5)])
    have "p OR PAGE_TABLE < high_memory s"
      using got(3) pe(1) page_of_less_iff [OF acct_high [OF assms(1)], of "p OR PAGE_TABLE"] by (simp add: frame_def)
    moreover have "high_memory s2 = high_memory s" using got(8) s2(3) by (simp add: grown_def same_frame_def)
    moreover have "(p OR PAGE_TABLE) AND PAGE_TABLE = PAGE_TABLE" by (simp add: and.commute word_ao_absorbs)
    ultimately show "dir_ok s2 (insert p T) (p OR PAGE_TABLE)" using pe by (simp add: dir_ok_def)
    show "set H \<subseteq> insert p T" using acctD(4) [OF assms(1)] by blast
  qed (use sd [OF assms(5)] assms(9) pe in \<open>auto simp: names_def\<close>)
  show "room s' ?R" unfolding room_def
  proof (intro allI impI)
    fix q assume "frame s' q"
    then have q: "frame s q" using grown_frame [OF g] by simp
    have "refs (ram s') f q = refs (ram s1) f q" if "f \<in> ?R" for f
    proof -
      have "f \<in> T" "f \<noteq> ?t" "f \<noteq> p" using that RT(1) tR got(4) by blast+
      then show ?thesis using s'T [of f] grown_slot [OF s2(3) a1, of f] by (intro refs_cong) simp
    qed
    then have "(\<Sum>t\<in>?R. refs (ram s') t q) = (\<Sum>t\<in>?R. refs (ram s1) t q)" by (intro sum.cong) auto
    then show "unat (mem_map s' (MAP_NR q)) + (\<Sum>t\<in>?R. refs (ram s') t q) \<le> 32767"
      using sl [OF q] s2(5) q fr1 by (simp add: s'2)
  qed
  have f2: "frame s2 = frame s" using grown_frame [OF s2(3)] fr1 by simp
  have m2: "mem_map s2 (MAP_NR q) = 0 \<longleftrightarrow> mem_map s (MAP_NR q) = 0 \<and> q \<noteq> p" if q: "frame s q" for q
  proof -
    have "refs (ram s1) ?t q = 0" if "mem_map s (MAP_NR q) = 0"
    proof -
      have "refs (ram s) ?t q = 0"
        using acctD(11) [OF assms(1) q] that users_refs [OF acctD(2) [OF assms(1)], of ?t D "ram s" q H] t(1) by simp
      then show ?thesis using refs_cong [of "ram s1" ?t "ram s"] s1T t(1) by simp
    qed
    moreover have "mem_map s1 (MAP_NR q) = (if q = p then 1 else mem_map s (MAP_NR q))"
      using MAP_NR_inj [of q p] q got(3,5) by (auto simp: frame_def)
    moreover have "mem_map s2 (MAP_NR q) = 0 \<longleftrightarrow> unat (mem_map s1 (MAP_NR q)) + refs (ram s1) ?t q = 0"
      using s2(5) q fr1 word_unat_eq_iff [of "mem_map s2 (MAP_NR q)" 0] by simp
    ultimately show ?thesis using got(6) by (auto simp: word_unat_eq_iff)
  qed
  have "free_pages s' = {q. frame s2 q \<and> mem_map s2 (MAP_NR q) = 0}" unfolding s'2 by (auto simp: free_pages_def frame_def)
  also have "\<dots> = {q. frame s q \<and> mem_map s (MAP_NR q) = 0} - {p}" using m2 f2 by auto
  also have "\<dots> = free_pages s - {p}" by (auto simp: free_pages_def frame_def)
  finally show "free_pages s' = free_pages s - {p}" .
qed

lemma softened_refl: "softened R s s"
  by (simp add: softened_def)

text \<open>What copying the tables of \<open>d\<close> from entry \<open>k\<close> on into \<open>d'\<close> has done so far.\<close>

definition copying :: "u32 \<Rightarrow> u32 \<Rightarrow> nat \<Rightarrow> vmm \<Rightarrow> vmm \<Rightarrow> bool" where
  "copying d d' k s s' \<longleftrightarrow> grown (insert d' (rest s d k)) s s' \<and> softened (rest s d k) s s' \<and>
     (\<forall>i<1024. i < k \<longrightarrow> ram s' (slot d' i) = ram s (slot d' i))"

lemma copying_refl: "copying d d' k s s"
  by (simp add: copying_def softened_refl)

lemma dir_copied_0: "dir_copied s s' T' 0 0"
  by (simp add: dir_copied_def)

text \<open>The later entries do not disturb what was copied before.\<close>

lemma copying_Suc:
  assumes "acct D H T ext s" "d \<in> set D" "d' \<in> set D" "d \<noteq> d'" "k < 1024" "ram s (slot d k) = e"
    and step: "if e = 0 \<or> reserved s e then grown {d'} s s1 else grown {page_of e, d'} s s1 \<and> softened {page_of e} s s1"
      "\<forall>i<1024. i \<noteq> k \<longrightarrow> ram s1 (slot d' i) = ram s (slot d' i)"
      "acct D H T1 ext s1" "T \<subseteq> T1" "dir_copied s s1 T1 e (ram s1 (slot d' k))"
      "e = 0 \<or> reserved s e \<or> page_of (ram s1 (slot d' k)) \<notin> T"
    and later: "copying d d' (Suc k) s1 s'" "acct D H T' ext s'" "T1 \<subseteq> T'"
  shows "copying d d' k s s'" "dir_copied s s' T' e (ram s' (slot d' k))" "rest s1 d (Suc k) = rest s d (Suc k)"
    "\<And>i e'. Suc k \<le> i \<Longrightarrow> i < 1024 \<Longrightarrow> dir_copied s1 s' T' (ram s1 (slot d i)) e' \<Longrightarrow> dir_copied s s' T' (ram s (slot d i)) e'"
proof -
  define W where "W = (if e = 0 \<or> reserved s e then {d'} else {page_of e, d'})"
  let ?R = "rest s d (Suc k)"
  have g1: "grown W s s1" using step(1) by (auto simp: W_def split: if_splits)
  have t: "page_of e \<in> T" "page_of e \<notin> ?R" if "e \<noteq> 0" "\<not> reserved s e"
    using that acctD(9) [OF assms(1,2,5)] dir_entry_unique [OF assms(1,2,5), of "Suc k"] assms(6) by (auto simp: dir_ok_def)
  have RT: "?R \<subseteq> T" by (rule rest_tables [OF assms(1,2)])
  have dT: "d \<notin> T1" "d' \<notin> T1" using acctD(3) [OF step(3)] assms(2,3) by blast+
  have dW: "d \<notin> W" using t dT step(4) assms(4) by (auto simp: W_def)
  have RW: "f \<notin> W" if "f \<in> ?R" for f using that t(2) RT dT step(4) by (auto simp: W_def)
  have sd: "ram s1 (slot d i) = ram s (slot d i)" if "i < 1024" for i
    using grown_slot [OF g1 assms(1) _ dW that] assms(2) by simp
  have res: "reserved s1 q = reserved s q" for q using g1 by (simp add: grown_def)
  show R1: "rest s1 d (Suc k) = ?R" unfolding rest_def using sd res by (auto; metis)
  have g2: "grown (insert d' ?R) s1 s'" and so: "softened ?R s1 s'" using later(1) by (simp_all add: copying_def R1)
  have Rk: "rest s d k = (if e = 0 \<or> reserved s e then ?R else insert (page_of e) ?R)"
    using rest_Suc [OF assms(5), of s d] assms(6) by simp
  have sR: "ram s1 (slot f j) = ram s (slot f j)" if "f \<in> ?R" "j < 1024" for f j
    using grown_slot [OF g1 assms(1) _ RW [OF that(1)] that(2)] that(1) RT by blast
  have st: "ram s' (slot f j) = ram s1 (slot f j)" if "f \<in> T1" "f \<notin> ?R" "j < 1024" for f j
    using grown_slot [OF g2 step(3) _ _ that(3), of f] that dT by auto
  have dk: "ram s' (slot d' i) = ram s1 (slot d' i)" if "i \<le> k" for i
    using later(1) that assms(5) by (simp add: copying_def)
  have "grown (insert d' (rest s d k)) s s'"
  proof -
    have "grown (insert d' (rest s d k)) s s1" by (rule grown_mono [OF g1]) (auto simp: W_def Rk)
    moreover have "grown (insert d' (rest s d k)) s1 s'" by (rule grown_mono [OF g2]) (auto simp: Rk)
    ultimately show ?thesis by (rule grown_trans)
  qed
  moreover have "softened (rest s d k) s s'"
  proof -
    have "softened ?R s s'" using so sR by (simp add: softened_def)
    moreover have "softened {page_of e} s s'" if "e \<noteq> 0" "\<not> reserved s e"
      using step(1) that st [of "page_of e"] t [OF that] subsetD [OF step(4)] by (simp add: softened_def)
    ultimately show ?thesis by (auto simp: Rk softened_def)
  qed
  moreover have "ram s' (slot d' i) = ram s (slot d' i)" if "i < k" for i
    using dk [of i] step(2) that assms(5) by simp
  ultimately show "copying d d' k s s'" by (simp add: copying_def)
  show "dir_copied s s' T' e (ram s' (slot d' k))"
  proof (cases "e = 0 \<or> reserved s e")
    case True then show ?thesis using step(5) dk [of k] by (simp add: dir_copied_def)
  next
    case False
    let ?n = "page_of (ram s1 (slot d' k))"
    have n: "?n \<in> T1" "?n \<notin> ?R" using step(5,6) False RT by (auto simp: dir_copied_def)
    then show ?thesis
      using step(5) False dk [of k] st [OF n] st [of "page_of e"] t step(4) later(3) by (auto simp: dir_copied_def)
  qed
  show "dir_copied s s' T' (ram s (slot d i)) e'"
    if "Suc k \<le> i" "i < 1024" "dir_copied s1 s' T' (ram s1 (slot d i)) e'" for i e'
  proof (cases "ram s (slot d i) = 0 \<or> reserved s (ram s (slot d i))")
    case True then show ?thesis using that(3) sd [OF that(2)] res by (simp add: dir_copied_def)
  next
    case False
    then have "page_of (ram s (slot d i)) \<in> ?R" using that(1,2) by (auto simp: rest_def)
    then show ?thesis using that(3) sd [OF that(2)] res sR False by (simp add: dir_copied_def grown_entry_copied [OF g1])
  qed
qed

definition copy_result :: "sleeper \<Rightarrow> nat \<Rightarrow> tptr \<Rightarrow> u32 \<Rightarrow> u32 \<Rightarrow> nat \<Rightarrow> vmm \<Rightarrow> u32 set \<Rightarrow> vmm \<Rightarrow> (int \<times> vmm) option \<Rightarrow> bool" where
  "copy_result env fuel tsk d d' k s T1 s1 r \<longleftrightarrow>
     r = Some (0, s1) \<and> (\<forall>i<1024. k \<le> i \<longrightarrow> dir_copied s s1 T1 (ram s (slot d i)) (ram s1 (slot d' i))) \<or>
     r = map_option (\<lambda>s. (- ENOMEM, s)) (free_page_tables env fuel (Some tsk) s1) \<and>
       card (free_pages s) < card (rest s d k)"

lemma rest_card_Suc:
  assumes "acct D H T ext s" "d \<in> set D" "k < 1024" "ram s (slot d k) = e"
  shows "card (rest s d k) = card (rest s d (Suc k)) + of_bool (e \<noteq> 0 \<and> \<not> reserved s e)"
proof -
  have "finite (rest s d (Suc k))" using rest_tables [OF assms(1,2)] acctD(2) [OF assms(1)] finite_subset by blast
  then show ?thesis
    using dir_entry_unique [OF assms(1-3), of "Suc k"] assms(4) unfolding rest_Suc [OF assms(3), of s d] by auto
qed

text \<open>One entry of the old directory: the loop ends without memory, or goes on after a step.\<close>

lemma copy_tables_step:
  assumes "acct D H T ext s" "d \<in> set D" "d' \<in> set D" "d \<noteq> d'" "k < 1024" "ram s (slot d k) = e"
    "\<forall>i<1024. k \<le> i \<longrightarrow> ram s (slot d' i) = 0" "room s (rest s d k)"
  shows "copy_result env (Suc n) tsk d d' k s T s (copy_tables no_reclaim env (Suc n) tsk (Suc m) (slot d k) (slot d' k) s) \<or>
    (\<exists>s1 T1. copy_tables no_reclaim env (Suc n) tsk (Suc m) (slot d k) (slot d' k) s =
              copy_tables no_reclaim env (Suc n) tsk m (slot d (Suc k)) (slot d' (Suc k)) s1 \<and>
       (if e = 0 \<or> reserved s e then grown {d'} s s1 else grown {page_of e, d'} s s1 \<and> softened {page_of e} s s1) \<and>
       (\<forall>i<1024. i \<noteq> k \<longrightarrow> ram s1 (slot d' i) = ram s (slot d' i)) \<and> acct D H T1 ext s1 \<and> T \<subseteq> T1 \<and>
       dir_copied s s1 T1 e (ram s1 (slot d' k)) \<and> (e = 0 \<or> reserved s e \<or> page_of (ram s1 (slot d' k)) \<notin> T) \<and>
       room s1 (rest s d (Suc k)) \<and> card (free_pages s) = card (free_pages s1) + of_bool (e \<noteq> 0 \<and> \<not> reserved s e))"
proof -
  have d': "page_aligned d'" using acct_aligned [OF assms(1)] assms(3) by blast
  have z: "ram s (slot d' k) = 0" using assms(5,7) by simp
  have ok: "dir_ok s T e" using acctD(9) [OF assms(1,2,5)] assms(6) by simp
  let ?c = "copy_tables no_reclaim env (Suc n) tsk (Suc m) (slot d k) (slot d' k) s"
  show ?thesis
  proof (cases "e = 0 \<or> reserved s e")
    case True
    let ?s = "store (slot d' k) e s"
    have nn: "\<not> names e q" if "frame s q" for q using that True by (auto simp: names_def frame_def MAP_NR_page_of)
    have a: "acct D H T ext ?s" using nn z acctD(4) [OF assms(1)] by (intro acct_dir_store [OF assms(1,3,5) ok]) auto
    have c: "?c = copy_tables no_reclaim env (Suc n) tsk m (slot d (Suc k)) (slot d' (Suc k)) ?s"
      using True ok assms(6) z by (auto simp: Let_def slot_Suc dir_ok_def fun_upd_idem)
    have g: "grown {d'} s ?s" using page_of_slot [OF d' assms(5)] by (intro grown_store) simp
    have o: "\<forall>i<1024. i \<noteq> k \<longrightarrow> ram ?s (slot d' i) = ram s (slot d' i)" using slot_inj [OF d' d' _ assms(5)] by simp
    have R: "rest s d k = rest s d (Suc k)" using True rest_Suc [OF assms(5), of s d] assms(6) by simp
    have "refs (ram ?s) t q = refs (ram s) t q" if "t \<in> rest s d (Suc k)" for t q
      using that rest_tables [OF assms(1,2), of "Suc k"] acctD(3) [OF assms(1)] assms(3) grown_slot [OF g assms(1), of t]
      by (intro refs_cong) blast
    then have "room ?s (rest s d (Suc k))" using assms(8) unfolding room_def R by (simp add: frame_def)
    moreover have "dir_copied s ?s T e (ram ?s (slot d' k))" using True by (simp add: dir_copied_def)
    moreover have "if e = 0 \<or> reserved s e then grown {d'} s ?s else grown {page_of e, d'} s ?s \<and> softened {page_of e} s ?s"
      using True g by simp
    moreover have "card (free_pages s) = card (free_pages ?s) + of_bool (e \<noteq> 0 \<and> \<not> reserved s e)" using True by auto
    ultimately show ?thesis using c o a True by (intro disjI2 exI [of _ ?s] exI [of _ T]) blast
  next
    case False
    then have e: "e \<noteq> 0" "\<not> reserved s e" "present e" "e < high_memory s" using ok by (auto simp: dir_ok_def)
    then have nh: "\<not> high_memory s \<le> e" by simp
    consider "get_free_page no_reclaim (Suc n) GFP_KERNEL s = Some (0, s)" "free_pages s = {}"
      | p s1 where "get_free_page no_reclaim (Suc n) GFP_KERNEL s = Some (p, s1)" "p \<noteq> 0" "acct D H T (ext(p := 1)) s1" "ext p = 0"
       "frame s p" "p \<notin> set D \<union> T" "mem_map s1 = (mem_map s)(MAP_NR p := 1)" "mem_map s (MAP_NR p) = 0"
       "\<forall>i<1024. ram s1 (slot p i) = 0" "grown {} s s1"
      using get_zeroed [OF assms(1), of n] by blast
    then show ?thesis
    proof cases
      case 1
      then have "?c = map_option (\<lambda>s. (- ENOMEM, s)) (free_page_tables env (Suc n) (Some tsk) s)"
        using e(1-3) nh assms(6) by (cases "free_page_tables env (Suc n) (Some tsk) s") (simp_all add: Let_def)
      moreover have "card (free_pages s) < card (rest s d k)" using rest_card_Suc [OF assms(1,2,5,6)] e(1,2) 1(2) by simp
      ultimately show ?thesis unfolding copy_result_def by blast
    next
      case (2 p s1)
      let ?s = "store (slot d' k) (p OR PAGE_TABLE) (copy_entries 1024 (page_of e) p s1)"
      note C = copy_one_table [OF assms(1-6) e(1,2) z assms(8) 2(3-10) refl]
      have "page_aligned p" using 2(5) by (simp add: frame_def)
      then have m: "PAGE_MASK AND p = p" "PAGE_MASK AND e = page_of e" using page_of_id by (simp_all add: page_of_def and.commute)
      have "?c = copy_tables no_reclaim env (Suc n) tsk m (slot d (Suc k)) (slot d' (Suc k)) ?s"
        using e(1-3) nh 2(1,2) assms(6) m by (simp add: Let_def slot_Suc)
      moreover have "page_of (ram ?s (slot d' k)) \<notin> T"
        using 2(6) page_of_table_entry(1) [of p] \<open>page_aligned p\<close> by (simp add: C(5))
      moreover have "dir_copied s ?s (insert p T) e (ram ?s (slot d' k))" using C(5,6) by simp
      moreover have "if e = 0 \<or> reserved s e then grown {d'} s ?s else grown {page_of e, d'} s ?s \<and> softened {page_of e} s ?s"
        using e(1,2) C(2,3) by simp
      moreover have "card (free_pages s) = card (free_pages ?s) + of_bool (e \<noteq> 0 \<and> \<not> reserved s e)"
        unfolding C(8) using e(1,2) card_Suc_Diff1 [of "free_pages s" p] 2(5,8) by (simp add: free_pages_def frame_def)
      ultimately show ?thesis
        using C(1,4,7) by (intro disjI2 exI [of _ ?s] exI [of _ "insert p T"]) blast
    qed
  qed
qed

lemma copy_tables_ok:
  assumes "acct D H T ext s" "d \<in> set D" "d' \<in> set D" "d \<noteq> d'" "k + m = 1024" "\<forall>i<1024. k \<le> i \<longrightarrow> ram s (slot d' i) = 0"
    "room s (rest s d k)"
  shows "\<exists>s1 T1. acct D H T1 ext s1 \<and> T \<subseteq> T1 \<and> copying d d' k s s1 \<and>
    copy_result env (Suc n) tsk d d' k s T1 s1 (copy_tables no_reclaim env (Suc n) tsk m (slot d k) (slot d' k) s)"
  using assms(1,5-7)
proof (induction m arbitrary: k s T)
  case 0
  then have "k = 1024" by simp
  then show ?case using "0.prems"(1) copying_refl by (intro exI [of _ s] exI [of _ T]) (simp add: copy_result_def)
next
  case (Suc m)
  have k: "k < 1024" using Suc.prems(2) by simp
  let ?e = "ram s (slot d k)"
  let ?c = "copy_tables no_reclaim env (Suc n) tsk (Suc m) (slot d k) (slot d' k) s"
  consider "copy_result env (Suc n) tsk d d' k s T s ?c"
    | s1 T1 where "?c = copy_tables no_reclaim env (Suc n) tsk m (slot d (Suc k)) (slot d' (Suc k)) s1"
       "if ?e = 0 \<or> reserved s ?e then grown {d'} s s1 else grown {page_of ?e, d'} s s1 \<and> softened {page_of ?e} s s1"
       "\<forall>i<1024. i \<noteq> k \<longrightarrow> ram s1 (slot d' i) = ram s (slot d' i)" "acct D H T1 ext s1" "T \<subseteq> T1"
       "dir_copied s s1 T1 ?e (ram s1 (slot d' k))" "?e = 0 \<or> reserved s ?e \<or> page_of (ram s1 (slot d' k)) \<notin> T"
       "room s1 (rest s d (Suc k))" "card (free_pages s) = card (free_pages s1) + of_bool (?e \<noteq> 0 \<and> \<not> reserved s ?e)"
    using copy_tables_step [OF Suc.prems(1) assms(2-4) k refl Suc.prems(3,4), of env n tsk m] by blast
  then show ?case
  proof cases
    case 1 then show ?thesis using Suc.prems(1) copying_refl by blast
  next
    case (2 s1 T1)
    note C = copying_Suc [OF Suc.prems(1) assms(2-4) k refl 2(2-7)]
    have R: "rest s1 d (Suc k) = rest s d (Suc k)" using C(3) [OF copying_refl 2(4)] by simp
    have z: "\<forall>i<1024. Suc k \<le> i \<longrightarrow> ram s1 (slot d' i) = 0" using 2(3) Suc.prems(3) by simp
    have km: "Suc k + m = 1024" using Suc.prems(2) by simp
    obtain s2 T2 where s2: "acct D H T2 ext s2" "T1 \<subseteq> T2" "copying d d' (Suc k) s1 s2"
        "copy_result env (Suc n) tsk d d' (Suc k) s1 T2 s2 ?c"
      using Suc.IH [OF 2(4) km z] 2(8) R unfolding 2(1) by auto
    note C2 = C [OF s2(3,1,2)]
    have "dir_copied s s2 T2 (ram s (slot d i)) (ram s2 (slot d' i))"
      if "\<forall>i<1024. Suc k \<le> i \<longrightarrow> dir_copied s1 s2 T2 (ram s1 (slot d i)) (ram s2 (slot d' i))" "i < 1024" "k \<le> i" for i
      using that C2(2,4) by (cases "i = k") auto
    moreover have "card (free_pages s) < card (rest s d k)" if "card (free_pages s1) < card (rest s1 d (Suc k))"
      using that 2(9) rest_card_Suc [OF Suc.prems(1) assms(2) k refl] R by simp
    ultimately have "copy_result env (Suc n) tsk d d' k s T2 s2 ?c" using s2(4) unfolding copy_result_def by blast
    then show ?thesis using s2(1,2) 2(5) C2(1) by blast
  qed
qed

end
