(* ===== verification/Pgspace.thy ===== *)
theory Pgspace
  imports Pgcopy
begin

text \<open>
  Address spaces: what a task finds at an address through its directory. \<open>copy_page_tables\<close> gives the new task the
  memory of the old one and leaves all others alone, also when memory runs out half way.
\<close>

section \<open>Address spaces\<close>

text \<open>What a task with directory \<open>d\<close> finds in long \<open>k\<close> of its page \<open>j\<close> under entry \<open>i\<close> of the directory; tables that
  belong to the kernel do not count.\<close>

definition rd :: "vmm \<Rightarrow> u32 \<Rightarrow> nat \<Rightarrow> nat \<Rightarrow> nat \<Rightarrow> u32 option" where
  "rd s d i j k =
     (let e = ram s (slot d i)
      in if present e \<and> \<not> reserved s e then
           let g = ram s (slot (page_of e) j) in if present g then Some (ram s (slot (page_of g) k)) else None
         else None)"

text \<open>A page that a table names is in use and no directory or table.\<close>

lemma named_page:
  assumes "acct D H T ext s" "t \<in> T" "j < 1024" "present (ram s (slot t j))" "k < 1024"
  defines "a \<equiv> slot (page_of (ram s (slot t j))) k"
  shows "mem_map s (MAP_NR a) \<noteq> 0" "page_of a \<notin> set D \<union> T"
proof -
  let ?p = "page_of (ram s (slot t j))"
  have a: "page_of a = ?p" unfolding a_def by (rule page_of_slot [OF page_of_aligned assms(5)])
  then have m: "MAP_NR a = MAP_NR ?p" using MAP_NR_page_of by metis
  have hi: "?p < high_memory s"
    using acctD(10) [OF assms(1-3)] assms(4) page_of_less_iff [OF acct_high [OF assms(1)]] by (simp add: pte_ok_def)
  have "mem_map s (MAP_NR a) \<noteq> 0 \<and> page_of a \<notin> set D \<union> T"
  proof (cases "frame s ?p")
    case True
    have n: "names (ram s (slot t j)) ?p" using assms(4) by (simp add: names_def)
    have "0 < refs (ram s) t ?p" using names_refs [where m = "ram s" and f = t, OF assms(3) n] .
    also have "\<dots> \<le> users (ram s) D H T ?p" using users_refs [OF acctD(2) [OF assms(1)]] assms(2) by blast
    finally have "unat (mem_map s (MAP_NR ?p)) \<noteq> 0" using acctD(11) [OF assms(1) True] by simp
    then have "mem_map s (MAP_NR ?p) \<noteq> 0" by (metis unat_0)
    then show ?thesis using named_not_node [OF assms(1-3) n True] a m by simp
  next
    case False
    then have r: "reserved s ?p" using hi by (simp add: frame_def)
    then have "?p \<notin> set D \<union> T" using acctD(5) [OF assms(1)] by (auto simp: frame_def)
    moreover have "mem_map s (MAP_NR ?p) \<noteq> 0" using r by auto
    ultimately show ?thesis using a m by simp
  qed
  then show "mem_map s (MAP_NR a) \<noteq> 0" "page_of a \<notin> set D \<union> T" by auto
qed

text \<open>A step that keeps a directory and what its tables name.\<close>

lemma rd_cong:
  assumes "acct D H T ext s" "x \<in> set D" "\<forall>p. reserved s' p = reserved s p"
    "\<forall>i<1024. ram s' (slot x i) = ram s (slot x i)" "i < 1024" "j < 1024" "k < 1024"
    and entry: "\<And>t. t \<in> T \<Longrightarrow> names (ram s (slot x i)) t \<Longrightarrow>
      present (ram s' (slot t j)) = present (ram s (slot t j)) \<and>
      (present (ram s (slot t j)) \<longrightarrow> ram s' (slot (page_of (ram s' (slot t j))) k) = ram s (slot (page_of (ram s (slot t j))) k))"
  shows "rd s' x i j k = rd s x i j k"
proof -
  let ?e = "ram s (slot x i)" and ?t = "page_of (ram s (slot x i))"
  have e: "ram s' (slot x i) = ?e" using assms(4,5) by blast
  show ?thesis
  proof (cases "present ?e \<and> \<not> reserved s ?e")
    case True
    then have "?t \<in> T" "names ?e ?t" using acctD(9) [OF assms(1,2,5)] by (auto simp: dir_ok_def names_def)
    then show ?thesis using True entry [of ?t] assms(3) by (simp add: rd_def e Let_def)
  qed (use assms(3) in \<open>auto simp: rd_def e Let_def\<close>)
qed

text \<open>A step that keeps the directories and, but for write permissions, the tables and the pages in use.\<close>

lemma rd_same:
  assumes "acct D H T ext s" "x \<in> set D" "\<forall>p. reserved s' p = reserved s p"
    "\<forall>i<1024. ram s' (slot x i) = ram s (slot x i)"
    "\<forall>t\<in>T. \<forall>j<1024. ram s' (slot t j) \<in> {ram s (slot t j), protect (ram s (slot t j))}"
    "\<forall>a. mem_map s (MAP_NR a) \<noteq> 0 \<and> page_of a \<notin> set D \<union> T \<longrightarrow> ram s' a = ram s a"
    "i < 1024" "j < 1024" "k < 1024"
  shows "rd s' x i j k = rd s x i j k"
proof (rule rd_cong [OF assms(1-4,7-9)])
  fix t assume t: "t \<in> T"
  let ?g = "ram s (slot t j)"
  have "ram s' (slot t j) \<in> {?g, protect ?g}" using assms(5,8) t by blast
  then have "present (ram s' (slot t j)) = present ?g" "page_of (ram s' (slot t j)) = page_of ?g" by (auto simp: protect_bits)
  moreover have "ram s' (slot (page_of ?g) k) = ram s (slot (page_of ?g) k)" if "present ?g"
    using assms(6) named_page [OF assms(1) t assms(8) that assms(9)] by blast
  ultimately show "present (ram s' (slot t j)) = present ?g \<and>
      (present ?g \<longrightarrow> ram s' (slot (page_of (ram s' (slot t j))) k) = ram s (slot (page_of ?g) k))" by simp
qed

lemma rd_grown:
  assumes "acct D H T ext s" "x \<in> set D" "grown W s s'" "x \<notin> W" "W \<subseteq> set D \<union> T" "softened (T \<inter> W) s s'"
    "i < 1024" "j < 1024" "k < 1024"
  shows "rd s' x i j k = rd s x i j k"
proof (rule rd_same [OF assms(1,2) _ _ _ _ assms(7-9)])
  show "\<forall>p. reserved s' p = reserved s p" using assms(3) by (simp add: grown_def)
  show "\<forall>i<1024. ram s' (slot x i) = ram s (slot x i)" using grown_slot [OF assms(3,1) _ assms(4)] assms(2) by blast
  show "\<forall>t\<in>T. \<forall>j<1024. ram s' (slot t j) \<in> {ram s (slot t j), protect (ram s (slot t j))}"
  proof (intro ballI allI impI)
    fix t j assume "t \<in> T" "j < (1024 :: nat)"
    then show "ram s' (slot t j) \<in> {ram s (slot t j), protect (ram s (slot t j))}"
      using assms(6) grown_slot [OF assms(3,1), of t j] by (cases "t \<in> W") (auto simp: softened_def)
  qed
  show "\<forall>a. mem_map s (MAP_NR a) \<noteq> 0 \<and> page_of a \<notin> set D \<union> T \<longrightarrow> ram s' a = ram s a"
    using assms(3,5) by (auto simp: grown_def)
qed

lemma rd_released:
  assumes "acct D H T ext s'" "x \<in> set D" "released {} s s'" "i < 1024" "j < 1024" "k < 1024"
  shows "rd s' x i j k = rd s x i j k"
proof (rule rd_same [OF assms(1,2) _ _ _ _ assms(4-6), symmetric])
  show "\<forall>p. reserved s p = reserved s' p" using assms(3) by (simp add: released_def)
  show "\<forall>i<1024. ram s (slot x i) = ram s' (slot x i)" using released_slot [OF assms(3,1)] assms(2) by simp
  show "\<forall>t\<in>T. \<forall>j<1024. ram s (slot t j) \<in> {ram s' (slot t j), protect (ram s' (slot t j))}"
    using released_slot [OF assms(3,1)] by simp
  show "\<forall>a. mem_map s' (MAP_NR a) \<noteq> 0 \<and> page_of a \<notin> set D \<union> T \<longrightarrow> ram s a = ram s' a"
    using assms(3) by (auto simp: released_def)
qed

lemma rd_cr3 [simp]: "rd (s\<lparr>cr3 := c\<rparr>) = rd s"
  by (simp add: rd_def fun_eq_iff Let_def)

text \<open>The copy of a directory gives the same memory.\<close>

lemma rd_copied:
  assumes "acct D H T ext s" "d \<in> set D" "copying d d' 0 s s'" "d' \<in> set D"
    "dir_copied s s' T' (ram s (slot d i)) (ram s' (slot d' i))" "i < 1024" "j < 1024" "k < 1024"
  shows "rd s' d' i j k = rd s d i j k"
proof -
  let ?e = "ram s (slot d i)" and ?e' = "ram s' (slot d' i)"
  have g: "grown (insert d' (rest s d 0)) s s'" using assms(3) by (simp add: copying_def)
  have W: "insert d' (rest s d 0) \<subseteq> set D \<union> T" using rest_tables [OF assms(1,2)] assms(4) by blast
  have res: "reserved s' q = reserved s q" for q using g by (simp add: grown_def)
  show ?thesis
  proof (cases "?e = 0 \<or> reserved s ?e")
    case True then show ?thesis using assms(5) res by (auto simp: rd_def dir_copied_def Let_def)
  next
    case False
    let ?t = "page_of ?e" and ?g = "ram s (slot (page_of ?e) j)" and ?g' = "ram s' (slot (page_of ?e') j)"
    have e: "present ?e'" "\<not> reserved s' ?e'" "entry_copied s ?g (ram s' (slot ?t j)) ?g'"
      using assms(5,7) False res by (auto simp: dir_copied_def)
    have t: "?t \<in> T" "present ?e" using acctD(9) [OF assms(1,2,6)] False by (auto simp: dir_ok_def)
    have g': "present ?g' = present ?g" "present ?g \<Longrightarrow> page_of ?g' = page_of ?g"
      using e(3) by (auto simp: entry_copied_def protect_bits split: if_splits)
    have "ram s' (slot (page_of ?g) k) = ram s (slot (page_of ?g) k)" if "present ?g"
      using g W named_page [OF assms(1) t(1) assms(7) that assms(8)] unfolding grown_def by blast
    then show ?thesis using False e(1,2) t(2) g' by (simp add: rd_def Let_def)
  qed
qed

lemma room_half:
  assumes "acct D H T ext s" "d \<in> set D" "\<forall>p. frame s p \<longrightarrow> unat (mem_map s (MAP_NR p)) < 16384"
  shows "room s (rest s d k)"
  unfolding room_def
proof (intro allI impI)
  fix p assume p: "frame s p"
  have "(\<Sum>t\<in>rest s d k. refs (ram s) t p) \<le> (\<Sum>t\<in>set D \<union> T. refs (ram s) t p)"
    using rest_tables [OF assms(1,2), of k] acctD(2) [OF assms(1)] by (intro sum_mono2) auto
  also have "\<dots> \<le> unat (mem_map s (MAP_NR p))" using acctD(11) [OF assms(1) p] by (simp add: users_def)
  finally show "unat (mem_map s (MAP_NR p)) + (\<Sum>t\<in>rest s d k. refs (ram s) t p) \<le> 32767" using assms(3) p by fastforce
qed

text \<open>The memory of all directories in \<open>D\<close> is as before.\<close>

definition same_spaces :: "u32 list \<Rightarrow> vmm \<Rightarrow> vmm \<Rightarrow> bool" where
  "same_spaces D s s' \<longleftrightarrow> (\<forall>x\<in>set D. \<forall>i<1024. \<forall>j<1024. \<forall>k<1024. rd s' x i j k = rd s x i j k)"

lemma same_spaces_trans: "same_spaces D s t \<Longrightarrow> same_spaces D t u \<Longrightarrow> same_spaces D s u"
  by (simp add: same_spaces_def)

lemma copying_spaces:
  assumes "acct D H T ext s" "d \<in> set D" "d' \<in> set D" "copying d d' 0 s s'"
  shows "same_spaces (removeAll d' D) s s'"
proof -
  let ?W = "insert d' (rest s d 0)"
  have g: "grown ?W s s'" and so: "softened (rest s d 0) s s'" using assms(4) by (simp_all add: copying_def)
  have R: "rest s d 0 \<subseteq> T" by (rule rest_tables [OF assms(1,2)])
  then have i: "T \<inter> ?W = rest s d 0" "?W \<subseteq> set D \<union> T" using acctD(3) [OF assms(1)] assms(3) by auto
  show ?thesis unfolding same_spaces_def
  proof (intro ballI allI impI)
    fix x i j k assume x: "x \<in> set (removeAll d' D)" and b: "i < (1024 :: nat)" "j < (1024 :: nat)" "k < (1024 :: nat)"
    then have "x \<in> set D" "x \<notin> ?W" using R acctD(3) [OF assms(1)] by auto
    then show "rd s' x i j k = rd s x i j k" using rd_grown [OF assms(1) _ g _ i(2) _ b] so i(1) by simp
  qed
qed

text \<open>What all operations keep: the pages of the kernel itself, and everything but page counts and page contents.\<close>

definition kept :: "vmm \<Rightarrow> vmm \<Rightarrow> bool" where
  "kept s s' \<longleftrightarrow> same_frame (s\<lparr>cr3 := cr3 s'\<rparr>) s' \<and> (\<forall>p. reserved s' p = reserved s p) \<and>
     (\<forall>a. reserved s a \<longrightarrow> ram s' a = ram s a)"

lemma kept_trans: "kept s t \<Longrightarrow> kept t u \<Longrightarrow> kept s u"
  by (auto simp: kept_def same_frame_def swap_idle_def)

lemma kept_cr3: "kept s (s\<lparr>cr3 := c\<rparr>)"
  by (simp add: kept_def)

lemma same_frame_cr3: "same_frame s s' \<Longrightarrow> same_frame (s\<lparr>cr3 := cr3 s'\<rparr>) s'"
  by (simp add: same_frame_def swap_idle_def)

lemma grown_kept:
  assumes "grown W s s'" "\<forall>p\<in>W. \<not> reserved s p"
  shows "kept s s'"
proof -
  have "page_of a \<notin> W" "mem_map s (MAP_NR a) \<noteq> 0" if "reserved s a" for a
    using assms(2) that MAP_NR_page_of [of a] by auto
  then show ?thesis using assms(1) same_frame_cr3 by (auto simp: kept_def grown_def)
qed

lemma released_kept:
  assumes "released {} s s'"
  shows "kept s s'"
proof -
  have "mem_map s' (MAP_NR a) \<noteq> 0" if "reserved s a" for a
    using that assms unfolding released_def by (metis and_zero_eq zero_and_eq)
  then show ?thesis using assms same_frame_cr3 by (auto simp: kept_def released_def)
qed

lemma copying_kept:
  assumes "acct D H T ext s" "d \<in> set D" "d' \<in> set D" "copying d d' 0 s s'"
  shows "kept s s'"
proof (rule grown_kept)
  show "grown (insert d' (rest s d 0)) s s'" using assms(4) by (simp add: copying_def)
  show "\<forall>p\<in>insert d' (rest s d 0). \<not> reserved s p"
    using acctD(5) [OF assms(1)] rest_tables [OF assms(1,2), of 0] assms(3) by (auto simp: frame_def)
qed

lemma copying_cr3: "copying d d' k s s' \<Longrightarrow> cr3 s' = cr3 s"
  by (simp add: copying_def grown_def same_frame_def)

text \<open>A new, empty directory.\<close>

lemma new_dir:
  assumes "acct D H T ext s" "acct D H T (ext(p := 1)) s1" "ext p = 0" "frame s p" "p \<notin> set D \<union> T"
    "mem_map s1 = (mem_map s)(MAP_NR p := 1)" "\<forall>i<1024. ram s1 (slot p i) = 0" "grown {} s s1"
  shows "acct (p # D) H T ext s1" "same_spaces D s s1" "kept s s1" "p \<notin> set D"
    "\<forall>q. frame s q \<longrightarrow> unat (mem_map s (MAP_NR q)) < 16384 \<Longrightarrow> \<forall>q. frame s1 q \<longrightarrow> unat (mem_map s1 (MAP_NR q)) < 16384"
proof -
  have f: "frame s1 = frame s" by (rule grown_frame [OF assms(8)])
  show "acct (p # D) H T ext s1" using acct_dir_new [OF assms(2), of p] assms(3,4,6,7) f by (simp add: fun_upd_idem)
  show "same_spaces D s s1" unfolding same_spaces_def
    using rd_grown [OF assms(1) _ assms(8)] by (simp add: softened_def)
  show "kept s s1" by (rule grown_kept [OF assms(8)]) simp
  show "p \<notin> set D" using assms(5) by simp
  show "\<forall>q. frame s1 q \<longrightarrow> unat (mem_map s1 (MAP_NR q)) < 16384" if "\<forall>q. frame s q \<longrightarrow> unat (mem_map s (MAP_NR q)) < 16384"
    using that by (auto simp: f assms(6))
qed

lemma copy_page_tables_ok:
  assumes "acct D [] T ext s" "cr3 s (current (kern s)) = d" "d \<in> set D" "swap_idle s" "task (kern s) ! 0 \<noteq> Some tsk"
    "reserved s (swapper_pg_dir s)" "\<forall>p. frame s p \<longrightarrow> unat (mem_map s (MAP_NR p)) < 16384"
  shows "(\<exists>s' T' d'. copy_page_tables no_reclaim env (Suc n) tsk s = Some (0, s') \<and> acct (d' # D) [] T' ext s' \<and>
            cr3 s' = (cr3 s)(tsk := d') \<and> d' \<notin> set D \<and> kept s s' \<and> same_spaces D s s' \<and>
            (\<forall>i<1024. \<forall>j<1024. \<forall>k<1024. rd s' d' i j k = rd s d i j k)) \<or>
         (\<exists>s' T'. copy_page_tables no_reclaim env (Suc n) tsk s = Some (- ENOMEM, s') \<and> acct D [] T' ext s' \<and>
            (cr3 s' = cr3 s \<or> cr3 s' = (cr3 s)(tsk := swapper_pg_dir s)) \<and> kept s s' \<and> same_spaces D s s' \<and>
            card (free_pages s) \<le> card (rest s d 0))"
proof -
  consider "get_free_page no_reclaim (Suc n) GFP_KERNEL s = Some (0, s)" "free_pages s = {}"
    | d' s1 where "get_free_page no_reclaim (Suc n) GFP_KERNEL s = Some (d', s1)" "d' \<noteq> 0" "acct D [] T (ext(d' := 1)) s1" "ext d' = 0"
       "frame s d'" "d' \<notin> set D \<union> T" "mem_map s1 = (mem_map s)(MAP_NR d' := 1)" "mem_map s (MAP_NR d') = 0"
       "\<forall>i<1024. ram s1 (slot d' i) = 0" "grown {} s s1"
    using get_zeroed [OF assms(1), of n] by blast
  then show ?thesis
  proof cases
    case 1
    then have "copy_page_tables no_reclaim env (Suc n) tsk s = Some (- ENOMEM, s)" by (simp add: copy_page_tables_def)
    moreover have "kept s s" "same_spaces D s s" by (simp_all add: kept_def same_spaces_def)
    moreover have "card (free_pages s) \<le> card (rest s d 0)" using 1(2) by simp
    ultimately show ?thesis using assms(1) by blast
  next
    case (2 d' s1)
    note N = new_dir [OF assms(1) 2(3-7,9,10)]
    have fr: "cr3 s1 = cr3 s" "kern s1 = kern s \<or> True" "current (kern s1) = current (kern s)" "task (kern s1) = task (kern s)"
      "swapper_pg_dir s1 = swapper_pg_dir s" "swap_idle s1"
      using 2(10) assms(4) by (auto simp: grown_def same_frame_def)
    let ?s = "s1\<lparr>cr3 := (cr3 s1)(tsk := d')\<rparr>" and ?D = "d' # D"
    have a: "acct ?D [] T ext ?s" using N(1) by simp
    have dd: "d \<noteq> d'" "d \<in> set ?D" "d' \<in> set ?D" using N(4) assms(3) by auto
    have hf: "\<forall>p. frame ?s p \<longrightarrow> unat (mem_map ?s (MAP_NR p)) < 16384" using N(5) [OF assms(7)] by (simp add: frame_def)
    have z: "\<forall>i<1024. 0 \<le> i \<longrightarrow> ram ?s (slot d' i) = 0" using 2(9) by simp
    obtain s2 T2 where s2: "acct ?D [] T2 ext s2" "copying d d' 0 ?s s2"
        "copy_result env (Suc n) tsk d d' 0 ?s T2 s2 (copy_tables no_reclaim env (Suc n) tsk 1024 d d' ?s)"
      using copy_tables_ok [OF a dd(2,3,1), of 0 1024 env n tsk] z room_half [OF a dd(2) hf, of 0] by auto
    have c: "copy_page_tables no_reclaim env (Suc n) tsk s = copy_tables no_reclaim env (Suc n) tsk 1024 d d' ?s"
      using 2(1,2) fr(1,3) assms(2) by (simp add: copy_page_tables_def Let_def)
    have k2: "kept s s2"
      using N(3) kept_cr3 [of s1 "(cr3 s1)(tsk := d')"] copying_kept [OF a dd(2,3) s2(2)] by (meson kept_trans)
    have sp1: "same_spaces D s ?s" using N(2) by (simp add: same_spaces_def)
    have "removeAll d' ?D = D" using N(4) by simp
    then have sp2: "same_spaces D ?s s2" using copying_spaces [OF a dd(2,3) s2(2)] by simp
    have sp: "same_spaces D s s2" by (rule same_spaces_trans [OF sp1 sp2])
    have cr: "cr3 s2 = (cr3 s)(tsk := d')" using copying_cr3 [OF s2(2)] fr(1) by simp
    from s2(3) consider "copy_tables no_reclaim env (Suc n) tsk 1024 d d' ?s = Some (0, s2)"
        "\<forall>i<1024. dir_copied ?s s2 T2 (ram ?s (slot d i)) (ram s2 (slot d' i))"
      | "copy_tables no_reclaim env (Suc n) tsk 1024 d d' ?s = map_option (\<lambda>s. (- ENOMEM, s)) (free_page_tables env (Suc n) (Some tsk) s2)"
        "card (free_pages ?s) < card (rest ?s d 0)"
      unfolding copy_result_def by auto
    then show ?thesis
    proof cases
      case r: 1
      have "rd s2 d' i j k = rd s d i j k" if "i < 1024" "j < 1024" "k < 1024" for i j k
        using rd_copied [OF a dd(2) s2(2) dd(3), of T2 i j k] r(2) that sp1 assms(3) by (auto simp: same_spaces_def)
      then show ?thesis using c r(1) s2(1) cr N(4) k2 sp
        by (intro disjI1 exI [of _ s2] exI [of _ T2] exI [of _ d']) simp
    next
      case r: 2
      have k2': "task (kern s2) ! 0 \<noteq> Some tsk" "swap_idle s2" "swapper_pg_dir s2 = swapper_pg_dir s" "d' \<noteq> swapper_pg_dir s2"
        using k2 assms(4,5,6) 2(5) by (auto simp: kept_def same_frame_def swap_idle_def frame_def)
      have "cr3 s2 tsk = d'" using cr by simp
      then obtain s3 T3 where s3: "free_page_tables env (Suc n) (Some tsk) s2 = Some s3" "acct (remove1 d' ?D) [] T3 ext s3"
          "released {} (s2\<lparr>cr3 := (cr3 s2)(tsk := swapper_pg_dir s2)\<rparr>) s3"
        using free_page_tables_ok [OF s2(1) _ dd(3) k2'(4,1,2), of env n] by blast
      have "same_spaces D s2 s3" unfolding same_spaces_def using rd_released [OF s3(2) _ s3(3)] by simp
      moreover have "kept s s3" using k2 kept_cr3 released_kept [OF s3(3)] by (meson kept_trans)
      moreover have "cr3 s3 = (cr3 s)(tsk := swapper_pg_dir s)"
        using s3(3) cr k2'(3) by (simp add: released_def same_frame_def)
      moreover have "card (free_pages s) \<le> card (rest s d 0)"
      proof -
        have "free_pages ?s = free_pages s - {d'}"
          using 2(5,7) N(3) MAP_NR_inj by (auto simp: free_pages_def frame_def kept_def same_frame_def)
        moreover have "finite (free_pages s)" by simp
        moreover have "ram ?s (slot d i) = ram s (slot d i)" if "i < 1024" for i
          using grown_slot [OF 2(10) assms(1), of d i] assms(3) that by simp
        then have "rest ?s d 0 = rest s d 0" using N(3) by (auto simp: rest_def kept_def; metis)
        ultimately show ?thesis using r(2) card_Suc_Diff1 [of "free_pages s" d'] 2(5,8) by (simp add: free_pages_def frame_def)
      qed
      ultimately show ?thesis using c r s3(1,2) same_spaces_trans [OF sp]
        by (intro disjI2 exI [of _ s3] exI [of _ T3]) simp
    qed
  qed
qed

section \<open>Addresses\<close>

definition dir_index :: "u32 \<Rightarrow> nat" where
  "dir_index a = unat a div 4194304"

definition table_index :: "u32 \<Rightarrow> nat" where
  "table_index a = unat a div 4096 mod 1024"

definition long_index :: "u32 \<Rightarrow> nat" where
  "long_index a = unat a div 4 mod 1024"

lemma index_bounds [simp]: "dir_index a < 1024" "table_index a < 1024" "long_index a < 1024"
  using unsigned_less [of a, where ?'a = nat] by (simp_all add: dir_index_def table_index_def long_index_def less_mult_imp_div_less)

lemma bit_NOT_3: "bit (NOT 3 :: u32) n \<longleftrightarrow> 2 \<le> n \<and> n < 32"
proof -
  have "(3 :: u32) = mask 2" by (simp add: mask_eq_exp_minus_1)
  then have "bit (NOT 3 :: u32) n \<longleftrightarrow> bit (NOT (mask 2) :: u32) n" by (simp only:)
  then show ?thesis by (auto simp: bit_not_iff bit_mask_iff)
qed

lemma bit_NOT_PAGE_MASK: "bit (NOT PAGE_MASK :: u32) n \<longleftrightarrow> n < 12"
  unfolding not_PAGE_MASK by (auto simp: bit_mask_iff)

lemma word_of_four:
  assumes "unat (w :: u32) < 1024"
  shows "push_bit 2 w = of_nat (4 * unat w)"
  by (simp add: push_bit_eq_mult mult.commute)

lemma PAGE_DIR_OFFSET_slot: "PAGE_DIR_OFFSET d a = slot d (dir_index a)"
proof -
  have "drop_bit 20 a AND NOT 3 AND NOT PAGE_MASK = push_bit 2 (drop_bit 22 a)"
  proof (rule bit_word_eqI)
    fix n
    have "bit (drop_bit 20 a AND NOT 3 AND NOT PAGE_MASK) n \<longleftrightarrow> bit a (20 + n) \<and> 2 \<le> n \<and> n < 12"
      by (simp only: bit_and_iff bit_NOT_3 bit_NOT_PAGE_MASK bit_drop_bit_eq o_apply) auto
    also have "\<dots> \<longleftrightarrow> bit (push_bit 2 (drop_bit 22 a)) n"
      by (auto simp: bit_push_bit_iff bit_drop_bit_eq dest: bit_imp_le_length)
    finally show "bit (drop_bit 20 a AND NOT 3 AND NOT PAGE_MASK) n = bit (push_bit 2 (drop_bit 22 a)) n" .
  qed
  moreover have "unat (drop_bit 22 a) = dir_index a" 
    unfolding unat_drop_bit_eq drop_bit_eq_div [of _ "unat a"] dir_index_def by simp
  ultimately show ?thesis unfolding PAGE_DIR_OFFSET_def slot_def using word_of_four [of "drop_bit 22 a"] by simp
qed

lemma PAGE_PTR_slot: "t + PAGE_PTR a = slot t (table_index a)"
proof -
  have "drop_bit 10 a AND NOT 3 AND NOT PAGE_MASK = push_bit 2 (take_bit 10 (drop_bit 12 a))"
  proof (rule bit_word_eqI)
    fix n
    have "bit (drop_bit 10 a AND NOT 3 AND NOT PAGE_MASK) n \<longleftrightarrow> bit a (10 + n) \<and> 2 \<le> n \<and> n < 12"
      by (simp only: bit_and_iff bit_NOT_3 bit_NOT_PAGE_MASK bit_drop_bit_eq o_apply) auto
    also have "\<dots> \<longleftrightarrow> bit (push_bit 2 (take_bit 10 (drop_bit 12 a))) n"
      by (auto simp: bit_push_bit_iff bit_drop_bit_eq bit_take_bit_iff dest: bit_imp_le_length)
    finally show "bit (drop_bit 10 a AND NOT 3 AND NOT PAGE_MASK) n = bit (push_bit 2 (take_bit 10 (drop_bit 12 a))) n" .
  qed
  moreover have "unat (take_bit 10 (drop_bit 12 a)) = table_index a"
    unfolding unsigned_take_bit_eq unat_drop_bit_eq drop_bit_eq_div [of _ "unat a"] table_index_def
    by (simp add: take_bit_eq_mod)
  ultimately show ?thesis
    unfolding PAGE_PTR_def slot_def using word_of_four [of "take_bit 10 (drop_bit 12 a)"] index_bounds(2) [of a] by simp
qed

end
