(* ===== verification/Pgwrite.thy ===== *)
theory Pgwrite
  imports Pgspace
begin

text \<open>
  The write-protection fault keeps the accounts and what every task finds in its memory, and ends with an entry the task
  may write through, or with the task killed for want of memory.
\<close>

section \<open>The write-protection fault\<close>

text \<open>Tasks are touched in other places only.\<close>

lemma kern_frame:
  "task (snd (send_sig sig (Some p) priv k)) = task k" "current (snd (send_sig sig (Some p) priv k)) = current k"
  "task (upd_task p f k) = task k" "current (upd_task p f k) = current k"
  by (simp_all add: send_sig_eq upd_task_def)

lemma kern_only:
  assumes "task k' = task (kern s)" "current k' = current (kern s)"
  shows "mm.truncate (s\<lparr>kern := k'\<rparr>) = mm.truncate s" "same_frame s (s\<lparr>kern := k'\<rparr>)" "rd (s\<lparr>kern := k'\<rparr>) = rd s"
  using assms by (simp_all add: mm.defs same_frame_def swap_idle_def rd_def fun_eq_iff Let_def)

lemma acct_kern [simp]: "acct D H T ext (s\<lparr>kern := k\<rparr>) = acct D H T ext s"
  using acct_more [of D H T ext s "s\<lparr>kern := k\<rparr>"] acct_more [of D H T ext "s\<lparr>kern := k\<rparr>" s] by (auto simp: mm.defs)

lemma oom_frame: "\<exists>k. oom tsk s = s\<lparr>kern := k\<rparr> \<and> task k = task (kern s) \<and> current k = current (kern s)"
  unfolding oom_def by (intro exI [of _ "kern (oom tsk s)"]) (simp add: oom_def kern_frame)

text \<open>The place of a page in a directory: entry \<open>j\<close> of the table that entry \<open>i\<close> names, which holds \<open>g\<close>.\<close>

definition maps :: "vmm \<Rightarrow> u32 set \<Rightarrow> u32 \<Rightarrow> nat \<Rightarrow> nat \<Rightarrow> u32 \<Rightarrow> u32 \<Rightarrow> bool" where
  "maps s T d i j t g \<longleftrightarrow> t \<in> T \<and> names (ram s (slot d i)) t \<and> ram s (slot t j) = g \<and> present g \<and> i < 1024 \<and> j < 1024"

text \<open>Where one reference is all there is, no other entry names the page.\<close>

lemma reference_unique:
  assumes "finite F" "(\<Sum>f\<in>F. refs m f p) \<le> 1" "x \<in> F" "y \<in> F" "i < 1024" "i' < 1024"
    "names (m (slot x i)) p" "names (m (slot y i')) p"
  shows "x = y" "i = i'"
proof -
  have p: "0 < refs m x p" "0 < refs m y p"
    using names_refs [where m = m and f = x, OF assms(5,7)] names_refs [where m = m and f = y, OF assms(6,8)] .
  show xy: "x = y"
  proof (rule ccontr)
    assume "x \<noteq> y"
    then have "refs m x p + refs m y p = (\<Sum>f\<in>{x, y}. refs m f p)" by simp
    also have "\<dots> \<le> (\<Sum>f\<in>F. refs m f p)" using assms(1,3,4) by (intro sum_mono2) auto
    finally show False using assms(2) p by linarith
  qed
  have "refs m x p \<le> 1" using member_le_sum [of x F "\<lambda>f. refs m f p"] assms(1-3) by simp
  then show "i = i'" using refs_unique assms(5-8) xy by blast
qed

lemma table_unique:
  assumes "acct D H T ext s" "t \<in> T" "x \<in> set D" "y \<in> set D" "i < 1024" "i' < 1024"
    "names (ram s (slot x i)) t" "names (ram s (slot y i')) t"
  shows "x = y" "i = i'"
proof -
  have t: "frame s t" using acctD(5) [OF assms(1)] assms(2) by blast
  have "users (ram s) D H T t \<le> 1" using acctD(11) [OF assms(1) t] acctD(7) [OF assms(1,2)] by simp
  then have "(\<Sum>f\<in>set D. refs (ram s) f t) \<le> 1" using users_split [OF assms(1), of "ram s" t] by linarith
  then show "x = y" "i = i'" using reference_unique [OF _ _ assms(3-8)] by auto
qed

text \<open>An entry gets a new value: other pages stay, and this one too if the new page has the contents of the old one.\<close>

lemma rd_entry:
  assumes "acct D H T ext s" "x \<in> set D" "maps s T d i j t g" "d \<in> set D" "\<forall>p. reserved s' p = reserved s p"
    "\<forall>f\<in>set D \<union> T. \<forall>n<1024. (f, n) \<noteq> (t, j) \<longrightarrow> ram s' (slot f n) = ram s (slot f n)"
    "\<forall>a. mem_map s (MAP_NR a) \<noteq> 0 \<and> page_of a \<notin> set D \<union> T \<longrightarrow> ram s' a = ram s a"
    "i' < 1024" "j' < 1024" "k < 1024"
    "(x, i', j') \<noteq> (d, i, j) \<or> present (ram s' (slot t j)) \<and> ram s' (slot (page_of (ram s' (slot t j))) k) = ram s (slot (page_of g) k)"
  shows "rd s' x i' j' k = rd s x i' j' k"
proof (rule rd_cong [OF assms(1,2,5) _ assms(8-10)])
  note M = assms(3) [unfolded maps_def]
  have "t \<notin> set D" using M acctD(3) [OF assms(1)] by blast
  then show "\<forall>i<1024. ram s' (slot x i) = ram s (slot x i)" using assms(2,6) by auto
  fix u assume u: "u \<in> T" "names (ram s (slot x i')) u"
  show "present (ram s' (slot u j')) = present (ram s (slot u j')) \<and>
      (present (ram s (slot u j')) \<longrightarrow> ram s' (slot (page_of (ram s' (slot u j'))) k) = ram s (slot (page_of (ram s (slot u j'))) k))"
  proof (cases "(u, j') = (t, j)")
    case True
    then have "x = d" "i' = i" using table_unique [OF assms(1), of t x d i' i] M u assms(2,4,8) by auto
    then show ?thesis using True assms(11) M by auto
  next
    case False
    then have e: "ram s' (slot u j') = ram s (slot u j')" using assms(6,9) u(1) by auto
    have "ram s' (slot (page_of (ram s (slot u j'))) k) = ram s (slot (page_of (ram s (slot u j'))) k)" if "present (ram s (slot u j'))"
      using assms(7) named_page [OF assms(1) u(1) assms(9) that assms(10)] by blast
    then show ?thesis by (simp add: e)
  qed
qed

lemma entry_bits:
  "page_of (g OR 0x42) = page_of g" "present (g OR 0x42) = present g" "(g OR 0x42) AND PAGE_RW \<noteq> 0"
  "(g OR 0x42) AND PAGE_COW = g AND PAGE_COW"
proof -
  show "page_of (g OR 0x42) = page_of g" by (simp add: page_of_def bit.conj_disj_distrib2)
  show "present (g OR 0x42) = present g" "(g OR 0x42) AND PAGE_COW = g AND PAGE_COW" by (simp_all add: bit.conj_disj_distrib2)
  have "bit (0x42 :: u32) 1" by (simp add: bit_numeral_rec)
  then show "(g OR 0x42) AND PAGE_RW \<noteq> 0" unfolding flag_bit by (simp only: bit_or_iff simp_thms)
qed

text \<open>The entry for a new page: the flags of the old entry, and permission to write.\<close>

lemma new_entry_bits:
  fixes p g :: u32
  assumes "page_aligned p" "present g"
  defines "v \<equiv> p OR ((g AND NOT PAGE_MASK) OR PAGE_RW)"
  shows "page_of v = p" "present v" "v AND PAGE_RW \<noteq> 0" "g AND PAGE_COW \<noteq> 0 \<Longrightarrow> v AND PAGE_COW \<noteq> 0"
proof -
  have al: "\<not> bit p n" if "n < 12" for n using assms(1) that by (simp add: page_aligned_bit)
  have b: "bit v n \<longleftrightarrow> bit p n \<or> bit g n \<and> n < 12 \<or> n = 1" for n
    unfolding v_def by (auto simp only: bit_or_iff bit_and_iff bit_NOT_PAGE_MASK bit_flags)
  show "page_of v = p" by (rule bit_word_eqI) (use al in \<open>auto simp: bit_page_of b not_le [symmetric]\<close>)
  have pr: "present e \<longleftrightarrow> bit e 0" for e :: u32 using bit_iff_and_push_bit_not_eq_0 [of e 0] by simp
  show "present v" using assms(2) unfolding pr by (simp add: b)
  show "v AND PAGE_RW \<noteq> 0" unfolding flag_bit by (simp add: b)
  show "v AND PAGE_COW \<noteq> 0" if "g AND PAGE_COW \<noteq> 0" using that unfolding flag_bit by (simp add: b)
qed

text \<open>What the fault leaves: the page of the task is writable, or the task is being killed and has the bad page. Every
  other page of every task is as before.\<close>

definition faulted :: "u32 list \<Rightarrow> u32 list \<Rightarrow> u32 set \<Rightarrow> (u32 \<Rightarrow> nat) \<Rightarrow> u32 \<Rightarrow> nat \<Rightarrow> nat \<Rightarrow> u32 \<Rightarrow> vmm \<Rightarrow> vmm \<Rightarrow> bool" where
  "faulted D H T ext d i j t s s' \<longleftrightarrow>
     acct D H T ext s' \<and> kept s s' \<and> cr3 s' = cr3 s \<and>
     (\<exists>g. maps s' T d i j t g \<and> (private_rw g \<and> \<not> reserved s' g \<or> reserved s' g \<and> free_pages s = {}) \<and>
        (\<forall>x\<in>set D. \<forall>i'<1024. \<forall>j'<1024. \<forall>k<1024. (x, i', j') \<noteq> (d, i, j) \<or> \<not> reserved s' g \<longrightarrow>
           rd s' x i' j' k = rd s x i' j' k))"

lemma maps_high:
  assumes "acct D H T ext s" "maps s T d i j t g"
  shows "page_of g < high_memory s" "mem_map s (MAP_NR g) \<noteq> 0" "page_of g \<notin> set D \<union> T"
proof -
  note M = assms(2) [unfolded maps_def]
  show "page_of g < high_memory s"
    using acctD(10) [OF assms(1)] M page_of_less_iff [OF acct_high [OF assms(1)]] by (auto simp: pte_ok_def)
  have n: "mem_map s (MAP_NR (slot (page_of g) 0)) \<noteq> 0" "page_of (slot (page_of g) 0) \<notin> set D \<union> T"
    using named_page [OF assms(1), of t j 0] M by auto
  then show "mem_map s (MAP_NR g) \<noteq> 0" "page_of g \<notin> set D \<union> T"
    by (simp_all add: MAP_NR_page_of page_of_id)
qed

lemma other_slots:
  assumes "acct D H T ext s" "t \<in> T" "j < 1024"
  shows "\<forall>f\<in>set D \<union> T. \<forall>n<1024. (f, n) \<noteq> (t, j) \<longrightarrow> ((ram s)(slot t j := v)) (slot f n) = ram s (slot f n)"
    "\<forall>a. page_of a \<notin> set D \<union> T \<longrightarrow> ((ram s)(slot t j := v)) a = ram s a"
proof -
  have t: "page_aligned t" using acct_aligned [OF assms(1)] assms(2) by blast
  show "\<forall>f\<in>set D \<union> T. \<forall>n<1024. (f, n) \<noteq> (t, j) \<longrightarrow> ((ram s)(slot t j := v)) (slot f n) = ram s (slot f n)"
    using slot_inj [OF _ t _ assms(3)] acct_aligned [OF assms(1)] by auto
  show "\<forall>a. page_of a \<notin> set D \<union> T \<longrightarrow> ((ram s)(slot t j := v)) a = ram s a"
    using page_of_slot [OF t assms(3)] assms(2) by auto
qed

text \<open>The page has no other user.\<close>

lemma fault_alone:
  assumes "acct D H T ext s" "d \<in> set D" "maps s T d i j t g" "g AND PAGE_COW \<noteq> 0" "mem_map s (MAP_NR g) = 1"
  shows "faulted D H T ext d i j t s (store (slot t j) (g OR 0x42) s)"
proof -
  let ?v = "g OR 0x42" and ?s = "store (slot t j) (g OR 0x42) s"
  note M = assms(3) [unfolded maps_def]
  have mn: "MAP_NR ?v = MAP_NR g" using MAP_NR_page_of [of g] MAP_NR_page_of [of ?v] by (simp add: entry_bits)
  have "?v < high_memory s"
    using maps_high(1) [OF assms(1,3)] page_of_less_iff [OF acct_high [OF assms(1)], of ?v] by (simp add: entry_bits)
  then have ok: "pte_ok s ?v" using assms(5) by (simp add: pte_ok_def mn)
  have a: "acct D H T ext ?s" using M ok by (intro acct_store [OF assms(1)]) (auto simp: names_def entry_bits)
  have t: "page_aligned t" "\<not> reserved s t" "t \<notin> set D" using acctD(3,5) [OF assms(1)] M by (auto simp: frame_def)
  have tj: "page_of (slot t j) = t" using page_of_slot [OF t(1)] M by blast
  have k: "kept s ?s" by (rule grown_kept [of "{t}"]) (use tj t(2) in \<open>auto intro: grown_store\<close>)
  have dt: "slot d i \<noteq> slot t j"
    using page_of_slot [OF acct_aligned [OF assms(1)], of d i] assms(2) M tj t(3) by auto
  have m: "maps ?s T d i j t ?v" using M dt by (simp add: maps_def entry_bits)
  have "private_rw ?v \<and> \<not> reserved ?s ?v" using assms(4,5) entry_bits by (simp add: private_rw_def mn)
  moreover have "rd ?s x i' j' k = rd s x i' j' k" if "x \<in> set D" "i' < 1024" "j' < 1024" "k < 1024" for x i' j' k
  proof (rule rd_entry [OF assms(1) that(1) assms(3,2) _ _ _ that(2-4)])
    have "slot (page_of g) k \<noteq> slot t j" using maps_high(3) [OF assms(1,3)] page_of_slot [OF page_of_aligned that(4), of g] tj M by auto
    then show "(x, i', j') \<noteq> (d, i, j) \<or> present (ram ?s (slot t j)) \<and> ram ?s (slot (page_of (ram ?s (slot t j))) k) = ram s (slot (page_of g) k)"
      using M by (simp add: entry_bits)
  qed (use other_slots [OF assms(1), of t j ?v] M in auto)
  ultimately show ?thesis using a k m unfolding faulted_def by auto
qed

text \<open>A user less of a page that has several.\<close>

lemma free_page_store: "mem_map s (MAP_NR q) \<noteq> 1 \<Longrightarrow> free_page q (store a v s) = store a v (free_page q s)"
  by (simp add: free_page_def Let_def)

lemma drop_shared:
  assumes "acct D H T (if frame s q then ext(q := ext q + 1) else ext) s" "mem_map s (MAP_NR q) \<noteq> 1"
    "frame s q \<or> reserved s q" "page_aligned q"
  shows "acct D H T ext (free_page q s)" "released {} s (free_page q s)" "ram (free_page q s) = ram s"
    "\<And>n. n \<noteq> MAP_NR q \<Longrightarrow> mem_map (free_page q s) n = mem_map s n" "same_frame s (free_page q s)"
proof -
  have "acct D H T ext (free_page q s) \<and> released {} s (free_page q s) \<and> ram (free_page q s) = ram s \<and>
    (\<forall>n. n \<noteq> MAP_NR q \<longrightarrow> mem_map (free_page q s) n = mem_map s n)"
  proof (cases "frame s q")
    case True
    then have a: "acct D H T (ext(q := ext q + 1)) s" using assms(1) by simp
    note F = acct_free [OF a True] and R = free_page_released [OF a True, of "{}"]
    have "mem_map s (MAP_NR q) \<noteq> 0" using acctD(11) [OF a True] by auto
    then have nz: "mem_map s (MAP_NR q) \<notin> {0, 1}" "q < high_memory s" "\<not> reserved s q" using assms(2) True by (auto simp: frame_def)
    have "free_page q x = x\<lparr>mem_map := (mem_map x)(MAP_NR q := mem_map x (MAP_NR q) - 1)\<rparr>"
      if "mem_map x = mem_map s" "high_memory x = high_memory s" for x :: vmm
      using nz that by (intro free_page_shared) simp_all
    then show ?thesis using F(1) R by simp
  next
    case False
    then have r: "reserved s q" using assms(3) by blast
    have "free_page q x = x" if "mem_map x = mem_map s" for x :: vmm using r that by (intro free_page_ignored) simp
    then show ?thesis using assms(1) False by simp
  qed
  then show "acct D H T ext (free_page q s)" "released {} s (free_page q s)" "ram (free_page q s) = ram s"
    "\<And>n. n \<noteq> MAP_NR q \<Longrightarrow> mem_map (free_page q s) n = mem_map s n" "same_frame s (free_page q s)"
    by (auto simp: released_def)
qed

text \<open>The entry of a shared page gets its new value \<open>v\<close>, and the shared page has a user less.\<close>

lemma fault_finish:
  assumes "acct D H T ext s" "d \<in> set D" "maps s T d i j t g" "mem_map s4 (MAP_NR g) \<noteq> 1"
    and s4: "acct D H T (if frame s (page_of g) then ext(page_of g := ext (page_of g) + 1) else ext) s4" "grown {t} s s4"
      "ram s4 (slot t j) = v" "present v" "\<forall>n<1024. n \<noteq> j \<longrightarrow> ram s4 (slot t n) = ram s (slot t n)"
      "private_rw v \<and> \<not> reserved s v \<and> (\<forall>k<1024. ram s4 (slot (page_of v) k) = ram s (slot (page_of g) k)) \<or>
       reserved s v \<and> free_pages s = {}"
  shows "faulted D H T ext d i j t s (free_page (page_of g) s4)"
proof -
  let ?q = "page_of g" and ?s = "free_page (page_of g) s4"
  note M = assms(3) [unfolded maps_def] and Q = maps_high [OF assms(1,3)]
  have f4: "frame s4 = frame s" and r4: "\<And>p. reserved s4 p = reserved s p" using grown_frame [OF s4(2)] s4(2) by (auto simp: grown_def)
  have t: "t \<notin> set D" "\<not> reserved s t" using acctD(3,5) [OF assms(1)] M by (auto simp: frame_def)
  have slots: "ram s4 (slot f n) = ram s (slot f n)" if "f \<in> set D" "n < 1024" for f n
    using grown_slot [OF s4(2) assms(1), of f n] that t(1) by auto
  have mq: "mem_map s4 (MAP_NR ?q) \<noteq> 1" using assms(4) by (simp add: MAP_NR_page_of)
  have rq: "frame s4 ?q \<or> reserved s4 ?q" using Q(1) r4 by (auto simp: f4 frame_def)
  note F = drop_shared [of D H T s4 ?q ext, OF s4(1) [folded f4] mq rq page_of_aligned]
  have "kept s s4" by (rule grown_kept [OF s4(2)]) (simp add: t(2))
  then have k: "kept s ?s" using released_kept [OF F(2)] kept_trans by blast
  have c: "cr3 ?s = cr3 s" using F(2) s4(2) by (simp add: released_def grown_def same_frame_def)
  have m: "maps ?s T d i j t v" unfolding maps_def F(3) using M s4(3,4) slots [OF assms(2)] by simp
  have rv: "reserved ?s v = reserved s v" using F(2) r4 by (simp add: released_def)
  have "rd ?s x i' j' k = rd s x i' j' k"
    if "x \<in> set D" "i' < 1024" "j' < 1024" "k < 1024" "(x, i', j') \<noteq> (d, i, j) \<or> \<not> reserved s v" for x i' j' k
  proof -
    have "rd ?s x i' j' k = rd s4 x i' j' k" by (rule rd_released [OF F(1) that(1) F(2) that(2-4)])
    also have "\<dots> = rd s x i' j' k"
    proof (rule rd_entry [OF assms(1) that(1) assms(3,2) _ _ _ that(2-4)])
      show "\<forall>p. reserved s4 p = reserved s p" using r4 by blast
      show "\<forall>f\<in>set D \<union> T. \<forall>n<1024. (f, n) \<noteq> (t, j) \<longrightarrow> ram s4 (slot f n) = ram s (slot f n)"
      proof (intro ballI allI impI)
        fix f n assume "f \<in> set D \<union> T" "n < (1024 :: nat)" "(f, n) \<noteq> (t, j)"
        then show "ram s4 (slot f n) = ram s (slot f n)"
          using s4(5) grown_slot [OF s4(2) assms(1), of f n] by (cases "f = t") auto
      qed
      show "\<forall>a. mem_map s (MAP_NR a) \<noteq> 0 \<and> page_of a \<notin> set D \<union> T \<longrightarrow> ram s4 a = ram s a"
        using s4(2) M unfolding grown_def by blast
      show "(x, i', j') \<noteq> (d, i, j) \<or>
          present (ram s4 (slot t j)) \<and> ram s4 (slot (page_of (ram s4 (slot t j))) k) = ram s (slot ?q k)"
        using s4(3,4,6) that(4,5) by auto
    qed
    finally show ?thesis .
  qed
  then show ?thesis using F(1) k c m s4(6) rv unfolding faulted_def by blast
qed

lemma copied_page:
  assumes "acct D H T ext s" "got p s s1" "page_aligned q" "mem_map s (MAP_NR q) \<noteq> 0"
    "task k' = task (kern s)" "current k' = current (kern s)"
  defines "s3 \<equiv> copy_page q p (s1\<lparr>kern := k'\<rparr>)"
  shows "acct D H T (ext(p := 1)) s3" "grown {} s s3" "\<forall>k<1024. ram s3 (slot p k) = ram s (slot q k)"
    "mem_map s3 = (mem_map s)(MAP_NR p := 1)"
proof -
  note G = acct_got [OF assms(1,2)]
  have S1: "ram s1 = ram s" "mem_map s1 = (mem_map s)(MAP_NR p := 1)" "mem_map s (MAP_NR p) = 0" "high_memory s1 = high_memory s"
    "mm.more s1 = mm.more s" using assms(2) by (auto simp: got_def free_pages_def)
  have p: "page_aligned p" "q \<noteq> p" using G(4) assms(4) S1(3) by (auto simp: frame_def)
  note C = copy_longs_slot [OF assms(3) p(1,2), of 0 1024]
  have out: "\<forall>a. page_of a \<noteq> p \<longrightarrow> ram s3 a = ram s a" using C(2) by (simp add: s3_def copy_page_def S1(1))
  show "\<forall>k<1024. ram s3 (slot p k) = ram s (slot q k)" using C(1) by (simp add: s3_def copy_page_def S1(1))
  have eq: "s3 = (s1\<lparr>kern := k'\<rparr>)\<lparr>ram := ram s3\<rparr>" by (simp add: s3_def copy_page_def)
  have "acct D H T (ext(p := 1)) ((s1\<lparr>kern := k'\<rparr>)\<lparr>ram := ram s3\<rparr>)"
    by (rule acct_ram [of _ _ _ _ _ p]) (use G(1,3) S1 out in simp_all)
  then show "acct D H T (ext(p := 1)) s3" using eq by simp
  show mm: "mem_map s3 = (mem_map s)(MAP_NR p := 1)" by (simp add: s3_def copy_page_def S1)
  have "same_frame s s3"
    using same_frame_mm [OF S1(5,4)] assms(5,6) by (auto simp: same_frame_def swap_idle_def s3_def copy_page_def)
  moreover have "page_of a \<noteq> p" if "mem_map s (MAP_NR a) \<noteq> 0" for a using that S1(3) MAP_NR_page_of by metis
  ultimately show "grown {} s s3" using out S1(3) unfolding grown_def by (simp add: mm)
qed

text \<open>The page is shared and there is memory for a copy.\<close>

lemma fault_copied:
  assumes "acct D H T ext s" "d \<in> set D" "maps s T d i j t g" "g AND PAGE_COW \<noteq> 0" "mem_map s (MAP_NR g) \<noteq> 1" "got p s s1"
    "task k' = task (kern s)" "current k' = current (kern s)"
  defines "v \<equiv> p OR ((g AND NOT PAGE_MASK) OR PAGE_RW)"
  shows "faulted D H T ext d i j t s (free_page (page_of g) (store (slot t j) v (copy_page (page_of g) p (s1\<lparr>kern := k'\<rparr>))))"
proof -
  let ?q = "page_of g" and ?s3 = "copy_page (page_of g) p (s1\<lparr>kern := k'\<rparr>)"
  let ?s4 = "store (slot t j) v ?s3"
  note M = assms(3) [unfolded maps_def] and G = acct_got [OF assms(1,6)] and Q = maps_high [OF assms(1,3)]
  have mq: "MAP_NR ?q = MAP_NR g" "mem_map s (MAP_NR ?q) \<noteq> 0" using Q(2) MAP_NR_page_of [of g] by simp_all
  note C = copied_page [OF assms(1,6) page_of_aligned mq(2) assms(7,8)]
  have p: "page_aligned p" "p < high_memory s" "mem_map s (MAP_NR p) = 0" using assms(6) by (auto simp: got_def free_pages_def)
  have qp: "?q \<noteq> p" using mq(2) p(3) by auto
  have v: "page_of v = p" "present v" "private_rw v"
    using new_entry_bits [OF p(1), of g, folded v_def] M assms(4) by (auto simp: private_rw_def)
  have mv: "MAP_NR v = MAP_NR p" using MAP_NR_page_of [of v] v(1) by simp
  have t: "page_aligned t" "t \<noteq> p" using acct_aligned [OF assms(1)] M G(3) by auto
  have tj: "page_of (slot t j) = t" using page_of_slot [OF t(1)] M by blast
  have s3t: "ram ?s3 (slot t n) = ram s (slot t n)" if "n < 1024" for n using grown_slot [OF C(2) assms(1) _ _ that, of t] M by simp
  have f3: "frame ?s3 = frame s" and h3: "high_memory ?s3 = high_memory s"
    using grown_frame [OF C(2)] C(2) by (auto simp: grown_def same_frame_def)
  have "acct D H T (if frame s ?q then ext(?q := ext ?q + 1) else ext) ?s4"
  proof (rule acct_store [OF C(1)])
    have "v < high_memory s" using p(2) v(1) page_of_less_iff [OF acct_high [OF assms(1)], of v] by simp
    then show "pte_ok ?s3 v" by (simp add: pte_ok_def h3 C(4) mv)
    have "ram ?s3 (slot t j) = g" using s3t M by simp
    then show "\<forall>q. frame ?s3 q \<longrightarrow> (if frame s ?q then ext(?q := ext ?q + 1) else ext) q + of_bool (names v q) =
        (ext(p := 1)) q + of_bool (names (ram ?s3 (slot t j)) q)"
      using qp G(2) v(1,2) M unfolding f3 by (simp add: names_def) blast
  qed (use M in blast)+
  moreover have "grown {t} s ?s4" by (rule grown_trans [OF grown_mono [OF C(2)] grown_store]) (simp_all add: tj)
  moreover have "mem_map ?s4 (MAP_NR g) \<noteq> 1"
    using assms(5) qp MAP_NR_eq_page [of g p] page_of_id [OF p(1)] by (simp add: C(4))
  moreover have "\<forall>n<1024. n \<noteq> j \<longrightarrow> ram ?s4 (slot t n) = ram s (slot t n)" using s3t slot_inj [OF t(1,1)] M by simp
  moreover have "ram ?s4 (slot p k) = ram s (slot ?q k)" if "k < 1024" for k
    using C(3) that page_of_slot [OF p(1) that] tj t(2) by auto
  moreover have "\<not> reserved s v" by (simp add: mv p(3))
  ultimately show ?thesis using fault_finish [OF assms(1-3), of ?s4 v] v by simp
qed

lemma faulted_kern:
  assumes "faulted D H T ext d i j t s s1" "task k = task (kern s1)" "current k = current (kern s1)"
  shows "faulted D H T ext d i j t s (s1\<lparr>kern := k\<rparr>)"
proof -
  have "kept s (s1\<lparr>kern := k\<rparr>)" if "kept s s1" using that assms(2,3) by (simp add: kept_def same_frame_def swap_idle_def)
  then show ?thesis using assms(1) kern_only(3) [OF assms(2,3)] unfolding faulted_def maps_def by simp
qed

text \<open>The page is shared and there is no memory: the task is killed, and gets the bad page of zeros.\<close>

definition bad_page_ok :: "vmm \<Rightarrow> bool" where
  "bad_page_ok s \<longleftrightarrow> page_aligned (empty_bad_page s) \<and> empty_bad_page s < high_memory s \<and> reserved s (empty_bad_page s) \<and>
     (\<forall>k<1024. ram s (slot (empty_bad_page s) k) = 0)"

lemma BAD_PAGE_ok: "bad_page_ok s \<Longrightarrow> BAD_PAGE s = (empty_bad_page s, s)"
proof -
  assume b: "bad_page_ok s"
  then have "fill_longs 0 1024 (empty_bad_page s) (ram s) = ram s"
    using fill_longs_slot [of "empty_bad_page s" 0 1024 0 "ram s"] by (auto simp: bad_page_ok_def fun_eq_iff)
  then show ?thesis by (simp add: BAD_PAGE_def)
qed

lemma fault_oom:
  assumes "acct D H T ext s" "d \<in> set D" "maps s T d i j t g" "mem_map s (MAP_NR g) \<noteq> 1" "bad_page_ok s" "free_pages s = {}"
  defines "v \<equiv> empty_bad_page s OR ((g AND NOT PAGE_MASK) OR PAGE_RW)"
  shows "faulted D H T ext d i j t s (store (slot t j) v (free_page (page_of g) s))"
proof -
  let ?q = "page_of g" and ?s4 = "store (slot t j) v s" and ?b = "empty_bad_page s"
  note M = assms(3) [unfolded maps_def] and Q = maps_high [OF assms(1,3)] and B = assms(5) [unfolded bad_page_ok_def]
  have v: "page_of v = ?b" "present v" using new_entry_bits(1,2) [of ?b g, folded v_def] B M by auto
  have mv: "MAP_NR v = MAP_NR ?b" using MAP_NR_page_of [of v] v(1) by simp
  have t: "page_aligned t" using acct_aligned [OF assms(1)] M by blast
  have a4: "acct D H T (if frame s ?q then ext(?q := ext ?q + 1) else ext) ?s4"
  proof (rule acct_store [OF assms(1)])
    have "v < high_memory s" using B v(1) page_of_less_iff [OF acct_high [OF assms(1)], of v] by simp
    then show "pte_ok s v" using B by (simp add: pte_ok_def mv)
    have "\<not> names v q" if "frame s q" for q using that B v(1) by (auto simp: names_def frame_def)
    then show "\<forall>q. frame s q \<longrightarrow> (if frame s ?q then ext(?q := ext ?q + 1) else ext) q + of_bool (names v q) =
        ext q + of_bool (names (ram s (slot t j)) q)"
      using M by (simp add: names_def)
  qed (use M in blast)+
  have "grown {t} s ?s4" by (rule grown_store) (use page_of_slot [OF t] M in auto)
  moreover have "\<forall>n<1024. n \<noteq> j \<longrightarrow> ram ?s4 (slot t n) = ram s (slot t n)" using slot_inj [OF t t] M by simp
  ultimately have "faulted D H T ext d i j t s (free_page ?q ?s4)"
    using fault_finish [OF assms(1-3) _ a4, of v] assms(4,6) v(2) B mv by simp
  moreover have "free_page ?q ?s4 = store (slot t j) v (free_page ?q s)"
    using free_page_store [of s ?q] assms(4) by (simp add: MAP_NR_page_of)
  ultimately show ?thesis by simp
qed

lemma free_page_kern: "free_page q (s\<lparr>kern := k\<rparr>) = (free_page q s)\<lparr>kern := k\<rparr>"
  by (simp add: free_page_def Let_def add_mem_queue_def)

lemma shared_free_page:
  assumes "acct D H T ext s" "maps s T d i j t g" "mem_map s (MAP_NR g) \<noteq> 1"
  shows "ram (free_page (page_of g) s) = ram s" "kern (free_page (page_of g) s) = kern s"
    "high_memory (free_page (page_of g) s) = high_memory s" "empty_bad_page (free_page (page_of g) s) = empty_bad_page s"
    "reserved s p \<Longrightarrow> reserved (free_page (page_of g) s) p"
proof -
  note Q = maps_high [OF assms(1,2)]
  have m: "MAP_NR (page_of g) = MAP_NR g" by (rule MAP_NR_page_of)
  have e: "free_page (page_of g) s = (if reserved s g then s
      else s\<lparr>mem_map := (mem_map s)(MAP_NR g := mem_map s (MAP_NR g) - 1)\<rparr>)"
    using Q assms(3) free_page_ignored [of s "page_of g"] free_page_shared [of "page_of g" s] by (auto simp: m)
  show "ram (free_page (page_of g) s) = ram s" "kern (free_page (page_of g) s) = kern s"
    "high_memory (free_page (page_of g) s) = high_memory s" "empty_bad_page (free_page (page_of g) s) = empty_bad_page s"
    by (simp_all add: e)
  show "reserved (free_page (page_of g) s) p" if "reserved s p" using that by (auto simp: e)
qed

lemma wp_page_slow_ok:
  assumes "acct D H T ext s" "cr3 s tsk = d" "d \<in> set D" "maps s T d (dir_index a) (table_index a) t g" "g AND PAGE_COW \<noteq> 0"
    "g AND PAGE_RW = 0" "mem_map s (MAP_NR g) \<noteq> 1" "bad_page_ok s"
  shows "\<exists>s'. wp_page_slow no_reclaim (Suc n) a tsk s = Some s' \<and> faulted D H T ext d (dir_index a) (table_index a) t s s'"
proof -
  let ?i = "dir_index a" and ?j = "table_index a" and ?q = "page_of g"
  note M = assms(4) [unfolded maps_def] and Q = maps_high [OF assms(1,4)]
  define e where "e = ram s (slot d ?i)"
  have e: "page_of e = t" "present e" "e < high_memory s" "e AND PAGE_TABLE = PAGE_TABLE"
  proof -
    show "page_of e = t" "present e" using M by (auto simp: names_def e_def)
    have "\<not> reserved s e" using acctD(5) [OF assms(1), of t] M \<open>page_of e = t\<close> MAP_NR_page_of [of e] by (auto simp: frame_def)
    then show "e < high_memory s" "e AND PAGE_TABLE = PAGE_TABLE"
      using acctD(9) [OF assms(1,3), of ?i] \<open>present e\<close> by (auto simp: dir_ok_def e_def [symmetric])
  qed
  have gh: "g < high_memory s" using Q(1) page_of_less_iff [OF acct_high [OF assms(1)]] by simp
  have q: "g AND PAGE_MASK = ?q" "e AND PAGE_MASK = t" using e(1) by (simp_all add: page_of_def)
  have mq: "MAP_NR ?q = MAP_NR g" by (rule MAP_NR_page_of)
  let ?prot = "(g AND NOT PAGE_MASK) OR PAGE_RW"
  have run: "wp_page_slow no_reclaim (Suc n) a tsk s =
      Some (replace_page (slot t ?j) tsk ?q ?prot p (on_task tsk (\<lambda>t. t\<lparr>min_flt := min_flt t + 1\<rparr>) s1))"
    if "do_get_free_page no_reclaim (Suc n) GFP_KERNEL s = Some (p, s1)" "ram s1 = ram s" "high_memory s1 = high_memory s"
      "cr3 s1 = cr3 s" "mem_map s1 (MAP_NR g) = mem_map s (MAP_NR g)" for p s1
    using that e gh q mq assms(2,6,7) M
    by (simp add: wp_page_slow_def Let_def PAGE_DIR_OFFSET_slot PAGE_PTR_slot e_def [symmetric] not_le del: do_get_free_page.simps)
  consider p s1 where "do_get_free_page no_reclaim (Suc n) GFP_KERNEL s = Some (p, s1)" "got p s s1"
    | "do_get_free_page no_reclaim (Suc n) GFP_KERNEL s = Some (0, s)" "free_pages s = {}"
    using get_no_reclaim [OF acctD(1) [OF assms(1)], of n] by blast
  then show ?thesis
  proof cases
    case (1 p s1)
    note G = acct_got [OF assms(1) 1(2)]
    have S: "ram s1 = ram s" "high_memory s1 = high_memory s" "mm.more s1 = mm.more s" "mem_map s1 = (mem_map s)(MAP_NR p := 1)"
      "mem_map s (MAP_NR p) = 0" using 1(2) by (auto simp: got_def free_pages_def)
    have sf: "same_frame s s1" by (rule same_frame_mm [OF S(3,2)])
    have np: "MAP_NR g \<noteq> MAP_NR p" using Q(2) S(5) by auto
    let ?f = "\<lambda>t. t\<lparr>min_flt := min_flt t + 1\<rparr>"
    define k' where "k' = (if reserved s g then upd_task tsk (\<lambda>t. t\<lparr>rss := rss t + 1\<rparr>) (upd_task tsk ?f (kern s1)) else upd_task tsk ?f (kern s1))"
    have k': "task k' = task (kern s)" "current k' = current (kern s)"
      using sf by (auto simp: k'_def kern_frame same_frame_def)
    have "replace_page (slot t ?j) tsk ?q ?prot p (on_task tsk ?f s1) =
        free_page ?q (store (slot t ?j) (p OR ?prot) (copy_page ?q p (s1\<lparr>kern := k'\<rparr>)))"
      using got_nonzero [OF acctD(1) [OF assms(1)] 1(2)] np by (simp add: replace_page_def Let_def k'_def mq S(4))
    moreover have "cr3 s1 = cr3 s" using sf by (simp add: same_frame_def)
    ultimately show ?thesis
      using run [OF 1(1) S(1,2)] fault_copied [OF assms(1,3,4,5,7) 1(2) k'] np by (simp add: S(4))
  next
    case 2
    let ?f = "\<lambda>t. t\<lparr>min_flt := min_flt t + 1\<rparr>"
    note F = shared_free_page [OF assms(1,4,7)]
    let ?s1 = "free_page ?q (on_task tsk ?f s)"
    have s1: "?s1 = (free_page ?q s)\<lparr>kern := upd_task tsk ?f (kern s)\<rparr>" by (rule free_page_kern)
    obtain k where k: "oom tsk ?s1 = ?s1\<lparr>kern := k\<rparr>" "task k = task (kern ?s1)" "current k = current (kern ?s1)"
      using oom_frame by blast
    have o: "oom tsk ?s1 = (free_page ?q s)\<lparr>kern := k\<rparr>" using k(1) by (simp add: s1)
    have "bad_page_ok (oom tsk ?s1)" using assms(8) F by (simp add: bad_page_ok_def o)
    then have b: "BAD_PAGE (oom tsk ?s1) = (empty_bad_page s, oom tsk ?s1)" using BAD_PAGE_ok F(4) by (simp add: o)
    let ?v = "empty_bad_page s OR ?prot"
    have r: "replace_page (slot t ?j) tsk ?q ?prot 0 (on_task tsk ?f s) = (store (slot t ?j) ?v (free_page ?q s))\<lparr>kern := k\<rparr>"
      unfolding replace_page_def using b by (simp add: Let_def o)
    have "faulted D H T ext d ?i ?j t s ((store (slot t ?j) ?v (free_page ?q s))\<lparr>kern := k\<rparr>)"
      using k(2,3) by (intro faulted_kern [OF fault_oom [OF assms(1,3,4,7,8) 2(2)]]) (simp_all add: s1 kern_frame F(2))
    then show ?thesis using run [OF 2(1)] r by simp
  qed
qed

lemma do_wp_page_ok:
  assumes "acct D H T ext s" "cr3 s tsk = d" "d \<in> set D" "maps s T d (dir_index a) (table_index a) t g" "g AND PAGE_COW \<noteq> 0"
    "g AND PAGE_RW = 0" "bad_page_ok s"
  shows "\<exists>s'. do_wp_page no_reclaim (Suc n) a tsk user_esp s = Some s' \<and>
              faulted D H T ext d (dir_index a) (table_index a) t s s'"
proof -
  note M = assms(4) [unfolded maps_def]
  define e where "e = ram s (slot d (dir_index a))"
  have e: "page_of e = t" "present e" using M by (auto simp: names_def e_def)
  have "e < high_memory s"
    using acctD(5) [OF assms(1), of t] M e(1) page_of_less_iff [OF acct_high [OF assms(1)], of e] by (auto simp: frame_def)
  moreover have "e \<noteq> 0" using e(2) by auto
  ultimately have run: "do_wp_page no_reclaim (Suc n) a tsk user_esp s =
      (if mem_map s (MAP_NR g) = 1 then Some (store (slot t (table_index a)) (g OR 0x42) s) else wp_page_slow no_reclaim (Suc n) a tsk s)"
    using e M assms(2,5,6)
    by (simp add: do_wp_page_def Let_def PAGE_DIR_OFFSET_slot PAGE_PTR_slot e_def [symmetric] page_of_def [symmetric])
  show ?thesis
    using run wp_page_slow_ok [OF assms(1-6) _ assms(7), of n] fault_alone [OF assms(1,3,4,5)] by (cases "mem_map s (MAP_NR g) = 1") auto
qed

end
