(* ===== verification/Pgproc.thy ===== *)
theory Pgproc
  imports Pgwrite
begin

text \<open>
  The address spaces of tasks. \<open>spaces_ok ext L s\<close>: the tasks in \<open>L\<close> have an address space each, and the accounts balance
  with \<open>ext p\<close> other users of page \<open>p\<close>. \<open>space s q\<close> is what task \<open>q\<close> finds in its memory. The lemmas say what forking, ending
  and writing do to the spaces; a page is free exactly when nobody uses it.
\<close>

section \<open>Writing\<close>

text \<open>A store to a page that only this entry names.\<close>

lemma private_store:
  fixes v :: u32
  assumes "acct D H T ext s" "d \<in> set D" "maps s T d i j t g" "private_rw g" "\<not> reserved s g" "k < 1024"
  defines "s' \<equiv> store (slot (page_of g) k) v s"
  shows "acct D H T ext s'" "kept s s'" "x \<in> set D \<Longrightarrow> i' < 1024 \<Longrightarrow> j' < 1024 \<Longrightarrow> k' < 1024 \<Longrightarrow>
    rd s' x i' j' k' = (if (x, i', j', k') = (d, i, j, k) then Some v else rd s x i' j' k')"
proof -
  let ?p = "page_of g"
  note M = assms(3) [unfolded maps_def] and Q = maps_high [OF assms(1,3)]
  have mp: "MAP_NR ?p = MAP_NR g" by (rule MAP_NR_page_of)
  have f: "frame s ?p" using Q(1) assms(5) by (simp add: frame_def mp)
  have one: "mem_map s (MAP_NR ?p) = 1" using acctD(10) [OF assms(1), of t j] M assms(4,5) by (auto simp: pte_ok_def mp)
  have sp: "page_of (slot ?p n) = ?p" if "n < 1024" for n using page_of_slot [OF page_of_aligned that] .
  have out: "page_of a \<noteq> ?p \<Longrightarrow> ram s' a = ram s a" for a using sp [OF assms(6)] by (auto simp: s'_def)
  show a: "acct D H T ext s'" unfolding s'_def
    by (rule acct_ram [OF assms(1) _ Q(3)]) (use one sp [OF assms(6)] in auto)
  show "kept s s'" by (rule grown_kept [of "{?p}"]) (use sp [OF assms(6)] assms(5) mp in \<open>auto simp: s'_def intro: grown_store\<close>)
  have nodes: "ram s' (slot f n) = ram s (slot f n)" if "f \<in> set D \<union> T" "n < 1024" for f n
    using out page_of_slot [OF acct_aligned [OF assms(1) that(1)] that(2)] Q(3) that(1) by metis
  have "(\<Sum>f\<in>T. refs (ram s) f ?p) \<le> 1" using acctD(11) [OF assms(1) f] one users_split [OF assms(1), of "ram s" ?p] by simp
  note U = reference_unique [OF acctD(2) [OF assms(1)] this]
  show "rd s' x i' j' k' = (if (x, i', j', k') = (d, i, j, k) then Some v else rd s x i' j' k')"
    if x: "x \<in> set D" "i' < 1024" "j' < 1024" "k' < 1024"
  proof (cases "(x, i', j', k') = (d, i, j, k)")
    case True
    have "\<not> reserved s (ram s (slot d i))"
      using acctD(5) [OF assms(1), of t] M MAP_NR_page_of [of "ram s (slot d i)"] by (auto simp: frame_def names_def)
    then show ?thesis using True M nodes [of d i] nodes [of t j] assms(2) by (auto simp: rd_def names_def s'_def Let_def)
  next
    case False
    have "rd s' x i' j' k' = rd s x i' j' k'"
    proof (rule rd_cong [OF assms(1) x(1) _ _ x(2-4)])
      show "\<forall>p. reserved s' p = reserved s p" by (simp add: s'_def)
      show "\<forall>i<1024. ram s' (slot x i) = ram s (slot x i)" using nodes x(1) by blast
      fix u assume u: "u \<in> T" "names (ram s (slot x i')) u"
      let ?h = "ram s (slot u j')"
      have e: "ram s' (slot u j') = ?h" using nodes u(1) x(3) by blast
      have "ram s' (slot (page_of ?h) k') = ram s (slot (page_of ?h) k')" if h: "present ?h"
      proof (rule ccontr)
        assume "ram s' (slot (page_of ?h) k') \<noteq> ram s (slot (page_of ?h) k')"
        then have "slot (page_of ?h) k' = slot ?p k" by (auto simp: s'_def split: if_splits)
        then have eq: "page_of ?h = ?p" "k' = k" using slot_inj [OF page_of_aligned page_of_aligned x(4) assms(6)] by blast+
        then have "u = t" "j' = j" using U [of u t j' j] u(1) M x(3) h by (auto simp: names_def)
        moreover have "x = d" "i' = i" using table_unique [OF assms(1), of t x d i' i] M u \<open>u = t\<close> x(1,2) assms(2) by auto
        ultimately show False using False eq(2) by simp
      qed
      then show "present (ram s' (slot u j')) = present ?h \<and>
          (present ?h \<longrightarrow> ram s' (slot (page_of (ram s' (slot u j'))) k') = ram s (slot (page_of ?h) k'))" by (simp add: e)
    qed
    then show ?thesis by (simp only: False if_False)
  qed
qed

section \<open>Processes\<close>

text \<open>\<open>L\<close>: the tasks that have an address space, each its own; \<open>ext\<close>: how often the rest of the kernel uses each page.\<close>

definition spaces_ok :: "(u32 \<Rightarrow> nat) \<Rightarrow> tptr list \<Rightarrow> vmm \<Rightarrow> bool" where
  "spaces_ok ext L s \<longleftrightarrow> distinct (map (cr3 s) L) \<and> (\<exists>T. acct (map (cr3 s) L) [] T ext s) \<and> swap_idle s \<and>
     reserved s (swapper_pg_dir s) \<and> bad_page_ok s \<and> task (kern s) ! 0 \<notin> Some ` set L"

definition space :: "vmm \<Rightarrow> tptr \<Rightarrow> u32 \<Rightarrow> u32 option" where
  "space s q a = rd s (cr3 s q) (dir_index a) (table_index a) (long_index a)"

text \<open>The pages a directory uses: itself, its tables and what they name.\<close>

definition space_pages :: "vmm \<Rightarrow> u32 \<Rightarrow> u32 set" where
  "space_pages s d = {d} \<union> {t. \<exists>i<1024. names (ram s (slot d i)) t} \<union>
     {p. \<exists>i<1024. \<exists>t. \<exists>j<1024. names (ram s (slot d i)) t \<and> \<not> reserved s t \<and> names (ram s (slot t j)) p}"

lemma long_indices:
  "long_index a = unat a div 4 mod 1024" "table_index a = unat a div 4 div 1024 mod 1024" "dir_index a = unat a div 4 div 1024 div 1024"
  by (simp_all add: dir_index_def table_index_def long_index_def div_mult2_eq [symmetric])

lemma same_long:
  "unat a div 4 = unat b div 4 \<longleftrightarrow> dir_index a = dir_index b \<and> table_index a = table_index b \<and> long_index a = long_index b"
proof
  assume h: "dir_index a = dir_index b \<and> table_index a = table_index b \<and> long_index a = long_index b"
  have "y = (y div 1024 div 1024 * 1024 + y div 1024 mod 1024) * 1024 + y mod 1024" for y :: nat by simp
  from this [of "unat a div 4"] this [of "unat b div 4"] show "unat a div 4 = unat b div 4"
    using h unfolding long_indices by metis
qed (simp add: long_indices)

lemma kept_ok:
  assumes "kept s s'" "swap_idle s" "reserved s (swapper_pg_dir s)" "bad_page_ok s"
  shows "swap_idle s'" "reserved s' (swapper_pg_dir s')" "bad_page_ok s'" "task (kern s') = task (kern s)"
    "current (kern s') = current (kern s)" "swapper_pg_dir s' = swapper_pg_dir s"
proof -
  note K = assms(1) [unfolded kept_def same_frame_def]
  show "swap_idle s'" "reserved s' (swapper_pg_dir s')" "task (kern s') = task (kern s)" "current (kern s') = current (kern s)"
    "swapper_pg_dir s' = swapper_pg_dir s" using K assms(2,3) by (auto simp: swap_idle_def)
  have "ram s' (slot (empty_bad_page s) k) = 0" if "k < 1024" for k
  proof -
    have "page_of (slot (empty_bad_page s) k) = empty_bad_page s" using assms(4) that page_of_slot by (auto simp: bad_page_ok_def)
    then have "MAP_NR (slot (empty_bad_page s) k) = MAP_NR (empty_bad_page s)" using MAP_NR_page_of by metis
    then show ?thesis using K assms(4) that by (auto simp: bad_page_ok_def)
  qed
  then show "bad_page_ok s'" using K assms(4) by (auto simp: bad_page_ok_def)
qed

lemma tables_iff:
  assumes "acct D [] T ext s"
  shows "t \<in> T \<longleftrightarrow> (\<exists>d\<in>set D. \<exists>i<1024. names (ram s (slot d i)) t) \<and> \<not> reserved s t"
proof
  note A = acctD [OF assms]
  assume t: "t \<in> T"
  have "(\<Sum>d\<in>set D. refs (ram s) d t) \<noteq> 0" using A(8) [OF t] unfolding count_list.simps by linarith
  then obtain d where d: "d \<in> set D" "refs (ram s) d t \<noteq> 0" using sum.not_neutral_contains_not_neutral by blast
  then have "\<exists>d\<in>set D. \<exists>i<1024. names (ram s (slot d i)) t" using refs_none [of "ram s" d t] by auto
  then show "(\<exists>d\<in>set D. \<exists>i<1024. names (ram s (slot d i)) t) \<and> \<not> reserved s t" using A(5) [of t] t by (simp add: frame_def)
next
  assume h: "(\<exists>d\<in>set D. \<exists>i<1024. names (ram s (slot d i)) t) \<and> \<not> reserved s t"
  then obtain d i where d: "d \<in> set D" "i < 1024" "names (ram s (slot d i)) t" by blast
  then have "\<not> reserved s (ram s (slot d i))" using h MAP_NR_page_of [of "ram s (slot d i)"] by (simp add: names_def)
  then show "t \<in> T" using acctD(9) [OF assms d(1,2)] d(3) by (auto simp: dir_ok_def names_def)
qed

lemma unused_iff:
  assumes "acct D [] T ext s"
  shows "users (ram s) D [] T p = 0 \<longleftrightarrow> (\<forall>d\<in>set D. p \<notin> space_pages s d)"
proof -
  let ?N = "\<lambda>f. \<forall>i<1024. \<not> names (ram s (slot f i)) p"
  have r0: "refs (ram s) f p = 0 \<longleftrightarrow> ?N f" for f by (simp add: refs_def)
  have "users (ram s) D [] T p = 0 \<longleftrightarrow> p \<notin> set D \<and> (\<forall>d\<in>set D. ?N d) \<and> (\<forall>t\<in>T. ?N t)"
    using acctD(2) [OF assms] by (simp add: users_def r0 count_list_0_iff ball_Un)
  also have "(\<forall>t\<in>T. ?N t) \<longleftrightarrow> (\<forall>d\<in>set D. \<forall>i<1024. \<forall>t. names (ram s (slot d i)) t \<and> \<not> reserved s t \<longrightarrow> ?N t)"
    using tables_iff [OF assms] by blast
  finally show ?thesis by (simp add: space_pages_def) blast
qed

text \<open>A page is free exactly when nobody uses it: nothing leaks and nothing is given up too early.\<close>

lemma free_iff_unused:
  assumes "spaces_ok ext L s"
  shows "free_pages s = {p. frame s p \<and> ext p = 0 \<and> (\<forall>q\<in>set L. p \<notin> space_pages s (cr3 s q))}"
proof -
  obtain T where a: "acct (map (cr3 s) L) [] T ext s" using assms by (auto simp: spaces_ok_def)
  have "p \<in> free_pages s \<longleftrightarrow> frame s p \<and> unat (mem_map s (MAP_NR p)) = 0" for p
    using word_unat_eq_iff [of "mem_map s (MAP_NR p)" 0] by (auto simp: free_pages_def frame_def)
  moreover have "unat (mem_map s (MAP_NR p)) = 0 \<longleftrightarrow> ext p = 0 \<and> (\<forall>q\<in>set L. p \<notin> space_pages s (cr3 s q))" if "frame s p" for p
    using acctD(11) [OF a that] unused_iff [OF a, of p] by auto
  ultimately show ?thesis by blast
qed

section \<open>Operations on address spaces\<close>

datatype outcome = Done | Failed | Killed

text \<open>Task \<open>p\<close> runs and forks: \<open>copy_page_tables\<close> for the new task \<open>c\<close>, when no memory can be reclaimed.\<close>

definition with_current :: "tptr \<Rightarrow> vmm \<Rightarrow> vmm" where
  "with_current p s = s\<lparr>kern := (kern s)\<lparr>current := p\<rparr>\<rparr>"

definition space_fork :: "sleeper \<Rightarrow> tptr \<Rightarrow> tptr \<Rightarrow> vmm \<Rightarrow> outcome \<times> vmm" where
  "space_fork env p c s =
     (case copy_page_tables no_reclaim env 1 c (with_current p s) of
        None \<Rightarrow> (Killed, s)
      | Some (r, s) \<Rightarrow> (if r = 0 then Done else Failed, s))"

definition space_exit :: "sleeper \<Rightarrow> tptr \<Rightarrow> vmm \<Rightarrow> outcome \<times> vmm" where
  "space_exit env p s = (case free_page_tables env 1 (Some p) s of None \<Rightarrow> (Killed, s) | Some s \<Rightarrow> (Done, s))"

text \<open>The entry for an address in the page table of a task.\<close>

definition pte_of :: "vmm \<Rightarrow> tptr \<Rightarrow> u32 \<Rightarrow> u32 option" where
  "pte_of s p a =
     (let e = ram s (PAGE_DIR_OFFSET (cr3 s p) a)
      in if present e \<and> \<not> reserved s e then Some (ram s (page_of e + PAGE_PTR a)) else None)"

text \<open>A task stores the long \<open>v\<close> at address \<open>a\<close> of a private page: the processor finds the entry, raises the
  write-protection fault where it must, and repeats the store. A task that has the bad page does not get so far: it has
  been killed.\<close>

definition space_write :: "tptr \<Rightarrow> u32 \<Rightarrow> u32 \<Rightarrow> vmm \<Rightarrow> outcome \<times> vmm" where
  "space_write p a v s =
     (case pte_of s p a of
        None \<Rightarrow> (Failed, s)
      | Some g \<Rightarrow>
          if \<not> present g \<or> g AND PAGE_COW = 0 then (Failed, s)
          else case (if g AND PAGE_RW \<noteq> 0 then Some s else do_wp_page no_reclaim 1 a p 1 s) of
                 None \<Rightarrow> (Killed, s)
               | Some s \<Rightarrow>
                   (case pte_of s p a of
                      None \<Rightarrow> (Killed, s)
                    | Some g \<Rightarrow>
                        if reserved s g then (Killed, s) else (Done, store (slot (page_of g) (long_index a)) v s)))"

text \<open>Room for another reference to each page.\<close>

definition counts_low :: "vmm \<Rightarrow> bool" where
  "counts_low s \<longleftrightarrow> (\<forall>p. frame s p \<longrightarrow> unat (mem_map s (MAP_NR p)) < 16384)"

lemma spaces_okD:
  assumes "spaces_ok ext L s"
  shows "distinct (map (cr3 s) L)" "swap_idle s" "reserved s (swapper_pg_dir s)" "bad_page_ok s" "task (kern s) ! 0 \<notin> Some ` set L"
    "distinct L"
  using assms distinct_map [of "cr3 s" L] by (auto simp: spaces_ok_def)

lemma spaces_okI:
  assumes "kept s s'" "spaces_ok ext L s" "distinct (map (cr3 s') L')" "acct (map (cr3 s') L') [] T ext s'"
    "task (kern s) ! 0 \<notin> Some ` set L'"
  shows "spaces_ok ext L' s'"
  using kept_ok [OF assms(1)] spaces_okD [OF assms(2)] assms(3-5) unfolding spaces_ok_def by auto

lemma space_same: "same_spaces D s s' \<Longrightarrow> cr3 s' q = cr3 s q \<Longrightarrow> cr3 s q \<in> set D \<Longrightarrow> space s' q = space s q"
  by (auto simp: same_spaces_def space_def fun_eq_iff)

lemma copy_page_tables_spaces:
  assumes "spaces_ok ext L s" "current (kern s) \<in> set L" "c \<notin> set L" "task (kern s) ! 0 \<noteq> Some c" "counts_low s"
  shows "\<exists>r s'. copy_page_tables no_reclaim env (Suc n) c s = Some (r, s') \<and> (\<forall>q\<in>set L. space s' q = space s q) \<and>
           (r = 0 \<and> spaces_ok ext (c # L) s' \<and> space s' c = space s (current (kern s)) \<or>
            r = - ENOMEM \<and> spaces_ok ext L s' \<and> card (free_pages s) \<le> card (rest s (cr3 s (current (kern s))) 0))"
proof -
  let ?D = "map (cr3 s) L" and ?p = "current (kern s)"
  note O = spaces_okD [OF assms(1)]
  obtain T where a: "acct ?D [] T ext s" using assms(1) by (auto simp: spaces_ok_def)
  have keep: "cr3 s'' q = cr3 s q" if "cr3 s'' = cr3 s \<or> (\<exists>x. cr3 s'' = (cr3 s)(c := x))" "q \<in> set L" for s'' q
    using that assms(3) by auto
  have low: "\<forall>p. frame s p \<longrightarrow> unat (mem_map s (MAP_NR p)) < 16384" using assms(5) by (simp add: counts_low_def)
  consider s1 T' d' where "copy_page_tables no_reclaim env (Suc n) c s = Some (0, s1)" "acct (d' # ?D) [] T' ext s1"
      "cr3 s1 = (cr3 s)(c := d')" "d' \<notin> set ?D" "kept s s1" "same_spaces ?D s s1"
      "\<forall>i<1024. \<forall>j<1024. \<forall>k<1024. rd s1 d' i j k = rd s (cr3 s ?p) i j k"
    | s1 T' where "copy_page_tables no_reclaim env (Suc n) c s = Some (- ENOMEM, s1)" "acct ?D [] T' ext s1"
      "cr3 s1 = cr3 s \<or> cr3 s1 = (cr3 s)(c := swapper_pg_dir s)" "kept s s1" "same_spaces ?D s s1"
      "card (free_pages s) \<le> card (rest s (cr3 s ?p) 0)"
    using copy_page_tables_ok [OF a refl _ O(2) assms(4) O(3) low, of env n] assms(2) by auto
  then show ?thesis
  proof cases
    case (1 s1 T' d')
    have c: "map (cr3 s1) L = ?D" unfolding map_eq_conv using keep 1(3) by blast
    have cm: "map (cr3 s1) (c # L) = d' # ?D" unfolding list.map c by (simp add: 1(3))
    have "spaces_ok ext (c # L) s1"
    proof (rule spaces_okI [OF 1(5) assms(1)])
      show "distinct (map (cr3 s1) (c # L))" "acct (map (cr3 s1) (c # L)) [] T' ext s1"
        unfolding cm using O(1) 1(2,4) by simp_all
    qed (use O(5) assms(4) in auto)
    moreover have "space s1 c = space s ?p" using 1(3,7) by (simp add: space_def fun_eq_iff)
    moreover have "space s1 q = space s q" if "q \<in> set L" for q
      using space_same [OF 1(6), of q] keep [of s1 q] 1(3) that by auto
    ultimately show ?thesis using 1(1) by auto
  next
    case (2 s1 T')
    have c: "map (cr3 s1) L = ?D" unfolding map_eq_conv using keep 2(3) by blast
    have "spaces_ok ext L s1"
    proof (rule spaces_okI [OF 2(4) assms(1)])
      show "distinct (map (cr3 s1) L)" "acct (map (cr3 s1) L) [] T' ext s1" unfolding c using O(1) 2(2) by simp_all
    qed (use O(5) in auto)
    moreover have "space s1 q = space s q" if "q \<in> set L" for q
      using space_same [OF 2(5), of q] keep [of s1 q] 2(3) that by auto
    ultimately show ?thesis using 2(1,6) by auto
  qed
qed

lemma with_current_same:
  "spaces_ok ext L (with_current p s) = spaces_ok ext L s" "space (with_current p s) = space s"
  "counts_low (with_current p s) = counts_low s" "current (kern (with_current p s)) = p"
  "task (kern (with_current p s)) = task (kern s)"
  by (simp_all add: spaces_ok_def with_current_def swap_idle_def bad_page_ok_def space_def rd_def fun_eq_iff counts_low_def frame_def Let_def)

definition fork_fits :: "tptr \<Rightarrow> vmm \<Rightarrow> bool" where
  "fork_fits c s \<longleftrightarrow> counts_low s \<and> task (kern s) ! 0 \<noteq> Some c"

lemma space_fork_ok:
  assumes "spaces_ok ext L s" "p \<in> set L" "c \<notin> set L" "fork_fits c s" "space_fork env p c s = (r, s')"
  shows "(r = Done \<and> spaces_ok ext (c # L) s' \<and> space s' c = space s p \<or> r = Failed \<and> spaces_ok ext L s') \<and>
         (\<forall>q\<in>set L. space s' q = space s q)"
proof -
  obtain r1 s1 where "copy_page_tables no_reclaim env 1 c (with_current p s) = Some (r1, s1)" "\<forall>q\<in>set L. space s1 q = space s q"
      "r1 = 0 \<and> spaces_ok ext (c # L) s1 \<and> space s1 c = space s p \<or> r1 = - ENOMEM \<and> spaces_ok ext L s1"
    using copy_page_tables_spaces [of ext L "with_current p s" c env 0] assms(1-4) by (auto simp: with_current_same fork_fits_def)
  then show ?thesis using assms(5) by (auto simp: space_fork_def)
qed

lemma remove1_map_inj: "inj_on f (set xs) \<Longrightarrow> x \<in> set xs \<Longrightarrow> remove1 (f x) (map f xs) = map f (remove1 x xs)"
  by (induction xs) (auto simp: inj_on_def)

lemma free_page_tables_spaces:
  assumes "spaces_ok ext L s" "p \<in> set L"
  shows "\<exists>s'. free_page_tables env (Suc n) (Some p) s = Some s' \<and> spaces_ok ext (remove1 p L) s' \<and>
              (\<forall>q\<in>set (remove1 p L). space s' q = space s q)"
proof -
  let ?D = "map (cr3 s) L" and ?c = "(cr3 s)(p := swapper_pg_dir s)"
  note O = spaces_okD [OF assms(1)]
  obtain T where a: "acct ?D [] T ext s" using assms(1) by (auto simp: spaces_ok_def)
  have d: "cr3 s p \<in> set ?D" using assms(2) by simp
  have "cr3 s p \<noteq> swapper_pg_dir s" using acctD(5) [OF a, of "cr3 s p"] d O(3) by (auto simp: frame_def)
  moreover have "task (kern s) ! 0 \<noteq> Some p" using O(5) assms(2) by auto
  ultimately obtain s1 T' where s1: "free_page_tables env (Suc n) (Some p) s = Some s1" "acct (remove1 (cr3 s p) ?D) [] T' ext s1"
      "released {} (s\<lparr>cr3 := ?c\<rparr>) s1"
    using free_page_tables_ok [OF a refl d, of env n] O(2) by auto
  have c1: "cr3 s1 = ?c" using s1(3) by (simp add: released_def same_frame_def)
  have pr: "p \<notin> set (remove1 p L)" using O(6) by simp
  have inj: "inj_on (cr3 s) (set L)" using O(1) by (simp add: distinct_map)
  have m: "map (cr3 s1) (remove1 p L) = map (cr3 s) (remove1 p L)" using pr by (simp add: c1)
  have rm: "remove1 (cr3 s p) ?D = map (cr3 s) (remove1 p L)" using remove1_map_inj [OF inj assms(2)] by simp
  have dd: "distinct (map (cr3 s) (remove1 p L))" using O(1) by (metis distinct_remove1 rm)
  have "kept s s1" using kept_cr3 released_kept [OF s1(3)] kept_trans by blast
  then have "spaces_ok ext (remove1 p L) s1"
  proof (rule spaces_okI [OF _ assms(1)])
    show "distinct (map (cr3 s1) (remove1 p L))" "acct (map (cr3 s1) (remove1 p L)) [] T' ext s1"
      unfolding m using dd s1(2) rm by simp_all
  qed (use O(5) set_remove1_eq [OF O(6)] in auto)
  moreover have "space s1 q = space s q" if "q \<in> set (remove1 p L)" for q
  proof -
    have "q \<noteq> p" "cr3 s q \<in> set (remove1 (cr3 s p) ?D)" using that pr rm by auto
    then show ?thesis using rd_released [OF s1(2) _ s1(3)] by (simp add: space_def c1 fun_eq_iff)
  qed
  ultimately show ?thesis using s1(1) by blast
qed

lemma space_exit_ok:
  assumes "spaces_ok ext L s" "p \<in> set L" "space_exit env p s = (r, s')"
  shows "r = Done \<and> spaces_ok ext (remove1 p L) s' \<and> (\<forall>q\<in>set (remove1 p L). space s' q = space s q)"
  using free_page_tables_spaces [OF assms(1,2), of env 0] assms(3) by (auto simp: space_exit_def)

lemma space_step:
  assumes "spaces_ok ext L s" "p \<in> set L" "acct (map (cr3 s) L) [] T ext s'" "kept s s'" "cr3 s' = cr3 s"
  shows "spaces_ok ext L s'"
  by (rule spaces_okI [OF assms(4,1)]) (use spaces_okD [OF assms(1)] assms(3,5) in auto)

lemma pte_of_maps:
  assumes "acct D H T ext s" "cr3 s p \<in> set D"
  shows "pte_of s p a = Some g \<and> present g \<longleftrightarrow> (\<exists>t. maps s T (cr3 s p) (dir_index a) (table_index a) t g)"
proof -
  let ?e = "ram s (slot (cr3 s p) (dir_index a))"
  have "present ?e \<and> \<not> reserved s ?e \<longleftrightarrow> present ?e \<and> page_of ?e \<in> T"
    using acctD(9) [OF assms, of "dir_index a"] acctD(5) [OF assms(1), of "page_of ?e"] MAP_NR_page_of [of ?e]
    by (auto simp: dir_ok_def frame_def)
  then show ?thesis by (auto simp: pte_of_def Let_def maps_def names_def PAGE_DIR_OFFSET_slot PAGE_PTR_slot)
qed

text \<open>The fault, seen from the tasks.\<close>

lemma do_wp_page_spaces:
  assumes "spaces_ok ext L s" "p \<in> set L" "pte_of s p a = Some g" "present g" "g AND PAGE_COW \<noteq> 0" "g AND PAGE_RW = 0"
  shows "\<exists>s' g'. do_wp_page no_reclaim (Suc n) a p user_esp s = Some s' \<and> spaces_ok ext L s' \<and>
           (\<forall>q\<in>set L. q \<noteq> p \<longrightarrow> space s' q = space s q) \<and> cr3 s' = cr3 s \<and> pte_of s' p a = Some g' \<and> present g' \<and>
           (private_rw g' \<and> \<not> reserved s' g' \<and> mem_map s' (MAP_NR g') = 1 \<and> space s' p = space s p \<or>
            reserved s' g' \<and> free_pages s = {})"
proof -
  let ?D = "map (cr3 s) L" and ?d = "cr3 s p" and ?i = "dir_index a" and ?j = "table_index a"
  note O = spaces_okD [OF assms(1)]
  obtain T where a: "acct ?D [] T ext s" using assms(1) by (auto simp: spaces_ok_def)
  have d: "?d \<in> set ?D" using assms(2) by simp
  obtain t where m: "maps s T ?d ?i ?j t g" using pte_of_maps [OF a d] assms(3,4) by blast
  obtain s' where s': "do_wp_page no_reclaim (Suc n) a p user_esp s = Some s'" "faulted ?D [] T ext ?d ?i ?j t s s'"
    using do_wp_page_ok [OF a refl d m assms(5,6) O(4)] by blast
  obtain g' where f: "acct ?D [] T ext s'" "kept s s'" "cr3 s' = cr3 s" "maps s' T ?d ?i ?j t g'"
      "private_rw g' \<and> \<not> reserved s' g' \<or> reserved s' g' \<and> free_pages s = {}"
      "\<forall>x\<in>set ?D. \<forall>i'<1024. \<forall>j'<1024. \<forall>k<1024. (x, i', j') \<noteq> (?d, ?i, ?j) \<or> \<not> reserved s' g' \<longrightarrow> rd s' x i' j' k = rd s x i' j' k"
    using s'(2) unfolding faulted_def by blast
  have "space s' q = space s q" if "q \<in> set L" "q \<noteq> p \<or> \<not> reserved s' g'" for q
  proof -
    have "cr3 s q = ?d \<longrightarrow> q = p" using O(1) that(1) assms(2) by (auto simp: distinct_map inj_on_def)
    then show ?thesis using f(3,6) that by (auto simp: space_def fun_eq_iff)
  qed
  moreover have "pte_of s' p a = Some g'" "present g'" using pte_of_maps [OF f(1), of p a g'] d f(3,4) by auto
  moreover have "mem_map s' (MAP_NR g') = 1" if "private_rw g'" "\<not> reserved s' g'"
    using acctD(10) [OF f(1), of t ?j] f(4) that by (auto simp: maps_def pte_ok_def)
  ultimately show ?thesis using s'(1) space_step [OF assms(1,2) f(1-3)] f(3,5) assms(2) by blast
qed

lemma space_store:
  fixes v :: u32
  assumes "spaces_ok ext L s" "p \<in> set L" "pte_of s p a = Some g" "present g" "private_rw g" "\<not> reserved s g"
  defines "s' \<equiv> store (slot (page_of g) (long_index a)) v s"
  shows "spaces_ok ext L s'" "\<forall>q\<in>set L. q \<noteq> p \<longrightarrow> space s' q = space s q"
    "space s' p = (\<lambda>b. if unat b div 4 = unat a div 4 then Some v else space s p b)"
proof -
  let ?D = "map (cr3 s) L" and ?d = "cr3 s p" and ?i = "dir_index a" and ?j = "table_index a" and ?k = "long_index a"
  note O = spaces_okD [OF assms(1)]
  obtain T where a: "acct ?D [] T ext s" using assms(1) by (auto simp: spaces_ok_def)
  have d: "?d \<in> set ?D" using assms(2) by simp
  obtain t where m: "maps s T ?d ?i ?j t g" using pte_of_maps [OF a d] assms(3,4) by blast
  note P = private_store [OF a d m assms(5,6) index_bounds(3) [of a], where v = v, folded s'_def]
  show "spaces_ok ext L s'" using space_step [OF assms(1,2) P(1,2)] by (simp add: s'_def)
  have sp: "space s' q b = (if q = p \<and> unat b div 4 = unat a div 4 then Some v else space s q b)" if q: "q \<in> set L" for q b
  proof -
    have "cr3 s q \<in> set ?D" using q by simp
    note P(3) [OF this index_bounds, of b b b]
    moreover have "cr3 s q = ?d \<longrightarrow> q = p" using O(1) q assms(2) by (auto simp: distinct_map inj_on_def)
    moreover have "cr3 s' = cr3 s" by (simp add: s'_def)
    ultimately show ?thesis using same_long [of b a] by (auto simp: space_def)
  qed
  show "\<forall>q\<in>set L. q \<noteq> p \<longrightarrow> space s' q = space s q"
    "space s' p = (\<lambda>b. if unat b div 4 = unat a div 4 then Some v else space s p b)"
    using sp assms(2) by (auto simp: fun_eq_iff)
qed

lemma space_write_ok:
  assumes "spaces_ok ext L s" "p \<in> set L" "space_write p a v s = (r, s')"
  shows "spaces_ok ext L s' \<and> (\<forall>q\<in>set L. q \<noteq> p \<longrightarrow> space s' q = space s q) \<and>
         (r = Done \<longrightarrow> space s' p = (\<lambda>b. if unat b div 4 = unat a div 4 then Some v else space s p b)) \<and>
         (r = Failed \<longrightarrow> s' = s)"
proof (cases "\<exists>g. pte_of s p a = Some g \<and> present g \<and> g AND PAGE_COW \<noteq> 0")
  case False
  then have "(r, s') = (Failed, s)" using assms(3) by (auto simp: space_write_def split: option.splits if_splits)
  then show ?thesis using assms(1) by simp
next
  case True
  then obtain g where g: "pte_of s p a = Some g" "present g" "g AND PAGE_COW \<noteq> 0" by blast
  let ?w = "if g AND PAGE_RW \<noteq> 0 then Some s else do_wp_page no_reclaim 1 a p 1 s"
  have f: "\<exists>s1 g1. ?w = Some s1 \<and> spaces_ok ext L s1 \<and> (\<forall>q\<in>set L. q \<noteq> p \<longrightarrow> space s1 q = space s q) \<and> pte_of s1 p a = Some g1 \<and>
      present g1 \<and> (reserved s1 g1 \<or> private_rw g1 \<and> space s1 p = space s p)"
    using do_wp_page_spaces [OF assms(1,2) g, of 0 1] g assms(1) by (cases "g AND PAGE_RW = 0") (auto simp: private_rw_def)
  then obtain s1 g1 where s1: "?w = Some s1" "spaces_ok ext L s1" "\<forall>q\<in>set L. q \<noteq> p \<longrightarrow> space s1 q = space s q"
      "pte_of s1 p a = Some g1" "present g1" "reserved s1 g1 \<or> private_rw g1 \<and> space s1 p = space s p" by blast
  have run: "(r, s') = (if reserved s1 g1 then (Killed, s1) else (Done, store (slot (page_of g1) (long_index a)) v s1))"
    using assms(3) g s1(1,4) by (simp add: space_write_def)
  show ?thesis
  proof (cases "reserved s1 g1")
    case True then show ?thesis using run s1(2,3) by auto
  next
    case False
    then show ?thesis using space_store [OF s1(2) assms(2) s1(4,5) _ False, of v] run s1(3,6) by auto
  qed
qed

end
