(* ===== verification/Pgtrace.thy ===== *)
theory Pgtrace
  imports Pgproc
begin

text \<open>
  Address spaces as a service to tasks: the locale \<open>private_spaces\<close> states what forking, ending and writing promise, and derives
  that every run of them is one of a machine in which each task has a memory of its own. It is interpreted on
  \<^verbatim>\<open>copy_page_tables\<close>, \<^verbatim>\<open>free_page_tables\<close> and \<^verbatim>\<open>do_wp_page\<close>. The properties of the page tables follow.
\<close>

section \<open>Private memories\<close>

text \<open>The specification: each task has a memory of its own. A new task starts with a copy of its parent's, a store changes
  the memory of the task that does it, and a task that is killed has no memory any more.\<close>

datatype ('t, 'a, 'v) request = Fork 't 't | Exit 't | Write 't 'a 'v

fun spec_op :: "('a \<Rightarrow> 'a \<Rightarrow> bool) \<Rightarrow> ('t, 'a, 'v) request \<times> outcome \<Rightarrow> ('t \<rightharpoonup> ('a \<rightharpoonup> 'v)) \<Rightarrow> ('t \<rightharpoonup> ('a \<rightharpoonup> 'v))" where
  "spec_op same (Fork p c, Done) m = m(c := m p)"
| "spec_op same (Exit p, Done) m = m(p := None)"
| "spec_op same (Write p a v, Done) m = m(p := map_option (\<lambda>mem b. if same a b then Some v else mem b) (m p))"
| "spec_op same (Write p a v, Killed) m = m(p := None)"
| "spec_op same _ m = m"

text \<open>A run of requests of the tasks in the list, each with its outcome.\<close>

inductive space_run :: "('t \<Rightarrow> 's \<Rightarrow> bool) \<Rightarrow> ('t \<Rightarrow> 't \<Rightarrow> 's \<Rightarrow> outcome \<times> 's) \<Rightarrow> ('t \<Rightarrow> 's \<Rightarrow> outcome \<times> 's) \<Rightarrow>
    ('t \<Rightarrow> 'a \<Rightarrow> 'v \<Rightarrow> 's \<Rightarrow> outcome \<times> 's) \<Rightarrow> 't list \<Rightarrow> 's \<Rightarrow> (('t, 'a, 'v) request \<times> outcome) list \<Rightarrow> 't list \<Rightarrow> 's \<Rightarrow> bool"
  for fits fork quit put where
  run_end: "space_run fits fork quit put L s [] L s"
| run_fork: "p \<in> set L \<Longrightarrow> c \<notin> set L \<Longrightarrow> fits c s \<Longrightarrow> fork p c s = (r, s1) \<Longrightarrow>
    space_run fits fork quit put (if r = Done then c # L else L) s1 tr L' s' \<Longrightarrow>
    space_run fits fork quit put L s ((Fork p c, r) # tr) L' s'"
| run_exit: "p \<in> set L \<Longrightarrow> quit p s = (r, s1) \<Longrightarrow> space_run fits fork quit put (remove1 p L) s1 tr L' s' \<Longrightarrow>
    space_run fits fork quit put L s ((Exit p, r) # tr) L' s'"
| run_write: "p \<in> set L \<Longrightarrow> put p a v s = (r, s1) \<Longrightarrow> space_run fits fork quit put L s1 tr L' s' \<Longrightarrow>
    space_run fits fork quit put L s ((Write p a v, r) # tr) L' s'"

locale private_spaces =
  fixes ok :: "'t list \<Rightarrow> 's \<Rightarrow> bool" and mem :: "'s \<Rightarrow> 't \<Rightarrow> 'a \<rightharpoonup> 'v" and same :: "'a \<Rightarrow> 'a \<Rightarrow> bool"
    and fits :: "'t \<Rightarrow> 's \<Rightarrow> bool" and fork :: "'t \<Rightarrow> 't \<Rightarrow> 's \<Rightarrow> outcome \<times> 's" and quit :: "'t \<Rightarrow> 's \<Rightarrow> outcome \<times> 's"
    and put :: "'t \<Rightarrow> 'a \<Rightarrow> 'v \<Rightarrow> 's \<Rightarrow> outcome \<times> 's"
  assumes once: "ok L s \<Longrightarrow> distinct L"
    and fork_law: "ok L s \<Longrightarrow> p \<in> set L \<Longrightarrow> c \<notin> set L \<Longrightarrow> fits c s \<Longrightarrow> fork p c s = (r, s') \<Longrightarrow>
      (r = Done \<and> ok (c # L) s' \<and> mem s' c = mem s p \<or> r = Failed \<and> ok L s') \<and> (\<forall>q\<in>set L. mem s' q = mem s q)"
    and exit_law: "ok L s \<Longrightarrow> p \<in> set L \<Longrightarrow> quit p s = (r, s') \<Longrightarrow>
      r = Done \<and> ok (remove1 p L) s' \<and> (\<forall>q\<in>set (remove1 p L). mem s' q = mem s q)"
    and write_law: "ok L s \<Longrightarrow> p \<in> set L \<Longrightarrow> put p a v s = (r, s') \<Longrightarrow>
      ok L s' \<and> (\<forall>q\<in>set L. q \<noteq> p \<longrightarrow> mem s' q = mem s q) \<and>
      (r = Done \<longrightarrow> mem s' p = (\<lambda>b. if same a b then Some v else mem s p b)) \<and> (r = Failed \<longrightarrow> s' = s)"
begin

definition agrees :: "('t \<rightharpoonup> ('a \<rightharpoonup> 'v)) \<Rightarrow> 't list \<Rightarrow> 's \<Rightarrow> bool" where
  "agrees m L s \<longleftrightarrow> (\<forall>q w. m q = Some w \<longrightarrow> q \<in> set L \<and> mem s q = w)"

lemma fork_agrees:
  assumes "ok L s" "agrees m L s" "p \<in> set L" "c \<notin> set L" "fits c s" "fork p c s = (r, s')"
  shows "ok (if r = Done then c # L else L) s'" "agrees (spec_op same (Fork p c, r) m) (if r = Done then c # L else L) s'"
  using fork_law [OF assms(1,3-6)] assms(2) by (auto simp: agrees_def split: if_splits)

lemma exit_agrees:
  assumes "ok L s" "agrees m L s" "p \<in> set L" "quit p s = (r, s')"
  shows "ok (remove1 p L) s'" "agrees (spec_op same (Exit p, r) m) (remove1 p L) s'"
  using exit_law [OF assms(1,3,4)] assms(2) set_remove1_eq [OF once [OF assms(1)]] by (auto simp: agrees_def split: if_splits)

lemma write_agrees:
  assumes "ok L s" "agrees m L s" "p \<in> set L" "put p a v s = (r, s')"
  shows "ok L s'" "agrees (spec_op same (Write p a v, r) m) L s'"
  using write_law [OF assms(1,3,4)] assms(2) by (cases r; auto simp: agrees_def split: if_splits)+

lemma run_agrees:
  assumes "space_run fits fork quit put L s tr L' s'" "ok L s" "agrees m L s"
  shows "ok L' s' \<and> agrees (fold (spec_op same) tr m) L' s'"
  using assms
proof (induction arbitrary: m rule: space_run.induct)
  case (run_fork p L c s r s1 tr L' s')
  then show ?case using fork_agrees [OF run_fork.prems run_fork.hyps(1-4)] by simp
next
  case (run_exit p L s r s1 tr L' s')
  then show ?case using exit_agrees [OF run_exit.prems run_exit.hyps(1,2)] by simp
next
  case (run_write p L a v s r s1 tr L' s')
  then show ?case using write_agrees [OF run_write.prems run_write.hyps(1,2)] by simp
qed simp

lemma run_private:
  assumes "space_run fits fork quit put L s tr L' s'" "ok L s"
    "fold (spec_op same) tr (\<lambda>q. if q \<in> set L then Some (mem s q) else None) q = Some w"
  shows "ok L' s'" "q \<in> set L'" "mem s' q = w"
proof -
  have "agrees (\<lambda>q. if q \<in> set L then Some (mem s q) else None) L s" by (simp add: agrees_def)
  note R = run_agrees [OF assms(1,2) this]
  show "ok L' s'" using R by blast
  show "q \<in> set L'" "mem s' q = w" using R assms(3) unfolding agrees_def by blast+
qed

end

abbreviation same_cell :: "u32 \<Rightarrow> u32 \<Rightarrow> bool" where
  "same_cell a b \<equiv> unat b div 4 = unat a div 4"

interpretation spaces: private_spaces "spaces_ok ext" space same_cell fork_fits "space_fork env" "space_exit env" space_write
  for ext env
  by (unfold_locales, rule spaces_okD(6), assumption, rule space_fork_ok, assumption+, rule space_exit_ok, assumption+,
      rule space_write_ok, assumption+)

section \<open>A small machine\<close>

text \<open>Nine pages: three belong to the kernel, one is the directory of task 2, one its page table, one its page, which it may
  not write to yet; three are free.\<close>

definition demo_vmm :: vmm where
  "demo_vmm =
     \<lparr>ram = (\<lambda>_. 0)(0x3000 := 0x4027, 0x4000 := 0x5225, 0x5000 := 42, 0x6000 := 0x7000, 0x7000 := 0x8000),
      high_memory = 0x9000, mem_map = (\<lambda>n. if n < 3 then 0x8000 else if n < 6 then 1 else 0),
      free_page_list = 0x6000, nr_free_pages = 3, secondary_page_list = 0, nr_secondary_pages = 0,
      last_free_pages = replicate 32 0, free_index = 0,
      kern = demo_kernel, cr3 = (\<lambda>_. 0x3000), swap_info = [], nr_swapfiles = 0, nr_swap_pages = 0, lock_queue = [],
      swapper_pg_dir = 0x1000, empty_bad_page = 0x2000, empty_bad_page_table = 0x1000\<rparr>"

lemma demo_frame: "frame demo_vmm p \<longleftrightarrow> p \<in> {0x3000, 0x4000, 0x5000, 0x6000, 0x7000, 0x8000}"
proof
  assume f: "frame demo_vmm p"
  then have p: "page_aligned p" "MAP_NR p < 9" "\<not> MAP_NR p < 3"
    using aligned_unat [of p] by (auto simp: frame_def demo_vmm_def word_less_nat_alt)
  then have "MAP_NR p = 3 \<or> MAP_NR p = 4 \<or> MAP_NR p = 5 \<or> MAP_NR p = 6 \<or> MAP_NR p = 7 \<or> MAP_NR p = 8" by linarith
  then have "unat p \<in> {12288, 16384, 20480, 24576, 28672, 32768}" using p(1) by (auto simp: aligned_unat)
  then show "p \<in> {0x3000, 0x4000, 0x5000, 0x6000, 0x7000, 0x8000}" by (auto simp: word_unat_eq_iff)
qed (auto simp: frame_def demo_vmm_def page_aligned_def MAP_NR_def)

lemma demo_free: "free_pages demo_vmm = {0x6000, 0x7000, 0x8000}"
proof -
  have "free_pages demo_vmm = {p. frame demo_vmm p \<and> mem_map demo_vmm (MAP_NR p) = 0}" by (auto simp: free_pages_def frame_def)
  also have "\<dots> = {0x6000, 0x7000, 0x8000}" unfolding demo_frame by (auto simp: demo_vmm_def MAP_NR_def)
  finally show ?thesis .
qed

lemma demo_pages_ok: "pages_ok demo_vmm"
proof -
  have "page_lists demo_vmm [0x6000, 0x7000, 0x8000] []"
    unfolding page_lists_def demo_free by (simp add: demo_vmm_def page_aligned_def)
  then show ?thesis by (auto simp: pages_ok_def)
qed

text \<open>All pages are empty but for their first longs.\<close>

lemma demo_ram:
  assumes "page_aligned p" "i < 1024"
  shows "ram demo_vmm (slot p i) = (if i = 0 then ram demo_vmm p else 0)"
proof -
  have "slot p i = q \<longleftrightarrow> p = q \<and> i = 0" if "q \<in> {0x3000, 0x4000, 0x5000, 0x6000, 0x7000, 0x8000}" for q
    using slot_eq_page [OF assms(1) _ assms(2), of q] that by (auto simp: page_aligned_def)
  then show ?thesis by (simp add: demo_vmm_def)
qed

lemma demo_refs:
  assumes "page_aligned f"
  shows "refs (ram demo_vmm) f p = of_bool (names (ram demo_vmm f) p)"
proof -
  have "{i. i < 1024 \<and> names (ram demo_vmm (slot f i)) p} = (if names (ram demo_vmm f) p then {0} else {})"
    using demo_ram [OF assms] by (auto split: if_splits)
  then show ?thesis by (simp add: refs_def)
qed

lemma demo_acct: "acct [0x3000] [] {0x4000} (\<lambda>_. 0) demo_vmm"
proof -
  have al: "page_aligned 0x3000" "page_aligned 0x4000" by (simp_all add: page_aligned_def)
  have n: "names 0x4027 p \<longleftrightarrow> p = 0x4000" "names 0x5225 p \<longleftrightarrow> p = 0x5000" for p by (auto simp: names_def page_of_def)
  have m: "ram demo_vmm 0x3000 = 0x4027" "ram demo_vmm 0x4000 = 0x5225" by (simp_all add: demo_vmm_def)
  have u: "users (ram demo_vmm) [0x3000] [] {0x4000} p = of_bool (p = 0x3000) + of_bool (p = 0x4000) + of_bool (p = 0x5000)" for p
    by (simp add: users_def demo_refs al m n)
  have "unat (mem_map demo_vmm (MAP_NR p)) = users (ram demo_vmm) [0x3000] [] {0x4000} p" if "frame demo_vmm p" for p
    using that unfolding demo_frame u by (auto simp: demo_vmm_def MAP_NR_def)
  moreover have "dir_ok demo_vmm {0x4000} (ram demo_vmm (slot 0x3000 i))" if "i < 1024" for i
    unfolding demo_ram [OF al(1) that] by (auto simp: m dir_ok_def demo_vmm_def page_of_def MAP_NR_def)
  moreover have "pte_ok demo_vmm (ram demo_vmm (slot 0x4000 i))" if "i < 1024" for i
    unfolding demo_ram [OF al(2) that] by (auto simp: m pte_ok_def demo_vmm_def page_of_def MAP_NR_def)
  moreover have "frame demo_vmm 0x3000" "frame demo_vmm 0x4000" by (simp_all add: demo_frame)
  moreover have "mem_map demo_vmm (MAP_NR 0x3000) = 1" "mem_map demo_vmm (MAP_NR 0x4000) = 1"
    by (simp_all add: demo_vmm_def MAP_NR_def)
  ultimately show ?thesis by (simp add: acct_def demo_pages_ok demo_refs al m n)
qed

lemma demo_spaces_ok: "spaces_ok (\<lambda>_. 0) [2] demo_vmm"
proof -
  have s: "cr3 demo_vmm 2 = 0x3000" "task (kern demo_vmm) ! 0 = Some 0" "swapper_pg_dir demo_vmm = 0x1000"
    "empty_bad_page demo_vmm = 0x2000" "high_memory demo_vmm = 0x9000"
    by (simp_all add: demo_vmm_def demo_kernel_def)
  have b: "page_aligned 0x2000" by (simp add: page_aligned_def)
  have "bad_page_ok demo_vmm" unfolding bad_page_ok_def s
    using demo_ram [OF b] b by (simp add: demo_vmm_def MAP_NR_def)
  moreover have "swap_idle demo_vmm" by (simp add: swap_idle_def demo_vmm_def)
  moreover have "reserved demo_vmm 0x1000" by (simp add: demo_vmm_def MAP_NR_def)
  ultimately show ?thesis unfolding spaces_ok_def using demo_acct by (auto simp: s)
qed

lemma demo_counts_low: "counts_low demo_vmm"
proof -
  have "mem_map demo_vmm (MAP_NR p) \<le> 1" if "frame demo_vmm p" for p
    using that unfolding demo_frame by (auto simp: demo_vmm_def MAP_NR_def)
  then have "unat (mem_map demo_vmm (MAP_NR p)) \<le> 1" if "frame demo_vmm p" for p using that by (auto simp: word_le_nat_alt)
  then show ?thesis unfolding counts_low_def by (meson le_less_trans one_less_numeral_iff semiring_norm(76))
qed

lemma demo_rest: "rest demo_vmm 0x3000 0 = {0x4000}"
proof -
  have al: "page_aligned 0x3000" by (simp add: page_aligned_def)
  have m: "ram demo_vmm 0x3000 = 0x4027" "\<not> reserved demo_vmm 0x4027" "page_of 0x4027 = 0x4000"
    by (simp_all add: demo_vmm_def MAP_NR_def page_of_def)
  have "t = 0x4000" if "i < 1024" "ram demo_vmm (slot 0x3000 i) \<noteq> 0" "t = page_of (ram demo_vmm (slot 0x3000 i))" for i t
    using that m unfolding demo_ram [OF al that(1)] by (auto split: if_splits)
  moreover have "ram demo_vmm (slot 0x3000 0) = 0x4027" using m(1) by simp
  ultimately show ?thesis using m unfolding rest_def by (auto intro!: exI [of _ "0 :: nat"])
qed

lemma demo_space: "space demo_vmm 2 0 = Some 42"
  by (simp add: space_def rd_def dir_index_def table_index_def long_index_def demo_vmm_def MAP_NR_def page_of_def)

section \<open>Results\<close>



text \<open>C3. A task that ends gives back its address space: \<open>free_page_tables\<close> ends, the other tasks keep theirs, and afterwards
  exactly those pages are free that no remaining task uses as a directory, as a page table or through an entry, and no other
  part of the kernel uses. So no page leaks, and none is freed that is still in use.\<close>

theorem free_page_tables_correct:
  assumes "spaces_ok ext L s" "p \<in> set L"
  shows "\<exists>s'. free_page_tables env (Suc n) (Some p) s = Some s' \<and> spaces_ok ext (remove1 p L) s' \<and>
              (\<forall>q\<in>set (remove1 p L). space s' q = space s q) \<and>
              free_pages s' = {a. frame s' a \<and> ext a = 0 \<and> (\<forall>q\<in>set (remove1 p L). a \<notin> space_pages s' (cr3 s' q))}"
proof -
  obtain s' where "free_page_tables env (Suc n) (Some p) s = Some s'" "spaces_ok ext (remove1 p L) s'"
      "\<forall>q\<in>set (remove1 p L). space s' q = space s q"
    using free_page_tables_spaces [OF assms] by blast
  then show ?thesis using free_iff_unused [of ext "remove1 p L" s'] by (intro exI [of _ s']) simp
qed

theorem free_page_tables_correct_witness:
  "\<exists>s'. free_page_tables (\<lambda>_ s. s) 1 (Some 2) demo_vmm = Some s' \<and> free_pages s' = {a. frame s' a}"
  using free_page_tables_correct [OF demo_spaces_ok, of 2 "\<lambda>_ s. s" 0] by auto





end
