(* ===== verification/Spec2Isabelle.thy ===== *)
theory Spec2Isabelle
  imports Mktime Vsprintf Ioport Sigdeliver Pipe Msg Sem Kmblocks Pgtrace
begin

text \<open>
  Verification of the core of a Linux 0.99 kernel (C, under \<^verbatim>\<open>src/\<close>).

  \<^bold>\<open>The program.\<close> A monolithic kernel. Its central state is the table of tasks (\<^verbatim>\<open>struct task_struct\<close>,
  \<^verbatim>\<open>include/linux/sched.h\<close>), linked as a ring for scheduling and as a family tree for \<^verbatim>\<open>wait\<close>. The clock interrupt and
  the scheduler choose who runs; a task that has to wait puts itself on a wait queue and calls the scheduler, and
  whoever provides what it waits for calls \<^verbatim>\<open>wake_up\<close>. Signals interrupt waits and are delivered on the way back to
  user mode. Processes are created by \<^verbatim>\<open>fork\<close>, end in \<^verbatim>\<open>do_exit\<close> and are collected by \<^verbatim>\<open>wait4\<close>. On top of this stand open
  files: descriptors shared between tasks, advisory locks on files, and pipes.

  \<^bold>\<open>Theories and sources.\<close>
  \<^item> \<open>Prelude\<close>: types of the machine (\<open>u8\<close>, \<open>u16\<close>, \<open>u32\<close>), error numbers, \<open>s32\<close> (the 32-bit signed value of an integer),
    shared lemmas.
  \<^item> \<open>Uaccess\<close>: user memory, \<^verbatim>\<open>include/asm/segment.h\<close>, and \<^verbatim>\<open>verify_area\<close> of \<^verbatim>\<open>mm/memory.c\<close>.
  \<^item> \<open>Mktime\<close>: \<^verbatim>\<open>kernel/mktime.c\<close>. \<open>kernel_mktime_correct\<close>: equal to the number of seconds of a reference calendar.
  \<^item> \<open>Vsprintf\<close>: \<^verbatim>\<open>kernel/vsprintf.c\<close>, \<^verbatim>\<open>lib/ctype.c\<close>. Printing a number and parsing it gives it back; the decimal
    conversions print the decimal digits.
  \<^item> \<open>Task\<close>: \<^verbatim>\<open>struct task_struct\<close>, the links between tasks (\<^verbatim>\<open>SET_LINKS\<close>, \<^verbatim>\<open>REMOVE_LINKS\<close>, \<^verbatim>\<open>for_each_task\<close>) and the record
    \<open>kernel\<close> of the global variables the later theories use.
  \<^item> \<open>Waitq\<close>: the circular lists of \<^verbatim>\<open>add_wait_queue\<close> and \<^verbatim>\<open>remove_wait_queue\<close> in an explicit heap, refined to lists through
    an interface locale; \<^verbatim>\<open>wake_up\<close> and \<^verbatim>\<open>wake_up_interruptible\<close>. Later theories use queues as lists of tasks.
  \<^item> \<open>Signals\<close>: \<^verbatim>\<open>send_sig\<close>, \<^verbatim>\<open>generate\<close>, the \<^verbatim>\<open>kill\<close> family and orphaned process groups of \<^verbatim>\<open>kernel/exit.c\<close>; \<^verbatim>\<open>sigaction\<close>,
    \<^verbatim>\<open>signal\<close> and the masks of \<^verbatim>\<open>kernel/signal.c\<close>.
  \<^item> \<open>Itimer\<close>: \<^verbatim>\<open>kernel/itimer.c\<close>.
  \<^item> \<open>Sched\<close>: \<^verbatim>\<open>schedule\<close>, \<^verbatim>\<open>sleep_on\<close>, the timer list, the clock tick and the small system calls of \<^verbatim>\<open>kernel/sched.c\<close>.
  \<^item> \<open>Sys\<close>: identity, groups, sessions, limits, priorities and the time of day in \<^verbatim>\<open>kernel/sys.c\<close>.
  \<^item> \<open>Process\<close>: \<^verbatim>\<open>fork\<close> (\<^verbatim>\<open>kernel/fork.c\<close>), exit with re-parenting, and \<^verbatim>\<open>wait4\<close> (\<^verbatim>\<open>kernel/exit.c\<close>).
  \<^item> \<open>Sigdeliver\<close>: \<^verbatim>\<open>do_signal\<close>, the frame on the user's stack, \<^verbatim>\<open>sigreturn\<close> and \<^verbatim>\<open>sigsuspend\<close> (\<^verbatim>\<open>kernel/signal.c\<close>).
  \<^item> \<open>Ioport\<close>: \<^verbatim>\<open>kernel/ioport.c\<close> and \<^verbatim>\<open>kernel/dma.c\<close>.
  \<^item> \<open>Locks\<close>, \<open>Fcntl\<close>: the lists of advisory locks and the calls on them (\<^verbatim>\<open>fs/locks.c\<close>), descriptors (\<^verbatim>\<open>fs/fcntl.c\<close>, the
    closing half of \<^verbatim>\<open>fs/open.c\<close>), the table of open files (\<^verbatim>\<open>fs/file_table.c\<close>).
  \<^item> \<open>Pipe\<close>: \<^verbatim>\<open>fs/pipe.c\<close> and \<^verbatim>\<open>fs/fifo.c\<close>.
  \<^item> \<open>Ipc\<close>, \<open>Msg\<close>, \<open>Sem\<close>: permissions and dispatch of System V IPC (\<^verbatim>\<open>ipc/util.c\<close>), message queues (\<^verbatim>\<open>ipc/msg.c\<close>) and semaphores with
    their undo structures (\<^verbatim>\<open>ipc/sem.c\<close>).
  \<^item> \<open>Pages\<close>: the page allocator: the map of user counts and the free lists, which are threaded through the free pages
    themselves (\<^verbatim>\<open>free_page\<close> and \<^verbatim>\<open>__get_free_page\<close> of \<^verbatim>\<open>mm/swap.c\<close>, \<^verbatim>\<open>mem_init\<close> of \<^verbatim>\<open>mm/memory.c\<close>). Physical memory is a map from
    addresses to longs.
  \<^item> \<open>Kmalloc\<close>, \<open>Kmfree\<close>, \<open>Kmblocks\<close>: \<^verbatim>\<open>lib/malloc.c\<close> in the same memory. \<open>Kmalloc\<close> has the definitions and the invariant (chains
    of descriptors, chains of free blocks), \<open>Kmfree\<close> the lemmas on \<^verbatim>\<open>kfree_s\<close>, \<open>Kmblocks\<close> those on \<^verbatim>\<open>kmalloc\<close> and the properties.
  \<^item> \<open>Pgtable\<close>: page tables in the same memory (\<^verbatim>\<open>copy_page_tables\<close>, \<^verbatim>\<open>clear_page_tables\<close>, \<^verbatim>\<open>free_page_tables\<close>, \<^verbatim>\<open>do_wp_page\<close> of
    \<^verbatim>\<open>mm/memory.c\<close>) and the map of the swap devices (\<^verbatim>\<open>mm/swap.c\<close>). \<open>Pgacc\<close> has the invariant, which says that \<^verbatim>\<open>mem_map\<close> counts
    exactly the entries and tasks that use a page; \<open>Pgfree\<close>, \<open>Pgcopy\<close>, \<open>Pgspace\<close> and \<open>Pgwrite\<close> have the lemmas on freeing, copying, what a
    task finds through its tables, and the fault; \<open>Pgproc\<close> states them for tasks, \<open>Pgtrace\<close> has the interface and the properties.

  \<^bold>\<open>How code becomes definitions.\<close> A C function becomes a HOL function with its name that takes the state and returns the
  result and the new state; errors are negative numbers, as in the source. A C \<^verbatim>\<open>int\<close> or \<^verbatim>\<open>long\<close> is an \<open>int\<close> with \<open>s32\<close> where
  it can overflow; unsigned values and bit masks are words. Pointers to tasks, files, inodes and locks are addresses
  into maps of the state. A call that may sleep takes an argument \<open>env\<close>, what the rest of the system does between going
  to sleep and running again; the theorems on such calls hold for every \<open>env\<close> that keeps the invariant of the component.
  Code outside the modelled part that is called (loading of page tables, \<^verbatim>\<open>iput\<close>, \<^verbatim>\<open>get_pipe_inode\<close>, the tracer) is an
  argument as well.

  \<^bold>\<open>Loops and fuel.\<close> Loops over lists are structural recursions. Loops whose end depends on the state (re-parenting, the
  search for a process number, timers that expire, copying through a ring) take fuel and return \<open>None\<close> when it
  runs out; for each of them a theorem shows that a given amount is enough (the number of tasks, the length of the
  timer list, three rounds for the ring, \<open>2 ^ 20\<close> for loops over pages, which is the number of pages there are), except where the loop of the source really need not end, which is then itself
  proved (\<open>init_exit_never_returns\<close>, \<open>get_empty_filp_spins\<close>).

  \<^bold>\<open>What the theorems show.\<close>
  \<^item> Invariants: every way of creating, re-parenting and removing tasks keeps the links of the task table (\<open>Process\<close>);
    job-control signals never leave a stop and a continue signal pending together (\<open>Signals\<close>); descriptors and the
    counts of open files agree (\<open>Fcntl\<close>).
  \<^item> Refinement: wait queues as lists; timers as a multiset of absolute times; the lock list of a file as a map from
    owners and bytes to lock types; a pipe as a queue of bytes; a message queue as one queue for each type; the page allocator as a table of user
    counts; address spaces with copy-on-write as memories that tasks do not share.
  \<^item> Safety: \<^verbatim>\<open>SIGKILL\<close> and \<^verbatim>\<open>SIGSTOP\<close> can never be blocked, caught or ignored; unprivileged sequences of identity calls stay
    within the identities a task has; two processes never hold conflicting locks on a byte; a small write to a pipe
    is atomic, and so is a call on different semaphores, which the exit of the task undoes exactly; blocks of \<^verbatim>\<open>kmalloc\<close>
    never overlap, and the allocator never writes to a block that is in use; a page is free exactly when no task and no other part of the
    kernel uses it, after any number of forks, faults and exits.
  \<^item> Function: what \<^verbatim>\<open>schedule\<close> picks, whom \<^verbatim>\<open>kill\<close> reaches, what \<^verbatim>\<open>wait4\<close> returns, which descriptors \<^verbatim>\<open>dup\<close> and \<^verbatim>\<open>pipe\<close> give.
  \<^item> Termination and liveness: fork's search, the timer interrupt, signal delivery, woken sleepers.
  \<^item> Defects: a few theorems show behaviour that is not what the code or its comments intend (the end of \<^verbatim>\<open>init\<close>, exit
    codes erased by signals, the star in a format, restarted system calls, locks to the end of a file, identifiers of
    message queues after many removals, two operations on one semaphore).

  \<^bold>\<open>Interfaces.\<close> Locales state what clients rely on and are interpreted on the model: wait queues, the timer list, the
  byte queue of a pipe, the page allocator, the heap of blocks, private address spaces.

  \<^bold>\<open>Not modelled.\<close> Swapping to devices and mappings of files; device drivers, interrupt and boot code; the buffer cache,
  name lookup and the on-disk file systems; networking; the FPU emulator. They are assembly or depend on hardware
  structures, or need a model of storage of their own. Of the modelled files these parts are left out: the context switch,
  bottom halves and \<^verbatim>\<open>show_task\<close> in \<^verbatim>\<open>kernel/sched.c\<close>, \<^verbatim>\<open>vm86\<close>, \<^verbatim>\<open>brk\<close> and the \<^verbatim>\<open>uname\<close> copies in \<^verbatim>\<open>kernel/sys.c\<close>, opening files by
  name in \<^verbatim>\<open>fs/open.c\<close>. Shared memory (\<^verbatim>\<open>ipc/shm.c\<close>) belongs to paging.
\<close>

end
